(* ===== verification/Sync_Prelude.thy ===== *)
theory Sync_Prelude
  imports Main
begin

text \<open>
  What the component theories share.

  \<^item> Labelled machines: a component with threads is a function \<open>step l s\<close> that gives the state
    after the atomic action \<open>l\<close>, or \<open>None\<close> when \<open>l\<close> is not enabled in \<open>s\<close> (the thread is
    blocked, asleep or finished). \<open>reach\<close> is the set of states some interleaving leads to,
    \<open>exec\<close> runs one given interleaving.
  \<^item> The locales \<open>safe_machine\<close>, \<open>live_machine\<close> and \<open>finite_machine\<close>: what an inductive
    invariant, a progress argument and a decreasing measure give.
  \<^item> \<open>cnt\<close>: the number of threads below \<open>n\<close> whose position satisfies a predicate, as an integer,
    with the update rule that turns an invariant over positions into linear arithmetic.
\<close>

named_theorems cnt_simps "evaluation of thread counts after one thread moves"

type_synonym tid = nat

section \<open>Machines\<close>

inductive reach :: "('l \<Rightarrow> 's \<Rightarrow> 's option) \<Rightarrow> 's \<Rightarrow> 's \<Rightarrow> bool"
  for step :: "'l \<Rightarrow> 's \<Rightarrow> 's option" and s0 :: 's where
  reach_init: "reach step s0 s0"
| reach_step: "reach step s0 s \<Longrightarrow> step l s = Some t \<Longrightarrow> reach step s0 t"

fun exec :: "('l \<Rightarrow> 's \<Rightarrow> 's option) \<Rightarrow> 'l list \<Rightarrow> 's \<Rightarrow> 's option" where
  "exec step [] s = Some s"
| "exec step (l # ls) s = (case step l s of None \<Rightarrow> None | Some t \<Rightarrow> exec step ls t)"

lemma exec_append:
  "exec step (ls @ ms) s = (case exec step ls s of None \<Rightarrow> None | Some t \<Rightarrow> exec step ms t)"
  by (induction ls arbitrary: s) (auto split: option.splits)

lemma reach_exec: "reach step s0 s \<Longrightarrow> exec step ls s = Some t \<Longrightarrow> reach step s0 t"
proof (induction ls arbitrary: s)
  case Nil
  then show ?case by simp
next
  case (Cons l ls)
  then show ?case by (auto split: option.splits intro: reach_step)
qed

lemma reachI: "exec step ls s0 = Some t \<Longrightarrow> reach step s0 t"
  using reach_exec reach_init by metis

lemma reach_exI: "\<exists>t. exec step ls s0 = Some t \<and> P t \<Longrightarrow> \<exists>t. reach step s0 t \<and> P t"
  using reachI by metis

lemma reach_iff_exec: "reach step s0 t \<longleftrightarrow> (\<exists>ls. exec step ls s0 = Some t)"
proof
  assume "reach step s0 t"
  then show "\<exists>ls. exec step ls s0 = Some t"
  proof induction
    case reach_init
    show ?case by (rule exI [of _ "[]"]) simp
  next
    case (reach_step s l t)
    then obtain ls where "exec step ls s0 = Some s" by blast
    with reach_step(2) have "exec step (ls @ [l]) s0 = Some t"
      by (simp add: exec_append)
    then show ?case ..
  qed
qed (blast intro: reachI)

text \<open>A run all of whose states, the last included, satisfy \<open>P\<close>.\<close>

fun exec_while :: "('s \<Rightarrow> bool) \<Rightarrow> ('l \<Rightarrow> 's \<Rightarrow> 's option) \<Rightarrow> 'l list \<Rightarrow> 's \<Rightarrow> 's option" where
  "exec_while P step [] s = (if P s then Some s else None)"
| "exec_while P step (l # ls) s =
     (if P s then (case step l s of None \<Rightarrow> None | Some t \<Rightarrow> exec_while P step ls t) else None)"

lemma exec_while_append:
  "exec_while P step ls s = Some t \<Longrightarrow> exec_while P step ms t = Some u
    \<Longrightarrow> exec_while P step (ls @ ms) s = Some u"
  by (induction ls arbitrary: s) (auto split: option.splits if_splits)

lemma exec_while_exec: "exec_while P step ls s = Some t \<Longrightarrow> exec step ls s = Some t"
  by (induction ls arbitrary: s) (auto split: option.splits if_splits)

lemma exec_while_rel:
  assumes step: "\<And>l s t. J s \<Longrightarrow> P s \<Longrightarrow> step l s = Some t \<Longrightarrow> J t \<and> R s t"
    and refl: "\<And>s. R s s" and trans: "\<And>a b c. R a b \<Longrightarrow> R b c \<Longrightarrow> R a c"
  shows "J s \<Longrightarrow> exec_while P step ls s = Some t \<Longrightarrow> R s t"
proof (induction ls arbitrary: s)
  case Nil
  then show ?case by (simp add: refl split: if_splits)
next
  case (Cons l ls)
  then obtain u where "P s" "step l s = Some u" "exec_while P step ls u = Some t"
    by (auto split: option.splits if_splits)
  with step [OF Cons.prems(1)] Cons.IH [of u] trans show ?case by blast
qed

text \<open>An inductive invariant holds in every reachable state.\<close>

locale safe_machine =
  fixes step :: "'l \<Rightarrow> 's \<Rightarrow> 's option"
    and init :: 's
    and inv :: "'s \<Rightarrow> bool"
  assumes inv_init: "inv init"
    and inv_step: "inv s \<Longrightarrow> step l s = Some t \<Longrightarrow> inv t"
begin

lemma reach_inv: "reach step init s \<Longrightarrow> inv s"
  by (induction rule: reach.induct) (auto intro: inv_init inv_step)

lemma exec_inv: "inv s \<Longrightarrow> exec step ls s = Some t \<Longrightarrow> inv t"
  by (induction ls arbitrary: s) (auto split: option.splits intro: inv_step)

end

text \<open>A machine that is never stuck before it is final has no deadlock.\<close>

locale live_machine = safe_machine step init inv
  for step :: "'l \<Rightarrow> 's \<Rightarrow> 's option" and init :: 's and inv :: "'s \<Rightarrow> bool" +
  fixes final :: "'s \<Rightarrow> bool"
  assumes progress: "inv s \<Longrightarrow> \<not> final s \<Longrightarrow> \<exists>l t. step l s = Some t"
begin

lemma stuck_final: "reach step init s \<Longrightarrow> \<forall>l. step l s = None \<Longrightarrow> final s"
  using progress reach_inv by fastforce

end

text \<open>With a measure every step decreases, every interleaving ends, and ends in a final state.\<close>

locale finite_machine = live_machine step init inv final
  for step :: "'l \<Rightarrow> 's \<Rightarrow> 's option" and init :: 's and inv :: "'s \<Rightarrow> bool"
    and final :: "'s \<Rightarrow> bool" +
  fixes mu :: "'s \<Rightarrow> nat"
  assumes mu_step: "inv s \<Longrightarrow> step l s = Some t \<Longrightarrow> mu t < mu s"
begin

lemma exec_bound: "inv s \<Longrightarrow> exec step ls s = Some t \<Longrightarrow> length ls + mu t \<le> mu s"
proof (induction ls arbitrary: s)
  case Nil
  then show ?case by simp
next
  case (Cons l ls)
  from Cons.prems(2) obtain u where u: "step l s = Some u" "exec step ls u = Some t"
    by (auto split: option.splits)
  have "length ls + mu t \<le> mu u"
    using Cons.IH [OF inv_step [OF Cons.prems(1) u(1)] u(2)] .
  with mu_step [OF Cons.prems(1) u(1)] show ?case by simp
qed

lemma run_bound: "exec step ls init = Some t \<Longrightarrow> length ls \<le> mu init"
  using exec_bound [OF inv_init] by fastforce

lemma completes: "inv s \<Longrightarrow> \<exists>ls t. exec step ls s = Some t \<and> final t"
proof (induction "mu s" arbitrary: s rule: less_induct)
  case less
  show ?case
  proof (cases "final s")
    case True
    then have "exec step [] s = Some s \<and> final s" by simp
    then show ?thesis by blast
  next
    case False
    then obtain l u where u: "step l s = Some u" using progress less.prems by blast
    then obtain ls t where "exec step ls u = Some t" "final t"
      using less.hyps [OF mu_step [OF less.prems u]] inv_step [OF less.prems u] by blast
    with u have "exec step (l # ls) s = Some t \<and> final t" by simp
    then show ?thesis by blast
  qed
qed

end

section \<open>Counting threads\<close>

definition cnt :: "nat \<Rightarrow> ('a \<Rightarrow> bool) \<Rightarrow> (tid \<Rightarrow> 'a) \<Rightarrow> int" where
  "cnt n P f = int (length (filter (\<lambda>i. P (f i)) [0..<n]))"

abbreviation num_at :: "nat \<Rightarrow> 'a \<Rightarrow> (tid \<Rightarrow> 'a) \<Rightarrow> int" where
  "num_at n x f \<equiv> cnt n (\<lambda>y. y = x) f"

lemma cnt_0 [simp]: "cnt 0 P f = 0"
  by (simp add: cnt_def)

lemma cnt_Suc: "cnt (Suc n) P f = cnt n P f + of_bool (P (f n))"
  by (simp add: cnt_def)

lemma cnt_nonneg [simp]: "0 \<le> cnt n P f"
  by (simp add: cnt_def)

lemma cnt_upd_out: "n \<le> k \<Longrightarrow> cnt n P (f(k := x)) = cnt n P f"
proof (induction n)
  case 0
  then show ?case by simp
next
  case (Suc n)
  then show ?case by (simp add: cnt_Suc)
qed

lemma cnt_upd [cnt_simps]:
  "k < n \<Longrightarrow> cnt n P (f(k := x)) = cnt n P f - of_bool (P (f k)) + of_bool (P x)"
proof (induction n)
  case 0
  then show ?case by simp
next
  case (Suc n)
  show ?case
  proof (cases "k = n")
    case True
    have "cnt n P (f(n := x)) = cnt n P f" by (rule cnt_upd_out) simp
    with True show ?thesis unfolding cnt_Suc by simp
  next
    case False
    then have "cnt n P (f(k := x)) = cnt n P f - of_bool (P (f k)) + of_bool (P x)"
      using Suc.prems by (intro Suc.IH) linarith
    moreover have "(f(k := x)) n = f n" using False by simp
    ultimately show ?thesis unfolding cnt_Suc by presburger
  qed
qed

lemma cnt_eq_0: "cnt n P f = 0 \<longleftrightarrow> (\<forall>i<n. \<not> P (f i))"
  by (auto simp: cnt_def filter_empty_conv)

lemma cnt_const: "cnt n P (\<lambda>_. x) = (if P x then int n else 0)"
  by (induction n) (auto simp: cnt_Suc)

lemma cnt_le: "cnt m P f \<le> int m"
  by (induction m) (auto simp: cnt_Suc)

lemma cnt_compl: "cnt m P f + cnt m (\<lambda>x. \<not> P x) f = int m"
  by (induction m) (auto simp: cnt_Suc)

lemma cnt_ex: "0 < cnt n P f \<Longrightarrow> \<exists>i<n. P (f i)"
  using cnt_eq_0 [of n P f] by auto

lemma cnt_pos: "k < n \<Longrightarrow> P (f k) \<Longrightarrow> 1 \<le> cnt n P f"
  using cnt_eq_0 [of n P f] cnt_nonneg [of n P f] by (auto simp del: cnt_nonneg)

lemma cnt_not_pos: "\<not> 1 \<le> cnt n P f \<Longrightarrow> cnt n P f = 0"
  using cnt_nonneg [of n P f] by linarith

lemma cnt_two:
  assumes "i < n" "j < n" "i \<noteq> j" "P (f i)" "P (f j)"
  shows "2 \<le> cnt n P f"
  using assms
proof (induction n)
  case 0
  then show ?case by simp
next
  case (Suc n)
  consider "i = n" | "j = n" | "i < n" "j < n" using Suc.prems by linarith
  then show ?case
  proof cases
    case 1
    with Suc.prems cnt_pos [of j n P f] show ?thesis by (auto simp: cnt_Suc)
  next
    case 2
    with Suc.prems cnt_pos [of i n P f] show ?thesis by (auto simp: cnt_Suc)
  next
    case 3
    with Suc have "2 \<le> cnt n P f" by blast
    then show ?thesis by (simp add: cnt_Suc)
  qed
qed

lemma cnt_le_1_unique:
  "cnt n P f \<le> 1 \<Longrightarrow> i < n \<Longrightarrow> j < n \<Longrightarrow> P (f i) \<Longrightarrow> P (f j) \<Longrightarrow> i = j"
  using cnt_two [of i n j P f] by fastforce

text \<open>Sums over threads, for measures.\<close>

lemma sum_change:
  fixes h :: "tid \<Rightarrow> 'b::comm_monoid_add"
  assumes "k < n" "\<And>i. i < n \<Longrightarrow> i \<noteq> k \<Longrightarrow> h' i = h i"
  shows "(\<Sum>i<n. h' i) + h k = (\<Sum>i<n. h i) + h' k"
proof -
  have fin: "finite {..<n}" "k \<in> {..<n}" using assms(1) by auto
  have "sum h' ({..<n} - {k}) = sum h ({..<n} - {k})"
    using assms(2) by (intro sum.cong) auto
  then show ?thesis
    using sum.remove [OF fin, of h] sum.remove [OF fin, of h'] by (simp add: ac_simps)
qed

lemma sum_decreases:
  fixes h :: "tid \<Rightarrow> nat"
  assumes "k < n" "h' k < h k" "\<And>i. i < n \<Longrightarrow> i \<noteq> k \<Longrightarrow> h' i = h i"
  shows "(\<Sum>i<n. h' i) < (\<Sum>i<n. h i)"
  using sum_change [of k n h' h] assms by fastforce

end
