(* ===== verification/Semaphores.thy ===== *)
theory Semaphores
  imports Sync_Prelude
begin

text \<open>
  POSIX semaphores as the sources use them (\<open>sem_init\<close>, \<open>sem_wait\<close>, \<open>sem_post\<close>): a natural number;
  \<open>sem_wait\<close> is enabled only when it is positive, and is then one atomic decrement.

  The \<open>LightSwitch\<close> of the three \<open>threads-sema/rwlock*.cpp\<close> files: a counter under a mutex
  semaphore, whose first entrant takes and whose last leaver returns a second semaphore that the
  caller passes. \<open>ls_lock\<close> and \<open>ls_unlock\<close> give one atomic step of a call: from the position in
  the body to the next position, or to \<open>None\<close> when the call returns.
\<close>

type_synonym sem = nat

definition sem_init :: "nat \<Rightarrow> sem" where
  "sem_init v = v"

definition sem_wait :: "sem \<Rightarrow> sem option" where
  "sem_wait s = (if s = 0 then None else Some (s - 1))"

definition sem_post :: "sem \<Rightarrow> sem" where
  "sem_post s = s + 1"

named_theorems sem_defs "unfolding of the semaphore operations"

lemmas [sem_defs] = sem_init_def sem_wait_def sem_post_def

section \<open>LightSwitch\<close>

record light_switch =
  ls_counter :: int
  ls_mutex :: sem

definition LightSwitch :: light_switch where
  "LightSwitch = \<lparr>ls_counter = 0, ls_mutex = sem_init 1\<rparr>"

datatype lock_pc = LkMutex | LkCount | LkTest | LkSem | LkPost

fun ls_lock :: "lock_pc \<Rightarrow> light_switch \<Rightarrow> sem \<Rightarrow> (lock_pc option \<times> light_switch \<times> sem) option" where
  "ls_lock LkMutex w sm =
     (case sem_wait (ls_mutex w) of None \<Rightarrow> None
      | Some m \<Rightarrow> Some (Some LkCount, w\<lparr>ls_mutex := m\<rparr>, sm))"
| "ls_lock LkCount w sm = Some (Some LkTest, w\<lparr>ls_counter := ls_counter w + 1\<rparr>, sm)"
| "ls_lock LkTest w sm = Some (Some (if ls_counter w = 1 then LkSem else LkPost), w, sm)"
| "ls_lock LkSem w sm =
     (case sem_wait sm of None \<Rightarrow> None | Some sm' \<Rightarrow> Some (Some LkPost, w, sm'))"
| "ls_lock LkPost w sm = Some (None, w\<lparr>ls_mutex := sem_post (ls_mutex w)\<rparr>, sm)"

datatype unlock_pc = UkMutex | UkCount | UkTest | UkSem | UkPost

fun ls_unlock ::
  "unlock_pc \<Rightarrow> light_switch \<Rightarrow> sem \<Rightarrow> (unlock_pc option \<times> light_switch \<times> sem) option" where
  "ls_unlock UkMutex w sm =
     (case sem_wait (ls_mutex w) of None \<Rightarrow> None
      | Some m \<Rightarrow> Some (Some UkCount, w\<lparr>ls_mutex := m\<rparr>, sm))"
| "ls_unlock UkCount w sm = Some (Some UkTest, w\<lparr>ls_counter := ls_counter w - 1\<rparr>, sm)"
| "ls_unlock UkTest w sm = Some (Some (if ls_counter w = 0 then UkSem else UkPost), w, sm)"
| "ls_unlock UkSem w sm = Some (Some UkPost, w, sem_post sm)"
| "ls_unlock UkPost w sm = Some (None, w\<lparr>ls_mutex := sem_post (ls_mutex w)\<rparr>, sm)"

text \<open>Neither body has a loop: a call takes at most five steps once it is not blocked.\<close>

fun lock_rank :: "lock_pc \<Rightarrow> nat" where
  "lock_rank LkMutex = 4"
| "lock_rank LkCount = 3"
| "lock_rank LkTest = 2"
| "lock_rank LkSem = 1"
| "lock_rank LkPost = 0"

fun unlock_rank :: "unlock_pc \<Rightarrow> nat" where
  "unlock_rank UkMutex = 4"
| "unlock_rank UkCount = 3"
| "unlock_rank UkTest = 2"
| "unlock_rank UkSem = 1"
| "unlock_rank UkPost = 0"

lemma ls_lock_rank: "ls_lock p w sm = Some (Some q, w', sm') \<Longrightarrow> lock_rank q < lock_rank p"
  by (cases p) (auto split: option.splits if_splits)

lemma ls_unlock_rank: "ls_unlock p w sm = Some (Some q, w', sm') \<Longrightarrow> unlock_rank q < unlock_rank p"
  by (cases p) (auto split: option.splits if_splits)

text \<open>A call is blocked only at the mutex, or as first entrant at the semaphore.\<close>

lemma ls_lock_blocked:
  "ls_lock p w sm = None \<longleftrightarrow> (p = LkMutex \<and> ls_mutex w = 0) \<or> (p = LkSem \<and> sm = 0)"
  by (cases p) (auto simp: sem_defs)

lemma ls_unlock_blocked: "ls_unlock p w sm = None \<longleftrightarrow> p = UkMutex \<and> ls_mutex w = 0"
  by (cases p) (auto simp: sem_defs)

section \<open>The contract of a LightSwitch\<close>

text \<open>
  \<open>a p\<close> and \<open>b p\<close> are the numbers of threads at position \<open>p\<close> of \<open>lock\<close> and \<open>unlock\<close>, \<open>h\<close> the
  number of threads that are through \<open>lock\<close> and have not called \<open>unlock\<close>. The switch is lit while
  some thread past the semaphore has not given it back: then the group holds the semaphore. The
  contract is that the value of the semaphore plus the light is not changed by any step of the
  switch (\<open>ls_room\<close>).
\<close>

definition ls_inv :: "light_switch \<Rightarrow> (lock_pc \<Rightarrow> int) \<Rightarrow> (unlock_pc \<Rightarrow> int) \<Rightarrow> int \<Rightarrow> bool" where
  "ls_inv w a b h \<longleftrightarrow>
     int (ls_mutex w) + a LkCount + a LkTest + a LkSem + a LkPost
       + b UkCount + b UkTest + b UkSem + b UkPost = 1 \<and>
     ls_counter w = a LkTest + a LkSem + a LkPost + h + b UkMutex + b UkCount \<and>
     (0 < a LkSem \<longrightarrow> ls_counter w = 1) \<and>
     (0 < b UkSem \<longrightarrow> ls_counter w = 0)"

definition ls_lit :: "(lock_pc \<Rightarrow> int) \<Rightarrow> (unlock_pc \<Rightarrow> int) \<Rightarrow> int \<Rightarrow> bool" where
  "ls_lit a b h \<longleftrightarrow> 0 < a LkPost + h + b UkMutex + b UkCount + b UkTest + b UkSem"

definition ls_room :: "sem \<Rightarrow> (lock_pc \<Rightarrow> int) \<Rightarrow> (unlock_pc \<Rightarrow> int) \<Rightarrow> int \<Rightarrow> int" where
  "ls_room sm a b h = int sm + of_bool (ls_lit a b h)"

definition ls_nonneg :: "(lock_pc \<Rightarrow> int) \<Rightarrow> (unlock_pc \<Rightarrow> int) \<Rightarrow> int \<Rightarrow> bool" where
  "ls_nonneg a b h \<longleftrightarrow> (\<forall>p. 0 \<le> a p) \<and> (\<forall>p. 0 \<le> b p) \<and> 0 \<le> h"

lemma ls_nonnegD:
  "ls_nonneg a b h \<Longrightarrow> 0 \<le> a LkMutex \<and> 0 \<le> a LkCount \<and> 0 \<le> a LkTest \<and> 0 \<le> a LkSem \<and> 0 \<le> a LkPost \<and>
     0 \<le> b UkMutex \<and> 0 \<le> b UkCount \<and> 0 \<le> b UkTest \<and> 0 \<le> b UkSem \<and> 0 \<le> b UkPost \<and> 0 \<le> h"
  by (simp add: ls_nonneg_def)

lemma ls_inv_init: "ls_inv LightSwitch (\<lambda>_. 0) (\<lambda>_. 0) 0"
  by (simp add: ls_inv_def LightSwitch_def sem_defs)

lemma ls_room_init: "ls_room sm (\<lambda>_. 0) (\<lambda>_. 0) 0 = int sm"
  by (simp add: ls_room_def ls_lit_def)

text \<open>The semaphore used directly, by the other side of the lock.\<close>

lemma ls_room_wait: "0 < sm \<Longrightarrow> ls_room (sm - Suc 0) a b h = ls_room sm a b h - 1"
  by (simp add: ls_room_def)

lemma ls_room_post: "ls_room (Suc sm) a b h = ls_room sm a b h + 1"
  by (simp add: ls_room_def)

lemma ls_room_nonneg: "0 \<le> ls_room sm a b h"
  by (simp add: ls_room_def)

text \<open>Entering a call: the thread joins the queue at the mutex, or gives up its hold.\<close>

lemma ls_inv_enter_lock:
  "ls_inv w (\<lambda>x. a x + of_bool (LkMutex = x)) b h = ls_inv w a b h"
  "ls_room sm (\<lambda>x. a x + of_bool (LkMutex = x)) b h = ls_room sm a b h"
  by (simp_all add: ls_inv_def ls_room_def ls_lit_def)

lemma ls_inv_enter_unlock:
  "ls_inv w a (\<lambda>x. b x + of_bool (UkMutex = x)) (h - 1) = ls_inv w a b h"
  "ls_room sm a (\<lambda>x. b x + of_bool (UkMutex = x)) (h - 1) = ls_room sm a b h"
  by (simp_all add: ls_inv_def ls_room_def ls_lit_def algebra_simps)

lemma ls_lock_step:
  assumes "ls_inv w a b h" "ls_nonneg a b h" "1 \<le> a p" "ls_lock p w sm = Some (Some q, w', sm')"
  shows "ls_inv w' (\<lambda>x. a x - of_bool (p = x) + of_bool (q = x)) b h"
    and "ls_room sm' (\<lambda>x. a x - of_bool (p = x) + of_bool (q = x)) b h = ls_room sm a b h"
  using assms(1,3,4) ls_nonnegD [OF assms(2)]
  by (cases p; auto simp: ls_inv_def ls_room_def ls_lit_def sem_defs split: if_splits)+

lemma ls_lock_return:
  assumes "ls_inv w a b h" "ls_nonneg a b h" "1 \<le> a p" "ls_lock p w sm = Some (None, w', sm')"
  shows "ls_inv w' (\<lambda>x. a x - of_bool (p = x)) b (h + 1)"
    and "ls_room sm' (\<lambda>x. a x - of_bool (p = x)) b (h + 1) = ls_room sm a b h"
  using assms(1,3,4) ls_nonnegD [OF assms(2)]
  by (cases p; auto simp: ls_inv_def ls_room_def ls_lit_def sem_defs split: option.splits if_splits)+

lemma ls_unlock_step:
  assumes "ls_inv w a b h" "ls_nonneg a b h" "1 \<le> b p" "ls_unlock p w sm = Some (Some q, w', sm')"
  shows "ls_inv w' a (\<lambda>x. b x - of_bool (p = x) + of_bool (q = x)) h"
    and "ls_room sm' a (\<lambda>x. b x - of_bool (p = x) + of_bool (q = x)) h = ls_room sm a b h"
  using assms(1,3,4) ls_nonnegD [OF assms(2)]
  by (cases p; auto simp: ls_inv_def ls_room_def ls_lit_def sem_defs split: if_splits)+

lemma ls_unlock_return:
  assumes "ls_inv w a b h" "ls_nonneg a b h" "1 \<le> b p" "ls_unlock p w sm = Some (None, w', sm')"
  shows "ls_inv w' a (\<lambda>x. b x - of_bool (p = x)) h"
    and "ls_room sm' a (\<lambda>x. b x - of_bool (p = x)) h = ls_room sm a b h"
  using assms(1,3,4) ls_nonnegD [OF assms(2)]
  by (cases p; auto simp: ls_inv_def ls_room_def ls_lit_def sem_defs split: option.splits if_splits)+

text \<open>If threads are inside calls, one of them can move, or the first entrant waits for the
  semaphore.\<close>

lemma ls_moves:
  assumes "ls_inv w a b h" "ls_nonneg a b h" "1 \<le> a p \<or> 1 \<le> b q"
  shows "(\<exists>p. 1 \<le> a p \<and> ls_lock p w sm \<noteq> None) \<or> (\<exists>q. 1 \<le> b q \<and> ls_unlock q w sm \<noteq> None)
    \<or> (1 \<le> a LkSem \<and> sm = 0)"
proof (rule ccontr)
  assume no: "\<not> ?thesis"
  have a: "\<not> 1 \<le> a p" if "p \<noteq> LkMutex \<or> ls_mutex w \<noteq> 0" for p
    using no that ls_lock_blocked [of p w sm] by metis
  have b: "\<not> 1 \<le> b q" if "q \<noteq> UkMutex \<or> ls_mutex w \<noteq> 0" for q
    using no that ls_unlock_blocked [of q w sm] by metis
  have "ls_mutex w \<noteq> 0"
    using assms(1) a [of LkCount] a [of LkTest] a [of LkSem] a [of LkPost]
      b [of UkCount] b [of UkTest] b [of UkSem] b [of UkPost] by (auto simp: ls_inv_def)
  then show False using assms(3) a [of p] b [of q] by blast
qed

text \<open>A holder lights the switch; while the first entrant waits for the semaphore it is dark.\<close>

lemma ls_lit_holder: "ls_nonneg a b h \<Longrightarrow> 1 \<le> h \<Longrightarrow> ls_lit a b h"
  by (drule ls_nonnegD) (simp add: ls_lit_def)

lemma ls_first_dark:
  assumes "ls_inv w a b h" "ls_nonneg a b h" "1 \<le> a LkSem"
  shows "\<not> ls_lit a b h"
  using assms(1,3) ls_nonnegD [OF assms(2)] by (auto simp: ls_inv_def ls_lit_def)

lemma ls_idle_dark:
  assumes "\<And>l u. a l = 0 \<and> b u = 0"
  shows "\<not> ls_lit a b 0"
  using assms [of LkPost UkMutex] assms [of LkPost UkCount] assms [of LkPost UkTest]
    assms [of LkPost UkSem] by (simp add: ls_lit_def)

end
