(* ===== verification/RW_Clients.thy ===== *)
theory RW_Clients
  imports Sync_Prelude
begin

text \<open>
  The programs around a readers/writer lock (\<open>reader\<close> and \<open>writer\<close> of the three
  \<open>threads-sema/rwlock*.cpp\<close> files) over any lock, and the interface a lock has to meet.

  A lock is given by its state \<open>'k\<close>, its positions \<open>'p\<close> in the bodies of its four operations, the
  position each body starts at (\<open>start\<close>) and one atomic step of a body (\<open>lstep\<close>). The locale
  \<open>rw_lock\<close> states what the lock promises about the threads, seen as outside, inside an
  operation, or holding the lock; \<open>rw_program\<close> proves the reader/writer program correct from these
  promises alone: mutual exclusion, the exact final counter, no deadlock, and termination.

  The loop bodies touch the shared \<open>counter\<close> in single reads and writes (\<open>counter++\<close> is a read
  and a write), so the count is exact only because the lock excludes.
\<close>

datatype role = Reader | Writer

datatype lock_op = AcqR | RelR | AcqW | RelW

datatype 'p view = Out | In lock_op 'p | HoldR | HoldW

fun returned :: "lock_op \<Rightarrow> 'p view" where
  "returned AcqR = HoldR"
| "returned RelR = Out"
| "returned AcqW = HoldW"
| "returned RelW = Out"

fun after :: "lock_op \<Rightarrow> 'p option \<Rightarrow> 'p view" where
  "after c None = returned c"
| "after c (Some q) = In c q"

fun caller :: "lock_op \<Rightarrow> 'p view" where
  "caller AcqR = Out"
| "caller RelR = HoldR"
| "caller AcqW = Out"
| "caller RelW = HoldW"

section \<open>The programs\<close>

datatype 'p cpc = Top | Acq 'p | Read | Load | Store | Rel 'p | Done

record ('k, 'p) prog =
  lk :: 'k
  shared :: int
  pcs :: "tid \<Rightarrow> 'p cpc"
  left :: "tid \<Rightarrow> nat"
  reg :: "tid \<Rightarrow> int"

type_synonym ('k, 'p) lstep = "lock_op \<Rightarrow> 'p \<Rightarrow> 'k \<Rightarrow> ('p option \<times> 'k) option"

definition goto :: "tid \<Rightarrow> 'p cpc \<Rightarrow> ('k, 'p) prog \<Rightarrow> ('k, 'p) prog" where
  "goto i p s = s\<lparr>pcs := (pcs s)(i := p)\<rparr>"

definition next_loop :: "tid \<Rightarrow> ('k, 'p) prog \<Rightarrow> ('k, 'p) prog" where
  "next_loop i s = s\<lparr>left := (left s)(i := left s i - 1)\<rparr>"

fun reader_step ::
  "(lock_op \<Rightarrow> 'p) \<Rightarrow> ('k, 'p) lstep \<Rightarrow> tid \<Rightarrow> ('k, 'p) prog \<Rightarrow> ('k, 'p) prog option" where
  "reader_step start lstep i s =
     (case pcs s i of
        Top \<Rightarrow> Some (if left s i = 0 then goto i Done s else goto i (Acq (start AcqR)) s)
      | Acq p \<Rightarrow> (case lstep AcqR p (lk s) of None \<Rightarrow> None
          | Some (None, k) \<Rightarrow> Some (goto i Read (s\<lparr>lk := k\<rparr>))
          | Some (Some q, k) \<Rightarrow> Some (goto i (Acq q) (s\<lparr>lk := k\<rparr>)))
      | Read \<Rightarrow> Some (goto i (Rel (start RelR)) (s\<lparr>reg := (reg s)(i := shared s)\<rparr>))
      | Rel p \<Rightarrow> (case lstep RelR p (lk s) of None \<Rightarrow> None
          | Some (None, k) \<Rightarrow> Some (goto i Top (next_loop i (s\<lparr>lk := k\<rparr>)))
          | Some (Some q, k) \<Rightarrow> Some (goto i (Rel q) (s\<lparr>lk := k\<rparr>)))
      | _ \<Rightarrow> None)"

fun writer_step ::
  "(lock_op \<Rightarrow> 'p) \<Rightarrow> ('k, 'p) lstep \<Rightarrow> tid \<Rightarrow> ('k, 'p) prog \<Rightarrow> ('k, 'p) prog option" where
  "writer_step start lstep i s =
     (case pcs s i of
        Top \<Rightarrow> Some (if left s i = 0 then goto i Done s else goto i (Acq (start AcqW)) s)
      | Acq p \<Rightarrow> (case lstep AcqW p (lk s) of None \<Rightarrow> None
          | Some (None, k) \<Rightarrow> Some (goto i Load (s\<lparr>lk := k\<rparr>))
          | Some (Some q, k) \<Rightarrow> Some (goto i (Acq q) (s\<lparr>lk := k\<rparr>)))
      | Load \<Rightarrow> Some (goto i Store (s\<lparr>reg := (reg s)(i := shared s)\<rparr>))
      | Store \<Rightarrow> Some (goto i (Rel (start RelW)) (s\<lparr>shared := reg s i + 1\<rparr>))
      | Rel p \<Rightarrow> (case lstep RelW p (lk s) of None \<Rightarrow> None
          | Some (None, k) \<Rightarrow> Some (goto i Top (next_loop i (s\<lparr>lk := k\<rparr>)))
          | Some (Some q, k) \<Rightarrow> Some (goto i (Rel q) (s\<lparr>lk := k\<rparr>)))
      | _ \<Rightarrow> None)"

definition prog_step ::
  "(lock_op \<Rightarrow> 'p) \<Rightarrow> ('k, 'p) lstep \<Rightarrow> (tid \<Rightarrow> role) \<Rightarrow> nat
     \<Rightarrow> tid \<Rightarrow> ('k, 'p) prog \<Rightarrow> ('k, 'p) prog option" where
  "prog_step start lstep rl n i s =
     (if i < n then (case rl i of Reader \<Rightarrow> reader_step start lstep i s
                                | Writer \<Rightarrow> writer_step start lstep i s)
      else None)"

definition prog_init :: "'k \<Rightarrow> (tid \<Rightarrow> nat) \<Rightarrow> ('k, 'p) prog" where
  "prog_init k loops = \<lparr>lk = k, shared = 0, pcs = (\<lambda>_. Top), left = loops, reg = (\<lambda>_. 0)\<rparr>"

definition all_done :: "nat \<Rightarrow> ('k, 'p) prog \<Rightarrow> bool" where
  "all_done n s \<longleftrightarrow> (\<forall>i<n. pcs s i = Done)"

fun view_of :: "role \<Rightarrow> 'p cpc \<Rightarrow> 'p view" where
  "view_of Reader (Acq p) = In AcqR p"
| "view_of Writer (Acq p) = In AcqW p"
| "view_of Reader (Rel p) = In RelR p"
| "view_of Writer (Rel p) = In RelW p"
| "view_of rl Read = HoldR"
| "view_of rl Load = HoldW"
| "view_of rl Store = HoldW"
| "view_of rl _ = Out"

definition views :: "(tid \<Rightarrow> role) \<Rightarrow> (tid \<Rightarrow> 'p cpc) \<Rightarrow> tid \<Rightarrow> 'p view" where
  "views rl pc = (\<lambda>i. view_of (rl i) (pc i))"

lemma views_upd: "views rl (pc(i := p)) = (views rl pc)(i := view_of (rl i) p)"
  by (auto simp: views_def)

text \<open>The positions a thread of each role can be at, and where an iteration is under way.\<close>

fun pc_ok :: "role \<Rightarrow> nat \<Rightarrow> 'p cpc \<Rightarrow> bool" where
  "pc_ok Reader m Load = False"
| "pc_ok Reader m Store = False"
| "pc_ok Writer m Read = False"
| "pc_ok rl m Top = True"
| "pc_ok rl m Done = (m = 0)"
| "pc_ok rl m _ = (0 < m)"

text \<open>How often thread \<open>i\<close> has stored the counter so far.\<close>

definition writes :: "(tid \<Rightarrow> role) \<Rightarrow> (tid \<Rightarrow> nat) \<Rightarrow> ('k, 'p) prog \<Rightarrow> tid \<Rightarrow> int" where
  "writes rl loops s i =
     (if rl i = Writer
      then int (loops i) - int (left s i) + (case pcs s i of Rel _ \<Rightarrow> 1 | _ \<Rightarrow> 0) else 0)"

definition prog_inv ::
  "(nat \<Rightarrow> 'k \<Rightarrow> (tid \<Rightarrow> 'p view) \<Rightarrow> bool) \<Rightarrow> (tid \<Rightarrow> role) \<Rightarrow> nat \<Rightarrow> (tid \<Rightarrow> nat)
     \<Rightarrow> ('k, 'p) prog \<Rightarrow> bool" where
  "prog_inv linv rl n loops s \<longleftrightarrow>
     linv n (lk s) (views rl (pcs s)) \<and>
     (\<forall>i<n. pc_ok (rl i) (left s i) (pcs s i)) \<and>
     (\<forall>i<n. pcs s i = Store \<longrightarrow> reg s i = shared s) \<and>
     shared s = (\<Sum>i<n. writes rl loops s i)"

text \<open>The measure: per thread, the iterations left times the cost of one, plus the position.\<close>

fun pc_cost :: "nat \<Rightarrow> nat \<Rightarrow> ('p \<Rightarrow> nat) \<Rightarrow> nat \<Rightarrow> 'p cpc \<Rightarrow> nat" where
  "pc_cost a b rank m Top = m * (a + b + 6) + 1"
| "pc_cost a b rank m (Acq p) = (m - 1) * (a + b + 6) + 5 + b + rank p"
| "pc_cost a b rank m Read = (m - 1) * (a + b + 6) + 4 + b"
| "pc_cost a b rank m Load = (m - 1) * (a + b + 6) + 4 + b"
| "pc_cost a b rank m Store = (m - 1) * (a + b + 6) + 3 + b"
| "pc_cost a b rank m (Rel p) = (m - 1) * (a + b + 6) + 2 + rank p"
| "pc_cost a b rank m Done = 0"

definition prog_cost :: "(lock_op \<Rightarrow> 'p) \<Rightarrow> ('p \<Rightarrow> nat) \<Rightarrow> nat \<Rightarrow> ('k, 'p) prog \<Rightarrow> nat" where
  "prog_cost start rank n s =
     (\<Sum>i<n. pc_cost (rank (start AcqR) + rank (start AcqW)) (rank (start RelR) + rank (start RelW))
               rank (left s i) (pcs s i))"

section \<open>What a lock promises\<close>

locale rw_lock =
  fixes start :: "lock_op \<Rightarrow> 'p"
    and lstep :: "lock_op \<Rightarrow> 'p \<Rightarrow> 'k \<Rightarrow> ('p option \<times> 'k) option"
    and k0 :: 'k
    and linv :: "nat \<Rightarrow> 'k \<Rightarrow> (tid \<Rightarrow> 'p view) \<Rightarrow> bool"
    and rank :: "'p \<Rightarrow> nat"
  assumes linv_init: "linv n k0 (\<lambda>_. Out)"
    and linv_call: "linv n k v \<Longrightarrow> i < n \<Longrightarrow> v i = caller c \<Longrightarrow> linv n k (v(i := In c (start c)))"
    and linv_step: "linv n k v \<Longrightarrow> i < n \<Longrightarrow> v i = In c p \<Longrightarrow> lstep c p k = Some (q, k')
          \<Longrightarrow> linv n k' (v(i := after c q))"
    and excl: "linv n k v \<Longrightarrow> i < n \<Longrightarrow> j < n \<Longrightarrow> i \<noteq> j \<Longrightarrow> v i = HoldW
          \<Longrightarrow> v j \<noteq> HoldR \<and> v j \<noteq> HoldW"
    and moves: "linv n k v \<Longrightarrow> i < n \<Longrightarrow> v i = In c p \<Longrightarrow> (\<And>j. j < n \<Longrightarrow> v j \<noteq> HoldR \<and> v j \<noteq> HoldW)
          \<Longrightarrow> \<exists>j<n. \<exists>d p'. v j = In d p' \<and> lstep d p' k \<noteq> None"
    and rank_step: "lstep c p k = Some (Some p', k') \<Longrightarrow> rank p' < rank p"

locale rw_program = rw_lock start lstep k0 linv rank
  for start :: "lock_op \<Rightarrow> 'p"
    and lstep :: "lock_op \<Rightarrow> 'p \<Rightarrow> 'k \<Rightarrow> ('p option \<times> 'k) option"
    and k0 :: 'k
    and linv :: "nat \<Rightarrow> 'k \<Rightarrow> (tid \<Rightarrow> 'p view) \<Rightarrow> bool"
    and rank :: "'p \<Rightarrow> nat" +
  fixes rl :: "tid \<Rightarrow> role" and n :: nat and loops :: "tid \<Rightarrow> nat"

section \<open>One step of the program\<close>

fun acq_op :: "role \<Rightarrow> lock_op" where
  "acq_op Reader = AcqR"
| "acq_op Writer = AcqW"

fun rel_op :: "role \<Rightarrow> lock_op" where
  "rel_op Reader = RelR"
| "rel_op Writer = RelW"

fun body_pc :: "role \<Rightarrow> 'p cpc" where
  "body_pc Reader = Read"
| "body_pc Writer = Load"

lemma prog_step_cases:
  assumes "prog_step start lstep rl n i s = Some t"
  obtains
    (Exit) "i < n" "pcs s i = Top" "left s i = 0" "t = goto i Done s"
  | (Enter) "i < n" "pcs s i = Top" "0 < left s i" "t = goto i (Acq (start (acq_op (rl i)))) s"
  | (Acquire) p q k where "i < n" "pcs s i = Acq p" "lstep (acq_op (rl i)) p (lk s) = Some (q, k)"
      "t = goto i (case q of None \<Rightarrow> body_pc (rl i) | Some q' \<Rightarrow> Acq q') (s\<lparr>lk := k\<rparr>)"
  | (Reads) "i < n" "rl i = Reader" "pcs s i = Read"
      "t = goto i (Rel (start RelR)) (s\<lparr>reg := (reg s)(i := shared s)\<rparr>)"
  | (Loads) "i < n" "rl i = Writer" "pcs s i = Load"
      "t = goto i Store (s\<lparr>reg := (reg s)(i := shared s)\<rparr>)"
  | (Stores) "i < n" "rl i = Writer" "pcs s i = Store"
      "t = goto i (Rel (start RelW)) (s\<lparr>shared := reg s i + 1\<rparr>)"
  | (Release) p q k where "i < n" "pcs s i = Rel p" "lstep (rel_op (rl i)) p (lk s) = Some (Some q, k)"
      "t = goto i (Rel q) (s\<lparr>lk := k\<rparr>)"
  | (Return) p k where "i < n" "pcs s i = Rel p" "lstep (rel_op (rl i)) p (lk s) = Some (None, k)"
      "t = goto i Top (next_loop i (s\<lparr>lk := k\<rparr>))"
proof -
  have "i < n" using assms by (simp add: prog_step_def split: if_splits)
  show thesis
  proof (cases "rl i")
    case Reader
    with assms \<open>i < n\<close> have "reader_step start lstep i s = Some t" by (simp add: prog_step_def)
    with Reader \<open>i < n\<close> show thesis
      by (cases "pcs s i")
        (auto split: if_splits option.splits intro: that(1-6), auto intro: that(7,8))
  next
    case Writer
    with assms \<open>i < n\<close> have "writer_step start lstep i s = Some t" by (simp add: prog_step_def)
    with Writer \<open>i < n\<close> show thesis
      by (cases "pcs s i")
        (auto split: if_splits option.splits intro: that(1-6), auto intro: that(7,8))
  qed
qed

text \<open>A step of one thread keeps the invariant when it does so for that thread's own part.\<close>

lemma prog_inv_move:
  assumes inv: "prog_inv linv rl n loops s" and i: "i < n"
    and pcs: "pcs t = (pcs s)(i := p)"
    and frame: "\<And>j. j \<noteq> i \<Longrightarrow> left t j = left s j \<and> reg t j = reg s j"
    and lock: "linv n (lk t) ((views rl (pcs s))(i := view_of (rl i) p))"
    and ok: "pc_ok (rl i) (left t i) p"
    and own: "p = Store \<Longrightarrow> reg t i = shared t"
    and sh: "shared t - shared s = writes rl loops t i - writes rl loops s i"
    and alone: "shared t \<noteq> shared s \<Longrightarrow> \<forall>j<n. j \<noteq> i \<longrightarrow> pcs s j \<noteq> Store"
  shows "prog_inv linv rl n loops t"
proof -
  have eq: "writes rl loops t j = writes rl loops s j" if "j \<noteq> i" for j
    using that frame [OF that] by (simp add: writes_def pcs)
  have "(\<Sum>j<n. writes rl loops t j) + writes rl loops s i =
      (\<Sum>j<n. writes rl loops s j) + writes rl loops t i"
    by (rule sum_change [OF i]) (simp add: eq)
  with inv sh have "shared t = (\<Sum>j<n. writes rl loops t j)" by (simp add: prog_inv_def)
  moreover have "\<forall>j<n. pc_ok (rl j) (left t j) (pcs t j)"
    using inv ok frame by (auto simp: prog_inv_def pcs)
  moreover have "\<forall>j<n. pcs t j = Store \<longrightarrow> reg t j = shared t"
  proof (intro allI impI)
    fix j assume j: "j < n" "pcs t j = Store"
    show "reg t j = shared t"
    proof (cases "j = i")
      case True
      with j own show ?thesis by (simp add: pcs)
    next
      case False
      with j have "pcs s j = Store" by (simp add: pcs)
      with False j alone have "shared t = shared s" by blast
      with False frame inv j \<open>pcs s j = Store\<close> show ?thesis by (simp add: prog_inv_def)
    qed
  qed
  moreover have "linv n (lk t) (views rl (pcs t))" using lock by (simp add: views_upd pcs)
  ultimately show ?thesis by (simp add: prog_inv_def)
qed

lemma view_acq [simp]: "view_of r (Acq p) = In (acq_op r) p"
  by (cases r) auto

lemma view_rel [simp]: "view_of r (Rel p) = In (rel_op r) p"
  by (cases r) auto

lemma view_body [simp]: "view_of r (body_pc r) = returned (acq_op r)"
  by (cases r) auto

lemma view_out [simp]: "view_of r Top = Out" "view_of r Done = Out"
  by (cases r; simp)+

lemma view_hold [simp]:
  "view_of r Read = HoldR" "view_of r Load = HoldW" "view_of r Store = HoldW"
  by (cases r; simp)+

lemma caller_acq [simp]: "caller (acq_op r) = Out"
  by (cases r) auto

lemma returned_rel [simp]: "returned (rel_op r) = Out"
  by (cases r) auto

lemma view_of_HoldW: "view_of r p = HoldW \<longleftrightarrow> p = Load \<or> p = Store"
  by (cases p; cases r) auto

lemma view_of_HoldR: "view_of r p = HoldR \<longleftrightarrow> p = Read"
  by (cases p; cases r) auto

lemma pc_ok_busy: "pc_ok r m p \<Longrightarrow> p \<noteq> Top \<Longrightarrow> p \<noteq> Done \<Longrightarrow> 0 < m"
  by (cases p; cases r) auto

lemma pc_ok_simps [simp]:
  "pc_ok r m Top" "pc_ok r m (Acq p) = (0 < m)" "pc_ok r m (Rel p) = (0 < m)"
  "pc_ok r m Done = (m = 0)" "pc_ok r m (body_pc r) = (0 < m)"
  by (cases r; simp)+

lemma view_at: "prog_inv linv rl n loops s \<Longrightarrow> i < n \<Longrightarrow> views rl (pcs s) i = view_of (rl i) (pcs s i)"
  by (simp add: views_def)

context rw_program
begin

lemma prog_inv_init: "prog_inv linv rl n loops (prog_init k0 loops)"
proof -
  have "views rl (\<lambda>_. Top) = (\<lambda>_. Out :: 'p view)" by (simp add: views_def)
  moreover have "(\<Sum>i<n. writes rl loops (prog_init k0 loops) i) = 0"
    by (intro sum.neutral) (simp add: writes_def prog_init_def)
  ultimately show ?thesis by (simp add: prog_inv_def) (simp add: prog_init_def linv_init)
qed

lemma writer_alone:
  assumes "prog_inv linv rl n loops s" "i < n" "j < n" "i \<noteq> j" "pcs s i = Load \<or> pcs s i = Store"
  shows "pcs s j \<noteq> Read \<and> pcs s j \<noteq> Load \<and> pcs s j \<noteq> Store"
proof -
  have "linv n (lk s) (views rl (pcs s))" using assms(1) by (simp add: prog_inv_def)
  moreover have "views rl (pcs s) i = HoldW"
    using assms(5) by (auto simp: views_def view_of_HoldW)
  ultimately have "views rl (pcs s) j \<noteq> HoldR \<and> views rl (pcs s) j \<noteq> HoldW"
    using excl assms by blast
  then show ?thesis by (auto simp: views_def view_of_HoldW view_of_HoldR)
qed

lemma prog_inv_step:
  assumes inv: "prog_inv linv rl n loops s" and step: "prog_step start lstep rl n i s = Some t"
  shows "prog_inv linv rl n loops t"
proof -
  let ?v = "views rl (pcs s)"
  have lock: "linv n (lk s) ?v" using inv by (simp add: prog_inv_def)
  have ok: "i < n \<Longrightarrow> pc_ok (rl i) (left s i) (pcs s i)" using inv by (simp add: prog_inv_def)
  have at: "?v i = view_of (rl i) (pcs s i)" by (simp add: views_def)
  from step show ?thesis
  proof (cases rule: prog_step_cases)
    case Exit
    have "?v(i := Out) = ?v" using Exit at by auto
    then show ?thesis using Exit lock
      by (intro prog_inv_move [OF inv, of i t Done]) (auto simp: goto_def writes_def)
  next
    case Enter
    have "linv n (lk s) (?v(i := In (acq_op (rl i)) (start (acq_op (rl i)))))"
      using Enter at by (intro linv_call [OF lock]) auto
    then show ?thesis using Enter
      by (intro prog_inv_move [OF inv, of i t]) (auto simp: goto_def writes_def)
  next
    case (Acquire p q k)
    have "linv n k (?v(i := after (acq_op (rl i)) q))"
      using Acquire at by (intro linv_step [OF lock]) auto
    moreover have "0 < left s i" using ok Acquire pc_ok_busy by fastforce
    ultimately show ?thesis using Acquire
      by (intro prog_inv_move [OF inv, of i t "case q of None \<Rightarrow> body_pc (rl i) | Some q' \<Rightarrow> Acq q'"])
        (cases "rl i"; auto simp: goto_def writes_def split: option.splits)+
  next
    case Reads
    have "linv n (lk s) (?v(i := In RelR (start RelR)))"
      using Reads at by (intro linv_call [OF lock]) auto
    then show ?thesis using Reads ok
      by (intro prog_inv_move [OF inv, of i t]) (auto simp: goto_def writes_def)
  next
    case Loads
    have "?v(i := HoldW) = ?v" using Loads at by auto
    then show ?thesis using Loads ok lock
      by (intro prog_inv_move [OF inv, of i t Store]) (auto simp: goto_def writes_def)
  next
    case Stores
    have "linv n (lk s) (?v(i := In RelW (start RelW)))"
      using Stores at by (intro linv_call [OF lock]) auto
    moreover have "\<forall>j<n. j \<noteq> i \<longrightarrow> pcs s j \<noteq> Store"
      using writer_alone [OF inv] Stores by metis
    moreover have "reg s i = shared s" using inv Stores by (simp add: prog_inv_def)
    ultimately show ?thesis using Stores ok
      by (intro prog_inv_move [OF inv, of i t]) (auto simp: goto_def writes_def)
  next
    case (Release p q k)
    have "linv n k (?v(i := after (rel_op (rl i)) (Some q)))"
      using Release at by (intro linv_step [OF lock]) auto
    then show ?thesis using Release ok
      by (intro prog_inv_move [OF inv, of i t]) (auto simp: goto_def writes_def)
  next
    case (Return p k)
    have "linv n k (?v(i := after (rel_op (rl i)) None))"
      using Return at by (intro linv_step [OF lock]) auto
    then show ?thesis using Return ok
      by (intro prog_inv_move [OF inv, of i t]) (auto simp: goto_def writes_def next_loop_def of_nat_diff)
  qed
qed

lemma prog_progress:
  assumes inv: "prog_inv linv rl n loops s" and "\<not> all_done n s"
  shows "\<exists>i t. prog_step start lstep rl n i s = Some t"
proof (cases "\<exists>i<n. pcs s i = Top \<or> pcs s i = Read \<or> pcs s i = Load \<or> pcs s i = Store")
  case True
  then obtain i where i: "i < n" "pcs s i = Top \<or> pcs s i = Read \<or> pcs s i = Load \<or> pcs s i = Store"
    by blast
  have "pc_ok (rl i) (left s i) (pcs s i)" using inv i by (simp add: prog_inv_def)
  with i have "prog_step start lstep rl n i s \<noteq> None"
    by (cases "rl i") (auto simp: prog_step_def)
  then show ?thesis by blast
next
  case False
  let ?v = "views rl (pcs s)"
  obtain i where i: "i < n" "pcs s i \<noteq> Done" using assms(2) by (auto simp: all_done_def)
  with False obtain c p where at: "?v i = In c p" by (cases "pcs s i") (auto simp: views_def)
  have lock: "linv n (lk s) ?v" using inv by (simp add: prog_inv_def)
  have nobody: "?v j \<noteq> HoldR \<and> ?v j \<noteq> HoldW" if "j < n" for j
    using False that by (auto simp: views_def view_of_HoldW view_of_HoldR)
  obtain j d q where j: "j < n" "?v j = In d q" "lstep d q (lk s) \<noteq> None"
    using moves [OF lock i(1) at nobody] by blast
  then have "prog_step start lstep rl n j s \<noteq> None"
    by (cases "pcs s j"; cases "rl j") (auto simp: views_def prog_step_def split: option.splits)
  then show ?thesis by blast
qed

lemma prog_cost_step:
  assumes inv: "prog_inv linv rl n loops s" and step: "prog_step start lstep rl n i s = Some t"
  shows "prog_cost start rank n t < prog_cost start rank n s"
proof -
  let ?a = "rank (start AcqR) + rank (start AcqW)" and ?b = "rank (start RelR) + rank (start RelW)"
  have i: "i < n" using step by (simp add: prog_step_def split: if_splits)
  have ok: "pc_ok (rl i) (left s i) (pcs s i)" using inv i by (simp add: prog_inv_def)
  have acq: "rank (start (acq_op (rl i))) \<le> ?a" by (cases "rl i") auto
  have *: "(\<forall>j. j \<noteq> i \<longrightarrow> pcs t j = pcs s j \<and> left t j = left s j)
      \<and> pc_cost ?a ?b rank (left t i) (pcs t i) < pc_cost ?a ?b rank (left s i) (pcs s i)"
    using step
  proof (cases rule: prog_step_cases)
    case Enter
    then obtain m where "left s i = Suc m" by (cases "left s i") auto
    with Enter acq show ?thesis by (auto simp: goto_def)
  next
    case (Acquire p q k)
    then show ?thesis using rank_step by (cases "rl i") (auto simp: goto_def split: option.splits)
  next
    case (Release p q k)
    then show ?thesis using rank_step by (auto simp: goto_def)
  next
    case (Return p k)
    with ok obtain m where "left s i = Suc m" by (cases "left s i") auto
    with Return show ?thesis by (auto simp: goto_def next_loop_def)
  qed (auto simp: goto_def)
  then show ?thesis unfolding prog_cost_def by (intro sum_decreases [OF i]) auto
qed

end

sublocale rw_program \<subseteq>
  finite_machine "prog_step start lstep rl n" "prog_init k0 loops" "prog_inv linv rl n loops"
    "all_done n" "prog_cost start rank n"
  by unfold_locales
    (use prog_inv_init prog_inv_step prog_progress prog_cost_step in blast)+

context rw_program
begin

lemma exclusion:
  assumes "reach (prog_step start lstep rl n) (prog_init k0 loops) s" "i < n" "j < n" "i \<noteq> j"
    "pcs s i = Load \<or> pcs s i = Store"
  shows "pcs s j \<noteq> Read \<and> pcs s j \<noteq> Load \<and> pcs s j \<noteq> Store"
  using writer_alone [OF reach_inv [OF assms(1)] assms(2-5)] .

lemma final_counter:
  assumes "prog_inv linv rl n loops s" "all_done n s"
  shows "shared s = (\<Sum>i<n. if rl i = Writer then int (loops i) else 0)"
proof -
  have ok: "pc_ok (rl i) (left s i) (pcs s i)" if "i < n" for i
    using assms(1) that by (simp add: prog_inv_def)
  have "writes rl loops s i = (if rl i = Writer then int (loops i) else 0)" if "i < n" for i
    using ok [OF that] assms(2) that by (simp add: writes_def all_done_def)
  then have "(\<Sum>i<n. writes rl loops s i) = (\<Sum>i<n. if rl i = Writer then int (loops i) else 0)"
    by (intro sum.cong) auto
  then show ?thesis using assms(1) by (simp add: prog_inv_def)
qed

text \<open>No run is longer than the cost of the initial state, and a run that cannot be continued has
  ended every thread and counted every store.\<close>

lemma run_correct:
  assumes "exec (prog_step start lstep rl n) ls (prog_init k0 loops) = Some s"
  shows "length ls \<le> prog_cost start rank n (prog_init k0 loops :: ('k, 'p) prog) \<and>
    ((\<forall>i. prog_step start lstep rl n i s = None) \<longrightarrow>
      all_done n s \<and> shared s = (\<Sum>i<n. if rl i = Writer then int (loops i) else 0))"
  using run_bound [OF assms] stuck_final [OF reachI [OF assms]] final_counter
    exec_inv [OF inv_init assms] by blast

end

end
