(* ===== verification/Rwlock_Starvation.thy ===== *)
theory Rwlock_Starvation
  imports Semaphores RW_Clients
begin

text \<open>
  \<open>threads-sema/rwlock_writer_starvation.cpp\<close>: readers share a LightSwitch over \<open>roomEmpty\<close>,
  a writer holds \<open>roomEmpty\<close> itself.
\<close>

record ws_rwlock =
  ws_readLightSwitch :: light_switch
  ws_roomEmpty :: sem
  ws_readers :: int

definition ws_rwlock_init :: ws_rwlock where
  "ws_rwlock_init =
     \<lparr>ws_readLightSwitch = LightSwitch, ws_roomEmpty = sem_init 1, ws_readers = 0\<rparr>"

datatype ws_pc = WsLock lock_pc | WsUnlock unlock_pc | WsWait | WsPost

type_synonym ws_body = "ws_pc \<Rightarrow> ws_rwlock \<Rightarrow> (ws_pc option \<times> ws_rwlock) option"

fun ws_acquire_readlock :: ws_body where
  "ws_acquire_readlock (WsLock p) k =
     (case ls_lock p (ws_readLightSwitch k) (ws_roomEmpty k) of None \<Rightarrow> None
      | Some (q, w, sm) \<Rightarrow>
          Some (map_option WsLock q, k\<lparr>ws_readLightSwitch := w, ws_roomEmpty := sm\<rparr>))"
| "ws_acquire_readlock _ k = None"

fun ws_release_readlock :: ws_body where
  "ws_release_readlock (WsUnlock p) k =
     (case ls_unlock p (ws_readLightSwitch k) (ws_roomEmpty k) of None \<Rightarrow> None
      | Some (q, w, sm) \<Rightarrow>
          Some (map_option WsUnlock q, k\<lparr>ws_readLightSwitch := w, ws_roomEmpty := sm\<rparr>))"
| "ws_release_readlock _ k = None"

fun ws_acquire_writelock :: ws_body where
  "ws_acquire_writelock WsWait k =
     (case sem_wait (ws_roomEmpty k) of None \<Rightarrow> None
      | Some sm \<Rightarrow> Some (None, k\<lparr>ws_roomEmpty := sm\<rparr>))"
| "ws_acquire_writelock _ k = None"

fun ws_release_writelock :: ws_body where
  "ws_release_writelock WsPost k = Some (None, k\<lparr>ws_roomEmpty := sem_post (ws_roomEmpty k)\<rparr>)"
| "ws_release_writelock _ k = None"

fun ws_start :: "lock_op \<Rightarrow> ws_pc" where
  "ws_start AcqR = WsLock LkMutex"
| "ws_start RelR = WsUnlock UkMutex"
| "ws_start AcqW = WsWait"
| "ws_start RelW = WsPost"

fun ws_step :: "lock_op \<Rightarrow> ws_body" where
  "ws_step AcqR = ws_acquire_readlock"
| "ws_step RelR = ws_release_readlock"
| "ws_step AcqW = ws_acquire_writelock"
| "ws_step RelW = ws_release_writelock"

fun ws_rank :: "ws_pc \<Rightarrow> nat" where
  "ws_rank (WsLock p) = lock_rank p"
| "ws_rank (WsUnlock p) = unlock_rank p"
| "ws_rank WsWait = 0"
| "ws_rank WsPost = 0"

section \<open>Invariant\<close>

abbreviation ws_a :: "nat \<Rightarrow> (tid \<Rightarrow> ws_pc view) \<Rightarrow> lock_pc \<Rightarrow> int" where
  "ws_a n v \<equiv> \<lambda>p. num_at n (In AcqR (WsLock p)) v"

abbreviation ws_b :: "nat \<Rightarrow> (tid \<Rightarrow> ws_pc view) \<Rightarrow> unlock_pc \<Rightarrow> int" where
  "ws_b n v \<equiv> \<lambda>p. num_at n (In RelR (WsUnlock p)) v"

fun ws_shape :: "ws_pc view \<Rightarrow> bool" where
  "ws_shape (In AcqR p) = (\<exists>q. p = WsLock q)"
| "ws_shape (In RelR p) = (\<exists>q. p = WsUnlock q)"
| "ws_shape (In AcqW p) = (p = WsWait)"
| "ws_shape (In RelW p) = (p = WsPost)"
| "ws_shape _ = True"

definition ws_inv :: "nat \<Rightarrow> ws_rwlock \<Rightarrow> (tid \<Rightarrow> ws_pc view) \<Rightarrow> bool" where
  "ws_inv n k v \<longleftrightarrow>
     (\<forall>i<n. ws_shape (v i)) \<and>
     ls_inv (ws_readLightSwitch k) (ws_a n v) (ws_b n v) (num_at n HoldR v) \<and>
     ls_room (ws_roomEmpty k) (ws_a n v) (ws_b n v) (num_at n HoldR v)
       + num_at n HoldW v + num_at n (In RelW WsPost) v = 1"

lemma ws_nonneg: "ls_nonneg (ws_a n v) (ws_b n v) (num_at n HoldR v)"
  by (simp add: ls_nonneg_def)

lemma ws_inv_init: "ws_inv n ws_rwlock_init (\<lambda>_. Out)"
  by (simp add: ws_inv_def ws_rwlock_init_def cnt_const ls_inv_init ls_room_init sem_defs)

lemma ws_inv_call:
  assumes "ws_inv n k v" "i < n" "v i = caller c"
  shows "ws_inv n k (v(i := In c (ws_start c)))"
  using assms
  by (cases c) (auto simp: ws_inv_def cnt_simps ls_inv_enter_lock ls_inv_enter_unlock)

lemma ws_inv_step:
  assumes "ws_inv n k v" "i < n" "v i = In c p" "ws_step c p k = Some (q, k')"
  shows "ws_inv n k' (v(i := after c q))"
proof -
  have sh: "ws_shape (In c p)" using assms(1-3) by (metis ws_inv_def)
  show ?thesis
  proof (cases c)
    case AcqR
    with sh obtain l where p: "p = WsLock l" by auto
    have "1 \<le> ws_a n v l" using assms(2,3) AcqR p by (simp add: cnt_pos)
    then show ?thesis using assms AcqR p ls_lock_step [OF _ ws_nonneg] ls_lock_return [OF _ ws_nonneg]
      by (cases q) (auto simp: ws_inv_def cnt_simps split: option.splits)
  next
    case RelR
    with sh obtain l where p: "p = WsUnlock l" by auto
    have "1 \<le> ws_b n v l" using assms(2,3) RelR p by (simp add: cnt_pos)
    then show ?thesis using assms RelR p ls_unlock_step [OF _ ws_nonneg] ls_unlock_return [OF _ ws_nonneg]
      by (cases q) (auto simp: ws_inv_def cnt_simps split: option.splits)
  next
    case AcqW
    then show ?thesis using assms sh
      by (auto simp: ws_inv_def cnt_simps sem_defs ls_room_wait split: option.splits if_splits)
  next
    case RelW
    then show ?thesis using assms sh
      by (auto simp: ws_inv_def cnt_simps sem_defs ls_room_post)
  qed
qed

text \<open>A reader in the room lights the switch, so the one place in the room is taken.\<close>

lemma ws_excl:
  assumes "ws_inv n k v" "i < n" "j < n" "i \<noteq> j" "v i = HoldW"
  shows "v j \<noteq> HoldR \<and> v j \<noteq> HoldW"
proof (intro conjI notI)
  have room: "ls_room (ws_roomEmpty k) (ws_a n v) (ws_b n v) (num_at n HoldR v) + num_at n HoldW v \<le> 1"
    using assms(1) cnt_nonneg [of n "\<lambda>y. y = In RelW WsPost" v] by (simp add: ws_inv_def del: cnt_nonneg)
  have w: "1 \<le> num_at n HoldW v" using cnt_pos [of i n "\<lambda>y. y = HoldW" v] assms by simp
  { assume "v j = HoldR"
    then have "1 \<le> num_at n HoldR v" using cnt_pos [of j n "\<lambda>y. y = HoldR" v] assms by simp
    then have "ls_lit (ws_a n v) (ws_b n v) (num_at n HoldR v)"
      by (intro ls_lit_holder [OF ws_nonneg])
    with room w show False by (simp add: ls_room_def) }
  { assume "v j = HoldW"
    then have "2 \<le> num_at n HoldW v" using cnt_two [of i n j "\<lambda>y. y = HoldW" v] assms by simp
    with room ls_room_nonneg [of "ws_roomEmpty k" "ws_a n v" "ws_b n v" "num_at n HoldR v"] show False
      by linarith }
qed

lemma ws_moves:
  assumes inv: "ws_inv n k v" and i: "i < n" "v i = In c p"
    and free: "\<And>j. j < n \<Longrightarrow> v j \<noteq> HoldR \<and> v j \<noteq> HoldW"
  shows "\<exists>j<n. \<exists>d q. v j = In d q \<and> ws_step d q k \<noteq> None"
proof (rule ccontr)
  assume no: "\<not> ?thesis"
  have ls: "ls_inv (ws_readLightSwitch k) (ws_a n v) (ws_b n v) (num_at n HoldR v)"
    using inv by (simp add: ws_inv_def)
  have h0: "num_at n HoldR v = 0" "num_at n HoldW v = 0" using free by (simp_all add: cnt_eq_0)
  have stuck: "ws_step d q k = None" if "1 \<le> num_at n (In d q) v" for d q
    using cnt_ex [of n "\<lambda>y. y = In d q" v] that no by fastforce
  have post: "num_at n (In RelW WsPost) v = 0"
    using stuck [of RelW WsPost] by (intro cnt_not_pos) auto
  have room: "ls_room (ws_roomEmpty k) (ws_a n v) (ws_b n v) 0 = 1"
    using inv h0 post by (simp add: ws_inv_def)
  have idle: "ws_a n v l = 0 \<and> ws_b n v u = 0" for l u
  proof (rule ccontr)
    assume "\<not> ?thesis"
    then have "1 \<le> ws_a n v l \<or> 1 \<le> ws_b n v u" using cnt_not_pos by blast
    from ls_moves [OF ls ws_nonneg this, of "ws_roomEmpty k"] show False
    proof (elim disjE exE conjE)
      fix p assume "1 \<le> ws_a n v p" "ls_lock p (ws_readLightSwitch k) (ws_roomEmpty k) \<noteq> None"
      then show False using stuck [of AcqR "WsLock p"] by auto
    next
      fix p assume "1 \<le> ws_b n v p" "ls_unlock p (ws_readLightSwitch k) (ws_roomEmpty k) \<noteq> None"
      then show False using stuck [of RelR "WsUnlock p"] by auto
    next
      assume "1 \<le> ws_a n v LkSem" "ws_roomEmpty k = 0"
      then show False using room h0 ls ls_first_dark [OF ls ws_nonneg] by (simp add: ls_room_def)
    qed
  qed
  have "ws_roomEmpty k = 1"
    using room ls_idle_dark [of "ws_a n v" "ws_b n v", OF idle] by (simp add: ls_room_def)
  moreover have "1 \<le> num_at n (In c p) v" using cnt_pos [of i n "\<lambda>y. y = In c p" v] i by simp
  moreover have "ws_shape (In c p)" using inv i by (metis ws_inv_def)
  ultimately show False using stuck [of c p] idle by (cases c) (auto simp: sem_defs not_le)
qed

section \<open>The lock meets the contract\<close>

lemma ws_rank_step: "ws_step c p k = Some (Some q, k') \<Longrightarrow> ws_rank q < ws_rank p"
  by (cases c; cases p) (auto dest: ls_lock_rank ls_unlock_rank split: option.splits)

interpretation ws: rw_lock ws_start ws_step ws_rwlock_init ws_inv ws_rank
  by (unfold_locales; (rule ws_inv_init | rule ws_inv_call ws_inv_step ws_excl ws_moves ws_rank_step; assumption))

interpretation wsp: rw_program ws_start ws_step ws_rwlock_init ws_inv ws_rank rl n loops
  for rl :: "tid \<Rightarrow> role" and n :: nat and loops :: "tid \<Rightarrow> nat"
  by unfold_locales

definition ws_program :: "(tid \<Rightarrow> role) \<Rightarrow> nat \<Rightarrow> tid
    \<Rightarrow> (ws_rwlock, ws_pc) prog \<Rightarrow> (ws_rwlock, ws_pc) prog option" where
  "ws_program rl n = prog_step ws_start ws_step rl n"

definition ws_main :: "(tid \<Rightarrow> nat) \<Rightarrow> (ws_rwlock, ws_pc) prog" where
  "ws_main loops = prog_init ws_rwlock_init loops"

section \<open>Properties\<close>

text \<open>In \<open>rwlock_writer_starvation.cpp\<close>, with any number of readers and writers, any loop
  counts and any interleaving, a writer that is incrementing the counter is alone: no other thread
  reads the counter or writes it at the same time.\<close>

theorem ws_mutual_exclusion:
  assumes "reach (ws_program rl n) (ws_main loops) s" "i < n" "j < n" "i \<noteq> j"
    and "pcs s i = Load \<or> pcs s i = Store"
  shows "pcs s j \<noteq> Read \<and> pcs s j \<noteq> Load \<and> pcs s j \<noteq> Store"
  using assms unfolding ws_program_def ws_main_def by (rule wsp.exclusion)

theorem ws_mutual_exclusion_witness:
  "\<exists>s. exec (ws_program (\<lambda>i. if i = 0 then Reader else Writer) 2) [1, 1] (ws_main (\<lambda>_. 1)) = Some s \<and>
     pcs s 1 = Load \<and> pcs s 0 \<noteq> Read"
proof -
  let ?rl = "\<lambda>i::tid. if i = 0 then Reader else Writer"
  obtain s where s: "exec (ws_program ?rl 2) [1, 1] (ws_main (\<lambda>_. 1)) = Some s" "pcs s 1 = Load"
    by (simp add: ws_program_def ws_main_def prog_step_def prog_init_def goto_def
        ws_rwlock_init_def sem_defs)
  then show ?thesis using ws_mutual_exclusion [OF reachI [OF s(1)], of 1 0] by auto
qed

text \<open>Every interleaving of the threads of \<open>rwlock_writer_starvation.cpp\<close> ends after a bounded
  number of steps, and one that cannot go on has ended every thread (no deadlock) and has counted
  every iteration of every writer exactly once.\<close>

theorem ws_run_correct:
  assumes "exec (ws_program rl n) ls (ws_main loops) = Some s"
  shows "length ls \<le> prog_cost ws_start ws_rank n (ws_main loops) \<and>
    ((\<forall>i. ws_program rl n i s = None) \<longrightarrow>
      all_done n s \<and> shared s = (\<Sum>i<n. if rl i = Writer then int (loops i) else 0))"
  using assms unfolding ws_program_def ws_main_def by (rule wsp.run_correct)

theorem ws_run_correct_witness:
  "\<exists>s. exec (ws_program (\<lambda>_. Writer) 1) [0, 0, 0, 0, 0, 0] (ws_main (\<lambda>_. 1)) = Some s \<and>
      all_done 1 s \<and> shared s = 1"
proof -
  obtain s where s: "exec (ws_program (\<lambda>_. Writer) 1) [0, 0, 0, 0, 0, 0] (ws_main (\<lambda>_. 1)) = Some s"
      "\<forall>i. ws_program (\<lambda>_. Writer) 1 i s = None"
    by (simp add: ws_program_def ws_main_def prog_step_def prog_init_def goto_def next_loop_def
        ws_rwlock_init_def LightSwitch_def sem_defs)
  then show ?thesis using ws_run_correct [OF s(1)] by auto
qed

section \<open>Writer starvation\<close>

text \<open>
  Two readers and a writer. In \<open>ws_lap a b s\<close> reader 0 is in the room, reader 1 is outside and the
  writer waits; the readers have \<open>a\<close> and \<open>b\<close> iterations left. In one lap reader 1 enters, reader 0
  leaves and comes back, and reader 1 leaves: the room is never empty.
\<close>

definition two_readers :: "tid \<Rightarrow> role" where
  "two_readers i = (if i < 2 then Reader else Writer)"

definition ws_lap :: "nat \<Rightarrow> nat \<Rightarrow> (ws_rwlock, ws_pc) prog \<Rightarrow> bool" where
  "ws_lap a b s \<longleftrightarrow> pcs s 0 = Read \<and> pcs s 1 = Top \<and> pcs s 2 = Acq WsWait \<and>
     left s 0 = a \<and> left s 1 = b \<and>
     ws_readLightSwitch (lk s) = \<lparr>ls_counter = 1, ls_mutex = 1\<rparr> \<and> ws_roomEmpty (lk s) = 0"

definition ws_writer_blocked :: "(ws_rwlock, ws_pc) prog \<Rightarrow> bool" where
  "ws_writer_blocked s \<longleftrightarrow> pcs s 2 = Acq WsWait \<and> ws_program two_readers 3 2 s = None"

lemma ws_writer_blocked_iff:
  "ws_writer_blocked s \<longleftrightarrow> pcs s 2 = Acq WsWait \<and> ws_roomEmpty (lk s) = 0"
  by (auto simp: ws_writer_blocked_def ws_program_def prog_step_def two_readers_def sem_defs
      split: option.splits if_splits)

lemma ws_lap_run:
  assumes "ws_lap (Suc (Suc a)) (Suc b) s"
  shows "\<exists>t. exec_while ws_writer_blocked (ws_program two_readers 3)
      [1, 1, 1, 1, 1, 0, 0, 0, 0, 0, 0, 0, 0, 0, 0, 1, 1, 1, 1, 1] s = Some t \<and> ws_lap (Suc a) b t"
  using assms
  by (simp add: ws_lap_def ws_writer_blocked_iff ws_program_def prog_step_def two_readers_def
      goto_def next_loop_def sem_defs)

lemma ws_laps:
  "ws_lap (Suc m) m s \<Longrightarrow> \<exists>ls t. exec_while ws_writer_blocked (ws_program two_readers 3) ls s = Some t
    \<and> ws_lap 1 0 t"
proof (induction m arbitrary: s)
  case 0
  then have "exec_while ws_writer_blocked (ws_program two_readers 3) [] s = Some s"
    by (simp add: ws_writer_blocked_iff ws_lap_def)
  with 0 show ?case by (metis One_nat_def)
next
  case (Suc m)
  from ws_lap_run [OF Suc.prems] obtain u ms where
    u: "exec_while ws_writer_blocked (ws_program two_readers 3) ms s = Some u" "ws_lap (Suc m) m u"
    by blast
  from Suc.IH [OF u(2)] obtain ls t where
    "exec_while ws_writer_blocked (ws_program two_readers 3) ls u = Some t" "ws_lap 1 0 t"
    by blast
  with exec_while_append [OF u(1)] show ?case by blast
qed

lemma ws_lap_start:
  "\<exists>s. exec (ws_program two_readers 3) [0, 0, 0, 0, 0, 0, 2]
      (ws_main (\<lambda>i. if i = 0 then Suc m else if i = 1 then m else k)) = Some s \<and> ws_lap (Suc m) m s"
  if "0 < k"
  using that
  by (simp add: ws_lap_def ws_program_def ws_main_def prog_step_def prog_init_def two_readers_def
      goto_def ws_rwlock_init_def LightSwitch_def sem_defs)

text \<open>C10: the starvation the source's comment describes: for every \<open>m\<close> there is a run in which a
  writer waits for the room without being able to enter while the two readers go through \<open>m\<close> whole
  laps.\<close>

theorem ws_writer_starvation:
  "\<exists>s t ls. reach (ws_program two_readers 3)
       (ws_main (\<lambda>i. if i = 0 then Suc m else if i = 1 then m else 1)) s \<and>
     exec_while ws_writer_blocked (ws_program two_readers 3) ls s = Some t \<and>
     left s 0 = Suc m \<and> left s 1 = m \<and> left t 0 = 1 \<and> left t 1 = 0"
proof -
  obtain s where s: "exec (ws_program two_readers 3) [0, 0, 0, 0, 0, 0, 2]
      (ws_main (\<lambda>i. if i = 0 then Suc m else if i = 1 then m else 1)) = Some s" "ws_lap (Suc m) m s"
    using ws_lap_start [of 1 m] by auto
  obtain ls t where t: "exec_while ws_writer_blocked (ws_program two_readers 3) ls s = Some t"
    "ws_lap 1 0 t"
    using ws_laps [OF s(2)] by blast
  show ?thesis using reachI [OF s(1)] t s(2) by (intro exI conjI) (auto simp: ws_lap_def)
qed

end
