(* ===== verification/Rwlock_Writer_Progress.thy ===== *)
theory Rwlock_Writer_Progress
  imports Semaphores RW_Clients
begin

text \<open>
  \<open>threads-sema/rwlock-1writerprogress.cpp\<close>: a turnstile in front of the LightSwitch lock. A
  writer keeps the turnstile while it waits for the room, so that readers queue behind it.
\<close>

record wp_rwlock =
  wp_readSwitch :: light_switch
  wp_turnstile :: sem
  wp_roomEmpty :: sem
  wp_readers :: int

definition wp_rwlock_init :: wp_rwlock where
  "wp_rwlock_init =
     \<lparr>wp_readSwitch = LightSwitch, wp_turnstile = sem_init 1, wp_roomEmpty = sem_init 1,
      wp_readers = 0\<rparr>"

datatype wp_pc = WpTurn | WpPass | WpLock lock_pc | WpUnlock unlock_pc
  | WpWTurn | WpWRoom | WpPostTurn | WpPostRoom

type_synonym wp_body = "wp_pc \<Rightarrow> wp_rwlock \<Rightarrow> (wp_pc option \<times> wp_rwlock) option"

fun wp_acquire_readlock :: wp_body where
  "wp_acquire_readlock WpTurn k =
     (case sem_wait (wp_turnstile k) of None \<Rightarrow> None
      | Some sm \<Rightarrow> Some (Some WpPass, k\<lparr>wp_turnstile := sm\<rparr>))"
| "wp_acquire_readlock WpPass k =
     Some (Some (WpLock LkMutex), k\<lparr>wp_turnstile := sem_post (wp_turnstile k)\<rparr>)"
| "wp_acquire_readlock (WpLock p) k =
     (case ls_lock p (wp_readSwitch k) (wp_roomEmpty k) of None \<Rightarrow> None
      | Some (q, w, sm) \<Rightarrow> Some (map_option WpLock q, k\<lparr>wp_readSwitch := w, wp_roomEmpty := sm\<rparr>))"
| "wp_acquire_readlock _ k = None"

fun wp_release_readlock :: wp_body where
  "wp_release_readlock (WpUnlock p) k =
     (case ls_unlock p (wp_readSwitch k) (wp_roomEmpty k) of None \<Rightarrow> None
      | Some (q, w, sm) \<Rightarrow> Some (map_option WpUnlock q, k\<lparr>wp_readSwitch := w, wp_roomEmpty := sm\<rparr>))"
| "wp_release_readlock _ k = None"

fun wp_acquire_writelock :: wp_body where
  "wp_acquire_writelock WpWTurn k =
     (case sem_wait (wp_turnstile k) of None \<Rightarrow> None
      | Some sm \<Rightarrow> Some (Some WpWRoom, k\<lparr>wp_turnstile := sm\<rparr>))"
| "wp_acquire_writelock WpWRoom k =
     (case sem_wait (wp_roomEmpty k) of None \<Rightarrow> None
      | Some sm \<Rightarrow> Some (None, k\<lparr>wp_roomEmpty := sm\<rparr>))"
| "wp_acquire_writelock _ k = None"

fun wp_release_writelock :: wp_body where
  "wp_release_writelock WpPostTurn k =
     Some (Some WpPostRoom, k\<lparr>wp_turnstile := sem_post (wp_turnstile k)\<rparr>)"
| "wp_release_writelock WpPostRoom k = Some (None, k\<lparr>wp_roomEmpty := sem_post (wp_roomEmpty k)\<rparr>)"
| "wp_release_writelock _ k = None"

fun wp_start :: "lock_op \<Rightarrow> wp_pc" where
  "wp_start AcqR = WpTurn"
| "wp_start RelR = WpUnlock UkMutex"
| "wp_start AcqW = WpWTurn"
| "wp_start RelW = WpPostTurn"

fun wp_step :: "lock_op \<Rightarrow> wp_body" where
  "wp_step AcqR = wp_acquire_readlock"
| "wp_step RelR = wp_release_readlock"
| "wp_step AcqW = wp_acquire_writelock"
| "wp_step RelW = wp_release_writelock"

fun wp_rank :: "wp_pc \<Rightarrow> nat" where
  "wp_rank WpTurn = 6"
| "wp_rank WpPass = 5"
| "wp_rank (WpLock p) = lock_rank p"
| "wp_rank (WpUnlock p) = unlock_rank p"
| "wp_rank WpWTurn = 1"
| "wp_rank WpWRoom = 0"
| "wp_rank WpPostTurn = 1"
| "wp_rank WpPostRoom = 0"

section \<open>Invariant\<close>

abbreviation wp_a :: "nat \<Rightarrow> (tid \<Rightarrow> wp_pc view) \<Rightarrow> lock_pc \<Rightarrow> int" where
  "wp_a n v \<equiv> \<lambda>p. num_at n (In AcqR (WpLock p)) v"

abbreviation wp_b :: "nat \<Rightarrow> (tid \<Rightarrow> wp_pc view) \<Rightarrow> unlock_pc \<Rightarrow> int" where
  "wp_b n v \<equiv> \<lambda>p. num_at n (In RelR (WpUnlock p)) v"

fun wp_shape :: "wp_pc view \<Rightarrow> bool" where
  "wp_shape (In AcqR p) = (p = WpTurn \<or> p = WpPass \<or> (\<exists>q. p = WpLock q))"
| "wp_shape (In RelR p) = (\<exists>q. p = WpUnlock q)"
| "wp_shape (In AcqW p) = (p = WpWTurn \<or> p = WpWRoom)"
| "wp_shape (In RelW p) = (p = WpPostTurn \<or> p = WpPostRoom)"
| "wp_shape _ = True"

definition wp_inv :: "nat \<Rightarrow> wp_rwlock \<Rightarrow> (tid \<Rightarrow> wp_pc view) \<Rightarrow> bool" where
  "wp_inv n k v \<longleftrightarrow>
     (\<forall>i<n. wp_shape (v i)) \<and>
     ls_inv (wp_readSwitch k) (wp_a n v) (wp_b n v) (num_at n HoldR v) \<and>
     ls_room (wp_roomEmpty k) (wp_a n v) (wp_b n v) (num_at n HoldR v)
       + num_at n HoldW v + num_at n (In RelW WpPostTurn) v + num_at n (In RelW WpPostRoom) v = 1 \<and>
     int (wp_turnstile k) + num_at n (In AcqR WpPass) v + num_at n (In AcqW WpWRoom) v
       + num_at n HoldW v + num_at n (In RelW WpPostTurn) v = 1"

lemma wp_nonneg: "ls_nonneg (wp_a n v) (wp_b n v) (num_at n HoldR v)"
  by (simp add: ls_nonneg_def)

lemma wp_inv_init: "wp_inv n wp_rwlock_init (\<lambda>_. Out)"
  by (simp add: wp_inv_def wp_rwlock_init_def cnt_const ls_inv_init ls_room_init sem_defs)

lemma wp_inv_call:
  assumes "wp_inv n k v" "i < n" "v i = caller c"
  shows "wp_inv n k (v(i := In c (wp_start c)))"
  using assms
  by (cases c) (auto simp: wp_inv_def cnt_simps ls_inv_enter_lock ls_inv_enter_unlock)

lemma wp_inv_step:
  assumes "wp_inv n k v" "i < n" "v i = In c p" "wp_step c p k = Some (q, k')"
  shows "wp_inv n k' (v(i := after c q))"
proof -
  have sh: "wp_shape (In c p)" using assms(1-3) by (metis wp_inv_def)
  consider (Lock) l where "c = AcqR" "p = WpLock l" | (Unlock) l where "c = RelR" "p = WpUnlock l"
    | (Turn) "c = AcqR" "p = WpTurn" | (Pass) "c = AcqR" "p = WpPass"
    | (WTurn) "c = AcqW" "p = WpWTurn" | (WRoom) "c = AcqW" "p = WpWRoom"
    | (PTurn) "c = RelW" "p = WpPostTurn" | (PRoom) "c = RelW" "p = WpPostRoom"
    using sh by (cases c) auto
  then show ?thesis
  proof cases
    case Lock
    then have "1 \<le> wp_a n v l" using assms(2,3) by (simp add: cnt_pos)
    then show ?thesis using assms Lock ls_lock_step [OF _ wp_nonneg] ls_lock_return [OF _ wp_nonneg]
      by (cases q) (auto simp: wp_inv_def cnt_simps split: option.splits)
  next
    case Unlock
    then have "1 \<le> wp_b n v l" using assms(2,3) by (simp add: cnt_pos)
    then show ?thesis using assms Unlock ls_unlock_step [OF _ wp_nonneg] ls_unlock_return [OF _ wp_nonneg]
      by (cases q) (auto simp: wp_inv_def cnt_simps split: option.splits)
  next
    case Turn
    with assms show ?thesis
      by (auto simp: wp_inv_def cnt_simps sem_defs ls_room_wait ls_room_post ls_inv_enter_lock
          split: option.splits if_splits)
  next
    case Pass
    with assms show ?thesis
      by (auto simp: wp_inv_def cnt_simps sem_defs ls_room_wait ls_room_post ls_inv_enter_lock
          split: option.splits if_splits)
  next
    case WTurn
    with assms show ?thesis
      by (auto simp: wp_inv_def cnt_simps sem_defs ls_room_wait ls_room_post ls_inv_enter_lock
          split: option.splits if_splits)
  next
    case WRoom
    with assms show ?thesis
      by (auto simp: wp_inv_def cnt_simps sem_defs ls_room_wait ls_room_post ls_inv_enter_lock
          split: option.splits if_splits)
  next
    case PTurn
    with assms show ?thesis
      by (auto simp: wp_inv_def cnt_simps sem_defs ls_room_wait ls_room_post ls_inv_enter_lock
          split: option.splits if_splits)
  next
    case PRoom
    with assms show ?thesis
      by (auto simp: wp_inv_def cnt_simps sem_defs ls_room_wait ls_room_post ls_inv_enter_lock
          split: option.splits if_splits)
  qed
qed

lemma wp_excl:
  assumes "wp_inv n k v" "i < n" "j < n" "i \<noteq> j" "v i = HoldW"
  shows "v j \<noteq> HoldR \<and> v j \<noteq> HoldW"
proof (intro conjI notI)
  have room: "ls_room (wp_roomEmpty k) (wp_a n v) (wp_b n v) (num_at n HoldR v) + num_at n HoldW v \<le> 1"
    using assms(1) cnt_nonneg [of n "\<lambda>y. y = In RelW WpPostTurn" v]
      cnt_nonneg [of n "\<lambda>y. y = In RelW WpPostRoom" v]
    unfolding wp_inv_def by linarith
  have w: "1 \<le> num_at n HoldW v" using cnt_pos [of i n "\<lambda>y. y = HoldW" v] assms by simp
  { assume "v j = HoldR"
    then have "1 \<le> num_at n HoldR v" using cnt_pos [of j n "\<lambda>y. y = HoldR" v] assms by simp
    then have "ls_lit (wp_a n v) (wp_b n v) (num_at n HoldR v)"
      by (intro ls_lit_holder [OF wp_nonneg])
    with room w show False by (simp add: ls_room_def) }
  { assume "v j = HoldW"
    then have "2 \<le> num_at n HoldW v" using cnt_two [of i n j "\<lambda>y. y = HoldW" v] assms by simp
    with room ls_room_nonneg [of "wp_roomEmpty k" "wp_a n v" "wp_b n v" "num_at n HoldR v"] show False
      by linarith }
qed

lemma wp_moves:
  assumes inv: "wp_inv n k v" and i: "i < n" "v i = In c p"
    and free: "\<And>j. j < n \<Longrightarrow> v j \<noteq> HoldR \<and> v j \<noteq> HoldW"
  shows "\<exists>j<n. \<exists>d q. v j = In d q \<and> wp_step d q k \<noteq> None"
proof (rule ccontr)
  assume no: "\<not> ?thesis"
  have ls: "ls_inv (wp_readSwitch k) (wp_a n v) (wp_b n v) (num_at n HoldR v)"
    using inv by (simp add: wp_inv_def)
  have h0: "num_at n HoldR v = 0" "num_at n HoldW v = 0" using free by (simp_all add: cnt_eq_0)
  have stuck: "wp_step d q k = None" if "1 \<le> num_at n (In d q) v" for d q
    using cnt_ex [of n "\<lambda>y. y = In d q" v] that no by fastforce
  have post: "num_at n (In RelW WpPostTurn) v = 0" "num_at n (In RelW WpPostRoom) v = 0"
    "num_at n (In AcqR WpPass) v = 0"
    using stuck [of RelW WpPostTurn] stuck [of RelW WpPostRoom] stuck [of AcqR WpPass]
    by (intro cnt_not_pos; auto)+
  have room: "ls_room (wp_roomEmpty k) (wp_a n v) (wp_b n v) 0 = 1"
    using inv h0 post by (simp add: wp_inv_def)
  have idle: "wp_a n v l = 0 \<and> wp_b n v u = 0" for l u
  proof (rule ccontr)
    assume "\<not> ?thesis"
    then have "1 \<le> wp_a n v l \<or> 1 \<le> wp_b n v u" using cnt_not_pos by blast
    from ls_moves [OF ls wp_nonneg this, of "wp_roomEmpty k"] show False
    proof (elim disjE exE conjE)
      fix p assume "1 \<le> wp_a n v p" "ls_lock p (wp_readSwitch k) (wp_roomEmpty k) \<noteq> None"
      then show False using stuck [of AcqR "WpLock p"] by auto
    next
      fix p assume "1 \<le> wp_b n v p" "ls_unlock p (wp_readSwitch k) (wp_roomEmpty k) \<noteq> None"
      then show False using stuck [of RelR "WpUnlock p"] by auto
    next
      assume "1 \<le> wp_a n v LkSem" "wp_roomEmpty k = 0"
      then show False using room h0 ls ls_first_dark [OF ls wp_nonneg] by (simp add: ls_room_def)
    qed
  qed
  have re: "wp_roomEmpty k = 1"
    using room ls_idle_dark [of "wp_a n v" "wp_b n v", OF idle] by (simp add: ls_room_def)
  then have "num_at n (In AcqW WpWRoom) v = 0"
    using stuck [of AcqW WpWRoom] by (intro cnt_not_pos) (auto simp: sem_defs)
  then have "wp_turnstile k = 1" using inv h0 post by (simp add: wp_inv_def)
  moreover have "1 \<le> num_at n (In c p) v" using cnt_pos [of i n "\<lambda>y. y = In c p" v] i by simp
  moreover have "wp_shape (In c p)" using inv i by (metis wp_inv_def)
  ultimately show False using re stuck [of c p] idle post by (cases c) (auto simp: sem_defs)
qed

lemma wp_rank_step: "wp_step c p k = Some (Some q, k') \<Longrightarrow> wp_rank q < wp_rank p"
  by (cases c; cases p) (auto dest: ls_lock_rank ls_unlock_rank split: option.splits)

section \<open>The lock meets the contract\<close>

interpretation wp: rw_lock wp_start wp_step wp_rwlock_init wp_inv wp_rank
  by (unfold_locales; (rule wp_inv_init | rule wp_inv_call wp_inv_step wp_excl wp_moves wp_rank_step; assumption))

interpretation wpp: rw_program wp_start wp_step wp_rwlock_init wp_inv wp_rank rl n loops
  for rl :: "tid \<Rightarrow> role" and n :: nat and loops :: "tid \<Rightarrow> nat"
  by unfold_locales

definition wp_program :: "(tid \<Rightarrow> role) \<Rightarrow> nat \<Rightarrow> tid
    \<Rightarrow> (wp_rwlock, wp_pc) prog \<Rightarrow> (wp_rwlock, wp_pc) prog option" where
  "wp_program rl n = prog_step wp_start wp_step rl n"

definition wp_main :: "(tid \<Rightarrow> nat) \<Rightarrow> (wp_rwlock, wp_pc) prog" where
  "wp_main loops = prog_init wp_rwlock_init loops"

section \<open>A waiting writer is not overtaken\<close>

fun wp_past :: "wp_pc cpc \<Rightarrow> bool" where
  "wp_past (Acq p) = (p \<noteq> WpTurn)"
| "wp_past Read = True"
| "wp_past (Rel p) = True"
| "wp_past _ = False"

text \<open>The readers that are past the turnstile, and a writer that waits for them to leave.\<close>

definition wp_readers_past :: "(tid \<Rightarrow> role) \<Rightarrow> nat \<Rightarrow> (wp_rwlock, wp_pc) prog \<Rightarrow> tid set" where
  "wp_readers_past rl n s = {i. i < n \<and> rl i = Reader \<and> wp_past (pcs s i)}"

definition wp_writer_waits :: "tid \<Rightarrow> (wp_rwlock, wp_pc) prog \<Rightarrow> bool" where
  "wp_writer_waits w s \<longleftrightarrow> pcs s w = Acq WpWRoom"

lemma wp_turnstile_shut:
  assumes "prog_inv wp_inv rl n loops s" "w < n" "rl w = Writer" "wp_writer_waits w s"
  shows "wp_turnstile (lk s) = 0"
proof -
  have "1 \<le> num_at n (In AcqW WpWRoom) (views rl (pcs s))"
    using assms cnt_pos [of w n "\<lambda>y. y = In AcqW WpWRoom" "views rl (pcs s)"]
    by (simp add: views_def wp_writer_waits_def)
  moreover have "wp_inv n (lk s) (views rl (pcs s))" using assms(1) by (simp add: prog_inv_def)
  ultimately show ?thesis
    using cnt_nonneg [of n "\<lambda>y. y = In AcqR WpPass" "views rl (pcs s)"]
      cnt_nonneg [of n "\<lambda>y. y = HoldW" "views rl (pcs s)"]
      cnt_nonneg [of n "\<lambda>y. y = In RelW WpPostTurn" "views rl (pcs s)"]
    unfolding wp_inv_def by linarith
qed

lemma wp_readers_past_step:
  assumes "wp_turnstile (lk s) = 0" "wp_program rl n i s = Some t"
  shows "wp_readers_past rl n t \<subseteq> wp_readers_past rl n s"
  using assms(2) unfolding wp_program_def
proof (cases rule: prog_step_cases)
  case (Acquire p q k)
  have "wp_past (Acq p)" if "rl i = Reader"
    using Acquire that assms(1) by (cases p) (auto simp: sem_defs)
  with Acquire show ?thesis by (auto simp: wp_readers_past_def goto_def)
next
  case (Release p q k)
  then show ?thesis by (auto simp: wp_readers_past_def goto_def)
next
  case (Return p k)
  then show ?thesis by (auto simp: wp_readers_past_def goto_def next_loop_def split: if_splits)
qed (auto simp: wp_readers_past_def goto_def split: if_splits)

section \<open>Properties\<close>

text \<open>In \<open>rwlock-1writerprogress.cpp\<close> a writer that is incrementing the counter is alone, for any
  number of readers and writers, any loop counts and any interleaving.\<close>

theorem wp_mutual_exclusion:
  assumes "reach (wp_program rl n) (wp_main loops) s" "i < n" "j < n" "i \<noteq> j"
    and "pcs s i = Load \<or> pcs s i = Store"
  shows "pcs s j \<noteq> Read \<and> pcs s j \<noteq> Load \<and> pcs s j \<noteq> Store"
  using assms unfolding wp_program_def wp_main_def by (rule wpp.exclusion)

theorem wp_mutual_exclusion_witness:
  "\<exists>s. exec (wp_program (\<lambda>i. if i = 0 then Reader else Writer) 2) [1, 1, 1] (wp_main (\<lambda>_. 1)) = Some s \<and>
     pcs s 1 = Load \<and> pcs s 0 \<noteq> Read"
proof -
  let ?rl = "\<lambda>i::tid. if i = 0 then Reader else Writer"
  obtain s where s: "exec (wp_program ?rl 2) [1, 1, 1] (wp_main (\<lambda>_. 1)) = Some s" "pcs s 1 = Load"
    by (simp add: wp_program_def wp_main_def prog_step_def prog_init_def goto_def next_loop_def
        wp_rwlock_init_def LightSwitch_def sem_defs)
  then show ?thesis using wp_mutual_exclusion [OF reachI [OF s(1)], of 1 0] by auto
qed

text \<open>Every interleaving of the threads of \<open>rwlock-1writerprogress.cpp\<close> ends after a bounded
  number of steps, and one that cannot go on has ended every thread (the turnstile introduces no
  deadlock) and has counted every iteration of every writer exactly once.\<close>

theorem wp_run_correct:
  assumes "exec (wp_program rl n) ls (wp_main loops) = Some s"
  shows "length ls \<le> prog_cost wp_start wp_rank n (wp_main loops) \<and>
    ((\<forall>i. wp_program rl n i s = None) \<longrightarrow>
      all_done n s \<and> shared s = (\<Sum>i<n. if rl i = Writer then int (loops i) else 0))"
  using assms unfolding wp_program_def wp_main_def by (rule wpp.run_correct)

theorem wp_run_correct_witness:
  "\<exists>s. exec (wp_program (\<lambda>_. Writer) 1) [0, 0, 0, 0, 0, 0, 0, 0] (wp_main (\<lambda>_. 1)) = Some s \<and>
      all_done 1 s \<and> shared s = 1"
proof -
  obtain s where s: "exec (wp_program (\<lambda>_. Writer) 1) [0, 0, 0, 0, 0, 0, 0, 0] (wp_main (\<lambda>_. 1)) = Some s"
      "\<forall>i. wp_program (\<lambda>_. Writer) 1 i s = None"
    by (simp add: wp_program_def wp_main_def prog_step_def prog_init_def goto_def next_loop_def
        wp_rwlock_init_def LightSwitch_def sem_defs)
  then show ?thesis using wp_run_correct [OF s(1)] by auto
qed

text \<open>C9: what the turnstile is for: from the moment a writer waits for the room inside the turnstile
  until it enters, no reader passes the turnstile, so the set of readers that are ahead of the
  writer only shrinks.\<close>

theorem wp_no_overtaking:
  assumes "reach (wp_program rl n) (wp_main loops) s" "w < n" "rl w = Writer"
    and "exec_while (wp_writer_waits w) (wp_program rl n) ls s = Some t"
  shows "wp_readers_past rl n t \<subseteq> wp_readers_past rl n s"
proof (rule exec_while_rel [of "prog_inv wp_inv rl n loops", OF _ _ _ _ assms(4)])
  fix l s t
  assume "prog_inv wp_inv rl n loops s" "wp_writer_waits w s" "wp_program rl n l s = Some t"
  then show "prog_inv wp_inv rl n loops t \<and> wp_readers_past rl n t \<subseteq> wp_readers_past rl n s"
    using wpp.prog_inv_step wp_readers_past_step [OF wp_turnstile_shut] assms(2,3)
    by (metis wp_program_def)
next
  show "prog_inv wp_inv rl n loops s"
    using wpp.reach_inv assms(1) unfolding wp_program_def wp_main_def by blast
qed auto

theorem wp_no_overtaking_witness:
  "\<exists>s t. exec (wp_program (\<lambda>i. if i = 2 then Writer else Reader) 3) [0, 0, 0, 0, 0, 0, 0, 0, 2, 2] (wp_main (\<lambda>_. 1)) = Some s \<and>
     exec_while (wp_writer_waits 2) (wp_program (\<lambda>i. if i = 2 then Writer else Reader) 3) [1, 0, 0, 0] s = Some t \<and>
     wp_readers_past (\<lambda>i. if i = 2 then Writer else Reader) 3 t
       \<subseteq> wp_readers_past (\<lambda>i. if i = 2 then Writer else Reader) 3 s"
proof -
  let ?rl = "\<lambda>i::tid. if i = 2 then Writer else Reader"
  obtain s where s: "exec (wp_program ?rl 3) [0, 0, 0, 0, 0, 0, 0, 0, 2, 2] (wp_main (\<lambda>_. 1)) = Some s"
      "\<exists>t. exec_while (wp_writer_waits 2) (wp_program ?rl 3) [1, 0, 0, 0] s = Some t"
    by (simp add: wp_program_def wp_main_def prog_step_def prog_init_def goto_def next_loop_def
        wp_rwlock_init_def LightSwitch_def sem_defs wp_writer_waits_def)
  then obtain t where t: "exec_while (wp_writer_waits 2) (wp_program ?rl 3) [1, 0, 0, 0] s = Some t"
    by blast
  show ?thesis using wp_no_overtaking [OF reachI [OF s(1)], of 2, OF _ _ t] s(1) t by auto
qed

end
