(* ===== verification/Rwlock_Writer_Priority.thy ===== *)
theory Rwlock_Writer_Priority
  imports Semaphores RW_Clients
begin

text \<open>
  \<open>threads-sema/rwlock-writer-priority.cpp\<close>: two LightSwitches. The readers' switch holds
  \<open>noWriters\<close> while readers are in the room; the writers' switch holds \<open>noReaders\<close> from the first
  queued writer to the last one out, and readers enter through \<open>noReaders\<close>.
\<close>

record pr_rwlock =
  pr_noReaders :: sem
  pr_noWriters :: sem
  pr_reader_switch :: light_switch
  pr_writer_switch :: light_switch

definition pr_rwlock_init :: pr_rwlock where
  "pr_rwlock_init =
     \<lparr>pr_noReaders = sem_init 1, pr_noWriters = sem_init 1,
      pr_reader_switch = LightSwitch, pr_writer_switch = LightSwitch\<rparr>"

datatype pr_pc = PrNoR | PrLock lock_pc | PrPostNoR | PrUnlock unlock_pc
  | PrWLock lock_pc | PrNoW | PrPostNoW | PrWUnlock unlock_pc

type_synonym pr_body = "pr_pc \<Rightarrow> pr_rwlock \<Rightarrow> (pr_pc option \<times> pr_rwlock) option"

fun pr_acquire_readlock :: pr_body where
  "pr_acquire_readlock PrNoR k =
     (case sem_wait (pr_noReaders k) of None \<Rightarrow> None
      | Some sm \<Rightarrow> Some (Some (PrLock LkMutex), k\<lparr>pr_noReaders := sm\<rparr>))"
| "pr_acquire_readlock (PrLock p) k =
     (case ls_lock p (pr_reader_switch k) (pr_noWriters k) of None \<Rightarrow> None
      | Some (q, w, sm) \<Rightarrow>
          Some (Some (case q of None \<Rightarrow> PrPostNoR | Some q' \<Rightarrow> PrLock q'),
            k\<lparr>pr_reader_switch := w, pr_noWriters := sm\<rparr>))"
| "pr_acquire_readlock PrPostNoR k = Some (None, k\<lparr>pr_noReaders := sem_post (pr_noReaders k)\<rparr>)"
| "pr_acquire_readlock _ k = None"

fun pr_release_readlock :: pr_body where
  "pr_release_readlock (PrUnlock p) k =
     (case ls_unlock p (pr_reader_switch k) (pr_noWriters k) of None \<Rightarrow> None
      | Some (q, w, sm) \<Rightarrow>
          Some (map_option PrUnlock q, k\<lparr>pr_reader_switch := w, pr_noWriters := sm\<rparr>))"
| "pr_release_readlock _ k = None"

fun pr_acquire_writelock :: pr_body where
  "pr_acquire_writelock (PrWLock p) k =
     (case ls_lock p (pr_writer_switch k) (pr_noReaders k) of None \<Rightarrow> None
      | Some (q, w, sm) \<Rightarrow>
          Some (Some (case q of None \<Rightarrow> PrNoW | Some q' \<Rightarrow> PrWLock q'),
            k\<lparr>pr_writer_switch := w, pr_noReaders := sm\<rparr>))"
| "pr_acquire_writelock PrNoW k =
     (case sem_wait (pr_noWriters k) of None \<Rightarrow> None
      | Some sm \<Rightarrow> Some (None, k\<lparr>pr_noWriters := sm\<rparr>))"
| "pr_acquire_writelock _ k = None"

fun pr_release_writelock :: pr_body where
  "pr_release_writelock PrPostNoW k =
     Some (Some (PrWUnlock UkMutex), k\<lparr>pr_noWriters := sem_post (pr_noWriters k)\<rparr>)"
| "pr_release_writelock (PrWUnlock p) k =
     (case ls_unlock p (pr_writer_switch k) (pr_noReaders k) of None \<Rightarrow> None
      | Some (q, w, sm) \<Rightarrow>
          Some (map_option PrWUnlock q, k\<lparr>pr_writer_switch := w, pr_noReaders := sm\<rparr>))"
| "pr_release_writelock _ k = None"

fun pr_start :: "lock_op \<Rightarrow> pr_pc" where
  "pr_start AcqR = PrNoR"
| "pr_start RelR = PrUnlock UkMutex"
| "pr_start AcqW = PrWLock LkMutex"
| "pr_start RelW = PrPostNoW"

fun pr_step :: "lock_op \<Rightarrow> pr_body" where
  "pr_step AcqR = pr_acquire_readlock"
| "pr_step RelR = pr_release_readlock"
| "pr_step AcqW = pr_acquire_writelock"
| "pr_step RelW = pr_release_writelock"

fun pr_rank :: "pr_pc \<Rightarrow> nat" where
  "pr_rank PrNoR = 6"
| "pr_rank (PrLock p) = lock_rank p + 1"
| "pr_rank PrPostNoR = 0"
| "pr_rank (PrUnlock p) = unlock_rank p"
| "pr_rank (PrWLock p) = lock_rank p + 1"
| "pr_rank PrNoW = 0"
| "pr_rank PrPostNoW = 5"
| "pr_rank (PrWUnlock p) = unlock_rank p"

section \<open>Invariant\<close>

abbreviation pr_ra :: "nat \<Rightarrow> (tid \<Rightarrow> pr_pc view) \<Rightarrow> lock_pc \<Rightarrow> int" where
  "pr_ra n v \<equiv> \<lambda>p. num_at n (In AcqR (PrLock p)) v"

abbreviation pr_rb :: "nat \<Rightarrow> (tid \<Rightarrow> pr_pc view) \<Rightarrow> unlock_pc \<Rightarrow> int" where
  "pr_rb n v \<equiv> \<lambda>p. num_at n (In RelR (PrUnlock p)) v"

abbreviation pr_wa :: "nat \<Rightarrow> (tid \<Rightarrow> pr_pc view) \<Rightarrow> lock_pc \<Rightarrow> int" where
  "pr_wa n v \<equiv> \<lambda>p. num_at n (In AcqW (PrWLock p)) v"

abbreviation pr_wb :: "nat \<Rightarrow> (tid \<Rightarrow> pr_pc view) \<Rightarrow> unlock_pc \<Rightarrow> int" where
  "pr_wb n v \<equiv> \<lambda>p. num_at n (In RelW (PrWUnlock p)) v"

text \<open>
  The readers and the writers between the two calls of their switch; the writer in the room; the
  reader inside \<open>noReaders\<close>.
\<close>

fun pr_reading :: "pr_pc view \<Rightarrow> bool" where
  "pr_reading (In AcqR p) = (p = PrPostNoR)"
| "pr_reading v = (v = HoldR)"

fun pr_queued :: "pr_pc view \<Rightarrow> bool" where
  "pr_queued (In AcqW p) = (p = PrNoW)"
| "pr_queued (In RelW p) = (p = PrPostNoW)"
| "pr_queued v = (v = HoldW)"

fun pr_writing :: "pr_pc view \<Rightarrow> bool" where
  "pr_writing (In RelW p) = (p = PrPostNoW)"
| "pr_writing v = (v = HoldW)"

fun pr_entering :: "pr_pc view \<Rightarrow> bool" where
  "pr_entering (In AcqR p) = (p \<noteq> PrNoR)"
| "pr_entering v = False"

fun pr_shape :: "pr_pc view \<Rightarrow> bool" where
  "pr_shape (In AcqR p) = (p = PrNoR \<or> p = PrPostNoR \<or> (\<exists>q. p = PrLock q))"
| "pr_shape (In RelR p) = (\<exists>q. p = PrUnlock q)"
| "pr_shape (In AcqW p) = (p = PrNoW \<or> (\<exists>q. p = PrWLock q))"
| "pr_shape (In RelW p) = (p = PrPostNoW \<or> (\<exists>q. p = PrWUnlock q))"
| "pr_shape _ = True"

definition pr_inv :: "nat \<Rightarrow> pr_rwlock \<Rightarrow> (tid \<Rightarrow> pr_pc view) \<Rightarrow> bool" where
  "pr_inv n k v \<longleftrightarrow>
     (\<forall>i<n. pr_shape (v i)) \<and>
     ls_inv (pr_reader_switch k) (pr_ra n v) (pr_rb n v) (cnt n pr_reading v) \<and>
     ls_inv (pr_writer_switch k) (pr_wa n v) (pr_wb n v) (cnt n pr_queued v) \<and>
     ls_room (pr_noWriters k) (pr_ra n v) (pr_rb n v) (cnt n pr_reading v)
       + cnt n pr_writing v = 1 \<and>
     ls_room (pr_noReaders k) (pr_wa n v) (pr_wb n v) (cnt n pr_queued v) + cnt n pr_entering v = 1"

lemma pr_rnonneg: "ls_nonneg (pr_ra n v) (pr_rb n v) (cnt n pr_reading v)"
  by (simp add: ls_nonneg_def)

lemma pr_wnonneg: "ls_nonneg (pr_wa n v) (pr_wb n v) (cnt n pr_queued v)"
  by (simp add: ls_nonneg_def)

lemma pr_inv_init: "pr_inv n pr_rwlock_init (\<lambda>_. Out)"
  by (simp add: pr_inv_def pr_rwlock_init_def cnt_const ls_inv_init ls_room_init sem_defs)

lemma pr_inv_call:
  assumes "pr_inv n k v" "i < n" "v i = caller c"
  shows "pr_inv n k (v(i := In c (pr_start c)))"
  using assms
  by (cases c) (auto simp: pr_inv_def cnt_simps ls_inv_enter_lock ls_inv_enter_unlock)

lemma pr_inv_step:
  assumes "pr_inv n k v" "i < n" "v i = In c p" "pr_step c p k = Some (q, k')"
  shows "pr_inv n k' (v(i := after c q))"
proof -
  have sh: "pr_shape (In c p)" using assms(1-3) by (metis pr_inv_def)
  consider (Lock) l where "c = AcqR" "p = PrLock l" | (Unlock) l where "c = RelR" "p = PrUnlock l"
    | (WLock) l where "c = AcqW" "p = PrWLock l" | (WUnlock) l where "c = RelW" "p = PrWUnlock l"
    | (NoR) "c = AcqR" "p = PrNoR" | (PostNoR) "c = AcqR" "p = PrPostNoR"
    | (NoW) "c = AcqW" "p = PrNoW" | (PostNoW) "c = RelW" "p = PrPostNoW"
    using sh by (cases c) auto
  then show ?thesis
  proof cases
    case Lock
    then have l: "1 \<le> pr_ra n v l" using assms(2,3) by (simp add: cnt_pos)
    obtain r w sm where r: "ls_lock l (pr_reader_switch k) (pr_noWriters k) = Some (r, w, sm)"
      "q = Some (case r of None \<Rightarrow> PrPostNoR | Some q' \<Rightarrow> PrLock q')"
      "k' = k\<lparr>pr_reader_switch := w, pr_noWriters := sm\<rparr>"
      using assms(4) Lock by (auto split: option.splits)
    show ?thesis
    proof (cases r)
      case None
      with assms(1-3) Lock r l show ?thesis
        using ls_lock_return [OF _ pr_rnonneg l] by (auto simp: pr_inv_def cnt_simps)
    next
      case (Some x)
      with assms(1-3) Lock r l show ?thesis
        using ls_lock_step [OF _ pr_rnonneg l] by (auto simp: pr_inv_def cnt_simps)
    qed
  next
    case Unlock
    then have "1 \<le> pr_rb n v l" using assms(2,3) by (simp add: cnt_pos)
    then show ?thesis using assms Unlock ls_unlock_step [OF _ pr_rnonneg] ls_unlock_return [OF _ pr_rnonneg]
      by (cases q) (auto simp: pr_inv_def cnt_simps split: option.splits)
  next
    case WLock
    then have l: "1 \<le> pr_wa n v l" using assms(2,3) by (simp add: cnt_pos)
    obtain r w sm where r: "ls_lock l (pr_writer_switch k) (pr_noReaders k) = Some (r, w, sm)"
      "q = Some (case r of None \<Rightarrow> PrNoW | Some q' \<Rightarrow> PrWLock q')"
      "k' = k\<lparr>pr_writer_switch := w, pr_noReaders := sm\<rparr>"
      using assms(4) WLock by (auto split: option.splits)
    show ?thesis
    proof (cases r)
      case None
      with assms(1-3) WLock r l show ?thesis
        using ls_lock_return [OF _ pr_wnonneg l] by (auto simp: pr_inv_def cnt_simps)
    next
      case (Some x)
      with assms(1-3) WLock r l show ?thesis
        using ls_lock_step [OF _ pr_wnonneg l] by (auto simp: pr_inv_def cnt_simps)
    qed
  next
    case WUnlock
    then have "1 \<le> pr_wb n v l" using assms(2,3) by (simp add: cnt_pos)
    then show ?thesis using assms WUnlock ls_unlock_step [OF _ pr_wnonneg] ls_unlock_return [OF _ pr_wnonneg]
      by (cases q) (auto simp: pr_inv_def cnt_simps split: option.splits)
  next
    case NoR
    then have "0 < pr_noReaders k" "q = Some (PrLock LkMutex)"
      "k' = k\<lparr>pr_noReaders := pr_noReaders k - Suc 0\<rparr>"
      using assms(4) by (simp_all add: sem_defs split: if_splits)
    with assms(1-3) NoR show ?thesis
      by (auto simp: pr_inv_def cnt_simps ls_room_wait ls_inv_enter_lock)
  next
    case PostNoR
    then have "q = None" "k' = k\<lparr>pr_noReaders := Suc (pr_noReaders k)\<rparr>"
      using assms(4) by (simp_all add: sem_defs)
    with assms(1-3) PostNoR show ?thesis by (auto simp: pr_inv_def cnt_simps ls_room_post)
  next
    case NoW
    then have "0 < pr_noWriters k" "q = None" "k' = k\<lparr>pr_noWriters := pr_noWriters k - Suc 0\<rparr>"
      using assms(4) by (simp_all add: sem_defs split: if_splits)
    with assms(1-3) NoW show ?thesis by (auto simp: pr_inv_def cnt_simps ls_room_wait)
  next
    case PostNoW
    then have "q = Some (PrWUnlock UkMutex)" "k' = k\<lparr>pr_noWriters := Suc (pr_noWriters k)\<rparr>"
      using assms(4) by (simp_all add: sem_defs)
    with assms(1-3) PostNoW show ?thesis
      by (auto simp: pr_inv_def cnt_simps ls_room_post ls_inv_enter_unlock)
  qed
qed

text \<open>While readers are in the room, or a writer is, the room is taken.\<close>

lemma pr_excl:
  assumes "pr_inv n k v" "i < n" "j < n" "i \<noteq> j" "v i = HoldW"
  shows "v j \<noteq> HoldR \<and> v j \<noteq> HoldW"
proof (intro conjI notI)
  have room: "ls_room (pr_noWriters k) (pr_ra n v) (pr_rb n v) (cnt n pr_reading v) + cnt n pr_writing v = 1"
    using assms(1) by (simp add: pr_inv_def)
  have w: "1 \<le> cnt n pr_writing v" using cnt_pos [of i n pr_writing v] assms by simp
  { assume "v j = HoldR"
    then have "1 \<le> cnt n pr_reading v" using cnt_pos [of j n pr_reading v] assms by simp
    then have "ls_lit (pr_ra n v) (pr_rb n v) (cnt n pr_reading v)"
      by (intro ls_lit_holder [OF pr_rnonneg])
    with room w show False by (simp add: ls_room_def) }
  { assume "v j = HoldW"
    then have "2 \<le> cnt n pr_writing v" using cnt_two [of i n j pr_writing v] assms by simp
    with room ls_room_nonneg [of "pr_noWriters k" "pr_ra n v" "pr_rb n v" "cnt n pr_reading v"] show False
      by linarith }
qed

text \<open>A switch with threads in it, whose semaphore has room, is not stuck.\<close>

lemma ls_busy_moves:
  assumes "ls_inv w a b h" "ls_nonneg a b h" "ls_room sm a b h = 1" "1 \<le> a l \<or> 1 \<le> b u"
  shows "(\<exists>p. 1 \<le> a p \<and> ls_lock p w sm \<noteq> None) \<or> (\<exists>q. 1 \<le> b q \<and> ls_unlock q w sm \<noteq> None)"
  using ls_moves [OF assms(1,2,4), of sm] ls_first_dark [OF assms(1,2)] assms(3)
  by (auto simp: ls_room_def)

lemma pr_moves:
  assumes inv: "pr_inv n k v" and i: "i < n" "v i = In c p"
    and free: "\<And>j. j < n \<Longrightarrow> v j \<noteq> HoldR \<and> v j \<noteq> HoldW"
  shows "\<exists>j<n. \<exists>d q. v j = In d q \<and> pr_step d q k \<noteq> None"
proof (rule ccontr)
  assume no: "\<not> ?thesis"
  have shape: "pr_shape (v j)" if "j < n" for j using inv that by (simp add: pr_inv_def)
  have stuck: "pr_step d q k = None" if "j < n" "v j = In d q" for j d q
    using no that by blast
  have stuck_at: "pr_step d q k = None" if "1 \<le> num_at n (In d q) v" for d q
    using cnt_ex [of n "\<lambda>y. y = In d q" v] that stuck by fastforce
  have nopost: "v j \<noteq> In AcqR PrPostNoR" "v j \<noteq> In RelW PrPostNoW" if "j < n" for j
    using stuck [OF that] by auto
  have r0: "cnt n pr_reading v = 0" and w0: "cnt n pr_writing v = 0"
    using free nopost by (auto simp: cnt_eq_0 elim!: pr_reading.elims pr_writing.elims)
  have room: "ls_room (pr_noWriters k) (pr_ra n v) (pr_rb n v) (cnt n pr_reading v) = 1"
    using inv w0 by (simp add: pr_inv_def)
  have rls: "ls_inv (pr_reader_switch k) (pr_ra n v) (pr_rb n v) (cnt n pr_reading v)"
    using inv by (simp add: pr_inv_def)
  have ridle: "pr_ra n v l = 0 \<and> pr_rb n v u = 0" for l u
  proof (rule ccontr)
    assume "\<not> ?thesis"
    then have "1 \<le> pr_ra n v l \<or> 1 \<le> pr_rb n v u" using cnt_not_pos by blast
    from ls_busy_moves [OF rls pr_rnonneg room this] show False
      using stuck_at [of AcqR "PrLock _"] stuck_at [of RelR "PrUnlock _"] by force
  qed
  have nw: "pr_noWriters k = 1"
    using room ls_idle_dark [of "pr_ra n v" "pr_rb n v", OF ridle] r0 by (simp add: ls_room_def)
  have noreader: "v j \<noteq> In AcqR (PrLock l)" "v j \<noteq> In RelR (PrUnlock u)" if "j < n" for j l u
    using ridle [of l u] that by (auto simp: cnt_eq_0)
  have nowait: "v j \<noteq> In AcqW PrNoW" if "j < n" for j
    using stuck [OF that] nw by (auto simp: sem_defs)
  have q0: "cnt n pr_queued v = 0" and e0: "cnt n pr_entering v = 0"
    using free nopost nowait noreader shape
    by (fastforce simp: cnt_eq_0 elim!: pr_queued.elims pr_entering.elims)+
  have wroom: "ls_room (pr_noReaders k) (pr_wa n v) (pr_wb n v) (cnt n pr_queued v) = 1"
    using inv e0 by (simp add: pr_inv_def)
  have wls: "ls_inv (pr_writer_switch k) (pr_wa n v) (pr_wb n v) (cnt n pr_queued v)"
    using inv by (simp add: pr_inv_def)
  have widle: "pr_wa n v l = 0 \<and> pr_wb n v u = 0" for l u
  proof (rule ccontr)
    assume "\<not> ?thesis"
    then have "1 \<le> pr_wa n v l \<or> 1 \<le> pr_wb n v u" using cnt_not_pos by blast
    from ls_busy_moves [OF wls pr_wnonneg wroom this] show False
      using stuck_at [of AcqW "PrWLock _"] stuck_at [of RelW "PrWUnlock _"] by force
  qed
  have "pr_noReaders k = 1"
    using wroom ls_idle_dark [of "pr_wa n v" "pr_wb n v", OF widle] q0 by (simp add: ls_room_def)
  then have "v j \<noteq> In AcqR PrNoR" if "j < n" for j
    using stuck [OF that] by (auto simp: sem_defs)
  moreover have "v j \<noteq> In AcqW (PrWLock l)" "v j \<noteq> In RelW (PrWUnlock u)" if "j < n" for j l u
    using widle [of l u] that by (auto simp: cnt_eq_0)
  ultimately show False using i shape [OF i(1)] nopost noreader nowait by (cases c) auto
qed

lemma pr_rank_step: "pr_step c p k = Some (Some q, k') \<Longrightarrow> pr_rank q < pr_rank p"
  by (cases c; cases p) (auto dest: ls_lock_rank ls_unlock_rank split: option.splits)

section \<open>The lock meets the contract\<close>

interpretation pr: rw_lock pr_start pr_step pr_rwlock_init pr_inv pr_rank
  by (unfold_locales; (rule pr_inv_init | rule pr_inv_call pr_inv_step pr_excl pr_moves pr_rank_step; assumption))

interpretation prp: rw_program pr_start pr_step pr_rwlock_init pr_inv pr_rank rl n loops
  for rl :: "tid \<Rightarrow> role" and n :: nat and loops :: "tid \<Rightarrow> nat"
  by unfold_locales

definition pr_program :: "(tid \<Rightarrow> role) \<Rightarrow> nat \<Rightarrow> tid
    \<Rightarrow> (pr_rwlock, pr_pc) prog \<Rightarrow> (pr_rwlock, pr_pc) prog option" where
  "pr_program rl n = prog_step pr_start pr_step rl n"

definition pr_main :: "(tid \<Rightarrow> nat) \<Rightarrow> (pr_rwlock, pr_pc) prog" where
  "pr_main loops = prog_init pr_rwlock_init loops"

section \<open>Writers go first\<close>

fun pr_past :: "pr_pc cpc \<Rightarrow> bool" where
  "pr_past (Acq p) = (p \<noteq> PrNoR)"
| "pr_past Read = True"
| "pr_past (Rel p) = True"
| "pr_past _ = False"

text \<open>The readers that have passed \<open>noReaders\<close>; and whether some writer is through its switch: it
  queues on \<open>noWriters\<close>, writes, or has not yet given \<open>noWriters\<close> back.\<close>

definition pr_readers_past :: "(tid \<Rightarrow> role) \<Rightarrow> nat \<Rightarrow> (pr_rwlock, pr_pc) prog \<Rightarrow> tid set" where
  "pr_readers_past rl n s = {i. i < n \<and> rl i = Reader \<and> pr_past (pcs s i)}"

definition pr_writer_present :: "(tid \<Rightarrow> role) \<Rightarrow> nat \<Rightarrow> (pr_rwlock, pr_pc) prog \<Rightarrow> bool" where
  "pr_writer_present rl n s \<longleftrightarrow>
     (\<exists>w<n. rl w = Writer \<and> pcs s w \<in> {Acq PrNoW, Load, Store, Rel PrPostNoW})"

lemma pr_noReaders_shut:
  assumes "prog_inv pr_inv rl n loops s" "pr_writer_present rl n s"
  shows "pr_noReaders (lk s) = 0"
proof -
  let ?v = "views rl (pcs s)"
  obtain w where "w < n" "pr_queued (?v w)"
    using assms(2) by (auto simp: pr_writer_present_def views_def)
  then have "1 \<le> cnt n pr_queued ?v" by (rule cnt_pos)
  then have "ls_lit (pr_wa n ?v) (pr_wb n ?v) (cnt n pr_queued ?v)"
    by (rule ls_lit_holder [OF pr_wnonneg])
  moreover have "ls_room (pr_noReaders (lk s)) (pr_wa n ?v) (pr_wb n ?v) (cnt n pr_queued ?v)
      + cnt n pr_entering ?v = 1"
    using assms(1) by (simp add: prog_inv_def pr_inv_def)
  ultimately show ?thesis using cnt_nonneg [of n pr_entering ?v] by (simp add: ls_room_def del: cnt_nonneg)
qed

lemma pr_readers_past_step:
  assumes "pr_noReaders (lk s) = 0" "pr_program rl n i s = Some t"
  shows "pr_readers_past rl n t \<subseteq> pr_readers_past rl n s"
  using assms(2) unfolding pr_program_def
proof (cases rule: prog_step_cases)
  case (Acquire p q k)
  have "pr_past (Acq p)" if "rl i = Reader"
    using Acquire that assms(1) by (cases p) (auto simp: sem_defs)
  with Acquire show ?thesis by (auto simp: pr_readers_past_def goto_def)
next
  case (Release p q k)
  then show ?thesis by (auto simp: pr_readers_past_def goto_def)
next
  case (Return p k)
  then show ?thesis by (auto simp: pr_readers_past_def goto_def next_loop_def split: if_splits)
qed (auto simp: pr_readers_past_def goto_def split: if_splits)

section \<open>Properties\<close>

text \<open>C6: in \<open>rwlock-writer-priority.cpp\<close> a writer that is incrementing the counter is alone, for any
  number of readers and writers, any loop counts and any interleaving.\<close>

theorem pr_mutual_exclusion:
  assumes "reach (pr_program rl n) (pr_main loops) s" "i < n" "j < n" "i \<noteq> j"
    and "pcs s i = Load \<or> pcs s i = Store"
  shows "pcs s j \<noteq> Read \<and> pcs s j \<noteq> Load \<and> pcs s j \<noteq> Store"
  using assms unfolding pr_program_def pr_main_def by (rule prp.exclusion)

theorem pr_mutual_exclusion_witness:
  "\<exists>s. exec (pr_program (\<lambda>i. if i = 0 then Reader else Writer) 2) [1, 1, 1, 1, 1, 1, 1] (pr_main (\<lambda>_. 1)) = Some s \<and>
     pcs s 1 = Load \<and> pcs s 0 \<noteq> Read"
proof -
  let ?rl = "\<lambda>i::tid. if i = 0 then Reader else Writer"
  obtain s where s: "exec (pr_program ?rl 2) [1, 1, 1, 1, 1, 1, 1] (pr_main (\<lambda>_. 1)) = Some s" "pcs s 1 = Load"
    by (simp add: pr_program_def pr_main_def prog_step_def prog_init_def goto_def next_loop_def
        pr_rwlock_init_def LightSwitch_def sem_defs)
  then show ?thesis using pr_mutual_exclusion [OF reachI [OF s(1)], of 1 0] by auto
qed

text \<open>Every interleaving of the threads of \<open>rwlock-writer-priority.cpp\<close> ends after a bounded number
  of steps, and one that cannot go on has ended every thread (the two switches, which take
  \<open>noReaders\<close> and \<open>noWriters\<close>, do not deadlock) and has counted every iteration of every writer
  exactly once.\<close>

theorem pr_run_correct:
  assumes "exec (pr_program rl n) ls (pr_main loops) = Some s"
  shows "length ls \<le> prog_cost pr_start pr_rank n (pr_main loops) \<and>
    ((\<forall>i. pr_program rl n i s = None) \<longrightarrow>
      all_done n s \<and> shared s = (\<Sum>i<n. if rl i = Writer then int (loops i) else 0))"
  using assms unfolding pr_program_def pr_main_def by (rule prp.run_correct)

theorem pr_run_correct_witness:
  "\<exists>s. exec (pr_program (\<lambda>_. Writer) 1) [0, 0, 0, 0, 0, 0, 0, 0, 0, 0, 0, 0, 0, 0, 0, 0] (pr_main (\<lambda>_. 1)) = Some s \<and>
      all_done 1 s \<and> shared s = 1"
proof -
  obtain s where s: "exec (pr_program (\<lambda>_. Writer) 1) [0, 0, 0, 0, 0, 0, 0, 0, 0, 0, 0, 0, 0, 0, 0, 0] (pr_main (\<lambda>_. 1)) = Some s"
      "\<forall>i. pr_program (\<lambda>_. Writer) 1 i s = None"
    by (simp add: pr_program_def pr_main_def prog_step_def prog_init_def goto_def next_loop_def
        pr_rwlock_init_def LightSwitch_def sem_defs)
  then show ?thesis using pr_run_correct [OF s(1)] by auto
qed

text \<open>C8: writers have priority: as long as some writer, not always the same one, is queued on
  \<open>noWriters\<close> or writing, no reader passes \<open>noReaders\<close>; many writers can go through without a reader
  entering.\<close>

theorem pr_writers_first:
  assumes "reach (pr_program rl n) (pr_main loops) s"
    and "exec_while (pr_writer_present rl n) (pr_program rl n) ls s = Some t"
  shows "pr_readers_past rl n t \<subseteq> pr_readers_past rl n s"
proof (rule exec_while_rel [of "prog_inv pr_inv rl n loops", OF _ _ _ _ assms(2)])
  fix l s t
  assume "prog_inv pr_inv rl n loops s" "pr_writer_present rl n s" "pr_program rl n l s = Some t"
  then show "prog_inv pr_inv rl n loops t \<and> pr_readers_past rl n t \<subseteq> pr_readers_past rl n s"
    using prp.prog_inv_step pr_readers_past_step [OF pr_noReaders_shut]
    by (metis pr_program_def)
next
  show "prog_inv pr_inv rl n loops s"
    using prp.reach_inv assms(1) unfolding pr_program_def pr_main_def by blast
qed auto

theorem pr_writers_first_witness:
  "\<exists>s t. exec (pr_program (\<lambda>i. if i = 0 then Reader else Writer) 2) [1, 1, 1, 1, 1, 1, 0] (pr_main (\<lambda>_. 1)) = Some s \<and>
     exec_while (pr_writer_present (\<lambda>i. if i = 0 then Reader else Writer) 2)
       (pr_program (\<lambda>i. if i = 0 then Reader else Writer) 2) [1, 1, 1] s = Some t \<and>
     pr_readers_past (\<lambda>i. if i = 0 then Reader else Writer) 2 t
       \<subseteq> pr_readers_past (\<lambda>i. if i = 0 then Reader else Writer) 2 s"
proof -
  let ?rl = "\<lambda>i::tid. if i = 0 then Reader else Writer"
  obtain s where s: "exec (pr_program ?rl 2) [1, 1, 1, 1, 1, 1, 0] (pr_main (\<lambda>_. 1)) = Some s"
      "\<exists>t. exec_while (pr_writer_present ?rl 2) (pr_program ?rl 2) [1, 1, 1] s = Some t"
    by (simp add: pr_program_def pr_main_def prog_step_def prog_init_def goto_def next_loop_def
        pr_rwlock_init_def LightSwitch_def sem_defs pr_writer_present_def numeral_2_eq_2 Ex_less_Suc)
  then obtain t where t: "exec_while (pr_writer_present ?rl 2) (pr_program ?rl 2) [1, 1, 1] s = Some t"
    by blast
  show ?thesis using pr_writers_first [OF reachI [OF s(1)] t] s(1) t by auto
qed

end
