(* ===== verification/Rate_Limiter.thy ===== *)
theory Rate_Limiter
  imports "HOL-Library.Word"
begin

text \<open>
  \<open>threads-locks/other-problems/IK- problems/RateLimiter/RateLimiter.hpp\<close> and \<open>RateLimiter.cpp\<close>:
  a token bucket over \<open>uint32_t\<close> token counts and a \<open>uint64_t\<close> millisecond clock. The fields keep
  their widths: additions and multiplications wrap, and the product of a \<open>uint32_t\<close> with the
  \<open>uint64_t\<close> number of periods is formed in 64 bits and then truncated to 32. A division by a zero
  interval has no defined result: \<open>None\<close>. \<open>getCurrentTimeMS\<close> is the environment, the argument
  \<open>cur_time\<close>. Every call holds \<open>mutex_\<close> from start to end, so the calls of all threads form one
  sequence.
\<close>

type_synonym u32 = "32 word"
type_synonym u64 = "64 word"

record rate_limiter =
  capacity :: u32
  available_tokens :: u32
  intervalMS :: u32
  tokensPerPeriod :: u32
  lastUpdatedTime :: u64

definition RateLimiter :: "u32 \<Rightarrow> u32 \<Rightarrow> u32 \<Rightarrow> u64 \<Rightarrow> rate_limiter" where
  "RateLimiter cap interval tokens cur_time =
     \<lparr>capacity = cap, available_tokens = cap, intervalMS = interval, tokensPerPeriod = tokens,
      lastUpdatedTime = cur_time\<rparr>"

definition elapsed_time_periods :: "u64 \<Rightarrow> rate_limiter \<Rightarrow> u64" where
  "elapsed_time_periods cur_time r = (cur_time - lastUpdatedTime r) div ucast (intervalMS r)"

definition tokes_to_add :: "u64 \<Rightarrow> rate_limiter \<Rightarrow> u32" where
  "tokes_to_add cur_time r = ucast (ucast (tokensPerPeriod r) * elapsed_time_periods cur_time r)"

definition refillTokensLocked :: "u64 \<Rightarrow> rate_limiter \<Rightarrow> rate_limiter option" where
  "refillTokensLocked cur_time r =
     (if intervalMS r = 0 then None
      else if tokes_to_add cur_time r = 0 then Some r
      else Some (r\<lparr>available_tokens := min (capacity r) (available_tokens r + tokes_to_add cur_time r),
                   lastUpdatedTime := cur_time\<rparr>))"

definition rateLimit :: "u64 \<Rightarrow> rate_limiter \<Rightarrow> (bool \<times> rate_limiter) option" where
  "rateLimit cur_time r =
     (case refillTokensLocked cur_time r of None \<Rightarrow> None
      | Some r' \<Rightarrow>
          if available_tokens r' > 0
          then Some (True, r'\<lparr>available_tokens := available_tokens r' - 1\<rparr>)
          else Some (False, r'))"

text \<open>The calls of a run, one per clock reading, with their answers.\<close>

fun rate_run :: "u64 list \<Rightarrow> rate_limiter \<Rightarrow> (bool list \<times> rate_limiter) option" where
  "rate_run [] r = Some ([], r)"
| "rate_run (t # ts) r =
     (case rateLimit t r of None \<Rightarrow> None
      | Some (b, r') \<Rightarrow>
          (case rate_run ts r' of None \<Rightarrow> None | Some (bs, r'') \<Rightarrow> Some (b # bs, r'')))"

definition granted :: "bool list \<Rightarrow> nat" where
  "granted bs = length (filter (\<lambda>b. b) bs)"

lemma granted_simps [simp]:
  "granted [] = 0" "granted (True # bs) = Suc (granted bs)" "granted (False # bs) = granted bs"
  by (simp_all add: granted_def)

text \<open>\<open>main.cpp\<close>: a limiter of two tokens, one new one every three seconds, called every second.\<close>

definition main_limiter :: "u64 \<Rightarrow> rate_limiter" where
  "main_limiter cur_time = RateLimiter 2 3000 1 cur_time"

section \<open>The arithmetic of a refill\<close>

definition periods :: "u64 \<Rightarrow> rate_limiter \<Rightarrow> nat" where
  "periods cur_time r = (unat cur_time - unat (lastUpdatedTime r)) div unat (intervalMS r)"

lemma unat_ucast64: "unat (ucast (x :: u32) :: u64) = unat x"
  using unsigned_less [of x, where ?'a = nat] by (simp add: unsigned_ucast_eq take_bit_nat_eq_self)

lemma unat_elapsed:
  assumes "lastUpdatedTime r \<le> cur_time"
  shows "unat (elapsed_time_periods cur_time r) = periods cur_time r"
  using assms by (simp add: elapsed_time_periods_def periods_def unat_div unat_sub unat_ucast64)

lemma unat_tokes:
  assumes "lastUpdatedTime r \<le> cur_time"
  shows "unat (tokes_to_add cur_time r) = unat (tokensPerPeriod r) * periods cur_time r mod 2 ^ 32"
proof -
  have "unat (tokes_to_add cur_time r) =
      unat (ucast (tokensPerPeriod r) * elapsed_time_periods cur_time r) mod 2 ^ 32"
    unfolding tokes_to_add_def unsigned_ucast_eq by (simp add: take_bit_eq_mod)
  also have "\<dots> = unat (tokensPerPeriod r) * periods cur_time r mod 2 ^ 64 mod 2 ^ 32"
    by (simp add: unat_word_ariths unat_ucast64 unat_elapsed [OF assms])
  also have "\<dots> = unat (tokensPerPeriod r) * periods cur_time r mod 2 ^ 32"
    by (rule mod_mod_cancel) (simp add: le_imp_power_dvd)
  finally show ?thesis .
qed

lemma tokes_le:
  assumes "lastUpdatedTime r \<le> cur_time"
  shows "unat (tokes_to_add cur_time r) \<le> unat (tokensPerPeriod r) * periods cur_time r"
  by (simp add: unat_tokes [OF assms])

text \<open>The addition of the refill: it wraps, and wrapping loses tokens.\<close>

lemma unat_sum: "unat ((a :: u32) + b) = (unat a + unat b) mod 2 ^ 32"
  by (simp add: unat_word_ariths)

lemma unat_sum_le: "unat ((a :: u32) + b) \<le> unat a + unat b"
  by (simp add: unat_sum)

lemma unat_min: "unat (min (a :: u32) b) = min (unat a) (unat b)"
  by (simp add: min_def word_le_nat_alt)

lemma unat_pred: "0 < (a :: u32) \<Longrightarrow> unat (a - 1) = unat a - 1"
  by (simp add: unat_sub word_le_nat_alt word_less_nat_alt)

section \<open>What a call does\<close>

lemma refill_fields:
  assumes "refillTokensLocked t r = Some r'"
  shows "capacity r' = capacity r" "intervalMS r' = intervalMS r"
    "tokensPerPeriod r' = tokensPerPeriod r" "intervalMS r \<noteq> 0"
    "lastUpdatedTime r' = lastUpdatedTime r \<and> available_tokens r' = available_tokens r \<or>
     lastUpdatedTime r' = t \<and>
       available_tokens r' = min (capacity r) (available_tokens r + tokes_to_add t r)"
  using assms by (auto simp: refillTokensLocked_def split: if_splits)

lemma rateLimit_cases:
  assumes "rateLimit t r = Some (b, r')"
  obtains q where "refillTokensLocked t r = Some q" "b \<longleftrightarrow> 0 < available_tokens q"
    "r' = (if b then q\<lparr>available_tokens := available_tokens q - 1\<rparr> else q)"
  using assms unfolding rateLimit_def by (auto split: option.splits if_splits)

lemma rateLimit_fields:
  assumes "rateLimit t r = Some (b, r')"
  shows "capacity r' = capacity r" "intervalMS r' = intervalMS r"
    "tokensPerPeriod r' = tokensPerPeriod r" "intervalMS r \<noteq> 0"
proof -
  obtain q where "refillTokensLocked t r = Some q"
    "r' = (if b then q\<lparr>available_tokens := available_tokens q - 1\<rparr> else q)"
    using assms by (rule rateLimit_cases)
  with refill_fields(1-4) [of t r q]
  show "capacity r' = capacity r" "intervalMS r' = intervalMS r"
    "tokensPerPeriod r' = tokensPerPeriod r" "intervalMS r \<noteq> 0"
    by simp_all
qed

lemma rateLimit_None: "rateLimit t r = None \<longleftrightarrow> intervalMS r = 0"
  by (auto simp: rateLimit_def refillTokensLocked_def split: option.splits)

lemma rate_run_None: "intervalMS r \<noteq> 0 \<Longrightarrow> rate_run ts r \<noteq> None"
proof (induction ts arbitrary: r)
  case Nil
  then show ?case by simp
next
  case (Cons t ts)
  then obtain b r' where r': "rateLimit t r = Some (b, r')" using rateLimit_None by fastforce
  have "intervalMS r' \<noteq> 0" using rateLimit_fields(2) [OF r'] Cons.prems by simp
  then have "rate_run ts r' \<noteq> None" by (rule Cons.IH)
  with r' show ?case by auto
qed

text \<open>The accounting of one call under a clock that has not gone back: what it grants plus what it
  leaves is at most what there was plus what the elapsed periods are worth.\<close>

lemma div_add_superadditive: "a div i + b div i \<le> (a + b) div (i :: nat)"
  by (simp add: div_add1_eq [of a b i])

lemma rateLimit_account:
  assumes "rateLimit t r = Some (b, r')" "lastUpdatedTime r \<le> t" "unat t \<le> T"
  shows "of_bool b + unat (available_tokens r')
      + unat (tokensPerPeriod r) * ((T - unat (lastUpdatedTime r')) div unat (intervalMS r))
    \<le> unat (available_tokens r)
      + unat (tokensPerPeriod r) * ((T - unat (lastUpdatedTime r)) div unat (intervalMS r))"
    and "lastUpdatedTime r' \<le> t"
proof -
  obtain q where q: "refillTokensLocked t r = Some q" and b: "b \<longleftrightarrow> 0 < available_tokens q"
    and r': "r' = (if b then q\<lparr>available_tokens := available_tokens q - 1\<rparr> else q)"
    using assms(1) by (rule rateLimit_cases)
  have "of_bool b + unat (available_tokens r') = unat (available_tokens q)"
    using b r' unat_pred [of "available_tokens q"]
    by (cases b) (auto simp: word_less_nat_alt)
  moreover have lu: "lastUpdatedTime r' = lastUpdatedTime q" using r' by simp
  moreover
  let ?k = "unat (tokensPerPeriod r)" and ?i = "unat (intervalMS r)" and ?L = "unat (lastUpdatedTime r)"
  have "?L \<le> unat t" using assms(2) by (simp add: word_le_nat_alt)
  then have "T - ?L = (unat t - ?L) + (T - unat t)" using assms(3) by simp
  then have "periods t r + (T - unat t) div ?i \<le> (T - ?L) div ?i"
    unfolding periods_def by (metis div_add_superadditive)
  then have add: "?k * periods t r + ?k * ((T - unat t) div ?i) \<le> ?k * ((T - ?L) div ?i)"
    by (metis add_mult_distrib2 mult_le_mono2)
  have "unat (available_tokens q) + ?k * ((T - unat (lastUpdatedTime q)) div ?i)
      \<le> unat (available_tokens r) + ?k * ((T - ?L) div ?i)"
    using refill_fields(5) [OF q]
  proof
    assume "lastUpdatedTime q = t \<and>
      available_tokens q = min (capacity r) (available_tokens r + tokes_to_add t r)"
    moreover from this have "unat (available_tokens q) \<le> unat (available_tokens r) + ?k * periods t r"
      using unat_sum_le [of "available_tokens r" "tokes_to_add t r"] tokes_le [OF assms(2)]
      by (simp add: unat_min)
    ultimately show ?thesis using add by simp
  qed simp
  ultimately show "of_bool b + unat (available_tokens r')
      + unat (tokensPerPeriod r) * ((T - unat (lastUpdatedTime r')) div unat (intervalMS r))
    \<le> unat (available_tokens r)
      + unat (tokensPerPeriod r) * ((T - unat (lastUpdatedTime r)) div unat (intervalMS r))"
    by simp
  show "lastUpdatedTime r' \<le> t" using lu refill_fields(5) [OF q] assms(2) by auto
qed

lemma rate_run_account:
  assumes "rate_run ts r = Some (bs, r')" "sorted (lastUpdatedTime r # ts)"
    and "unat (last (lastUpdatedTime r # ts)) \<le> T"
  shows "granted bs + unat (available_tokens r')
    \<le> unat (available_tokens r)
      + unat (tokensPerPeriod r) * ((T - unat (lastUpdatedTime r)) div unat (intervalMS r))"
  using assms
proof (induction ts arbitrary: r bs)
  case Nil
  then show ?case by simp
next
  case (Cons t ts)
  obtain b q cs where q: "rateLimit t r = Some (b, q)" "rate_run ts q = Some (cs, r')" "bs = b # cs"
    using Cons.prems(1) by (auto split: option.splits)
  have t: "lastUpdatedTime r \<le> t" "sorted (t # ts)" using Cons.prems(2) by auto
  have "t \<le> last (t # ts)" using t(2) last_in_set [of ts] by auto
  then have T: "unat t \<le> T" using Cons.prems(3) by (simp add: word_le_nat_alt split: if_splits)
  note acc = rateLimit_account [OF q(1) t(1) T]
  have "sorted (lastUpdatedTime q # ts)" using acc(2) t(2) by auto
  moreover have "unat (last (lastUpdatedTime q # ts)) \<le> T"
    using Cons.prems(3) acc(2) T by (cases ts) (auto simp: word_le_nat_alt)
  ultimately have "granted cs + unat (available_tokens r') \<le> unat (available_tokens q)
      + unat (tokensPerPeriod q) * ((T - unat (lastUpdatedTime q)) div unat (intervalMS q))"
    by (rule Cons.IH [OF q(2)])
  then show ?case
    using acc(1) q(3) rateLimit_fields [OF q(1)] by (cases b) simp_all
qed

lemma refill_bounded:
  "refillTokensLocked t r = Some r' \<Longrightarrow> available_tokens r \<le> capacity r
    \<Longrightarrow> available_tokens r' \<le> capacity r'"
  by (auto simp: refillTokensLocked_def split: if_splits)

lemma rateLimit_bounded:
  assumes "rateLimit t r = Some (b, r')" "available_tokens r \<le> capacity r"
  shows "available_tokens r' \<le> capacity r'"
proof -
  obtain q where q: "refillTokensLocked t r = Some q" "b \<longleftrightarrow> 0 < available_tokens q"
    "r' = (if b then q\<lparr>available_tokens := available_tokens q - 1\<rparr> else q)"
    using assms(1) by (rule rateLimit_cases)
  have le: "available_tokens q \<le> capacity q" using refill_bounded [OF q(1) assms(2)] .
  show ?thesis
  proof (cases b)
    case True
    then have "unat (available_tokens q - 1) = unat (available_tokens q) - 1"
      using q(2) by (simp add: unat_pred)
    with le q True show ?thesis by (simp add: word_le_nat_alt)
  qed (use le q in simp)
qed

section \<open>Properties\<close>

text \<open>C35: whatever the clock does, the bucket never holds more than its capacity.\<close>

theorem bucket_bounded:
  assumes "rate_run ts (RateLimiter cap i k now) = Some (bs, r)"
  shows "available_tokens r \<le> cap \<and> capacity r = cap"
proof -
  have "available_tokens r' \<le> capacity r' \<and> capacity r' = capacity q"
    if "rate_run us q = Some (cs, r')" "available_tokens q \<le> capacity q" for us q cs r'
    using that
  proof (induction us arbitrary: q cs)
    case Nil
    then show ?case by simp
  next
    case (Cons t us)
    then obtain b p ds where p: "rateLimit t q = Some (b, p)" "rate_run us p = Some (ds, r')"
      by (auto split: option.splits)
    then show ?case
      using Cons.IH [OF p(2) rateLimit_bounded [OF p(1) Cons.prems(2)]] rateLimit_fields(1) [OF p(1)]
      by auto
  qed
  from this [OF assms] show ?thesis by (auto simp: RateLimiter_def)
qed

theorem bucket_bounded_witness:
  "\<exists>bs r. rate_run [0, 1000, 1500, 4000] (main_limiter 0) = Some (bs, r) \<and> bs = [True, True, False, True] \<and>
     available_tokens r \<le> 2 \<and> capacity r = 2"
proof -
  obtain bs r where r: "rate_run [0, 1000, 1500, 4000] (RateLimiter 2 3000 1 0) = Some (bs, r)"
      "bs = [True, True, False, True]"
    by (simp add: RateLimiter_def rateLimit_def refillTokensLocked_def tokes_to_add_def
        elapsed_time_periods_def)
  show ?thesis using bucket_bounded [OF r(1)] r by (auto simp: main_limiter_def)
qed

text \<open>C34: the rate limit: under a clock that does not go back, the number of requests granted since
  construction is at most the capacity plus the tokens of the whole periods that have elapsed.\<close>

theorem admission_bound:
  assumes "rate_run ts (RateLimiter cap i k now) = Some (bs, r)" "sorted (now # ts)"
  shows "granted bs \<le> unat cap + unat k * ((unat (last (now # ts)) - unat now) div unat i)"
  using rate_run_account [OF assms(1), of "unat (last (now # ts))"] assms(2)
  by (simp add: RateLimiter_def)

theorem admission_bound_witness:
  "\<exists>bs r. rate_run [0, 1000, 1500, 4000] (main_limiter 0) = Some (bs, r) \<and> granted bs = 3 \<and> granted bs \<le> 2 + 1 * (4000 div 3000)"
proof -
  obtain bs r where r: "rate_run [0, 1000, 1500, 4000] (RateLimiter 2 3000 1 0) = Some (bs, r)"
      "bs = [True, True, False, True]"
    by (simp add: RateLimiter_def rateLimit_def refillTokensLocked_def tokes_to_add_def
        elapsed_time_periods_def)
  have "sorted (0 # [0, 1000, 1500, 4000 :: u64])" by simp
  from admission_bound [OF r(1) this] show ?thesis using r by (auto simp: main_limiter_def)
qed

text \<open>A request refills \<open>tokensPerPeriod\<close> for each elapsed period, up to the capacity, takes one
  token when there is one, and moves the reference time only when tokens were added, as long as the
  sum fits in 32 bits.\<close>

theorem refill_exact:
  assumes "intervalMS r \<noteq> 0" "lastUpdatedTime r \<le> t" "available_tokens r \<le> capacity r"
    and "unat (available_tokens r) + unat (tokensPerPeriod r) * periods t r < 2 ^ 32"
  shows "\<exists>b r'. rateLimit t r = Some (b, r') \<and>
    b = (0 < min (unat (capacity r)) (unat (available_tokens r) + unat (tokensPerPeriod r) * periods t r)) \<and>
    unat (available_tokens r') + of_bool b =
      min (unat (capacity r)) (unat (available_tokens r) + unat (tokensPerPeriod r) * periods t r) \<and>
    lastUpdatedTime r' =
      (if unat (tokensPerPeriod r) * periods t r = 0 then lastUpdatedTime r else t)"
proof -
  let ?n = "unat (tokensPerPeriod r) * periods t r"
  have tok: "unat (tokes_to_add t r) = ?n" using unat_tokes [OF assms(2)] assms(4) by simp
  have zero: "tokes_to_add t r = 0 \<longleftrightarrow> ?n = 0" by (metis tok unat_eq_zero)
  have sum: "unat (available_tokens r + tokes_to_add t r) = unat (available_tokens r) + ?n"
    using assms(4) by (simp add: unat_sum tok)
  define q where "q = (if ?n = 0 then r
     else r\<lparr>available_tokens := min (capacity r) (available_tokens r + tokes_to_add t r), lastUpdatedTime := t\<rparr>)"
  have q: "refillTokensLocked t r = Some q"
    using assms(1) zero by (simp add: refillTokensLocked_def q_def)
  have av: "unat (available_tokens q) = min (unat (capacity r)) (unat (available_tokens r) + ?n)"
    using assms(3) by (auto simp: q_def unat_min sum word_le_nat_alt)
  have lu: "lastUpdatedTime q = (if ?n = 0 then lastUpdatedTime r else t)" by (simp add: q_def)
  show ?thesis
  proof (cases "0 < available_tokens q")
    case True
    then have "rateLimit t r = Some (True, q\<lparr>available_tokens := available_tokens q - 1\<rparr>)"
      using q by (simp add: rateLimit_def)
    moreover have "0 < unat (available_tokens q)" using True by (simp add: word_less_nat_alt)
    ultimately show ?thesis using unat_pred [OF True] av lu by auto
  next
    case False
    then have "rateLimit t r = Some (False, q)" using q by (simp add: rateLimit_def)
    moreover have "unat (available_tokens q) = 0" using False by (simp add: word_less_nat_alt)
    ultimately show ?thesis using av lu by auto
  qed
qed

theorem refill_exact_witness:
  "\<exists>b r'. rateLimit 6000 (RateLimiter 2 3000 1 0\<lparr>available_tokens := 0\<rparr>) = Some (b, r') \<and> b \<and>
     unat (available_tokens r') = 1 \<and> lastUpdatedTime r' = 6000"
  using refill_exact [of "RateLimiter 2 3000 1 0\<lparr>available_tokens := 0\<rparr>" 6000]
  by (auto simp: RateLimiter_def periods_def)

text \<open>When tokens and refill together do not fit in 32 bits, the addition wraps before the minimum
  with the capacity is taken: the refill leaves fewer tokens than there were.\<close>

theorem refill_overflow_loses_tokens:
  assumes "intervalMS r \<noteq> 0"
    and "2 ^ 32 \<le> unat (available_tokens r) + unat (tokes_to_add t r)"
  shows "\<exists>r'. refillTokensLocked t r = Some r' \<and> available_tokens r' < available_tokens r"
proof -
  let ?a = "unat (available_tokens r)" and ?k = "unat (tokes_to_add t r)"
  have lt: "?a < 2 ^ 32" "?k < 2 ^ 32"
    using unsigned_less [of "available_tokens r", where ?'a = nat]
      unsigned_less [of "tokes_to_add t r", where ?'a = nat] by simp_all
  then have "tokes_to_add t r \<noteq> 0" using assms(2) by auto
  moreover have "(?a + ?k) mod 2 ^ 32 = ?a + ?k - 2 ^ 32"
    using lt assms(2) by (simp add: mod_if)
  then have "(?a + ?k) mod 2 ^ 32 < ?a" using lt(2) assms(2) by linarith
  then have "unat (available_tokens r + tokes_to_add t r) < ?a" by (simp add: unat_sum)
  then have "min (capacity r) (available_tokens r + tokes_to_add t r) < available_tokens r"
    by (simp add: word_less_nat_alt unat_min min_less_iff_disj)
  ultimately show ?thesis using assms(1) by (simp add: refillTokensLocked_def)
qed

theorem refill_overflow_loses_tokens_witness:
  "\<exists>r'. refillTokensLocked 1 (RateLimiter 4294967295 1 1 0) = Some r' \<and>
     available_tokens r' < 4294967295"
  using refill_overflow_loses_tokens [of "RateLimiter 4294967295 1 1 0" 1]
  by (simp add: RateLimiter_def tokes_to_add_def elapsed_time_periods_def)

end
