(* ===== verification/Ring_Buffer.thy ===== *)
theory Ring_Buffer
  imports Sync_Prelude "HOL-Library.Word"
begin

unbundle bit_operations_syntax

text \<open>
  \<open>threads-locks/Locked data structures/ring-buffer.cpp\<close>: the bounded queue with many producers
  and consumers, without locks. \<open>size_t\<close> is a 64-bit word. Each load, store and compare-exchange of
  a shared variable is one step; the steps of different threads interleave (the memory orders of the
  source are not modelled, every interleaving is sequentially consistent).
\<close>

type_synonym size_t = "64 word"

record 'a node =
  node_data :: 'a
  node_seq :: size_t

text \<open>Positions in \<open>enqueue(data)\<close> and \<open>dequeue(data)\<close>, with the values of the local variables.\<close>

datatype 'a pos =
    Idle
  | ELoad 'a
  | ESeq 'a size_t
  | ECas 'a size_t int
  | EReload 'a
  | EData 'a size_t
  | EStore 'a size_t
  | DLoad
  | DSeq size_t
  | DCas size_t
  | DReload
  | DData size_t
  | DStore size_t 'a

datatype 'a result = Enqueued bool | Dequeued "'a option"

text \<open>
  The history variables: \<open>claimed\<close> has the value of every successful compare-exchange of
  \<open>_head_seq\<close>, in order, so that the value of ticket \<open>t\<close> is \<open>claimed ! t\<close>; \<open>taken\<close> has the ticket and
  the value of every dequeue that has returned one. No step reads them.
\<close>

record 'a mpmc =
  qsize :: size_t
  qmask :: size_t
  buffer :: "'a node list"
  head_seq :: size_t
  tail_seq :: size_t
  pos :: "tid \<Rightarrow> 'a pos"
  ret :: "tid \<Rightarrow> 'a result option"
  claimed :: "'a list"
  taken :: "(nat \<times> 'a) list"

text \<open>The constructor. A failed \<open>assert\<close> aborts: \<open>None\<close>. The data of a fresh node is arbitrary.\<close>

definition size_ok :: "size_t \<Rightarrow> bool" where
  "size_ok n \<longleftrightarrow> n \<noteq> 0 \<and> n AND (n + 1) = n"

definition mpmc_bounded_queue :: "'a \<Rightarrow> size_t \<Rightarrow> 'a mpmc option" where
  "mpmc_bounded_queue d n =
     (if size_ok n
      then Some \<lparr>qsize = n, qmask = n - 1,
        buffer = map (\<lambda>i. \<lparr>node_data = d, node_seq = of_nat i\<rparr>) [0..<unat n],
        head_seq = 0, tail_seq = 0, pos = (\<lambda>_. Idle), ret = (\<lambda>_. None), claimed = [], taken = []\<rparr>
      else None)"

definition slot :: "'a mpmc \<Rightarrow> size_t \<Rightarrow> nat" where
  "slot q x = unat (x AND qmask q)"

definition dif :: "size_t \<Rightarrow> size_t \<Rightarrow> int" where
  "dif a b = sint a - sint b"

definition goto :: "tid \<Rightarrow> 'a pos \<Rightarrow> 'a mpmc \<Rightarrow> 'a mpmc" where
  "goto i p q = q\<lparr>pos := (pos q)(i := p)\<rparr>"

definition return :: "tid \<Rightarrow> 'a result \<Rightarrow> 'a mpmc \<Rightarrow> 'a mpmc" where
  "return i r q = q\<lparr>pos := (pos q)(i := Idle), ret := (ret q)(i := Some r)\<rparr>"

text \<open>
  One step of a running call. A compare-exchange that fails stores the current value into the local
  variable; with \<open>sp\<close> the weak compare-exchange fails although the values agree. The test
  \<open>dif < 0\<close> of \<open>enqueue\<close> stands, as in the source, in the branch of \<open>dif == 0\<close>, and the branch of
  \<open>dif != 0\<close> is empty.
\<close>

fun enqueue_step :: "bool \<Rightarrow> tid \<Rightarrow> 'a mpmc \<Rightarrow> 'a mpmc option" where
  "enqueue_step sp i q =
     (case pos q i of
        ELoad x \<Rightarrow> Some (goto i (ESeq x (head_seq q)) q)
      | ESeq x h \<Rightarrow>
          (let sq = node_seq (buffer q ! slot q h); d = dif sq h
           in Some (goto i (if d = 0 then ECas x h d else ESeq x h) q))
      | ECas x h d \<Rightarrow>
          (if head_seq q = h \<and> \<not> sp
           then Some (goto i (EData x h) (q\<lparr>head_seq := h + 1, claimed := claimed q @ [x]\<rparr>))
           else if d < 0 then Some (return i (Enqueued False) q)
           else Some (goto i (EReload x) q))
      | EReload x \<Rightarrow> Some (goto i (ESeq x (head_seq q)) q)
      | EData x h \<Rightarrow>
          Some (goto i (EStore x h)
            (q\<lparr>buffer := (buffer q)[slot q h := (buffer q ! slot q h)\<lparr>node_data := x\<rparr>]\<rparr>))
      | EStore x h \<Rightarrow>
          Some (return i (Enqueued True)
            (q\<lparr>buffer := (buffer q)[slot q h := (buffer q ! slot q h)\<lparr>node_seq := h + 1\<rparr>]\<rparr>))
      | _ \<Rightarrow> None)"

fun dequeue_step :: "bool \<Rightarrow> tid \<Rightarrow> 'a mpmc \<Rightarrow> 'a mpmc option" where
  "dequeue_step sp i q =
     (case pos q i of
        DLoad \<Rightarrow> Some (goto i (DSeq (tail_seq q)) q)
      | DSeq t \<Rightarrow>
          (let d = dif (node_seq (buffer q ! slot q t)) (t + 1)
           in if d = 0 then Some (goto i (DCas t) q)
              else if d < 0 then Some (return i (Dequeued None) q)
              else Some (goto i DReload q))
      | DCas t \<Rightarrow>
          (if tail_seq q = t \<and> \<not> sp
           then Some (goto i (DData t) (q\<lparr>tail_seq := t + 1\<rparr>))
           else Some (goto i (DSeq (tail_seq q)) q))
      | DReload \<Rightarrow> Some (goto i (DSeq (tail_seq q)) q)
      | DData t \<Rightarrow> Some (goto i (DStore t (node_data (buffer q ! slot q t))) q)
      | DStore t x \<Rightarrow>
          Some (return i (Dequeued (Some x))
            (q\<lparr>buffer := (buffer q)[slot q t := (buffer q ! slot q t)\<lparr>node_seq := t + qmask q + 1\<rparr>],
               taken := taken q @ [(unat t, x)]\<rparr>))
      | _ \<Rightarrow> None)"

datatype 'a label = Enqueue tid 'a | Dequeue tid | Run tid | Spurious tid

fun mpmc_step :: "'a label \<Rightarrow> 'a mpmc \<Rightarrow> 'a mpmc option" where
  "mpmc_step (Enqueue i x) q = (if pos q i = Idle then Some (goto i (ELoad x) q) else None)"
| "mpmc_step (Dequeue i) q = (if pos q i = Idle then Some (goto i DLoad q) else None)"
| "mpmc_step (Run i) q =
     (case enqueue_step False i q of None \<Rightarrow> dequeue_step False i q | Some t \<Rightarrow> Some t)"
| "mpmc_step (Spurious i) q =
     (case pos q i of ECas _ _ _ \<Rightarrow> enqueue_step True i q | DCas _ \<Rightarrow> dequeue_step True i q | _ \<Rightarrow> None)"

section \<open>The constructor\<close>

lemma and_succ_iff: "(n :: size_t) AND (n + 1) = n \<longleftrightarrow> even n"
proof
  assume "even n"
  then have "n AND 1 = 0" by (simp add: and_one_eq even_iff_mod_2_eq_zero)
  then have "n + 1 = n OR 1" by (rule disjunctive_add_eq_or)
  then show "n AND (n + 1) = n" by (simp add: bit_eq_iff bit_and_iff bit_or_iff) blast
next
  assume eq: "n AND (n + 1) = n"
  show "even n"
  proof (rule ccontr)
    assume "odd n"
    then have "even (n AND (n + 1))" by (simp add: even_and_iff)
    with eq \<open>odd n\<close> show False by simp
  qed
qed

lemma even_word_iff: "even (n :: size_t) \<longleftrightarrow> even (unat n)"
  by transfer (simp add: even_take_bit_eq even_nat_iff)

lemma size_ok_even: "size_ok n \<longleftrightarrow> n \<noteq> 0 \<and> even (unat n)"
  by (simp add: size_ok_def and_succ_iff even_word_iff)

section \<open>Tickets and slots, in natural numbers\<close>

lemma mod_window:
  assumes "a \<le> x" "x < a + N" "a \<le> y" "y < a + N" "x mod N = y mod (N :: nat)"
  shows "x = y"
proof (rule ccontr)
  assume ne: "x \<noteq> y"
  have *: False if "u < v" "u mod N = v mod N" "a \<le> u" "v < a + N" for u v
  proof -
    have "N dvd v - u" using that(1,2) by (metis less_or_eq_imp_le mod_eq_dvd_iff_nat)
    then have "N \<le> v - u" using that(1) by (simp add: dvd_imp_le)
    with that show False by linarith
  qed
  show False using ne * [of x y] * [of y x] assms by (metis linorder_neqE_nat)
qed

definition ring_ok :: "nat \<Rightarrow> nat \<Rightarrow> (nat \<Rightarrow> nat) \<Rightarrow> (nat \<Rightarrow> 'a) \<Rightarrow> 'a list \<Rightarrow> bool" where
  "ring_ok N T sq dt C \<longleftrightarrow>
     2 \<le> N \<and> T \<le> length C \<and> length C \<le> T + N \<and>
     (\<forall>t. T \<le> t \<and> t < length C \<longrightarrow> sq (t mod N) = t \<or> (sq (t mod N) = t + 1 \<and> dt (t mod N) = C ! t)) \<and>
     (\<forall>t. length C \<le> t \<and> t < T + N \<longrightarrow> sq (t mod N) = t \<or> sq (t mod N) + N = t + 1)"

fun pos_ok :: "nat \<Rightarrow> nat \<Rightarrow> (nat \<Rightarrow> nat) \<Rightarrow> (nat \<Rightarrow> 'a) \<Rightarrow> 'a list \<Rightarrow> 'a pos \<Rightarrow> bool" where
  "pos_ok N T sq dt C (ESeq x h) = (unat h \<le> length C)"
| "pos_ok N T sq dt C (ECas x h d) =
     (d = 0 \<and> unat h \<le> length C \<and> (unat h = length C \<longrightarrow> sq (unat h mod N) = unat h))"
| "pos_ok N T sq dt C (EData x h) =
     (T \<le> unat h \<and> unat h < length C \<and> sq (unat h mod N) = unat h \<and> C ! unat h = x)"
| "pos_ok N T sq dt C (EStore x h) =
     (T \<le> unat h \<and> unat h < length C \<and> sq (unat h mod N) = unat h \<and> C ! unat h = x \<and> dt (unat h mod N) = x)"
| "pos_ok N T sq dt C (DSeq t) = (unat t \<le> T)"
| "pos_ok N T sq dt C (DCas t) = (unat t \<le> T \<and> (unat t = T \<longrightarrow> sq (unat t mod N) = unat t + 1))"
| "pos_ok N T sq dt C (DData t) =
     (unat t < T \<and> length C \<le> unat t + N \<and> sq (unat t mod N) = unat t + 1 \<and> dt (unat t mod N) = C ! unat t)"
| "pos_ok N T sq dt C (DStore t x) =
     (unat t < T \<and> length C \<le> unat t + N \<and> sq (unat t mod N) = unat t + 1 \<and> x = C ! unat t)"
| "pos_ok N T sq dt C _ = True"

text \<open>The tickets of the producers that have not published, and of the consumers that have not
  released.\<close>

fun filling :: "'a pos \<Rightarrow> nat option" where
  "filling (EData x h) = Some (unat h)"
| "filling (EStore x h) = Some (unat h)"
| "filling _ = None"

fun draining :: "'a pos \<Rightarrow> nat option" where
  "draining (DData t) = Some (unat t)"
| "draining (DStore t x) = Some (unat t)"
| "draining _ = None"

lemma mod_ne: "a \<le> x \<Longrightarrow> x < a + N \<Longrightarrow> a \<le> y \<Longrightarrow> y < a + N \<Longrightarrow> x \<noteq> y \<Longrightarrow> x mod N \<noteq> y mod (N :: nat)"
  using mod_window by blast

lemma ring_size:
  assumes "ring_ok N T sq dt C"
  shows "2 \<le> N" "T \<le> length C" "length C \<le> T + N"
  using assms by (simp_all add: ring_ok_def)

lemma ring_full:
  assumes "ring_ok N T sq dt C" "T \<le> t" "t < length C"
  shows "sq (t mod N) = t \<or> (sq (t mod N) = t + 1 \<and> dt (t mod N) = C ! t)"
  using assms by (simp add: ring_ok_def)

lemma ring_free:
  assumes "ring_ok N T sq dt C" "length C \<le> t" "t < T + N"
  shows "sq (t mod N) = t \<or> sq (t mod N) + N = t + 1"
  using assms by (simp add: ring_ok_def)

lemma ring_okI:
  assumes "2 \<le> N" "T \<le> length C" "length C \<le> T + N"
    and "\<And>t. T \<le> t \<Longrightarrow> t < length C \<Longrightarrow>
      sq (t mod N) = t \<or> (sq (t mod N) = t + 1 \<and> dt (t mod N) = C ! t)"
    and "\<And>t. length C \<le> t \<Longrightarrow> t < T + N \<Longrightarrow> sq (t mod N) = t \<or> sq (t mod N) + N = t + 1"
  shows "ring_ok N T sq dt C"
  using assms by (simp add: ring_ok_def)

lemma ring_head_free:
  assumes "ring_ok N T sq dt C" "sq (length C mod N) = length C"
  shows "length C < T + N"
proof (rule ccontr)
  assume "\<not> ?thesis"
  then have eq: "length C = T + N" using assms(1) by (simp add: ring_ok_def)
  then have "sq (T mod N) = T \<or> sq (T mod N) = T + 1"
    using ring_full [OF assms(1), of T] ring_size [OF assms(1)] by auto
  with assms(2) eq ring_size(1) [OF assms(1)] show False by auto
qed

lemma ring_claim:
  assumes r: "ring_ok N T sq dt C" "sq (length C mod N) = length C"
  shows "ring_ok N T sq dt (C @ [x])"
proof (rule ring_okI)
  fix t assume "T \<le> t" "t < length (C @ [x])"
  then show "sq (t mod N) = t \<or> sq (t mod N) = t + 1 \<and> dt (t mod N) = (C @ [x]) ! t"
    using ring_full [OF r(1), of t] r(2) by (cases "t = length C") (auto simp: nth_append)
next
  fix t assume "length (C @ [x]) \<le> t" "t < T + N"
  then show "sq (t mod N) = t \<or> sq (t mod N) + N = t + 1" using ring_free [OF r(1), of t] by simp
qed (use ring_size [OF r(1)] ring_head_free [OF r] in simp_all)

lemma ring_write:
  assumes r: "ring_ok N T sq dt C" and h: "T \<le> h" "h < length C" "sq (h mod N) = h"
  shows "ring_ok N T sq (dt(h mod N := x)) C"
proof (rule ring_okI)
  fix t assume t: "T \<le> t" "t < length C"
  show "sq (t mod N) = t \<or> sq (t mod N) = t + 1 \<and> (dt(h mod N := x)) (t mod N) = C ! t"
  proof (cases "t = h")
    case False
    then have "t mod N \<noteq> h mod N" using t h ring_size(3) [OF r] by (intro mod_ne [of T]) auto
    then show ?thesis using ring_full [OF r t] by simp
  qed (use h in simp)
qed (use ring_size [OF r] ring_free [OF r] in simp_all)

lemma ring_publish:
  assumes r: "ring_ok N T sq dt C" and h: "T \<le> h" "h < length C" "dt (h mod N) = C ! h"
  shows "ring_ok N T (sq(h mod N := h + 1)) dt C"
proof (rule ring_okI)
  fix t assume t: "T \<le> t" "t < length C"
  show "(sq(h mod N := h + 1)) (t mod N) = t \<or>
      (sq(h mod N := h + 1)) (t mod N) = t + 1 \<and> dt (t mod N) = C ! t"
  proof (cases "t = h")
    case False
    then have "t mod N \<noteq> h mod N" using t h ring_size(3) [OF r] by (intro mod_ne [of T]) auto
    then show ?thesis using ring_full [OF r t] by simp
  qed (use h in simp)
next
  fix t assume t: "length C \<le> t" "t < T + N"
  then have "t mod N \<noteq> h mod N" using h by (intro mod_ne [of T]) auto
  then show "(sq(h mod N := h + 1)) (t mod N) = t \<or> (sq(h mod N := h + 1)) (t mod N) + N = t + 1"
    using ring_free [OF r t] by simp
qed (use ring_size [OF r] in simp_all)

lemma ring_take:
  assumes r: "ring_ok N T sq dt C" and sq: "sq (T mod N) = T + 1"
  shows "T < length C" "dt (T mod N) = C ! T" "ring_ok N (T + 1) sq dt C"
proof -
  show lt: "T < length C"
  proof (rule ccontr)
    assume "\<not> ?thesis"
    then show False using ring_free [OF r, of T] sq ring_size(1) [OF r] by simp
  qed
  then show "dt (T mod N) = C ! T" using ring_full [OF r _ lt] sq by simp
  show "ring_ok N (T + 1) sq dt C"
  proof (rule ring_okI)
    fix t assume "length C \<le> t" "t < T + 1 + N"
    then show "sq (t mod N) = t \<or> sq (t mod N) + N = t + 1"
      using ring_free [OF r, of t] sq by (cases "t = T + N") auto
  qed (use ring_size [OF r] ring_full [OF r] lt in auto)
qed

lemma ring_release:
  assumes r: "ring_ok N T sq dt C" and t: "t < T" "length C \<le> t + N"
  shows "ring_ok N T (sq(t mod N := t + N)) dt C"
proof (rule ring_okI)
  fix u assume u: "T \<le> u" "u < length C"
  then have "u mod N \<noteq> t mod N" using t by (intro mod_ne [of t]) auto
  then show "(sq(t mod N := t + N)) (u mod N) = u \<or>
      (sq(t mod N := t + N)) (u mod N) = u + 1 \<and> dt (u mod N) = C ! u"
    using ring_full [OF r u] by simp
next
  fix u assume u: "length C \<le> u" "u < T + N"
  show "(sq(t mod N := t + N)) (u mod N) = u \<or> (sq(t mod N := t + N)) (u mod N) + N = u + 1"
  proof (cases "u = t + N")
    case False
    then have "u mod N \<noteq> (t + N) mod N" using u t ring_size [OF r] by (intro mod_ne [of T]) auto
    then show ?thesis using ring_free [OF r u] by simp
  qed simp
qed (use ring_size [OF r] in simp_all)

text \<open>The position of one thread survives the steps of the others.\<close>

lemma drain_room:
  assumes r: "ring_ok N T sq dt C" and t: "length C \<le> t + N" "sq (t mod N) = t + 1"
    and H: "sq (length C mod N) = length C"
  shows "length C < t + N"
proof -
  have "length C \<noteq> t + N"
  proof
    assume "length C = t + N"
    with H t(2) ring_size(1) [OF r] show False by simp
  qed
  with t(1) show ?thesis by simp
qed

lemma pos_ok_claim:
  assumes r: "ring_ok N T sq dt C" and H: "sq (length C mod N) = length C"
    and p: "pos_ok N T sq dt C p"
  shows "pos_ok N T sq dt (C @ [x]) p"
  using p drain_room [OF r _ _ H] ring_size(2) [OF r]
  by (cases p) (fastforce simp: nth_append)+

lemma pos_ok_write:
  assumes r: "ring_ok N T sq dt C" and h: "T \<le> h" "h < length C" "sq (h mod N) = h"
    and p: "pos_ok N T sq dt C p" "filling p \<noteq> Some h"
  shows "pos_ok N T sq (dt(h mod N := x)) C p"
proof (cases p)
  case (EStore y g)
  then have "unat g mod N \<noteq> h mod N"
    using p h ring_size [OF r] by (intro mod_ne [of T]) auto
  with EStore p show ?thesis by simp
next
  case (DData t)
  then have "unat t mod N \<noteq> h mod N"
    using p h ring_size [OF r] by (intro mod_ne [of "unat t"]) auto
  with DData p show ?thesis by simp
qed (use p in auto)

lemma pos_ok_publish:
  assumes r: "ring_ok N T sq dt C" and h: "T \<le> h" "h < length C" "sq (h mod N) = h"
    and p: "pos_ok N T sq dt C p" "filling p \<noteq> Some h"
  shows "pos_ok N T (sq(h mod N := h + 1)) dt C p"
proof -
  have other: "g mod N \<noteq> h mod N" if "T \<le> g" "g < length C" "g \<noteq> h" for g
    using that h ring_size [OF r] by (intro mod_ne [of T]) auto
  have behind: "t mod N \<noteq> h mod N" if "t < T" "length C \<le> t + N" for t
    using that h ring_size [OF r] by (intro mod_ne [of t]) auto
  show ?thesis
  proof (cases p)
    case (ECas y g d)
    then show ?thesis using p h by (auto simp: fun_upd_def)
  next
    case (EData y g)
    then show ?thesis using p other [of "unat g"] by auto
  next
    case (EStore y g)
    then show ?thesis using p other [of "unat g"] by auto
  next
    case (DCas t)
    have "T mod N \<noteq> h mod N" if "sq (T mod N) = T + 1"
      using that h other [of T] by (cases "h = T") auto
    with DCas p show ?thesis by auto
  next
    case (DData t)
    then show ?thesis using p behind [of "unat t"] by auto
  next
    case (DStore t y)
    then show ?thesis using p behind [of "unat t"] by auto
  qed (use p in auto)
qed

lemma pos_ok_take:
  assumes r: "ring_ok N T sq dt C" and T: "sq (T mod N) = T + 1"
    and p: "pos_ok N T sq dt C p"
  shows "pos_ok N (T + 1) sq dt C p"
proof -
  have "T < h" if "T \<le> h" "sq (h mod N) = h" for h
    using that T by (cases "h = T") auto
  with p show ?thesis by (cases p) (auto simp: Suc_le_eq)
qed

lemma pos_ok_release:
  assumes r: "ring_ok N T sq dt C" and t: "t < T" "length C \<le> t + N" "sq (t mod N) = t + 1"
    and p: "pos_ok N T sq dt C p" "draining p \<noteq> Some t"
  shows "pos_ok N T (sq(t mod N := t + N)) dt C p"
proof -
  have other: "h mod N \<noteq> t mod N" if "T \<le> h" "h < length C" for h
    using that t by (intro mod_ne [of t]) auto
  have head: "length C mod N \<noteq> t mod N" if H: "sq (length C mod N) = length C"
  proof
    assume eq: "length C mod N = t mod N"
    with H t(3) have "length C = t + 1" by simp
    with eq ring_size(1) [OF r] mod_ne [of t "t + 1" N t] show False by simp
  qed
  show ?thesis
  proof (cases p)
    case (ECas y g d)
    then show ?thesis using p head by auto
  next
    case (EData y g)
    then show ?thesis using p other [of "unat g"] by auto
  next
    case (EStore y g)
    then show ?thesis using p other [of "unat g"] by auto
  next
    case (DCas u)
    then show ?thesis using p t by (auto simp: fun_upd_def)
  next
    case (DData u)
    have "unat u mod N \<noteq> t mod N" using DData p t by (metis add_right_cancel draining.simps(1) pos_ok.simps(7))
    with DData p show ?thesis by simp
  next
    case (DStore u y)
    have "unat u mod N \<noteq> t mod N" using DStore p t by (metis add_right_cancel draining.simps(2) pos_ok.simps(8))
    with DStore p show ?thesis by simp
  qed (use p in auto)
qed

section \<open>The invariant of the queue\<close>

definition seqs :: "'a mpmc \<Rightarrow> nat \<Rightarrow> nat" where
  "seqs q j = unat (node_seq (buffer q ! j))"

definition datas :: "'a mpmc \<Rightarrow> nat \<Rightarrow> 'a" where
  "datas q j = node_data (buffer q ! j)"

definition tickets_ok :: "nat \<Rightarrow> 'a list \<Rightarrow> (tid \<Rightarrow> 'a pos) \<Rightarrow> (nat \<times> 'a) list \<Rightarrow> bool" where
  "tickets_ok T C ps tk \<longleftrightarrow>
     (\<forall>i j t. filling (ps i) = Some t \<longrightarrow> filling (ps j) = Some t \<longrightarrow> i = j) \<and>
     (\<forall>i j t. draining (ps i) = Some t \<longrightarrow> draining (ps j) = Some t \<longrightarrow> i = j) \<and>
     (\<forall>i t. draining (ps i) = Some t \<longrightarrow> t \<notin> fst ` set tk) \<and>
     (\<forall>p \<in> set tk. fst p < T \<and> snd p = C ! fst p) \<and> distinct (map fst tk)"

definition mpmc_ok :: "nat \<Rightarrow> 'a mpmc \<Rightarrow> bool" where
  "mpmc_ok k q \<longleftrightarrow>
     qmask q = mask k \<and> length (buffer q) = 2 ^ k \<and> unat (head_seq q) = length (claimed q) \<and>
     ring_ok (2 ^ k) (unat (tail_seq q)) (seqs q) (datas q) (claimed q) \<and>
     (\<forall>i. pos_ok (2 ^ k) (unat (tail_seq q)) (seqs q) (datas q) (claimed q) (pos q i)) \<and>
     tickets_ok (unat (tail_seq q)) (claimed q) (pos q) (taken q)"

lemma slot_eq: "qmask q = mask k \<Longrightarrow> slot q x = unat x mod 2 ^ k"
  unfolding slot_def by (simp only: take_bit_eq_mask [symmetric] unsigned_take_bit_eq)
    (simp only: take_bit_eq_mod)

lemma dif_0: "dif a b = 0 \<longleftrightarrow> a = b"
  by (simp add: dif_def) (metis signed_word_eqI)

lemma seqs_upd:
  "j < length (buffer q) \<Longrightarrow>
    seqs (q\<lparr>buffer := (buffer q)[j := (buffer q ! j)\<lparr>node_seq := v\<rparr>]\<rparr>) = (seqs q)(j := unat v)"
  "j < length (buffer q) \<Longrightarrow>
    seqs (q\<lparr>buffer := (buffer q)[j := (buffer q ! j)\<lparr>node_data := x\<rparr>]\<rparr>) = seqs q"
  "j < length (buffer q) \<Longrightarrow>
    datas (q\<lparr>buffer := (buffer q)[j := (buffer q ! j)\<lparr>node_data := x\<rparr>]\<rparr>) = (datas q)(j := x)"
  "j < length (buffer q) \<Longrightarrow>
    datas (q\<lparr>buffer := (buffer q)[j := (buffer q ! j)\<lparr>node_seq := v\<rparr>]\<rparr>) = datas q"
  by (auto simp: seqs_def datas_def nth_list_update fun_eq_iff)

lemma tickets_move:
  assumes "tickets_ok T C ps tk" "filling p = None \<or> filling p = filling (ps i)"
    "draining p = None \<or> draining p = draining (ps i)"
  shows "tickets_ok T C (ps(i := p)) tk"
proof -
  have f: "filling ((ps(i := p)) j) = Some t \<Longrightarrow> filling (ps j) = Some t"
    and d: "draining ((ps(i := p)) j) = Some t \<Longrightarrow> draining (ps j) = Some t" for j t
    using assms(2,3) by (auto split: if_splits)
  from assms(1) have
    1: "filling (ps a) = Some t \<Longrightarrow> filling (ps b) = Some t \<Longrightarrow> a = b" and
    2: "draining (ps a) = Some t \<Longrightarrow> draining (ps b) = Some t \<Longrightarrow> a = b" and
    3: "draining (ps a) = Some t \<Longrightarrow> t \<notin> fst ` set tk" and
    4: "\<forall>p \<in> set tk. fst p < T \<and> snd p = C ! fst p" "distinct (map fst tk)" for a b t
    unfolding tickets_ok_def by blast+
  show ?thesis
    unfolding tickets_ok_def using 1 [OF f f] 2 [OF d d] 3 [OF d] 4 by (intro conjI allI impI)
qed

lemma tickets_claim:
  assumes k: "tickets_ok T C ps tk" and T: "T \<le> length C"
    and p: "\<And>j t. filling (ps j) = Some t \<Longrightarrow> t < length C"
    and h: "filling p = Some (length C)" "draining p = None"
  shows "tickets_ok T (C @ [x]) (ps(i := p)) tk"
proof -
  have "\<forall>j t. filling (ps j) = Some t \<longrightarrow> t \<noteq> length C" using p by fastforce
  moreover have "\<forall>p \<in> set tk. fst p < T \<and> snd p = (C @ [x]) ! fst p"
    using k T by (auto simp: tickets_ok_def nth_append)
  ultimately show ?thesis using k h by (auto simp: tickets_ok_def)
qed

lemma tickets_take:
  assumes k: "tickets_ok T C ps tk"
    and p: "\<And>j t. draining (ps j) = Some t \<Longrightarrow> t < T"
    and t: "draining p = Some T" "filling p = None"
  shows "tickets_ok (T + 1) C (ps(i := p)) tk"
proof -
  have "\<forall>j t. draining (ps j) = Some t \<longrightarrow> t \<noteq> T" using p by fastforce
  moreover have "T \<notin> fst ` set tk" using k by (auto simp: tickets_ok_def)
  moreover have "\<forall>p \<in> set tk. fst p < T + 1 \<and> snd p = C ! fst p"
    using k by (auto simp: tickets_ok_def)
  ultimately show ?thesis using k t by (auto simp: tickets_ok_def)
qed

lemma tickets_done:
  assumes k: "tickets_ok T C ps tk" and t: "draining (ps i) = Some t" "t < T"
  shows "tickets_ok T C (ps(i := Idle)) (tk @ [(t, C ! t)])"
proof -
  have "t \<notin> fst ` set tk" using k t(1) by (simp add: tickets_ok_def)
  moreover have "\<forall>j. j \<noteq> i \<longrightarrow> draining (ps j) \<noteq> Some t"
    using k t(1) unfolding tickets_ok_def by blast
  ultimately show ?thesis using k t(2) by (auto simp: tickets_ok_def)
qed

text \<open>The invariant, read off for one thread, and put together again.\<close>

lemma mpmc_ok_D:
  assumes "mpmc_ok k q"
  shows "qmask q = mask k" "length (buffer q) = 2 ^ k" "unat (head_seq q) = length (claimed q)"
    "ring_ok (2 ^ k) (unat (tail_seq q)) (seqs q) (datas q) (claimed q)"
    "pos_ok (2 ^ k) (unat (tail_seq q)) (seqs q) (datas q) (claimed q) (pos q i)"
    "tickets_ok (unat (tail_seq q)) (claimed q) (pos q) (taken q)"
    "slot q x = unat x mod 2 ^ k" "slot q x < length (buffer q)"
  using assms slot_eq [of q k x] by (simp_all add: mpmc_ok_def)

lemma mpmc_okI:
  assumes "mpmc_ok k q" "qmask q' = qmask q" "length (buffer q') = length (buffer q)"
    and "unat (head_seq q') = length (claimed q')"
    and "ring_ok (2 ^ k) (unat (tail_seq q')) (seqs q') (datas q') (claimed q')"
    and "pos q' = (pos q)(i := p)"
    and "pos_ok (2 ^ k) (unat (tail_seq q')) (seqs q') (datas q') (claimed q') p"
    and "\<And>j. j \<noteq> i \<Longrightarrow> pos_ok (2 ^ k) (unat (tail_seq q')) (seqs q') (datas q') (claimed q') (pos q j)"
    and "tickets_ok (unat (tail_seq q')) (claimed q') ((pos q)(i := p)) (taken q')"
  shows "mpmc_ok k q'"
  using assms by (auto simp: mpmc_ok_def)

lemma mpmc_ok_goto:
  assumes ok: "mpmc_ok k q"
    and p: "pos_ok (2 ^ k) (unat (tail_seq q)) (seqs q) (datas q) (claimed q) p"
    and t: "filling p = None \<or> filling p = filling (pos q i)" "draining p = None \<or> draining p = draining (pos q i)"
  shows "mpmc_ok k (goto i p q)"
proof -
  have "seqs (goto i p q) = seqs q" "datas (goto i p q) = datas q"
    by (auto simp: goto_def seqs_def datas_def)
  with p show ?thesis
    by (intro mpmc_okI [OF ok, of _ i p])
      (simp_all add: goto_def mpmc_ok_D [OF ok] tickets_move [OF mpmc_ok_D(6) [OF ok] t])
qed

lemma mpmc_ok_return:
  assumes ok: "mpmc_ok k q"
  shows "mpmc_ok k (return i r q)"
proof -
  have "seqs (return i r q) = seqs q" "datas (return i r q) = datas q"
    by (auto simp: return_def seqs_def datas_def)
  then show ?thesis
    by (intro mpmc_okI [OF ok, of _ i Idle])
      (simp_all add: return_def mpmc_ok_D [OF ok] tickets_move [OF mpmc_ok_D(6) [OF ok]])
qed

lemma unat_Suc: "unat (x :: size_t) + 1 < 2 ^ 64 \<Longrightarrow> unat (x + 1) = unat x + 1"
  by (simp add: unat_word_ariths)

lemma filling_claimed: "mpmc_ok k q \<Longrightarrow> filling (pos q j) = Some t \<Longrightarrow> t < length (claimed q)"
  using mpmc_ok_D(5) [of k q j] by (cases "pos q j") auto

lemma draining_taken: "mpmc_ok k q \<Longrightarrow> draining (pos q j) = Some t \<Longrightarrow> t < unat (tail_seq q)"
  using mpmc_ok_D(5) [of k q j] by (cases "pos q j") auto

lemma claim_ok:
  assumes ok: "mpmc_ok k q" and at: "pos q i = ECas x h d" "head_seq q = h"
    and room: "length (claimed q) < 2 ^ 62"
  shows "mpmc_ok k (goto i (EData x h) (q\<lparr>head_seq := h + 1, claimed := claimed q @ [x]\<rparr>))"
proof -
  let ?H = "length (claimed q)" and ?t = "goto i (EData x h) (q\<lparr>head_seq := h + 1, claimed := claimed q @ [x]\<rparr>)"
  note D = mpmc_ok_D [OF ok]
  have H: "unat h = ?H" using D(3) at by simp
  then have sq: "seqs q (?H mod 2 ^ k) = ?H" using D(5) [of i] at by simp
  have eqs: "seqs ?t = seqs q" "datas ?t = datas q" by (auto simp: goto_def seqs_def datas_def)
  have "unat (h + 1) = ?H + 1" using room H by (simp add: unat_Suc)
  moreover have "tickets_ok (unat (tail_seq q)) (claimed q @ [x]) ((pos q)(i := EData x h)) (taken q)"
    using H ring_size(2) [OF D(4)] filling_claimed [OF ok] by (intro tickets_claim [OF D(6)]) auto
  moreover have "pos_ok (2 ^ k) (unat (tail_seq q)) (seqs q) (datas q) (claimed q @ [x]) (EData x h)"
    using H sq ring_size(2) [OF D(4)] by simp
  ultimately show ?thesis
    using ring_claim [OF D(4) sq] pos_ok_claim [OF D(4) sq D(5)]
    by (intro mpmc_okI [OF ok, of _ i "EData x h"]) (simp_all add: eqs, simp_all add: goto_def)
qed

lemma write_ok:
  assumes ok: "mpmc_ok k q" and at: "pos q i = EData x h"
  shows "mpmc_ok k (goto i (EStore x h)
    (q\<lparr>buffer := (buffer q)[slot q h := (buffer q ! slot q h)\<lparr>node_data := x\<rparr>]\<rparr>))"
    (is "mpmc_ok k (goto i ?p ?u)")
proof -
  note D = mpmc_ok_D [OF ok]
  let ?h = "unat h"
  have h: "unat (tail_seq q) \<le> ?h" "?h < length (claimed q)" "seqs q (?h mod 2 ^ k) = ?h"
    "claimed q ! ?h = x" using D(5) [of i] at by simp_all
  have eqs: "seqs ?u = seqs q" "datas ?u = (datas q)(?h mod 2 ^ k := x)"
    using seqs_upd(2,3) [OF D(8)] by (simp_all add: D(7))
  then have eqs': "seqs (goto i ?p ?u) = seqs q" "datas (goto i ?p ?u) = (datas q)(?h mod 2 ^ k := x)"
    by (simp_all add: seqs_def datas_def goto_def fun_eq_iff)
  have others: "filling (pos q j) \<noteq> Some ?h" if "j \<noteq> i" for j
    using D(6) at that unfolding tickets_ok_def by (metis filling.simps(1))
  show ?thesis
    using ring_write [OF D(4) h(1-3)] pos_ok_write [OF D(4) h(1-3) D(5) others] h
      tickets_move [OF D(6), of ?p i] at
    by (intro mpmc_okI [OF ok, of _ i ?p]) (simp_all only: eqs', simp_all add: goto_def D(3))
qed

lemma publish_ok:
  assumes ok: "mpmc_ok k q" and at: "pos q i = EStore x h" and room: "length (claimed q) < 2 ^ 63"
  shows "mpmc_ok k (return i (Enqueued True)
    (q\<lparr>buffer := (buffer q)[slot q h := (buffer q ! slot q h)\<lparr>node_seq := h + 1\<rparr>]\<rparr>))"
    (is "mpmc_ok k (return i ?r ?u)")
proof -
  note D = mpmc_ok_D [OF ok]
  let ?h = "unat h"
  have h: "unat (tail_seq q) \<le> ?h" "?h < length (claimed q)" "seqs q (?h mod 2 ^ k) = ?h"
    "datas q (?h mod 2 ^ k) = claimed q ! ?h" using D(5) [of i] at by simp_all
  have "unat (h + 1) = ?h + 1" using h(2) room by (simp add: unat_Suc)
  then have eqs: "seqs ?u = (seqs q)(?h mod 2 ^ k := ?h + 1)" "datas ?u = datas q"
    using seqs_upd(1,4) [OF D(8)] by (simp_all add: D(7))
  then have eqs': "seqs (return i ?r ?u) = (seqs q)(?h mod 2 ^ k := ?h + 1)"
      "datas (return i ?r ?u) = datas q"
    by (simp_all add: seqs_def datas_def return_def fun_eq_iff)
  have others: "filling (pos q j) \<noteq> Some ?h" if "j \<noteq> i" for j
    using D(6) at that unfolding tickets_ok_def by (metis filling.simps(2))
  show ?thesis
    using ring_publish [OF D(4) h(1,2,4)] pos_ok_publish [OF D(4) h(1-3) D(5) others]
      tickets_move [OF D(6), of Idle i]
    by (intro mpmc_okI [OF ok, of _ i Idle]) (simp_all only: eqs', simp_all add: return_def D(3))
qed

lemma take_ok:
  assumes ok: "mpmc_ok k q" and at: "pos q i = DCas t" "tail_seq q = t"
    and room: "length (claimed q) < 2 ^ 63"
  shows "mpmc_ok k (goto i (DData t) (q\<lparr>tail_seq := t + 1\<rparr>))" (is "mpmc_ok k ?u")
proof -
  note D = mpmc_ok_D [OF ok]
  let ?t = "unat t"
  have sq: "seqs q (?t mod 2 ^ k) = ?t + 1" using D(5) [of i] at by simp
  note r = D(4) [unfolded at]
  have T: "unat (t + 1) = ?t + 1" using ring_size(2) [OF r] room by (simp add: unat_Suc)
  have eqs: "seqs ?u = seqs q" "datas ?u = datas q" by (auto simp: goto_def seqs_def datas_def)
  have "tickets_ok (?t + 1) (claimed q) ((pos q)(i := DData t)) (taken q)"
    using draining_taken [OF ok] at by (intro tickets_take D(6) [unfolded at]) auto
  moreover have "pos_ok (2 ^ k) (?t + 1) (seqs q) (datas q) (claimed q) (DData t)"
    using ring_take [OF r sq] sq ring_size(3) [OF r] by simp
  ultimately show ?thesis
    using ring_take(3) [OF r sq] pos_ok_take [OF r sq] D(5) at
    by (intro mpmc_okI [OF ok, of _ i "DData t"]) (simp_all only: eqs, simp_all add: goto_def D(3) T)
qed

lemma release_ok:
  assumes ok: "mpmc_ok k q" and at: "pos q i = DStore t x" and room: "length (claimed q) < 2 ^ 62"
    and k: "k \<le> 62"
  shows "mpmc_ok k (return i (Dequeued (Some x))
    (q\<lparr>buffer := (buffer q)[slot q t := (buffer q ! slot q t)\<lparr>node_seq := t + qmask q + 1\<rparr>],
       taken := taken q @ [(unat t, x)]\<rparr>))" (is "mpmc_ok k (return i ?r ?u)")
proof -
  note D = mpmc_ok_D [OF ok]
  let ?t = "unat t"
  have t: "?t < unat (tail_seq q)" "length (claimed q) \<le> ?t + 2 ^ k"
    "seqs q (?t mod 2 ^ k) = ?t + 1" "x = claimed q ! ?t" using D(5) [of i] at by simp_all
  have pow: "(2 :: nat) ^ k \<le> 2 ^ 62" using k by (intro power_increasing) auto
  have eq: "t + qmask q + 1 = t + 2 ^ k" by (simp add: D(1) mask_eq_exp_minus_1)
  have "unat (2 ^ k :: size_t) = 2 ^ k"
    using pow unat_of_nat [of "2 ^ k", where ?'a = 64] by simp
  then have sum: "unat (t + qmask q + 1) = ?t + 2 ^ k"
    using t(1) room pow ring_size(2) [OF D(4)] unfolding eq by (simp add: unat_word_ariths)
  let ?v = "q\<lparr>buffer := (buffer q)[slot q t := (buffer q ! slot q t)\<lparr>node_seq := t + qmask q + 1\<rparr>]\<rparr>"
  have "seqs ?v = (seqs q)(?t mod 2 ^ k := ?t + 2 ^ k)" "datas ?v = datas q"
    using seqs_upd(1,4) [OF D(8), of t] by (simp_all only: sum) (simp_all add: D(7))
  then have eqs: "seqs (return i ?r ?u) = (seqs q)(?t mod 2 ^ k := ?t + 2 ^ k)"
      "datas (return i ?r ?u) = datas q"
    by (simp_all add: seqs_def datas_def return_def fun_eq_iff)
  have others: "draining (pos q j) \<noteq> Some ?t" if "j \<noteq> i" for j
    using D(6) at that unfolding tickets_ok_def by (metis draining.simps(2))
  have "tickets_ok (unat (tail_seq q)) (claimed q) ((pos q)(i := Idle)) (taken q @ [(?t, x)])"
    using at t(1) unfolding t(4) by (intro tickets_done [OF D(6)]) auto
  then show ?thesis
    using ring_release [OF D(4) t(1,2)] pos_ok_release [OF D(4) t(1-3) D(5) others]
    by (intro mpmc_okI [OF ok, of _ i Idle]) (simp_all only: eqs, simp_all add: return_def D(3))
qed

lemma enqueue_ok:
  assumes ok: "mpmc_ok k q" and step: "enqueue_step sp i q = Some q'"
    and room: "length (claimed q') < 2 ^ 62"
  shows "mpmc_ok k q'"
proof -
  note D = mpmc_ok_D [OF ok]
  have load: "mpmc_ok k (goto i (ESeq x (head_seq q)) q)" for x
    using mpmc_ok_goto [OF ok, of "ESeq x (head_seq q)"] D(3) by simp
  show ?thesis
  proof (cases "pos q i")
    case (ESeq x h)
    have pos: "unat h \<le> length (claimed q)" using D(5) [of i] ESeq by simp
    show ?thesis
    proof (cases "dif (node_seq (buffer q ! slot q h)) h = 0")
      case True
      then have "seqs q (unat h mod 2 ^ k) = unat h" by (simp add: dif_0 seqs_def D(7))
      then have "mpmc_ok k (goto i (ECas x h 0) q)" using pos by (intro mpmc_ok_goto [OF ok]) auto
      with step True ESeq show ?thesis by (simp add: Let_def)
    next
      case False
      have "mpmc_ok k (goto i (ESeq x h) q)" using pos by (intro mpmc_ok_goto [OF ok]) auto
      with step False ESeq show ?thesis by (simp add: Let_def)
    qed
  next
    case (ECas x h d)
    have d: "d = 0" using D(5) [of i] ECas by simp
    show ?thesis
    proof (cases "head_seq q = h \<and> \<not> sp")
      case True
      with step ECas have q': "q' = goto i (EData x h) (q\<lparr>head_seq := h + 1, claimed := claimed q @ [x]\<rparr>)"
        by simp
      with room have "length (claimed q) < 2 ^ 62" by (simp add: goto_def)
      then show ?thesis unfolding q' using True ECas by (intro claim_ok [OF ok]) auto
    next
      case False
      with step ECas d have "q' = goto i (EReload x) q" by auto
      then show ?thesis using mpmc_ok_goto [OF ok, of "EReload x"] by simp
    qed
  next
    case (EStore x h)
    with step room have "length (claimed q) < 2 ^ 63" by (auto simp: return_def)
    then show ?thesis using publish_ok [OF ok EStore] step EStore by simp
  qed (use step write_ok [OF ok] load in auto)
qed

lemma dequeue_ok:
  assumes ok: "mpmc_ok k q" and step: "dequeue_step sp i q = Some q'"
    and room: "length (claimed q') < 2 ^ 62" and k: "k \<le> 62"
  shows "mpmc_ok k q'"
proof -
  note D = mpmc_ok_D [OF ok]
  have load: "mpmc_ok k (goto i (DSeq (tail_seq q)) q)"
    using mpmc_ok_goto [OF ok, of "DSeq (tail_seq q)"] by simp
  have C: "claimed q' = claimed q"
    using step by (cases "pos q i") (auto simp: goto_def return_def Let_def split: if_splits)
  then have room: "length (claimed q) < 2 ^ 62" "length (claimed q) < 2 ^ 63" using room by simp_all
  show ?thesis
  proof (cases "pos q i")
    case (DSeq t)
    have pos: "unat t \<le> unat (tail_seq q)" using D(5) [of i] DSeq by simp
    show ?thesis
    proof (cases "dif (node_seq (buffer q ! slot q t)) (t + 1) = 0")
      case True
      then have "seqs q (unat t mod 2 ^ k) = unat t + 1"
        using pos room ring_size(2) [OF D(4)] by (simp add: dif_0 seqs_def D(7) unat_Suc)
      then have "mpmc_ok k (goto i (DCas t) q)" using pos by (intro mpmc_ok_goto [OF ok]) auto
      with step True DSeq show ?thesis by (simp add: Let_def)
    next
      case False
      have "mpmc_ok k (goto i DReload q)" by (intro mpmc_ok_goto [OF ok]) auto
      with step False DSeq show ?thesis
        by (auto simp: Let_def intro: mpmc_ok_return [OF ok] split: if_splits)
    qed
  next
    case (DCas t)
    then show ?thesis using step take_ok [OF ok DCas _ room(2)] load by (auto split: if_splits)
  next
    case (DData t)
    have "mpmc_ok k (goto i (DStore t (node_data (buffer q ! slot q t))) q)"
      using D(5) [of i] DData by (intro mpmc_ok_goto [OF ok]) (auto simp: D(7) datas_def)
    then show ?thesis using step DData by simp
  next
    case (DStore t x)
    then show ?thesis using step release_ok [OF ok DStore room(1) k] by simp
  qed (use step load in auto)
qed

lemma mpmc_step_ok:
  assumes "mpmc_ok k q" "mpmc_step l q = Some q'" "length (claimed q') < 2 ^ 62" "k \<le> 62"
  shows "mpmc_ok k q'"
proof (cases l)
  case (Enqueue i x)
  then show ?thesis using assms(2) mpmc_ok_goto [OF assms(1), of "ELoad x"] by (auto split: if_splits)
next
  case (Dequeue i)
  then show ?thesis using assms(2) mpmc_ok_goto [OF assms(1), of DLoad] by (auto split: if_splits)
next
  case (Run i)
  then show ?thesis using assms(2) enqueue_ok [OF assms(1)] dequeue_ok [OF assms(1)] assms(3,4)
    by (cases "enqueue_step False i q") auto
next
  case (Spurious i)
  then show ?thesis using assms(2) enqueue_ok [OF assms(1) _ assms(3)] dequeue_ok [OF assms(1) _ assms(3,4)]
    by (auto simp del: enqueue_step.simps dequeue_step.simps split: pos.splits)
qed

lemma mpmc_claims_grow: "mpmc_step l q = Some q' \<Longrightarrow> length (claimed q) \<le> length (claimed q')"
  by (cases l; cases "pos q (case l of Enqueue i x \<Rightarrow> i | Dequeue i \<Rightarrow> i | Run i \<Rightarrow> i | Spurious i \<Rightarrow> i)")
    (auto simp: goto_def return_def Let_def split: if_splits)

definition mpmc_start :: "'a \<Rightarrow> nat \<Rightarrow> 'a mpmc" where
  "mpmc_start d k = the (mpmc_bounded_queue d (2 ^ k))"

lemma mpmc_start_eq:
  assumes "1 \<le> k" "k \<le> 62"
  shows "mpmc_bounded_queue d (2 ^ k) = Some (mpmc_start d k)"
    and "mpmc_start d k = \<lparr>qsize = 2 ^ k, qmask = mask k,
      buffer = map (\<lambda>i. \<lparr>node_data = d, node_seq = of_nat i\<rparr>) [0..<2 ^ k],
      head_seq = 0, tail_seq = 0, pos = (\<lambda>_. Idle), ret = (\<lambda>_. None), claimed = [], taken = []\<rparr>"
proof -
  have pow: "(2 :: nat) ^ k \<le> 2 ^ 62" using assms by (intro power_increasing) auto
  have u: "unat (2 ^ k :: size_t) = 2 ^ k" using pow unat_of_nat [of "2 ^ k", where ?'a = 64] by simp
  moreover have "(2 :: size_t) ^ k \<noteq> 0" using u by (metis power_not_zero unsigned_0 zero_neq_numeral)
  moreover have "even ((2 :: nat) ^ k)" using assms by simp
  ultimately have "size_ok (2 ^ k)" by (simp add: size_ok_even)
  with u show "mpmc_bounded_queue d (2 ^ k) = Some (mpmc_start d k)"
    "mpmc_start d k = \<lparr>qsize = 2 ^ k, qmask = mask k,
      buffer = map (\<lambda>i. \<lparr>node_data = d, node_seq = of_nat i\<rparr>) [0..<2 ^ k],
      head_seq = 0, tail_seq = 0, pos = (\<lambda>_. Idle), ret = (\<lambda>_. None), claimed = [], taken = []\<rparr>"
    by (simp_all add: mpmc_start_def mpmc_bounded_queue_def mask_eq_exp_minus_1)
qed

lemma mpmc_start_ok:
  assumes "1 \<le> k" "k \<le> 62"
  shows "mpmc_ok k (mpmc_start d k)"
proof -
  have pow: "(2 :: nat) ^ k \<le> 2 ^ 62" using assms by (intro power_increasing) auto
  have sq: "seqs (mpmc_start d k) j = j" if "j < 2 ^ k" for j
    using that pow unat_of_nat [of j, where ?'a = 64] by (simp add: mpmc_start_eq(2) [OF assms] seqs_def)
  have "(2 :: nat) ^ 1 \<le> 2 ^ k" using assms by (intro power_increasing) auto
  then have "ring_ok (2 ^ k) 0 (seqs (mpmc_start d k)) (datas (mpmc_start d k)) []"
    using sq by (intro ring_okI) auto
  then show ?thesis
    by (simp add: mpmc_ok_def tickets_ok_def mpmc_start_eq(2) [OF assms])
qed

text \<open>The invariant holds as long as the 64-bit tickets do not come near to wrapping around.\<close>

interpretation mpmc: safe_machine mpmc_step "mpmc_start d k"
  "\<lambda>q. 1 \<le> k \<and> k \<le> 62 \<and> length (claimed q) < 2 ^ 62 \<longrightarrow> mpmc_ok k q"
  for d :: 'a and k :: nat
proof (unfold_locales, goal_cases)
  case 1
  show ?case by (simp add: mpmc_start_ok)
next
  case (2 s l t)
  with mpmc_claims_grow [OF 2(2)] mpmc_step_ok [OF _ 2(2)] show ?case by auto
qed

lemma mpmc_reach_ok:
  assumes "reach mpmc_step (mpmc_start d k) q" "1 \<le> k" "k \<le> 62" "length (claimed q) < 2 ^ 62"
  shows "mpmc_ok k q"
  using mpmc.reach_inv [OF assms(1)] assms(2-4) by simp

text \<open>The node a thread works on, outside the compare-exchange protocol.\<close>

fun works_on :: "'a mpmc \<Rightarrow> 'a pos \<Rightarrow> nat option" where
  "works_on q (EData x h) = Some (slot q h)"
| "works_on q (EStore x h) = Some (slot q h)"
| "works_on q (DData t) = Some (slot q t)"
| "works_on q (DStore t x) = Some (slot q t)"
| "works_on q _ = None"

lemma works_on_cases:
  assumes ok: "mpmc_ok k q" and at: "works_on q (pos q i) = Some j"
  obtains (fill) h where "filling (pos q i) = Some h" "unat (tail_seq q) \<le> h" "h < length (claimed q)"
      "j = h mod 2 ^ k" "seqs q j = h"
    | (drain) t where "draining (pos q i) = Some t" "j = t mod 2 ^ k" "seqs q j = t + 1"
  using mpmc_ok_D(5) [OF ok, of i] mpmc_ok_D(7) [OF ok] at by (cases "pos q i") auto

lemma slot_exclusive:
  assumes ok: "mpmc_ok k q" and i: "works_on q (pos q i) = Some j" and i': "works_on q (pos q i') = Some j"
  shows "i = i'"
proof -
  note D = mpmc_ok_D [OF ok]
  have F: "filling (pos q a) = Some t \<Longrightarrow> filling (pos q b) = Some t \<Longrightarrow> a = b"
    and G: "draining (pos q a) = Some t \<Longrightarrow> draining (pos q b) = Some t \<Longrightarrow> a = b" for a b t
    using D(6) unfolding tickets_ok_def by blast+
  have no: False if "h mod 2 ^ k = t mod 2 ^ k" "h = t + 1" for h t :: nat
    using that mod_ne [of t h "2 ^ k" t] ring_size(1) [OF D(4)] by simp
  from ok i show ?thesis
  proof (cases rule: works_on_cases)
    case A: (fill h)
    from ok i' show ?thesis
    proof (cases rule: works_on_cases)
      case (fill g)
      then show ?thesis using F A(1,5) fill(1,5) by metis
    next
      case (drain t)
      then show ?thesis using no A(4,5) drain(2,3) by metis
    qed
  next
    case A: (drain t)
    from ok i' show ?thesis
    proof (cases rule: works_on_cases)
      case (fill g)
      then show ?thesis using no A(2,3) fill(4,5) by metis
    next
      case (drain u)
      then show ?thesis using G A(1,3) drain(1,3) by (metis add_right_cancel)
    qed
  qed
qed

text \<open>A slot whose ticket has been taken has moved on.\<close>

lemma seq_past:
  assumes r: "ring_ok N T sq dt C" and h: "h < T"
  shows "sq (h mod N) \<noteq> h"
proof -
  define g where "g = h + N * ((T + N - 1 - h) div N)"
  have N: "0 < N" using ring_size(1) [OF r] by simp
  have "N * ((T + N - 1 - h) div N) \<le> T + N - 1 - h" by simp
  moreover have "T + N - 1 - h < N * ((T + N - 1 - h) div N) + N"
    using N by (metis add.commute dividend_less_times_div mult.commute)
  ultimately have g: "T \<le> g" "g < T + N" using h N unfolding g_def by linarith+
  have eq: "g mod N = h mod N" by (simp add: g_def)
  have "sq (g mod N) = g \<or> sq (g mod N) = g + 1 \<or> sq (g mod N) + N = g + 1"
    using ring_full [OF r g(1)] ring_free [OF r _ g(2)] by (cases "g < length C") auto
  moreover have "h + N \<le> g"
  proof -
    have "1 \<le> (T + N - 1 - h) div N" using h N by (simp add: Suc_le_eq div_greater_zero_iff)
    then show ?thesis unfolding g_def by (metis add_left_mono mult.right_neutral mult_le_mono2)
  qed
  ultimately show ?thesis unfolding eq using N by linarith
qed

lemma spin:
  assumes "pos q i = ESeq x h" "node_seq (buffer q ! slot q h) \<noteq> h"
  shows "mpmc_step (Run i) q = Some q"
proof -
  have "(pos q)(i := pos q i) = pos q" by simp
  then have "goto i (pos q i) q = q" by (simp add: goto_def del: fun_upd_triv)
  with assms show ?thesis by (simp add: dif_0 Let_def)
qed

fun actor :: "'a label \<Rightarrow> tid" where
  "actor (Enqueue i x) = i"
| "actor (Dequeue i) = i"
| "actor (Run i) = i"
| "actor (Spurious i) = i"

lemma mpmc_step_frame:
  "mpmc_step l q = Some q' \<Longrightarrow> j \<noteq> actor l \<Longrightarrow> pos q' j = pos q j \<and> ret q' j = ret q j"
  by (cases l; cases "pos q (actor l)") (auto simp: goto_def return_def Let_def split: if_splits)

lemma tail_grows:
  assumes "mpmc_ok k q" "mpmc_step l q = Some q'" "length (claimed q') < 2 ^ 62"
  shows "unat (tail_seq q) \<le> unat (tail_seq q')"
proof (cases "tail_seq q' = tail_seq q")
  case False
  then have "tail_seq q' = tail_seq q + 1"
    using assms(2) by (cases l; cases "pos q (actor l)") (auto simp: goto_def return_def Let_def split: if_splits)
  moreover have "unat (tail_seq q) + 1 < 2 ^ 64"
    using ring_size(2) [OF mpmc_ok_D(4) [OF assms(1)]] mpmc_claims_grow [OF assms(2)] assms(3) by simp
  ultimately show ?thesis by (simp add: unat_Suc)
qed simp

lemma stale_step:
  assumes ok: "mpmc_ok k q" and at: "pos q i = ESeq x h" "unat h < unat (tail_seq q)"
    and step: "mpmc_step l q = Some q'"
  shows "pos q' i = ESeq x h"
proof (cases "actor l = i")
  case True
  have "seqs q (unat h mod 2 ^ k) \<noteq> unat h" by (rule seq_past [OF mpmc_ok_D(4) [OF ok] at(2)])
  then have "node_seq (buffer q ! slot q h) \<noteq> h" by (auto simp: seqs_def mpmc_ok_D(7) [OF ok])
  then have "mpmc_step (Run i) q = Some q" by (rule spin [OF at(1)])
  with True step at(1) show ?thesis by (cases l) auto
next
  case False
  then show ?thesis using mpmc_step_frame [OF step] at(1) by metis
qed

text \<open>No call of \<open>enqueue\<close> returns \<open>false\<close>, whatever the size.\<close>

definition never_refused :: "'a mpmc \<Rightarrow> bool" where
  "never_refused q \<longleftrightarrow> (\<forall>i. ret q i \<noteq> Some (Enqueued False)) \<and> (\<forall>i x h d. pos q i = ECas x h d \<longrightarrow> d = 0)"

lemma never_refused_step:
  assumes "never_refused q" "mpmc_step l q = Some q'"
  shows "never_refused q'"
proof -
  have "ret q' (actor l) \<noteq> Some (Enqueued False) \<and> (\<forall>x h d. pos q' (actor l) = ECas x h d \<longrightarrow> d = 0)"
    using assms by (cases l; cases "pos q (actor l)")
      (fastforce simp: never_refused_def goto_def return_def Let_def split: if_splits)+
  then show ?thesis using assms(1) mpmc_step_frame [OF assms(2)] unfolding never_refused_def by metis
qed

interpretation never_refused: safe_machine mpmc_step q0 "\<lambda>q. never_refused q0 \<longrightarrow> never_refused q"
  for q0 :: "'a mpmc"
  by unfold_locales (auto intro: never_refused_step)

lemma mpmc_start_1:
  "mpmc_start d 1 = \<lparr>qsize = 2, qmask = 1,
      buffer = [\<lparr>node_data = d, node_seq = 0\<rparr>, \<lparr>node_data = d, node_seq = 1\<rparr>],
      head_seq = 0, tail_seq = 0, pos = (\<lambda>_. Idle), ret = (\<lambda>_. None), claimed = [], taken = []\<rparr>"
  using mpmc_start_eq(2) [of 1 d] by (simp add: numeral_2_eq_2)

section \<open>Properties\<close>

text \<open>C1: in a queue of \<open>2 ^ k\<close> slots, under any interleaving of any number of producers and
  consumers, every value that \<open>dequeue\<close> returns is the value of the enqueue with the same ticket, no
  ticket is dequeued twice, and the number of claimed and not yet taken tickets stays between zero
  and the size: the queue neither loses, duplicates nor invents elements. (Fewer than \<open>2 ^ 62\<close>
  claims, so that the 64-bit tickets do not wrap.)\<close>

theorem mpmc_fifo:
  assumes "reach mpmc_step (mpmc_start d k) q" "1 \<le> k" "k \<le> 62" "length (claimed q) < 2 ^ 62"
  shows "distinct (map fst (taken q)) \<and>
    (\<forall>p \<in> set (taken q). fst p < unat (tail_seq q) \<and> snd p = claimed q ! fst p) \<and>
    unat (head_seq q) = length (claimed q) \<and>
    unat (tail_seq q) \<le> length (claimed q) \<and> length (claimed q) \<le> unat (tail_seq q) + 2 ^ k"
proof -
  have ok: "mpmc_ok k q" using assms by (rule mpmc_reach_ok)
  show ?thesis
    using mpmc_ok_D(3,6) [OF ok] ring_size [OF mpmc_ok_D(4) [OF ok]] by (simp add: tickets_ok_def)
qed

definition mpmc_demo :: "nat label list" where
  "mpmc_demo = [Enqueue 0 7, Enqueue 1 8, Run 0, Run 1, Run 0, Run 0, Run 1, Run 1, Run 1, Run 1, Run 1,
     Run 0, Run 0, Run 1, Run 1, Dequeue 2, Run 2, Run 2, Run 2, Run 2, Run 2]"

theorem mpmc_fifo_witness:
  "\<exists>q. exec mpmc_step mpmc_demo (mpmc_start 0 1) = Some q \<and> taken q = [(0, 7)] \<and>
     claimed q = [7, 8] \<and> distinct (map fst (taken q))"
proof -
  obtain q where q: "exec mpmc_step mpmc_demo (mpmc_start 0 1) = Some q" "taken q = [(0, 7)]" "claimed q = [7, 8]"
    unfolding mpmc_start_1 mpmc_demo_def by (simp add: slot_def dif_def goto_def return_def Let_def)
  then show ?thesis using mpmc_fifo [OF reachI [OF q(1)]] by simp
qed

text \<open>C2: at any moment at most one thread works on a slot: between the compare-exchange that claims
  a ticket and the store that publishes the new sequence number, no other producer or consumer reads
  or writes the data of the same node.\<close>

theorem mpmc_slot_exclusive:
  assumes "reach mpmc_step (mpmc_start d k) q" "1 \<le> k" "k \<le> 62" "length (claimed q) < 2 ^ 62"
    and "works_on q (pos q i) = Some j" "works_on q (pos q i') = Some j"
  shows "i = i'"
  using slot_exclusive [OF mpmc_reach_ok [OF assms(1-4)] assms(5,6)] .

theorem mpmc_slot_exclusive_witness:
  "\<exists>q. exec mpmc_step [Enqueue 3 (7 :: nat), Run 3, Run 3, Run 3] (mpmc_start 0 1) = Some q \<and>
     (\<forall>i. works_on q (pos q i) = Some 0 \<longrightarrow> i = 3)"
proof -
  obtain q where q: "exec mpmc_step [Enqueue 3 (7 :: nat), Run 3, Run 3, Run 3] (mpmc_start 0 1) = Some q"
      "works_on q (pos q 3) = Some 0" "claimed q = [7]"
    unfolding mpmc_start_1 by (simp add: slot_def dif_def goto_def return_def Let_def)
  then show ?thesis using mpmc_slot_exclusive [OF reachI [OF q(1)]] by simp
qed

text \<open>The constructor's assertion, which the comment calls a check for a power of two, accepts
  exactly the even sizes other than zero. With size 6 it builds a queue whose index mask 5 never
  selects slots 2 and 3.\<close>

theorem mpmc_size_check:
  "(mpmc_bounded_queue d n \<noteq> None \<longleftrightarrow> n \<noteq> 0 \<and> even (unat n)) \<and>
   slot (the (mpmc_bounded_queue d 6)) x \<notin> {2, 3}"
proof -
  have "size_ok 6" by (simp add: size_ok_def)
  then have "slot (the (mpmc_bounded_queue d 6)) x = unat (x AND 5)"
    by (simp add: mpmc_bounded_queue_def slot_def)
  moreover have "unat (x AND 5) \<noteq> m" if "bit (of_nat m :: size_t) 1" for m
  proof
    assume "unat (x AND 5) = m"
    moreover have "of_nat (unat (x AND 5)) = x AND 5" by simp
    ultimately have "x AND 5 = of_nat m" by simp
    moreover have "\<not> bit (x AND 5 :: size_t) 1" by (simp add: bit_and_iff)
    ultimately show False using that by simp
  qed
  then have "unat (x AND 5) \<noteq> 2" "unat (x AND 5) \<noteq> 3" by simp_all
  ultimately show ?thesis by (simp add: mpmc_bounded_queue_def size_ok_even)
qed

text \<open>\<open>enqueue\<close> never reports a full queue: no call returns \<open>false\<close> in any run of a queue of any
  size, and in a full queue of \<open>2 ^ k\<close> slots a producer that has read the current head spins, its
  step leading back to the same state.\<close>

theorem mpmc_full_spins:
  assumes "mpmc_bounded_queue d (2 ^ k) = Some q0" "reach mpmc_step q0 q" "1 \<le> k" "k \<le> 62"
    and "length (claimed q) < 2 ^ 62" "length (claimed q) = unat (tail_seq q) + 2 ^ k"
    and "pos q i = ESeq x (head_seq q)"
  shows "mpmc_step (Run i) q = Some q \<and> ret q j \<noteq> Some (Enqueued False)"
proof
  have q0: "q0 = mpmc_start d k" using assms(1) by (simp add: mpmc_start_def)
  have ok: "mpmc_ok k q" by (rule mpmc_reach_ok [OF assms(2) [unfolded q0] assms(3-5)])
  note D = mpmc_ok_D [OF ok]
  have "seqs q (length (claimed q) mod 2 ^ k) \<noteq> length (claimed q)"
    using ring_head_free [OF D(4)] assms(6) by (metis less_irrefl)
  then have "node_seq (buffer q ! slot q (head_seq q)) \<noteq> head_seq q"
    using D(3) by (auto simp: seqs_def D(7))
  then show "mpmc_step (Run i) q = Some q" by (rule spin [OF assms(7)])
  have "never_refused q0" using assms(1) by (auto simp: never_refused_def mpmc_bounded_queue_def split: if_splits)
  then show "ret q j \<noteq> Some (Enqueued False)"
    using never_refused.reach_inv [OF assms(2)] by (simp add: never_refused_def)
qed

definition fill_run :: "nat label list" where
  "fill_run = [Enqueue 0 7, Run 0, Run 0, Run 0, Run 0, Run 0, Enqueue 0 8, Run 0, Run 0, Run 0, Run 0, Run 0,
     Enqueue 1 9, Run 1]"

theorem mpmc_full_spins_witness:
  "\<exists>q. exec mpmc_step fill_run (mpmc_start 0 1) = Some q \<and> mpmc_step (Run 1) q = Some q"
proof -
  obtain q where q: "exec mpmc_step fill_run (mpmc_start 0 1) = Some q" "claimed q = [7, 8]"
      "tail_seq q = 0" "pos q 1 = ESeq 9 (head_seq q)"
    unfolding mpmc_start_1 fill_run_def by (simp add: slot_def dif_def goto_def return_def Let_def)
  have "mpmc_bounded_queue 0 (2 ^ 1) = Some (mpmc_start 0 1)" by (rule mpmc_start_eq) simp_all
  from mpmc_full_spins [OF this reachI [OF q(1)], of 1 9 1] show ?thesis using q by simp
qed

text \<open>A producer whose local ticket has been consumed by the time it looks at the slot is lost:
  since the loop reloads the head only after a failed compare-exchange, it spins for ever, however
  much room the other threads make.\<close>

theorem mpmc_stale_producer_stuck:
  assumes "reach mpmc_step (mpmc_start d k) q" "1 \<le> k" "k \<le> 62"
    and "pos q i = ESeq x h" "unat h < unat (tail_seq q)"
    and "exec mpmc_step ls q = Some q'" "length (claimed q') < 2 ^ 62"
  shows "pos q' i = ESeq x h \<and> mpmc_step (Run i) q' = Some q'"
  using assms(1,4-7)
proof (induction ls arbitrary: q)
  case Nil
  then have ok: "mpmc_ok k q'" using mpmc_reach_ok [OF Nil(1) assms(2,3)] by simp
  have "seqs q' (unat h mod 2 ^ k) \<noteq> unat h"
    using Nil by (intro seq_past [OF mpmc_ok_D(4) [OF ok]]) simp
  then have "node_seq (buffer q' ! slot q' h) \<noteq> h" by (auto simp: seqs_def mpmc_ok_D(7) [OF ok])
  with Nil show ?case using spin [of q' i x h] by simp
next
  case (Cons l ls)
  obtain u where u: "mpmc_step l q = Some u" "exec mpmc_step ls u = Some q'"
    using Cons.prems(4) by (auto split: option.splits)
  have "length (claimed u) \<le> length (claimed q')"
    using u(2) by (induction ls arbitrary: u) (auto split: option.splits dest: mpmc_claims_grow le_trans)
  then have room: "length (claimed u) < 2 ^ 62" "length (claimed q) < 2 ^ 62"
    using Cons.prems(5) mpmc_claims_grow [OF u(1)] by simp_all
  have ok: "mpmc_ok k q" using mpmc_reach_ok [OF Cons.prems(1) assms(2,3) room(2)] .
  show ?case
    by (rule Cons.IH [OF reach_step [OF Cons.prems(1) u(1)] stale_step [OF ok Cons.prems(2,3) u(1)]
        less_le_trans [OF Cons.prems(3) tail_grows [OF ok u(1) room(1)]] u(2) Cons.prems(5)])
qed

definition stale_run :: "nat label list" where
  "stale_run = [Enqueue 1 9, Run 1, Enqueue 0 7, Run 0, Run 0, Run 0, Run 0, Run 0,
     Dequeue 2, Run 2, Run 2, Run 2, Run 2, Run 2]"

theorem mpmc_stale_producer_stuck_witness:
  "\<exists>q. exec mpmc_step stale_run (mpmc_start 0 1) = Some q \<and> taken q = [(0, 7)] \<and>
     length (claimed q) = 1 \<and> mpmc_step (Run 1) q = Some q"
proof -
  obtain q where q: "exec mpmc_step stale_run (mpmc_start 0 1) = Some q" "taken q = [(0, 7)]"
      "tail_seq q = 1" "pos q 1 = ESeq 9 0" "length (claimed q) = 1"
    unfolding mpmc_start_1 stale_run_def by (simp add: slot_def dif_def goto_def return_def Let_def)
  then show ?thesis using mpmc_stale_producer_stuck [OF reachI [OF q(1)], of 1 9 0 "[]" q] by simp
qed

end
