(* ===== verification/Heap_Lists.thy ===== *)
theory Heap_Lists
  imports Sync_Prelude
begin

text \<open>
  Singly linked lists of integers in a heap, as \<open>linkedlist-c.cpp\<close>, \<open>linkedlist.cpp\<close> and
  \<open>queue.cpp\<close> build them: the nodes, the memory errors, and the predicate that relates a pointer to
  the keys or to the addresses of the list it starts.
\<close>

type_synonym addr = nat

record lnode =
  key :: int
  nxt :: "addr option"

type_synonym heap = "addr \<Rightarrow> lnode option"

datatype mem_error = UseAfterFree | BadFree | OutOfBounds | Overflow

type_synonym 'a res = "mem_error + 'a"

fun is_list :: "heap \<Rightarrow> addr option \<Rightarrow> int list \<Rightarrow> bool" where
  "is_list h p [] = (p = None)"
| "is_list h p (k # ks) = (\<exists>a n. p = Some a \<and> h a = Some n \<and> key n = k \<and> is_list h (nxt n) ks)"

lemma is_list_unique: "is_list h p ks \<Longrightarrow> is_list h p ks' \<Longrightarrow> ks = ks'"
proof (induction ks arbitrary: p ks')
  case Nil
  then show ?case by (cases ks') auto
next
  case (Cons k ks)
  then show ?case by (cases ks') auto
qed

lemma is_list_frame: "h a = None \<Longrightarrow> is_list h p ks \<Longrightarrow> is_list (h(a := x)) p ks"
  by (induction ks arbitrary: p) auto

text \<open>The addresses of a list, in order.\<close>

fun path :: "heap \<Rightarrow> addr option \<Rightarrow> addr list \<Rightarrow> bool" where
  "path h p [] = (p = None)"
| "path h p (a # as) = (p = Some a \<and> (case h a of None \<Rightarrow> False | Some n \<Rightarrow> path h (nxt n) as))"

definition keys :: "heap \<Rightarrow> addr list \<Rightarrow> int list" where
  "keys h as = map (\<lambda>a. key (the (h a))) as"

lemma keys_simps [simp]:
  "keys h [] = []" "keys h (a # as) = key (the (h a)) # keys h as"
  "keys h (as @ bs) = keys h as @ keys h bs"
  by (simp_all add: keys_def)

lemma path_is_list: "path h p as \<Longrightarrow> is_list h p (keys h as)"
  by (induction as arbitrary: p) (auto split: option.splits)

lemma path_upd [simp]: "a \<notin> set as \<Longrightarrow> path (h(a := x)) p as = path h p as"
  by (induction as arbitrary: p) (auto split: option.splits)

lemma keys_upd [simp]: "a \<notin> set as \<Longrightarrow> keys (h(a := x)) as = keys h as"
  by (induction as) auto

lemma path_dom: "path h p as \<Longrightarrow> a \<in> set as \<Longrightarrow> h a \<noteq> None"
  by (induction as arbitrary: p) (auto split: option.splits)

lemma path_unique: "path h p as \<Longrightarrow> path h p bs \<Longrightarrow> as = bs"
proof (induction as arbitrary: p bs)
  case Nil
  then show ?case by (cases bs) auto
next
  case (Cons a as)
  then show ?case by (cases bs) (auto split: option.splits)
qed

lemma path_suffix: "path h p (as @ a # bs) \<Longrightarrow> path h (Some a) (a # bs)"
proof (induction as arbitrary: p)
  case (Cons b as)
  from Cons.prems obtain n :: lnode where "path h (nxt n) (as @ a # bs)" by (auto split: option.splits)
  then show ?case by (rule Cons.IH)
qed simp

text \<open>A list that ends has no cycle.\<close>

lemma path_distinct: "path h p as \<Longrightarrow> distinct as"
proof (induction as arbitrary: p)
  case Nil
  then show ?case by simp
next
  case (Cons a as)
  have "a \<notin> set as"
  proof
    assume "a \<in> set as"
    then obtain bs cs where as: "as = bs @ a # cs" by (auto simp: in_set_conv_decomp)
    then have "path h (Some a) (a # cs)" using path_suffix [of h p "a # bs" a cs] Cons.prems by simp
    moreover have "path h (Some a) (a # as)" using Cons.prems by simp
    ultimately show False using path_unique as by fastforce
  qed
  moreover have "distinct as" using Cons by (auto split: option.splits)
  ultimately show ?case by simp
qed

lemma path_Some: "path h (Some a) as \<Longrightarrow> \<exists>n bs. h a = Some n \<and> as = a # bs \<and> path h (nxt n) bs"
  by (cases as) (auto split: option.splits)

end
