(* ===== verification/Linked_List_Cpp.thy ===== *)
theory Linked_List_Cpp
  imports Heap_Lists
begin

text \<open>
  \<open>threads-locks/Locked data structures/linkedlist&hash-map-cpp/\<close>: \<open>LinkedList\<close> (\<open>linkedlist.hpp\<close>,
  \<open>linkedlist.cpp\<close>) and the \<open>HashMap\<close> of 101 such lists (\<open>hashmap-cpp.cpp\<close>).

  The nodes live in one heap, a partial map from addresses; a store is the heap with the \<open>head_\<close>
  pointer of each list object. \<open>new\<close> may return any address that is not allocated, so the address
  is an argument of \<open>Insert\<close>. An access of a node that is not allocated is an error value. A loop
  over the nodes is a \<open>partial_function\<close>: on a cyclic list it has no value. Every operation holds
  the mutex of its list during the accesses of shared state, so the operations on one list follow
  one another.

  The locale \<open>list_store\<close> is what a hash map needs from its lists; \<open>HashMap\<close> is proved against it.
\<close>

record store =
  heap :: heap
  heads :: "nat \<Rightarrow> addr option"

section \<open>LinkedList\<close>

definition LinkedList :: "nat \<Rightarrow> store \<Rightarrow> store" where
  "LinkedList i w = w\<lparr>heads := (heads w)(i := None)\<rparr>"

definition Insert :: "nat \<Rightarrow> addr \<Rightarrow> int \<Rightarrow> store \<Rightarrow> store" where
  "Insert i a k w =
     (let h1 = (heap w)(a \<mapsto> \<lparr>key = 0, nxt = None\<rparr>);
          h2 = h1(a \<mapsto> \<lparr>key = k, nxt = None\<rparr>);
          h3 = h2(a \<mapsto> \<lparr>key = k, nxt = heads w i\<rparr>)
      in w\<lparr>heap := h3, heads := (heads w)(i := Some a)\<rparr>)"

partial_function (option) lookup_loop :: "heap \<Rightarrow> int \<Rightarrow> addr option \<Rightarrow> bool res option" where
  [code]: "lookup_loop h k p =
     (case p of None \<Rightarrow> Some (Inr False)
      | Some a \<Rightarrow>
          (case h a of None \<Rightarrow> Some (Inl UseAfterFree)
           | Some n \<Rightarrow> if key n = k then Some (Inr True) else lookup_loop h k (nxt n)))"

definition LookUp :: "nat \<Rightarrow> int \<Rightarrow> store \<Rightarrow> bool res option" where
  "LookUp i k w = lookup_loop (heap w) k (heads w i)"

text \<open>The destructor. \<open>delete\<close> of the null pointer does nothing.\<close>

definition delete_node :: "addr option \<Rightarrow> heap \<Rightarrow> heap res" where
  "delete_node p h =
     (case p of None \<Rightarrow> Inr h
      | Some a \<Rightarrow> (case h a of None \<Rightarrow> Inl BadFree | Some n \<Rightarrow> Inr (h(a := None))))"

partial_function (option) destroy_loop :: "heap \<Rightarrow> addr option \<Rightarrow> heap res option" where
  [code]: "destroy_loop h p =
     (case p of None \<Rightarrow> Some (Inr h)
      | Some a \<Rightarrow>
          (case h a of None \<Rightarrow> Some (Inl UseAfterFree)
           | Some n \<Rightarrow>
               (case delete_node (nxt n) h of Inl e \<Rightarrow> Some (Inl e)
                | Inr h' \<Rightarrow> destroy_loop h' (nxt n))))"

definition destroy :: "nat \<Rightarrow> store \<Rightarrow> store res option" where
  "destroy i w =
     (case destroy_loop (heap w) (heads w i) of None \<Rightarrow> None
      | Some (Inl e) \<Rightarrow> Some (Inl e)
      | Some (Inr h) \<Rightarrow> Some (Inr (w\<lparr>heap := h\<rparr>)))"

section \<open>Lists in the heap\<close>

lemma lookup_list: "is_list h p ks \<Longrightarrow> lookup_loop h k p = Some (Inr (k \<in> set ks))"
proof (induction ks arbitrary: p)
  case Nil
  then show ?case by (simp add: lookup_loop.simps)
next
  case (Cons x ks)
  then show ?case by (auto simp: lookup_loop.simps [of h k p])
qed

text \<open>The keys of list \<open>i\<close>, newest first.\<close>

definition holds :: "store \<Rightarrow> nat \<Rightarrow> int list \<Rightarrow> bool" where
  "holds w i ks \<longleftrightarrow> is_list (heap w) (heads w i) ks"

lemma holds_unique: "holds w i ks \<Longrightarrow> holds w i ks' \<Longrightarrow> ks = ks'"
  unfolding holds_def by (rule is_list_unique)

lemma holds_new: "holds (LinkedList i w) i []"
  by (simp add: holds_def LinkedList_def)

lemma holds_insert: "heap w a = None \<Longrightarrow> holds w i ks \<Longrightarrow> holds (Insert i a k w) i (k # ks)"
  by (simp add: holds_def Insert_def Let_def is_list_frame)

lemma holds_insert_other:
  "heap w a = None \<Longrightarrow> i \<noteq> j \<Longrightarrow> holds w j ks \<Longrightarrow> holds (Insert i a k w) j ks"
  by (simp add: holds_def Insert_def Let_def is_list_frame)

lemma LookUp_holds: "holds w i ks \<Longrightarrow> LookUp i k w = Some (Inr (k \<in> set ks))"
  by (simp add: holds_def LookUp_def lookup_list)

section \<open>The interface of a store of lists\<close>

locale list_store =
  fixes fresh :: "'w \<Rightarrow> addr \<Rightarrow> bool"
    and ins :: "nat \<Rightarrow> addr \<Rightarrow> int \<Rightarrow> 'w \<Rightarrow> 'w"
    and look :: "nat \<Rightarrow> int \<Rightarrow> 'w \<Rightarrow> bool res option"
    and contents :: "'w \<Rightarrow> nat \<Rightarrow> int list \<Rightarrow> bool"
  assumes contents_ins: "fresh w a \<Longrightarrow> contents w i ks \<Longrightarrow> contents (ins i a k w) i (k # ks)"
    and contents_other: "fresh w a \<Longrightarrow> i \<noteq> j \<Longrightarrow> contents w j ks \<Longrightarrow> contents (ins i a k w) j ks"
    and look_contents: "contents w i ks \<Longrightarrow> look i k w = Some (Inr (k \<in> set ks))"
begin

text \<open>A hash map over the store: every key is in the list its index selects, and only there.\<close>

definition hashed :: "(int \<Rightarrow> nat) \<Rightarrow> nat \<Rightarrow> 'w \<Rightarrow> int set \<Rightarrow> bool" where
  "hashed f n w K \<longleftrightarrow>
     (\<forall>i<n. \<exists>ks. contents w i ks \<and> set ks = {k \<in> K. f k = i}) \<and> (\<forall>k. f k < n)"

lemma hashed_insert:
  assumes w: "hashed f n w K" and a: "fresh w a"
  shows "hashed f n (ins (f k) a k w) (insert k K)"
  unfolding hashed_def
proof (intro conjI allI impI)
  fix i assume i: "i < n"
  obtain ks where ks: "contents w i ks" "set ks = {k \<in> K. f k = i}"
    using w i unfolding hashed_def by blast
  show "\<exists>ks. contents (ins (f k) a k w) i ks \<and> set ks = {x \<in> insert k K. f x = i}"
  proof (cases "i = f k")
    case True
    with contents_ins [OF a ks(1)] ks(2) show ?thesis by (intro exI [of _ "k # ks"]) auto
  next
    case False
    with contents_other [OF a _ ks(1)] ks(2) show ?thesis by (intro exI [of _ ks]) auto
  qed
qed (use w in \<open>simp add: hashed_def\<close>)

lemma hashed_lookup:
  assumes w: "hashed f n w K"
  shows "look (f k) k w = Some (Inr (k \<in> K))"
proof -
  obtain ks where "contents w (f k) ks" "set ks = {x \<in> K. f x = f k}"
    using w unfolding hashed_def by blast
  then show ?thesis using look_contents by simp
qed

end

interpretation cpp: list_store "\<lambda>w a. heap w a = None" Insert LookUp holds
  by unfold_locales (simp_all add: holds_insert holds_insert_other LookUp_holds)

section \<open>HashMap\<close>

definition BUCKETS :: nat where
  "BUCKETS = 101"

text \<open>The map over the lists 0 to 100 of a store. \<open>abs\<close> of the least \<open>int\<close> has no value of type
  \<open>int\<close>; the remainder is taken in \<open>uint32_t\<close>.\<close>

definition hash_index :: "int \<Rightarrow> nat" where
  "hash_index v = nat \<bar>v\<bar> mod BUCKETS"

definition HashMap :: store where
  "HashMap = fold LinkedList [0..<BUCKETS] \<lparr>heap = (\<lambda>_. None), heads = (\<lambda>_. None)\<rparr>"

definition HashMap_Insert :: "addr \<Rightarrow> int \<Rightarrow> store \<Rightarrow> store res" where
  "HashMap_Insert a v w = (if v = - (2 ^ 31) then Inl Overflow else Inr (Insert (hash_index v) a v w))"

definition HashMap_Lookup :: "int \<Rightarrow> store \<Rightarrow> bool res option" where
  "HashMap_Lookup v w = (if v = - (2 ^ 31) then Some (Inl Overflow) else LookUp (hash_index v) v w)"

text \<open>The destructor of the map destroys its array of lists, the last one first.\<close>

fun destroy_lists :: "nat list \<Rightarrow> store \<Rightarrow> store res option" where
  "destroy_lists [] w = Some (Inr w)"
| "destroy_lists (i # is) w =
     (case destroy i w of None \<Rightarrow> None | Some (Inl e) \<Rightarrow> Some (Inl e) | Some (Inr w') \<Rightarrow> destroy_lists is w')"

definition HashMap_destroy :: "store \<Rightarrow> store res option" where
  "HashMap_destroy w = destroy_lists (rev [0..<BUCKETS]) w"

text \<open>What \<open>main\<close> prints, and the memory it leaves.\<close>

definition hashmap_main :: "addr \<Rightarrow> (bool \<times> store) res option" where
  "hashmap_main a =
     (case HashMap_Insert a 1 HashMap of
        Inl e \<Rightarrow> Some (Inl e)
      | Inr w \<Rightarrow>
          (case HashMap_Lookup 1 w of
             None \<Rightarrow> None
           | Some (Inl e) \<Rightarrow> Some (Inl e)
           | Some (Inr b) \<Rightarrow> map_option (map_sum id (Pair b)) (HashMap_destroy w)))"

text \<open>A run of insertions, each with the address the allocator gives it.\<close>

fun HashMap_Inserts :: "(addr \<times> int) list \<Rightarrow> store \<Rightarrow> store res" where
  "HashMap_Inserts [] w = Inr w"
| "HashMap_Inserts ((a, v) # xs) w =
     (case HashMap_Insert a v w of Inl e \<Rightarrow> Inl e | Inr w' \<Rightarrow> HashMap_Inserts xs w')"

fun allocs_ok :: "(addr \<times> int) list \<Rightarrow> addr set \<Rightarrow> bool" where
  "allocs_ok [] A = True"
| "allocs_ok ((a, v) # xs) A = (a \<notin> A \<and> v \<noteq> - (2 ^ 31) \<and> allocs_ok xs (insert a A))"

lemma hash_index_less: "hash_index v < BUCKETS"
  by (simp add: hash_index_def BUCKETS_def)

lemma HashMap_init: "HashMap = \<lparr>heap = (\<lambda>_. None), heads = (\<lambda>_. None)\<rparr>"
proof -
  have "fold LinkedList is \<lparr>heap = h, heads = (\<lambda>_. None)\<rparr> = \<lparr>heap = h, heads = (\<lambda>_. None)\<rparr>" for "is" h
    by (induction "is") (simp_all add: LinkedList_def fun_upd_idem)
  then show ?thesis by (simp add: HashMap_def)
qed

lemma HashMap_hashed: "cpp.hashed hash_index BUCKETS HashMap {}"
  by (simp add: cpp.hashed_def hash_index_less HashMap_init holds_def exI [of _ "[]"])

lemma Inserts_hashed:
  assumes "cpp.hashed hash_index BUCKETS w K" "dom (heap w) \<subseteq> A" "allocs_ok xs A"
  shows "\<exists>w'. HashMap_Inserts xs w = Inr w' \<and> cpp.hashed hash_index BUCKETS w' (K \<union> snd ` set xs)"
  using assms
proof (induction xs arbitrary: w K A)
  case Nil
  then show ?case by simp
next
  case (Cons x xs)
  obtain a v where x: "x = (a, v)" by (cases x)
  let ?w = "Insert (hash_index v) a v w"
  have a: "heap w a = None" using Cons.prems x by auto
  have "cpp.hashed hash_index BUCKETS ?w (insert v K)"
    by (rule cpp.hashed_insert [OF Cons.prems(1) a])
  moreover have "dom (heap ?w) \<subseteq> insert a A"
    using Cons.prems(2) by (auto simp: Insert_def Let_def split: if_splits)
  moreover have "allocs_ok xs (insert a A)" using Cons.prems(3) x by simp
  ultimately show ?case using Cons.IH [of ?w "insert v K" "insert a A"] Cons.prems(3) x
    by (simp add: HashMap_Insert_def)
qed

section \<open>Properties\<close>

text \<open>C39: the C++ hash map is a set of integers: after any sequence of insertions (with whatever fresh
  addresses \<open>new\<close> returns), \<open>Lookup\<close> ends without touching freed memory and answers exactly whether
  the value was inserted, for every value except the least \<open>int\<close>.\<close>

theorem HashMap_is_set:
  assumes "allocs_ok xs {}" "v \<noteq> - (2 ^ 31)"
  shows "\<exists>w. HashMap_Inserts xs HashMap = Inr w \<and>
    HashMap_Lookup v w = Some (Inr (v \<in> snd ` set xs))"
proof -
  have "dom (heap HashMap) \<subseteq> {}" by (simp add: HashMap_init)
  from Inserts_hashed [OF HashMap_hashed this assms(1)] obtain w where
    w: "HashMap_Inserts xs HashMap = Inr w" "cpp.hashed hash_index BUCKETS w (snd ` set xs)"
    by auto
  from cpp.hashed_lookup [OF w(2)] assms(2) have "HashMap_Lookup v w = Some (Inr (v \<in> snd ` set xs))"
    by (simp add: HashMap_Lookup_def)
  with w(1) show ?thesis by blast
qed

theorem HashMap_is_set_witness:
  "\<exists>w. HashMap_Inserts [(4, 7), (9, - 7), (5, 108)] HashMap = Inr w \<and>
     HashMap_Lookup (- 7) w = Some (Inr True)"
  using HashMap_is_set [of "[(4, 7), (9, - 7), (5, 108)]" "- 7"] by auto

text \<open>The destructor of \<open>LinkedList\<close> frees the successor of the node it stands on and then moves
  to it: with two or more nodes it reads a freed node, and with exactly one node it frees
  nothing.\<close>

theorem destructor_use_after_free:
  assumes "holds w i (k # ks)"
  shows "destroy i w = Some (if ks = [] then Inr w else Inl UseAfterFree)"
proof (cases ks)
  case Nil
  with assms obtain a n where "heads w i = Some a" "heap w a = Some n" "nxt n = None"
    by (auto simp: holds_def)
  with Nil show ?thesis by (simp add: destroy_def destroy_loop.simps delete_node_def)
next
  case (Cons k' ks')
  with assms obtain a n b m where "heads w i = Some a" "heap w a = Some n" "nxt n = Some b"
    "heap w b = Some m"
    by (auto simp: holds_def)
  with Cons show ?thesis
    by (simp add: destroy_def destroy_loop.simps [of _ "Some a"] destroy_loop.simps [of _ "Some b"]
        delete_node_def)
qed

theorem destructor_use_after_free_witness:
  "destroy 0 (Insert 0 6 2 (Insert 0 5 1 (LinkedList 0 HashMap))) = Some (Inl UseAfterFree)"
proof -
  let ?v = "LinkedList 0 HashMap" let ?w = "Insert 0 6 2 (Insert 0 5 1 ?v)"
  have "heap ?v = (\<lambda>_. None)" by (simp add: LinkedList_def HashMap_init)
  then have "holds ?w 0 [2, 1]" by (simp add: holds_def Insert_def LinkedList_def)
  from destructor_use_after_free [OF this] show ?thesis by simp
qed

text \<open>The whole map: every list holds the values of its index, newest first.\<close>

lemma Inserts_holds:
  assumes "HashMap_Inserts xs w = Inr u" "dom (heap w) \<subseteq> A" "allocs_ok xs A" "holds w i ks"
  shows "holds u i (rev (filter (\<lambda>v. hash_index v = i) (map snd xs)) @ ks)"
  using assms
proof (induction xs arbitrary: w A ks)
  case Nil
  then show ?case by simp
next
  case (Cons x xs)
  obtain a v where x: "x = (a, v)" by (cases x)
  let ?w = "Insert (hash_index v) a v w"
  have a: "heap w a = None" using Cons.prems x by auto
  have r: "HashMap_Inserts xs ?w = Inr u" using Cons.prems(1,3) x by (simp add: HashMap_Insert_def)
  have d: "dom (heap ?w) \<subseteq> insert a A" using Cons.prems(2) by (auto simp: Insert_def Let_def split: if_splits)
  have o: "allocs_ok xs (insert a A)" using Cons.prems(3) x by simp
  show ?case
  proof (cases "hash_index v = i")
    case True
    then have "holds ?w i (v # ks)" using holds_insert [OF a Cons.prems(4)] by simp
    from Cons.IH [OF r d o this] show ?thesis using x True by simp
  next
    case False
    then have "holds ?w i ks" using holds_insert_other [OF a _ Cons.prems(4)] by simp
    from Cons.IH [OF r d o this] show ?thesis using x False by simp
  qed
qed

lemma destroy_holds:
  assumes "holds w i ks"
  shows "destroy i w = Some (if length ks \<le> 1 then Inr w else Inl UseAfterFree)"
proof (cases ks)
  case Nil
  with assms show ?thesis by (simp add: holds_def destroy_def destroy_loop.simps)
next
  case (Cons k ks')
  with destructor_use_after_free [of w i k ks'] assms show ?thesis by (cases ks') auto
qed

lemma destroy_lists_holds:
  assumes "\<And>i. i \<in> set is \<Longrightarrow> holds w i (ks i)"
  shows "destroy_lists is w = Some (if \<forall>i\<in>set is. length (ks i) \<le> 1 then Inr w else Inl UseAfterFree)"
  using assms
proof (induction "is")
  case Nil
  show ?case by simp
next
  case (Cons i "is")
  have "destroy i w = Some (if length (ks i) \<le> 1 then Inr w else Inl UseAfterFree)" by (rule destroy_holds) (simp add: Cons.prems)
  moreover have "destroy_lists is w = Some (if \<forall>i\<in>set is. length (ks i) \<le> 1 then Inr w else Inl UseAfterFree)"
    using Cons by simp
  ultimately show ?case by simp
qed

lemma distinct_classes: "distinct (map f xs) \<longleftrightarrow> (\<forall>i. length (filter (\<lambda>x. f x = i) xs) \<le> 1)"
proof (induction xs)
  case Nil
  show ?case by simp
next
  case (Cons x xs)
  have "f x \<notin> f ` set xs \<longleftrightarrow> filter (\<lambda>y. f y = f x) xs = []" unfolding filter_empty_conv by (metis image_iff)
  then show ?case using Cons.IH by auto
qed

text \<open>The destructor of the map is defined exactly when no two of the inserted values (equal or not) have the same index;
  and then it frees nothing.\<close>

theorem HashMap_destructor:
  assumes "allocs_ok xs {}"
  shows "\<exists>w. HashMap_Inserts xs HashMap = Inr w \<and>
    HashMap_destroy w = Some (if distinct (map hash_index (map snd xs)) then Inr w else Inl UseAfterFree)"
proof -
  have d: "dom (heap HashMap) \<subseteq> {}" by (simp add: HashMap_init)
  from Inserts_hashed [OF HashMap_hashed d assms] obtain w where w: "HashMap_Inserts xs HashMap = Inr w" by blast
  let ?ks = "\<lambda>i. rev (filter (\<lambda>v. hash_index v = i) (map snd xs))"
  have "holds HashMap i []" for i by (simp add: HashMap_init holds_def)
  from Inserts_holds [OF w d assms this] have h: "holds w i (?ks i)" for i by simp
  have "length (filter (\<lambda>v. hash_index v = i) (map snd xs)) \<le> 1" if "\<not> i < BUCKETS" for i
  proof -
    have "filter (\<lambda>v. hash_index v = i) (map snd xs) = []" using that hash_index_less by (auto simp: filter_empty_conv)
    then show ?thesis by simp
  qed
  then have "(\<forall>i\<in>set (rev [0..<BUCKETS]). length (?ks i) \<le> 1) \<longleftrightarrow> distinct (map hash_index (map snd xs))"
    unfolding distinct_classes by (auto simp: atLeast0LessThan)
  then have "HashMap_destroy w = Some (if distinct (map hash_index (map snd xs)) then Inr w else Inl UseAfterFree)"
    unfolding HashMap_destroy_def destroy_lists_holds [OF h] by simp
  with w show ?thesis by blast
qed

theorem HashMap_destructor_witness:
  "(\<exists>w. HashMap_Inserts [(4, 7), (9, 8)] HashMap = Inr w \<and> HashMap_destroy w = Some (Inr w)) \<and>
   (\<exists>w. HashMap_Inserts [(4, 7), (9, 108)] HashMap = Inr w \<and> HashMap_destroy w = Some (Inl UseAfterFree))"
proof -
  have "allocs_ok [(4, 7), (9, 8)] {}" "allocs_ok [(4, 7), (9, 108)] {}" by simp_all
  moreover have "hash_index 7 = 7" "hash_index 8 = 8" "hash_index 108 = 7" by (simp_all add: hash_index_def BUCKETS_def)
  ultimately show ?thesis using HashMap_destructor [of "[(4, 7), (9, 8)]"] HashMap_destructor [of "[(4, 7), (9, 108)]"] by simp
qed

text \<open>\<open>main\<close> prints 1, and leaves its node allocated.\<close>

theorem hashmap_main_leaks: "\<exists>w. hashmap_main a = Some (Inr (True, w)) \<and> dom (heap w) = {a}"
proof -
  let ?w = "Insert (hash_index 1) a 1 HashMap"
  have h: "cpp.hashed hash_index BUCKETS ?w {1}"
    using cpp.hashed_insert [OF HashMap_hashed, of a 1] by (simp add: HashMap_init)
  have l: "holds ?w i (if i = hash_index 1 then [1] else [])" for i
  proof -
    have "holds HashMap i []" "heap HashMap a = None" by (simp_all add: HashMap_init holds_def)
    then show ?thesis by (auto intro: holds_insert holds_insert_other)
  qed
  have "HashMap_destroy ?w = Some (Inr ?w)"
    unfolding HashMap_destroy_def destroy_lists_holds [OF l] by simp
  moreover have "HashMap_Lookup 1 ?w = Some (Inr True)" using cpp.hashed_lookup [OF h, of 1] by (simp add: HashMap_Lookup_def)
  ultimately have "hashmap_main a = Some (Inr (True, ?w))" by (simp add: hashmap_main_def HashMap_Insert_def)
  moreover have "dom (heap ?w) = {a}" by (simp add: Insert_def Let_def HashMap_init)
  ultimately show ?thesis by blast
qed

end
