(* ===== verification/Linked_List_C.thy ===== *)
theory Linked_List_C
  imports Heap_Lists
begin

text \<open>
  \<open>threads-locks/Locked data structures/linkedlist-c.cpp\<close> and \<open>hashmap-c.cpp\<close>: lists of nodes from
  \<open>malloc\<close>, each with its lock, and the hash table of 101 of them, used by any number of threads.

  A thread runs \<open>List_Insert\<close> or \<open>List_Lookup\<close> on list number \<open>i\<close>; every access of shared memory is
  one step. \<open>malloc\<close> is the environment: it fails, or returns any unallocated address with arbitrary
  contents (label \<open>Malloc\<close>).

  \<open>added\<close> is a history variable: the keys whose node has been linked into each list, newest first.
\<close>

record list_t =
  lock :: "tid option"
  head :: "addr option"

datatype lpc =
    LIdle
  | IMalloc nat int
  | IKey nat int addr
  | ILock nat int addr
  | INext nat int addr
  | IHead nat int addr
  | IUnlock nat
  | KLock nat int
  | KStart nat int
  | KLoop nat int "addr option"
  | KUnlock nat int int

record lists =
  mem :: heap
  lists :: "nat \<Rightarrow> list_t"
  pcs :: "tid \<Rightarrow> lpc"
  rv :: "tid \<Rightarrow> int option"
  added :: "nat \<Rightarrow> int list"

definition List_Init :: list_t where
  "List_Init = \<lparr>lock = None, head = None\<rparr>"

definition lists_init :: lists where
  "lists_init = \<lparr>mem = (\<lambda>_. None), lists = (\<lambda>_. List_Init), pcs = (\<lambda>_. LIdle), rv = (\<lambda>_. None),
     added = (\<lambda>_. [])\<rparr>"

definition at :: "tid \<Rightarrow> lpc \<Rightarrow> lists \<Rightarrow> lists" where
  "at t p s = s\<lparr>pcs := (pcs s)(t := p)\<rparr>"

definition set_lock :: "nat \<Rightarrow> tid option \<Rightarrow> lists \<Rightarrow> lists" where
  "set_lock i o' s = s\<lparr>lists := (lists s)(i := (lists s i)\<lparr>lock := o'\<rparr>)\<rparr>"

definition acquire :: "nat \<Rightarrow> tid \<Rightarrow> lists \<Rightarrow> lists option" where
  "acquire i t s = (if lock (lists s i) = None then Some (set_lock i (Some t) s) else None)"

definition malloc :: "tid \<Rightarrow> (addr \<times> lnode) option \<Rightarrow> lists \<Rightarrow> lists option" where
  "malloc t r s =
     (case (pcs s t, r) of
        (IMalloc i k, None) \<Rightarrow> Some (at t LIdle s)
      | (IMalloc i k, Some (a, n)) \<Rightarrow>
          (if mem s a = None then Some (at t (IKey i k a) (s\<lparr>mem := (mem s)(a \<mapsto> n)\<rparr>)) else None)
      | _ \<Rightarrow> None)"

definition List_Insert :: "tid \<Rightarrow> lists \<Rightarrow> lists option" where
  "List_Insert t s =
     (case pcs s t of
        IKey i k a \<Rightarrow>
          (case mem s a of None \<Rightarrow> None
           | Some n \<Rightarrow> Some (at t (ILock i k a) (s\<lparr>mem := (mem s)(a \<mapsto> n\<lparr>key := k\<rparr>)\<rparr>)))
      | ILock i k a \<Rightarrow> map_option (at t (INext i k a)) (acquire i t s)
      | INext i k a \<Rightarrow>
          (case mem s a of None \<Rightarrow> None
           | Some n \<Rightarrow> Some (at t (IHead i k a)
               (s\<lparr>mem := (mem s)(a \<mapsto> n\<lparr>nxt := head (lists s i)\<rparr>)\<rparr>)))
      | IHead i k a \<Rightarrow> Some (at t (IUnlock i)
          (s\<lparr>lists := (lists s)(i := (lists s i)\<lparr>head := Some a\<rparr>),
             added := (added s)(i := k # added s i)\<rparr>))
      | IUnlock i \<Rightarrow> Some (at t LIdle (set_lock i None s))
      | _ \<Rightarrow> None)"

definition List_Lookup :: "tid \<Rightarrow> lists \<Rightarrow> lists option" where
  "List_Lookup t s =
     (case pcs s t of
        KLock i k \<Rightarrow> map_option (at t (KStart i k)) (acquire i t s)
      | KStart i k \<Rightarrow> Some (at t (KLoop i k (head (lists s i))) s)
      | KLoop i k None \<Rightarrow> Some (at t (KUnlock i k (- 1)) s)
      | KLoop i k (Some a) \<Rightarrow>
          (case mem s a of None \<Rightarrow> None
           | Some n \<Rightarrow> Some (at t (if key n = k then KUnlock i k 0 else KLoop i k (nxt n)) s))
      | KUnlock i k r \<Rightarrow> Some ((at t LIdle (set_lock i None s))\<lparr>rv := (rv s)(t \<mapsto> r)\<rparr>)
      | _ \<Rightarrow> None)"

datatype llabel = Insert_at tid nat int | Lookup_at tid nat int | Malloc tid "(addr \<times> lnode) option" | Go tid

fun list_step :: "llabel \<Rightarrow> lists \<Rightarrow> lists option" where
  "list_step (Insert_at t i k) s = (if pcs s t = LIdle then Some (at t (IMalloc i k) s) else None)"
| "list_step (Lookup_at t i k) s = (if pcs s t = LIdle then Some (at t (KLock i k) s) else None)"
| "list_step (Malloc t r) s = malloc t r s"
| "list_step (Go t) s =
     (case List_Insert t s of None \<Rightarrow> List_Lookup t s | Some u \<Rightarrow> Some u)"

section \<open>The hash table\<close>

text \<open>\<open>key % 101\<close> has the sign of the key.\<close>

definition c_index :: "int \<Rightarrow> int" where
  "c_index k = sgn k * (\<bar>k\<bar> mod 101)"

definition Hash_Insert :: "tid \<Rightarrow> int \<Rightarrow> llabel res" where
  "Hash_Insert t k =
     (if 0 \<le> c_index k \<and> c_index k < 101 then Inr (Insert_at t (nat (c_index k)) k) else Inl OutOfBounds)"

definition Hash_Lookup :: "tid \<Rightarrow> int \<Rightarrow> llabel res" where
  "Hash_Lookup t k =
     (if 0 \<le> c_index k \<and> c_index k < 101 then Inr (Lookup_at t (nat (c_index k)) k) else Inl OutOfBounds)"

section \<open>Invariant\<close>

fun inside :: "lpc \<Rightarrow> nat option" where
  "inside (INext i k a) = Some i"
| "inside (IHead i k a) = Some i"
| "inside (IUnlock i) = Some i"
| "inside (KStart i k) = Some i"
| "inside (KLoop i k p) = Some i"
| "inside (KUnlock i k r) = Some i"
| "inside _ = None"

fun own :: "lpc \<Rightarrow> addr option" where
  "own (IKey i k a) = Some a"
| "own (ILock i k a) = Some a"
| "own (INext i k a) = Some a"
| "own (IHead i k a) = Some a"
| "own _ = None"

fun lpc_ok :: "heap \<Rightarrow> (nat \<Rightarrow> addr option) \<Rightarrow> (nat \<Rightarrow> addr list) \<Rightarrow> lpc \<Rightarrow> bool" where
  "lpc_ok h H C (ILock i k a) = (key (the (h a)) = k)"
| "lpc_ok h H C (INext i k a) = (key (the (h a)) = k)"
| "lpc_ok h H C (IHead i k a) = (h a = Some \<lparr>key = k, nxt = H i\<rparr>)"
| "lpc_ok h H C (KLoop i k p) =
     (\<exists>as bs. C i = as @ bs \<and> path h p bs \<and> k \<notin> set (keys h as))"
| "lpc_ok h H C (KUnlock i k r) = (r = (if k \<in> set (keys h (C i)) then 0 else - 1))"
| "lpc_ok h H C _ = True"

definition lists_ok :: "(nat \<Rightarrow> addr list) \<Rightarrow> lists \<Rightarrow> bool" where
  "lists_ok C s \<longleftrightarrow>
     (\<forall>i. path (mem s) (head (lists s i)) (C i) \<and> keys (mem s) (C i) = added s i) \<and>
     (\<forall>i t. lock (lists s i) = Some t \<longleftrightarrow> inside (pcs s t) = Some i) \<and>
     (\<forall>t a. own (pcs s t) = Some a \<longrightarrow> mem s a \<noteq> None \<and> (\<forall>i. a \<notin> set (C i))) \<and>
     (\<forall>t u a. own (pcs s t) = Some a \<longrightarrow> own (pcs s u) = Some a \<longrightarrow> t = u) \<and>
     (\<forall>i j. i \<noteq> j \<longrightarrow> set (C i) \<inter> set (C j) = {}) \<and>
     (\<forall>t. lpc_ok (mem s) (\<lambda>i. head (lists s i)) C (pcs s t))"

lemma lists_ok_D:
  assumes "lists_ok C s"
  shows "path (mem s) (head (lists s i)) (C i)" "keys (mem s) (C i) = added s i"
    "lock (lists s i) = Some t \<longleftrightarrow> inside (pcs s t) = Some i"
    "own (pcs s t) = Some a \<Longrightarrow> mem s a \<noteq> None" "own (pcs s t) = Some a \<Longrightarrow> a \<notin> set (C i)"
    "own (pcs s t) = Some a \<Longrightarrow> own (pcs s u) = Some a \<Longrightarrow> t = u"
    "lpc_ok (mem s) (\<lambda>i. head (lists s i)) C (pcs s t)"
    "i \<noteq> j \<Longrightarrow> set (C i) \<inter> set (C j) = {}"
  using assms unfolding lists_ok_def by blast+

lemma lpc_ok_upd:
  assumes "lpc_ok h H C p" "\<And>i. a \<notin> set (C i)" "own p \<noteq> Some a"
  shows "lpc_ok (h(a := x)) H C p"
proof (cases p)
  case (KLoop i k q)
  with assms(1) obtain as bs where *: "C i = as @ bs" "path h q bs" "k \<notin> set (keys h as)" by auto
  have "a \<notin> set as" "a \<notin> set bs" using assms(2) [of i] *(1) by auto
  with * have "C i = as @ bs \<and> path (h(a := x)) q bs \<and> k \<notin> set (keys (h(a := x)) as)" by simp
  with KLoop show ?thesis by auto
next
  case (KUnlock i k r)
  with assms show ?thesis by simp
qed (use assms in auto)

text \<open>A step that links no node: it moves one thread, may change the lock of that thread's list, and
  writes at most one node, which it has just got or owns.\<close>

lemma lists_ok_move:
  assumes ok: "lists_ok C s" and p: "pcs s' = (pcs s)(t := p)"
    and same: "added s' = added s" "\<And>i. head (lists s' i) = head (lists s i)"
    and m: "mem s' = mem s \<or> (\<exists>a n. mem s' = (mem s)(a \<mapsto> n) \<and> (mem s a = None \<or> own (pcs s t) = Some a))"
    and lk: "\<And>i u. u \<noteq> t \<Longrightarrow> lock (lists s' i) = Some u \<longleftrightarrow> lock (lists s i) = Some u"
      "\<And>i. lock (lists s' i) = Some t \<longleftrightarrow> inside p = Some i"
    and o': "\<And>a. own p = Some a \<Longrightarrow> mem s' a \<noteq> None \<and> (own (pcs s t) = Some a \<or> mem s a = None)"
    and new: "lpc_ok (mem s') (\<lambda>i. head (lists s i)) C p"
  shows "lists_ok C s'"
proof -
  note D = lists_ok_D [OF ok]
  have out: "a \<notin> set (C i)" if "mem s a = None" for a i using path_dom [OF D(1)] that by blast
  have mem: "path (mem s') (head (lists s i)) (C i) \<and> keys (mem s') (C i) = added s i" for i
    using m D(1,2) out D(5) by fastforce
  have grow: "mem s a \<noteq> None \<Longrightarrow> mem s' a \<noteq> None" for a using m by auto
  have others: "lpc_ok (mem s') (\<lambda>i. head (lists s i)) C (pcs s u)" if "u \<noteq> t" for u
    using m
  proof
    assume "\<exists>a n. mem s' = (mem s)(a \<mapsto> n) \<and> (mem s a = None \<or> own (pcs s t) = Some a)"
    then obtain a n where a: "mem s' = (mem s)(a \<mapsto> n)" "mem s a = None \<or> own (pcs s t) = Some a" by blast
    have "a \<notin> set (C i)" for i using a(2) out D(5) by blast
    moreover have "own (pcs s u) \<noteq> Some a" using a(2) D(4,6) that by blast
    ultimately show ?thesis using lpc_ok_upd [OF D(7)] a(1) by metis
  qed (use D(7) in simp)
  show ?thesis unfolding lists_ok_def p same
  proof (intro conjI allI impI)
    fix i u a
    show "lock (lists s' i) = Some u \<longleftrightarrow> inside (((pcs s)(t := p)) u) = Some i"
      using lk D(3) by (cases "u = t") auto
    show "lpc_ok (mem s') (\<lambda>i. head (lists s i)) C (((pcs s)(t := p)) u)"
      using new others by (cases "u = t") auto
    fix j assume "i \<noteq> j"
    then show "set (C i) \<inter> set (C j) = {}" by (rule D(8))
  next
    fix u a assume own: "own (((pcs s)(t := p)) u) = Some a"
    show "mem s' a \<noteq> None" using own o' grow D(4) by (cases "u = t") auto
    show "a \<notin> set (C i)" for i using own o' out D(5) by (cases "u = t") auto
    fix v assume "own (((pcs s)(t := p)) v) = Some a"
    with own o' D(4,6) show "u = v" by (fastforce split: if_splits)
  qed (use mem in auto)
qed

text \<open>The step that links a node.\<close>

lemma lists_ok_link:
  assumes ok: "lists_ok C s" and at: "pcs s t = IHead i k a"
  shows "lists_ok (C(i := a # C i)) (at t (IUnlock i)
    (s\<lparr>lists := (lists s)(i := (lists s i)\<lparr>head := Some a\<rparr>), added := (added s)(i := k # added s i)\<rparr>))"
    (is "lists_ok ?C ?u")
proof -
  note D = lists_ok_D [OF ok]
  have a: "mem s a = Some \<lparr>key = k, nxt = head (lists s i)\<rparr>" using D(7) [of t] at by simp
  have me: "inside (pcs s u) = Some i \<Longrightarrow> u = t" for u using D(3) [of i] at by (metis inside.simps(2) option.inject)
  have others: "lpc_ok (mem s) (\<lambda>j. head (lists ?u j)) ?C (pcs s u)" if "u \<noteq> t" for u
  proof -
    have "inside (pcs s u) \<noteq> Some i" using that me by blast
    with D(7) [of u] show ?thesis by (cases "pcs s u") (auto simp: at_def)
  qed
  show ?thesis unfolding lists_ok_def
  proof (intro conjI allI impI)
    fix j u b
    show "path (mem ?u) (head (lists ?u j)) (?C j)" using D(1) [of j] a D(1) [of i] by (simp add: at_def)
    show "keys (mem ?u) (?C j) = added ?u j" using D(2) [of j] D(2) [of i] a by (simp add: at_def)
    show "lock (lists ?u j) = Some u \<longleftrightarrow> inside (pcs ?u u) = Some j"
      using D(3) [of j u] D(3) [of j t] at by (auto simp: at_def)
    show "lpc_ok (mem ?u) (\<lambda>i. head (lists ?u i)) ?C (pcs ?u u)"
      using others [of u] by (cases "u = t") (simp_all add: at_def)
    fix i' assume "i' \<noteq> j"
    moreover have "a \<notin> set (C m)" for m using D(5) [of t a m] at by simp
    ultimately show "set (?C i') \<inter> set (?C j) = {}" using D(8) [of i' j] by auto
  next
    fix j u b
    assume own: "own (pcs ?u u) = Some b"
    then have own': "u \<noteq> t" "own (pcs s u) = Some b" by (auto simp: at_def split: if_splits)
    show "mem ?u b \<noteq> None" using D(4) own' by (simp add: at_def)
    show "b \<notin> set (?C j)" using D(5) own' D(6) [of u b t] at by auto
    fix v assume "own (pcs ?u v) = Some b"
    then have "own (pcs s v) = Some b" by (auto simp: at_def split: if_splits)
    with D(6) own' show "u = v" by blast
  qed
qed

lemma acquire_ok:
  assumes ok: "lists_ok C s" and at: "inside (pcs s t) = None" "acquire i t s = Some u" "inside p = Some i"
    and own: "\<And>a. own p = Some a \<Longrightarrow> own (pcs s t) = Some a"
    and new: "lpc_ok (mem s) (\<lambda>i. head (lists s i)) C p"
  shows "lists_ok C (at t p u)"
proof -
  note D = lists_ok_D [OF ok]
  have u: "lock (lists s i) = None" "u = set_lock i (Some t) s"
    using at by (auto simp: acquire_def split: if_splits)
  have "lock (lists s j) \<noteq> Some t" for j using D(3) [of j t] at(1) by simp
  with u at(3) new own D(4) show ?thesis
    by (intro lists_ok_move [OF ok, of _ t p]) (auto simp: at_def set_lock_def split: if_splits)
qed

lemma list_release_ok:
  assumes ok: "lists_ok C s" and at: "inside (pcs s t) = Some i" "own p = None" "inside p = None"
    and new: "\<And>m h C. lpc_ok m h C p"
  shows "lists_ok C (at t p (set_lock i None s))"
proof -
  note D = lists_ok_D [OF ok]
  have "lock (lists s i) = Some t" "j \<noteq> i \<Longrightarrow> lock (lists s j) \<noteq> Some t" for j
    using D(3) [of _ t] at(1) by auto
  with at new show ?thesis
    by (intro lists_ok_move [OF ok, of _ t p]) (auto simp: at_def set_lock_def split: if_splits)
qed

lemma local_ok:
  assumes ok: "lists_ok C s" and at: "inside p = inside (pcs s t)" "own p = None"
    and new: "lpc_ok (mem s) (\<lambda>i. head (lists s i)) C p"
  shows "lists_ok C (at t p s)"
  using lists_ok_D(3) [OF ok] at new
  by (intro lists_ok_move [OF ok, of _ t p]) (auto simp: at_def)

lemma list_write_ok:
  assumes ok: "lists_ok C s" and at: "inside p = inside (pcs s t)" "own p = Some a"
    "mem s a = None \<or> own (pcs s t) = Some a"
    and new: "lpc_ok ((mem s)(a \<mapsto> n)) (\<lambda>i. head (lists s i)) C p"
  shows "lists_ok C (at t p (s\<lparr>mem := (mem s)(a \<mapsto> n)\<rparr>))"
  using lists_ok_D(3) [OF ok] at new
  by (intro lists_ok_move [OF ok, of _ t p]) (auto simp: at_def)

lemma insert_ok:
  assumes ok: "lists_ok C s" and step: "List_Insert t s = Some u"
  shows "\<exists>D. lists_ok D u"
proof (cases "pcs s t")
  case (IKey i k a)
  then obtain n where "mem s a = Some n" "u = at t (ILock i k a) (s\<lparr>mem := (mem s)(a \<mapsto> n\<lparr>key := k\<rparr>)\<rparr>)"
    using step by (auto simp: List_Insert_def split: option.splits)
  then show ?thesis using IKey list_write_ok [OF ok, of "ILock i k a" t a] by (auto intro!: exI [of _ C])
next
  case (ILock i k a)
  then obtain v where "acquire i t s = Some v" "u = at t (INext i k a) v"
    using step by (auto simp: List_Insert_def)
  then show ?thesis using acquire_ok [OF ok, of t i v "INext i k a"] ILock lists_ok_D(7) [OF ok, of t] by auto
next
  case (INext i k a)
  then obtain n where n: "mem s a = Some n"
      "u = at t (IHead i k a) (s\<lparr>mem := (mem s)(a \<mapsto> n\<lparr>nxt := head (lists s i)\<rparr>)\<rparr>)"
    using step by (auto simp: List_Insert_def split: option.splits)
  have "key n = k" using lists_ok_D(7) [OF ok, of t] INext n(1) by simp
  then have "n\<lparr>nxt := head (lists s i)\<rparr> = \<lparr>key = k, nxt = head (lists s i)\<rparr>" by (cases n) auto
  then show ?thesis using INext n(2) list_write_ok [OF ok, of "IHead i k a" t a] by auto
next
  case (IHead i k a)
  then show ?thesis using step lists_ok_link [OF ok IHead] by (auto simp: List_Insert_def)
next
  case (IUnlock i)
  then show ?thesis using step list_release_ok [OF ok, of t i LIdle] by (auto simp: List_Insert_def)
qed (use step in \<open>auto simp: List_Insert_def\<close>)

lemma rv_ok: "lists_ok C s \<Longrightarrow> lists_ok C (s\<lparr>rv := r\<rparr>)"
  by (simp add: lists_ok_def)

lemma loop_found:
  assumes "cs = as @ bs" "path h (Some a) bs" "h a = Some n" "k \<notin> set (keys h as)"
  shows "key n = k \<Longrightarrow> k \<in> set (keys h cs)"
    and "key n \<noteq> k \<Longrightarrow> \<exists>as bs. cs = as @ bs \<and> path h (nxt n) bs \<and> k \<notin> set (keys h as)"
proof -
  obtain ds where bs: "bs = a # ds" "path h (nxt n) ds" using path_Some [OF assms(2)] assms(3) by auto
  show "key n = k \<Longrightarrow> k \<in> set (keys h cs)" using assms bs by simp
  assume "key n \<noteq> k"
  then have "cs = (as @ [a]) @ ds \<and> path h (nxt n) ds \<and> k \<notin> set (keys h (as @ [a]))"
    using assms bs by simp
  then show "\<exists>as bs. cs = as @ bs \<and> path h (nxt n) bs \<and> k \<notin> set (keys h as)" by blast
qed

lemma lookup_ok:
  assumes ok: "lists_ok C s" and step: "List_Lookup t s = Some u"
  shows "lists_ok C u"
proof (cases "pcs s t")
  case (KLock i k)
  then obtain v where "acquire i t s = Some v" "u = at t (KStart i k) v"
    using step by (auto simp: List_Lookup_def)
  then show ?thesis using acquire_ok [OF ok, of t i v "KStart i k"] KLock by auto
next
  case (KStart i k)
  have "\<exists>as bs. C i = as @ bs \<and> path (mem s) (head (lists s i)) bs \<and> k \<notin> set (keys (mem s) as)"
    using lists_ok_D(1) [OF ok, of i] by (intro exI [of _ "[]"] exI [of _ "C i"]) simp
  then show ?thesis using step KStart local_ok [OF ok, of "KLoop i k (head (lists s i))" t]
    by (auto simp: List_Lookup_def)
next
  case (KLoop i k p)
  obtain as bs where C: "C i = as @ bs" "path (mem s) p bs" "k \<notin> set (keys (mem s) as)"
    using lists_ok_D(7) [OF ok, of t] KLoop by auto
  show ?thesis
  proof (cases p)
    case None
    with C have "k \<notin> set (keys (mem s) (C i))" by (cases bs) auto
    then show ?thesis using step KLoop None local_ok [OF ok, of "KUnlock i k (- 1)" t]
      by (auto simp: List_Lookup_def)
  next
    case (Some a)
    obtain n where n: "mem s a = Some n" using step KLoop Some by (auto simp: List_Lookup_def split: option.splits)
    note L = loop_found [OF C(1) C(2) [unfolded Some] n C(3)]
    show ?thesis
    proof (cases "key n = k")
      case True
      then show ?thesis using step KLoop Some n L(1) local_ok [OF ok, of "KUnlock i k 0" t]
        by (auto simp: List_Lookup_def)
    next
      case False
      then show ?thesis using step KLoop Some n L(2) local_ok [OF ok, of "KLoop i k (nxt n)" t]
        by (auto simp: List_Lookup_def)
    qed
  qed
next
  case (KUnlock i k r)
  have "u = (at t LIdle (set_lock i None s))\<lparr>rv := (rv s)(t \<mapsto> r)\<rparr>"
    using step KUnlock by (simp add: List_Lookup_def)
  then show ?thesis using rv_ok [OF list_release_ok [OF ok, of t i LIdle]] KUnlock by simp
qed (use step in \<open>auto simp: List_Lookup_def\<close>)

lemma list_step_ok:
  assumes ok: "lists_ok C s" and step: "list_step l s = Some u"
  shows "\<exists>D. lists_ok D u"
proof (cases l)
  case (Insert_at t i k)
  then show ?thesis using step local_ok [OF ok, of "IMalloc i k" t] by (auto split: if_splits)
next
  case (Lookup_at t i k)
  then show ?thesis using step local_ok [OF ok, of "KLock i k" t] by (auto split: if_splits)
next
  case (Malloc t r)
  then obtain i k where i: "pcs s t = IMalloc i k"
    using step by (auto simp: malloc_def split: lpc.splits)
  show ?thesis
  proof (cases r)
    case None
    then show ?thesis using step i Malloc local_ok [OF ok, of LIdle t] by (auto simp: malloc_def)
  next
    case (Some an)
    obtain a n where an: "an = (a, n)" by (cases an)
    with step i Malloc Some have "mem s a = None" "u = at t (IKey i k a) (s\<lparr>mem := (mem s)(a \<mapsto> n)\<rparr>)"
      by (auto simp: malloc_def split: if_splits)
    then show ?thesis using i list_write_ok [OF ok, of "IKey i k a" t a] by auto
  qed
next
  case (Go t)
  then show ?thesis using step insert_ok [OF ok, of t] lookup_ok [OF ok, of t]
    by (cases "List_Insert t s") auto
qed

lemma lists_init_ok: "lists_ok (\<lambda>_. []) lists_init"
  by (simp add: lists_ok_def lists_init_def List_Init_def)

interpretation clist: safe_machine list_step lists_init "\<lambda>s. \<exists>C. lists_ok C s"
  by unfold_locales (use lists_init_ok list_step_ok in blast)+

section \<open>Properties\<close>

lemma holder_moves:
  assumes ok: "lists_ok C s" and at: "inside (pcs s t) = Some i"
  shows "list_step (Go t) s \<noteq> None"
proof (cases "pcs s t")
  case (INext j k a)
  then show ?thesis using lists_ok_D(4) [OF ok, of t a] by (auto simp: List_Insert_def)
next
  case (KLoop j k p)
  obtain as bs where C: "C j = as @ bs" "path (mem s) p bs"
    using lists_ok_D(7) [OF ok, of t] KLoop by auto
  show ?thesis
  proof (cases p)
    case None
    then show ?thesis using KLoop by (simp add: List_Insert_def List_Lookup_def)
  next
    case (Some a)
    then show ?thesis using KLoop path_Some [of "mem s" a bs] C by (auto simp: List_Insert_def List_Lookup_def)
  qed
qed (use at in \<open>auto simp: List_Insert_def List_Lookup_def\<close>)

text \<open>The C list under any number of concurrent inserts and lookups: every list is always a
  well-formed chain of exactly the keys linked so far, newest first, and a lookup that is about to
  unlock returns 0 if its key is among them at that moment, and -1 otherwise.\<close>

theorem List_Lookup_correct:
  assumes "reach list_step lists_init s" "pcs s t = KUnlock i k r"
  shows "r = (if k \<in> set (added s i) then 0 else - 1) \<and> lock (lists s i) = Some t \<and>
    is_list (mem s) (head (lists s i)) (added s i)"
proof -
  obtain C where ok: "lists_ok C s" using clist.reach_inv [OF assms(1)] by blast
  note D = lists_ok_D [OF ok]
  have "r = (if k \<in> set (added s i) then 0 else - 1)" using D(7) [of t] D(2) [of i] assms(2) by simp
  moreover have "lock (lists s i) = Some t" using D(3) assms(2) by simp
  ultimately show ?thesis using path_is_list [OF D(1), of i] D(2) by simp
qed

definition list_demo :: "llabel list" where
  "list_demo = [Insert_at 0 3 104, Insert_at 1 3 3, Malloc 0 (Some (9, \<lparr>key = 0, nxt = Some 5\<rparr>)),
     Malloc 1 (Some (4, \<lparr>key = 1, nxt = None\<rparr>)), Go 1, Go 0, Go 0, Go 0, Go 0, Go 0, Go 1, Go 1, Go 1, Go 1,
     Lookup_at 2 3 104, Go 2, Go 2, Go 2, Go 2]"

theorem List_Lookup_correct_witness:
  "\<exists>s. exec list_step list_demo lists_init = Some s \<and> pcs s 2 = KUnlock 3 104 0 \<and>
     is_list (mem s) (head (lists s 3)) [3, 104]"
proof -
  obtain s where s: "exec list_step list_demo lists_init = Some s" "pcs s 2 = KUnlock 3 104 0"
      "added s 3 = [3, 104]"
    unfolding list_demo_def
    by (simp add: lists_init_def List_Init_def List_Insert_def List_Lookup_def malloc_def acquire_def
        at_def set_lock_def)
  then show ?thesis using List_Lookup_correct [OF reachI [OF s(1)] s(2)] by simp
qed

text \<open>The node that the next step of a thread reads or writes.\<close>

fun points_to :: "lpc \<Rightarrow> addr option" where
  "points_to (KLoop i k p) = p"
| "points_to p = own p"

text \<open>C40: the types of the C hash table hold in every reachable state: each list is a chain without a cycle of allocated
  nodes with exactly the keys linked so far, no node is in two lists or in a list and still private to an insert, every
  pointer that a thread is about to use leads to an allocated node, and a list is locked by a thread exactly while
  that thread is in its critical section.\<close>

theorem lists_well_formed:
  assumes "reach list_step lists_init s"
  shows "\<exists>C. (\<forall>i. path (mem s) (head (lists s i)) (C i) \<and> keys (mem s) (C i) = added s i \<and> distinct (C i)) \<and>
    (\<forall>i j. i \<noteq> j \<longrightarrow> set (C i) \<inter> set (C j) = {}) \<and>
    (\<forall>t a. points_to (pcs s t) = Some a \<longrightarrow> mem s a \<noteq> None) \<and>
    (\<forall>t a i. own (pcs s t) = Some a \<longrightarrow> a \<notin> set (C i)) \<and>
    (\<forall>i t. lock (lists s i) = Some t \<longleftrightarrow> inside (pcs s t) = Some i)"
proof -
  obtain C where ok: "lists_ok C s" using clist.reach_inv [OF assms] by blast
  note D = lists_ok_D [OF ok]
  have "mem s a \<noteq> None" if "points_to (pcs s t) = Some a" for t a
  proof (cases "pcs s t")
    case (KLoop i k p)
    then have "p = Some a" using that by simp
    then obtain as bs where "C i = as @ bs" "path (mem s) (Some a) bs" using D(7) [of t] KLoop by auto
    then show ?thesis using path_Some by fastforce
  qed (use that D(4) [of t a] in auto)
  moreover have "distinct (C i)" for i using path_distinct [OF D(1)] .
  ultimately show ?thesis using D by blast
qed

theorem lists_well_formed_witness:
  "\<exists>s. exec list_step list_demo lists_init = Some s \<and> added s 3 = [3, 104] \<and>
     (\<exists>C. path (mem s) (head (lists s 3)) C \<and> distinct C)"
proof -
  obtain s where s: "exec list_step list_demo lists_init = Some s" "added s 3 = [3, 104]"
    unfolding list_demo_def
    by (simp add: lists_init_def List_Init_def List_Insert_def List_Lookup_def malloc_def acquire_def
        at_def set_lock_def)
  then show ?thesis using lists_well_formed [OF reachI [OF s(1)]] by blast
qed

text \<open>The lock of a list is never lost: its holder can always take its next step (so it reads no
  freed or missing node), a thread whose \<open>malloc\<close> failed or has not returned holds no lock, and so a
  blocked thread waits for a thread that can run.\<close>

theorem List_lock_not_lost:
  assumes "reach list_step lists_init s" "lock (lists s i) = Some t"
  shows "list_step (Go t) s \<noteq> None \<and> pcs s t \<noteq> LIdle \<and> pcs s t \<noteq> IMalloc j k"
proof -
  obtain C where ok: "lists_ok C s" using clist.reach_inv [OF assms(1)] by blast
  then have "inside (pcs s t) = Some i" using lists_ok_D(3) assms(2) by blast
  then show ?thesis using holder_moves [OF ok] by auto
qed

theorem List_lock_not_lost_witness:
  "\<exists>s. exec list_step [Insert_at 0 3 104, Malloc 0 None, Lookup_at 0 3 7, Go 0] lists_init = Some s \<and>
     list_step (Go 0) s \<noteq> None"
proof -
  obtain s where s: "exec list_step [Insert_at 0 3 104, Malloc 0 None, Lookup_at 0 3 7, Go 0] lists_init = Some s"
      "lock (lists s 3) = Some 0"
    by (simp add: lists_init_def List_Init_def List_Insert_def List_Lookup_def malloc_def acquire_def
        at_def set_lock_def)
  then show ?thesis using List_lock_not_lost [OF reachI [OF s(1)] s(2)] by blast
qed

text \<open>The C hash table accepts a key exactly when it is non-negative or a multiple of 101, and then
  works on the list of its residue; for every other negative key \<open>key % BUCKETS\<close> is negative and both
  operations index the array of lists out of bounds.\<close>

theorem Hash_index_bounds:
  "(Hash_Insert t k = Inl OutOfBounds \<longleftrightarrow> k < 0 \<and> \<not> 101 dvd k) \<and>
   (Hash_Lookup t k = Inl OutOfBounds \<longleftrightarrow> k < 0 \<and> \<not> 101 dvd k) \<and>
   (Hash_Insert t k = Inr (Insert_at t (nat (k mod 101)) k) \<longleftrightarrow> 0 \<le> k \<or> 101 dvd k)"
proof -
  have m: "0 \<le> \<bar>k\<bar> mod 101" "\<bar>k\<bar> mod 101 < 101" by simp_all
  have z: "\<bar>k\<bar> mod 101 = 0 \<longleftrightarrow> 101 dvd k" by (simp add: dvd_eq_mod_eq_0 [symmetric])
  show ?thesis
  proof (cases "0 \<le> k")
    case True
    then have "c_index k = k mod 101" by (cases "k = 0") (simp_all add: c_index_def)
    with True show ?thesis by (simp add: Hash_Insert_def Hash_Lookup_def)
  next
    case False
    then have c: "c_index k = - (\<bar>k\<bar> mod 101)" by (simp add: c_index_def)
    show ?thesis
    proof (cases "101 dvd k")
      case True
      with z have "c_index k = 0" "k mod 101 = 0" using c by (simp_all add: dvd_eq_mod_eq_0)
      with True show ?thesis by (simp add: Hash_Insert_def Hash_Lookup_def)
    next
      case F: False
      with z m c have "c_index k < 0" by linarith
      with F False show ?thesis by (simp add: Hash_Insert_def Hash_Lookup_def)
    qed
  qed
qed

end
