(* ===== verification/Two_Lock_Queue.thy ===== *)
theory Two_Lock_Queue
  imports Heap_Lists
begin

text \<open>
  \<open>threads-locks/locked data structures/queue.cpp\<close>: the Michael and Scott queue with a lock for the
  head, a lock for the tail and a dummy node, used by any number of threads. Every access of shared
  memory is one step. \<open>malloc\<close> is the environment: it returns any unallocated address with arbitrary
  contents (when it returns \<open>NULL\<close> the \<open>assert\<close> ends the program, so no step follows).

  The history variables \<open>enq\<close> and \<open>deq\<close> are the values in the order their nodes were linked, and in
  the order the head moved past them.
\<close>

datatype qpc =
    QIdle
  | EMalloc int
  | EValue int addr
  | ENull int addr
  | ELock int addr
  | ELink int addr
  | ETail int addr
  | EUnlock
  | DLock
  | DHead
  | DNext addr
  | DTest addr "addr option"
  | DEmpty
  | DValue addr addr
  | DMove addr addr int
  | DUnlock addr int
  | DFree addr int

record queue_t =
  qmem :: heap
  qhead :: addr
  qtail :: addr
  head_lock :: "tid option"
  tail_lock :: "tid option"
  qpcs :: "tid \<Rightarrow> qpc"
  qret :: "tid \<Rightarrow> (int \<times> int option) option"
  enq :: "int list"
  deq :: "int list"

definition Queue_Init :: "addr \<Rightarrow> lnode \<Rightarrow> queue_t" where
  "Queue_Init a n =
     \<lparr>qmem = (\<lambda>_. None)(a \<mapsto> n\<lparr>nxt := None\<rparr>), qhead = a, qtail = a, head_lock = None, tail_lock = None,
      qpcs = (\<lambda>_. QIdle), qret = (\<lambda>_. None), enq = [], deq = []\<rparr>"

definition qat :: "tid \<Rightarrow> qpc \<Rightarrow> queue_t \<Rightarrow> queue_t" where
  "qat t p q = q\<lparr>qpcs := (qpcs q)(t := p)\<rparr>"

definition Queue_Enqueue :: "tid \<Rightarrow> queue_t \<Rightarrow> queue_t option" where
  "Queue_Enqueue t q =
     (case qpcs q t of
        EValue v a \<Rightarrow> (case qmem q a of None \<Rightarrow> None
          | Some n \<Rightarrow> Some (qat t (ENull v a) (q\<lparr>qmem := (qmem q)(a \<mapsto> n\<lparr>key := v\<rparr>)\<rparr>)))
      | ENull v a \<Rightarrow> (case qmem q a of None \<Rightarrow> None
          | Some n \<Rightarrow> Some (qat t (ELock v a) (q\<lparr>qmem := (qmem q)(a \<mapsto> n\<lparr>nxt := None\<rparr>)\<rparr>)))
      | ELock v a \<Rightarrow>
          (if tail_lock q = None then Some (qat t (ELink v a) (q\<lparr>tail_lock := Some t\<rparr>)) else None)
      | ELink v a \<Rightarrow> (case qmem q (qtail q) of None \<Rightarrow> None
          | Some n \<Rightarrow> Some (qat t (ETail v a)
              (q\<lparr>qmem := (qmem q)(qtail q \<mapsto> n\<lparr>nxt := Some a\<rparr>), enq := enq q @ [v]\<rparr>)))
      | ETail v a \<Rightarrow> Some (qat t EUnlock (q\<lparr>qtail := a\<rparr>))
      | EUnlock \<Rightarrow> Some (qat t QIdle (q\<lparr>tail_lock := None\<rparr>))
      | _ \<Rightarrow> None)"

definition Queue_Dequeue :: "tid \<Rightarrow> queue_t \<Rightarrow> queue_t option" where
  "Queue_Dequeue t q =
     (case qpcs q t of
        DLock \<Rightarrow> (if head_lock q = None then Some (qat t DHead (q\<lparr>head_lock := Some t\<rparr>)) else None)
      | DHead \<Rightarrow> Some (qat t (DNext (qhead q)) q)
      | DNext tmp \<Rightarrow> (case qmem q tmp of None \<Rightarrow> None | Some n \<Rightarrow> Some (qat t (DTest tmp (nxt n)) q))
      | DTest tmp new_head \<Rightarrow>
          Some (qat t (case new_head of None \<Rightarrow> DEmpty | Some b \<Rightarrow> DValue tmp b) q)
      | DEmpty \<Rightarrow> Some ((qat t QIdle (q\<lparr>head_lock := None\<rparr>))\<lparr>qret := (qret q)(t \<mapsto> (- 1, None))\<rparr>)
      | DValue tmp b \<Rightarrow> (case qmem q b of None \<Rightarrow> None | Some n \<Rightarrow> Some (qat t (DMove tmp b (key n)) q))
      | DMove tmp b v \<Rightarrow> Some (qat t (DUnlock tmp v) (q\<lparr>qhead := b, deq := deq q @ [v]\<rparr>))
      | DUnlock tmp v \<Rightarrow> Some (qat t (DFree tmp v) (q\<lparr>head_lock := None\<rparr>))
      | DFree tmp v \<Rightarrow> (case qmem q tmp of None \<Rightarrow> None
          | Some n \<Rightarrow> Some ((qat t QIdle (q\<lparr>qmem := (qmem q)(tmp := None)\<rparr>))
              \<lparr>qret := (qret q)(t \<mapsto> (0, Some v))\<rparr>))
      | _ \<Rightarrow> None)"

datatype qlabel = Enq tid int | Deq tid | QMalloc tid addr lnode | QGo tid

fun queue_step :: "qlabel \<Rightarrow> queue_t \<Rightarrow> queue_t option" where
  "queue_step (Enq t v) q = (if qpcs q t = QIdle then Some (qat t (EMalloc v) q) else None)"
| "queue_step (Deq t) q = (if qpcs q t = QIdle then Some (qat t DLock q) else None)"
| "queue_step (QMalloc t a n) q =
     (case qpcs q t of
        EMalloc v \<Rightarrow> (if qmem q a = None
          then Some (qat t (EValue v a) (q\<lparr>qmem := (qmem q)(a \<mapsto> n)\<rparr>)) else None)
      | _ \<Rightarrow> None)"
| "queue_step (QGo t) q =
     (case Queue_Enqueue t q of None \<Rightarrow> Queue_Dequeue t q | Some u \<Rightarrow> Some u)"

section \<open>Invariant\<close>

fun at_tail :: "qpc \<Rightarrow> bool" where
  "at_tail (ELink v a) = True"
| "at_tail (ETail v a) = True"
| "at_tail EUnlock = True"
| "at_tail p = False"

fun at_head :: "qpc \<Rightarrow> bool" where
  "at_head DHead = True"
| "at_head (DNext tmp) = True"
| "at_head (DTest tmp b) = True"
| "at_head DEmpty = True"
| "at_head (DValue tmp b) = True"
| "at_head (DMove tmp b v) = True"
| "at_head (DUnlock tmp v) = True"
| "at_head p = False"

fun linking :: "qpc \<Rightarrow> bool" where
  "linking (ETail v a) = True"
| "linking p = False"

text \<open>The node that belongs to one thread: allocated and not yet linked, or unlinked and not yet freed.\<close>

fun qown :: "qpc \<Rightarrow> addr option" where
  "qown (EValue v a) = Some a"
| "qown (ENull v a) = Some a"
| "qown (ELock v a) = Some a"
| "qown (ELink v a) = Some a"
| "qown (DUnlock a v) = Some a"
| "qown (DFree a v) = Some a"
| "qown p = None"

text \<open>\<open>C\<close> is the chain of addresses from the dummy on.\<close>

fun qpc_ok :: "heap \<Rightarrow> addr \<Rightarrow> addr list \<Rightarrow> qpc \<Rightarrow> bool" where
  "qpc_ok h z C (ENull v a) = (key (the (h a)) = v)"
| "qpc_ok h z C (ELock v a) = (h a = Some \<lparr>key = v, nxt = None\<rparr>)"
| "qpc_ok h z C (ELink v a) = (h a = Some \<lparr>key = v, nxt = None\<rparr> \<and> z = last C)"
| "qpc_ok h z C (ETail v a) = (a = last C)"
| "qpc_ok h z C EUnlock = (z = last C)"
| "qpc_ok h z C (DNext tmp) = (\<exists>cs. C = tmp # cs)"
| "qpc_ok h z C (DTest tmp b) = (\<exists>cs. C = tmp # cs \<and> (\<forall>x. b = Some x \<longrightarrow> (\<exists>ds. cs = x # ds)))"
| "qpc_ok h z C (DValue tmp b) = (\<exists>ds. C = tmp # b # ds)"
| "qpc_ok h z C (DMove tmp b v) = ((\<exists>ds. C = tmp # b # ds) \<and> key (the (h b)) = v)"
| "qpc_ok h z C p = True"

definition queue_ok :: "addr list \<Rightarrow> queue_t \<Rightarrow> bool" where
  "queue_ok C q \<longleftrightarrow>
     path (qmem q) (Some (qhead q)) C \<and> distinct C \<and> enq q = deq q @ keys (qmem q) (tl C) \<and>
     ((\<forall>t. \<not> linking (qpcs q t)) \<longrightarrow> qtail q = last C) \<and>
     (\<forall>t. head_lock q = Some t \<longleftrightarrow> at_head (qpcs q t)) \<and>
     (\<forall>t. tail_lock q = Some t \<longleftrightarrow> at_tail (qpcs q t)) \<and>
     (\<forall>t a. qown (qpcs q t) = Some a \<longrightarrow> qmem q a \<noteq> None \<and> a \<notin> set C) \<and>
     (\<forall>t u a. qown (qpcs q t) = Some a \<longrightarrow> qown (qpcs q u) = Some a \<longrightarrow> t = u) \<and>
     (\<forall>t. qpc_ok (qmem q) (qtail q) C (qpcs q t))"

lemma queue_ok_D:
  assumes "queue_ok C q"
  shows "path (qmem q) (Some (qhead q)) C" "distinct C" "enq q = deq q @ keys (qmem q) (tl C)"
    "(\<forall>t. \<not> linking (qpcs q t)) \<Longrightarrow> qtail q = last C"
    "head_lock q = Some t \<longleftrightarrow> at_head (qpcs q t)" "tail_lock q = Some t \<longleftrightarrow> at_tail (qpcs q t)"
    "qown (qpcs q t) = Some a \<Longrightarrow> qmem q a \<noteq> None" "qown (qpcs q t) = Some a \<Longrightarrow> a \<notin> set C"
    "qown (qpcs q t) = Some a \<Longrightarrow> qown (qpcs q u) = Some a \<Longrightarrow> t = u"
    "qpc_ok (qmem q) (qtail q) C (qpcs q t)"
  using assms unfolding queue_ok_def by blast+

lemma at_tail_unique: "queue_ok C q \<Longrightarrow> at_tail (qpcs q t) \<Longrightarrow> at_tail (qpcs q u) \<Longrightarrow> t = u"
  using queue_ok_D(6) by (metis option.inject)

lemma at_head_unique: "queue_ok C q \<Longrightarrow> at_head (qpcs q t) \<Longrightarrow> at_head (qpcs q u) \<Longrightarrow> t = u"
  using queue_ok_D(5) by (metis option.inject)

lemma linking_at_tail: "linking p \<Longrightarrow> at_tail p"
  by (cases p) auto

lemma chain_cons: "queue_ok C q \<Longrightarrow> C = qhead q # tl C"
  using queue_ok_D(1) [of C q] by (cases C) auto

lemma qpc_ok_upd:
  assumes "qpc_ok h z C p" "a \<notin> set C" "qown p \<noteq> Some a"
  shows "qpc_ok (h(a := x)) z C p"
  using assms by (cases p) auto

lemma qpc_ok_tail: "qpc_ok h z C p \<Longrightarrow> \<not> at_tail p \<Longrightarrow> qpc_ok h z' C p"
  by (cases p) auto

lemma qpc_ok_head: "qpc_ok h z C p \<Longrightarrow> \<not> at_head p \<Longrightarrow> last C' = last C \<Longrightarrow> qpc_ok h z C' p"
  by (cases p) auto

text \<open>A step that leaves the chain alone: it moves one thread, may change the locks, and writes at most
  one node, which it has just got or owns.\<close>

lemma queue_ok_move:
  assumes ok: "queue_ok C q" and p: "qpcs q' = (qpcs q)(t := p)"
    and same: "enq q' = enq q" "deq q' = deq q" "qhead q' = qhead q" "qtail q' = qtail q"
    and m: "qmem q' = qmem q \<or> (\<exists>a x. qmem q' = (qmem q)(a := x) \<and>
      (qmem q a = None \<or> qown (qpcs q t) = Some a) \<and> (x = None \<longrightarrow> qown p = None))"
    and lk: "\<And>u. head_lock q' = Some u \<longleftrightarrow> at_head (if u = t then p else qpcs q u)"
      "\<And>u. tail_lock q' = Some u \<longleftrightarrow> at_tail (if u = t then p else qpcs q u)"
    and link: "linking p = linking (qpcs q t)"
    and own: "\<And>a. qown p = Some a \<Longrightarrow> qmem q' a \<noteq> None \<and> (qown (qpcs q t) = Some a \<or> qmem q a = None)"
    and new: "qpc_ok (qmem q') (qtail q) C p"
  shows "queue_ok C q'"
proof -
  note D = queue_ok_D [OF ok]
  have out: "a \<notin> set C" if "qmem q a = None" for a using path_dom [OF D(1)] that by blast
  have tl: "a \<notin> set C \<Longrightarrow> a \<notin> set (tl C)" for a by (cases C) auto
  have mem: "path (qmem q') (Some (qhead q)) C" "keys (qmem q') (tl C) = keys (qmem q) (tl C)"
  proof -
    have "qmem q' = qmem q \<or> (\<exists>a x. qmem q' = (qmem q)(a := x) \<and> a \<notin> set C)"
      using m out D(8) by blast
    then show "path (qmem q') (Some (qhead q)) C" "keys (qmem q') (tl C) = keys (qmem q) (tl C)"
      using D(1) tl by auto
  qed
  have others: "qpc_ok (qmem q') (qtail q) C (qpcs q u) \<and>
      (\<forall>a. qown (qpcs q u) = Some a \<longrightarrow> qmem q' a \<noteq> None)" if "u \<noteq> t" for u
    using m
  proof
    assume "\<exists>a x. qmem q' = (qmem q)(a := x) \<and>
      (qmem q a = None \<or> qown (qpcs q t) = Some a) \<and> (x = None \<longrightarrow> qown p = None)"
    then obtain a x where a: "qmem q' = (qmem q)(a := x)" "qmem q a = None \<or> qown (qpcs q t) = Some a"
      by blast
    have "a \<notin> set C" using a(2) out D(8) by blast
    moreover have "qown (qpcs q u) \<noteq> Some a" using a(2) D(7,9) that by blast
    ultimately show ?thesis using qpc_ok_upd [OF D(10)] a(1) D(7) by auto
  qed (use D(7,10) in simp)
  show ?thesis unfolding queue_ok_def p same
  proof (intro conjI allI impI)
    assume "\<forall>u. \<not> linking (((qpcs q)(t := p)) u)"
    then have "\<forall>u. \<not> linking (qpcs q u)" using link by (metis fun_upd_apply)
    then show "qtail q = last C" by (rule D(4))
  next
    fix u a
    show "head_lock q' = Some u \<longleftrightarrow> at_head (((qpcs q)(t := p)) u)" using lk(1) by simp
    show "tail_lock q' = Some u \<longleftrightarrow> at_tail (((qpcs q)(t := p)) u)" using lk(2) by simp
    show "qpc_ok (qmem q') (qtail q) C (((qpcs q)(t := p)) u)"
      using new others by (cases "u = t") auto
    assume o': "qown (((qpcs q)(t := p)) u) = Some a"
    show "qmem q' a \<noteq> None" using o' own others by (cases "u = t") auto
    show "a \<notin> set C" using o' own out D(8) by (cases "u = t") auto
    fix v assume "qown (((qpcs q)(t := p)) v) = Some a"
    with o' own D(7,9) show "u = v" by (fastforce split: if_splits)
  qed (use mem D in auto)
qed

lemma path_snoc:
  assumes "path h p C" "C \<noteq> []" "distinct C" "a \<notin> set C" "h (last C) = Some n" "h a = Some m" "nxt m = None"
  shows "path (h(last C \<mapsto> n\<lparr>nxt := Some a\<rparr>)) p (C @ [a])"
  using assms
proof (induction C arbitrary: p)
  case (Cons c C)
  then show ?case by (cases "C = []") (auto split: option.splits)
qed simp

lemma keys_snoc: "h c = Some n \<Longrightarrow> keys (h(c \<mapsto> n\<lparr>nxt := x\<rparr>)) C = keys h C"
  by (induction C) auto

lemma queue_ok_link:
  assumes ok: "queue_ok C q" and at: "qpcs q t = ELink v a" and n: "qmem q (qtail q) = Some n"
  shows "queue_ok (C @ [a]) (qat t (ETail v a)
    (q\<lparr>qmem := (qmem q)(qtail q \<mapsto> n\<lparr>nxt := Some a\<rparr>), enq := enq q @ [v]\<rparr>))" (is "queue_ok ?C ?u")
proof -
  note D = queue_ok_D [OF ok]
  let ?h = "(qmem q)(qtail q \<mapsto> n\<lparr>nxt := Some a\<rparr>)"
  have a: "qmem q a = Some \<lparr>key = v, nxt = None\<rparr>" and z: "qtail q = last C" using D(10) [of t] at by auto
  have out: "a \<notin> set C" using D(8) [of t a] at by simp
  have ne: "C \<noteq> []" using chain_cons [OF ok] by auto
  have az: "a \<noteq> qtail q" using out z ne by auto
  have path: "path ?h (Some (qhead q)) ?C"
    using path_snoc [OF D(1) ne D(2) out n [unfolded z] a] z by simp
  have "tl ?C = tl C @ [a]" using ne by simp
  then have keys: "enq q @ [v] = deq q @ keys ?h (tl ?C)"
    using D(3) a az keys_snoc [of "qmem q" "qtail q" n "Some a"] n by simp
  have only: "\<not> at_tail (qpcs q u)" if "u \<noteq> t" for u using at_tail_unique [OF ok, of t u] at that by auto
  have others: "qpc_ok ?h (qtail q) ?C (qpcs q u) \<and> (\<forall>b. qown (qpcs q u) = Some b \<longrightarrow> b \<noteq> qtail q)"
    if "u \<noteq> t" for u
  proof -
    have own: "qown (qpcs q u) = Some b \<Longrightarrow> b \<noteq> qtail q" for b using D(8) [of u b] z ne by auto
    have "key (the (?h b)) = key (the (qmem q b))" for b using n by simp
    with D(10) [of u] only [OF that] own show ?thesis by (cases "qpcs q u") auto
  qed
  show ?thesis unfolding queue_ok_def
  proof (intro conjI allI impI)
    show "path (qmem ?u) (Some (qhead ?u)) ?C" using path by (simp add: qat_def)
    show "distinct ?C" using D(2) out by simp
    show "enq ?u = deq ?u @ keys (qmem ?u) (tl ?C)" using keys by (simp add: qat_def)
    assume "\<forall>u. \<not> linking (qpcs ?u u)"
    then show "qtail ?u = last ?C" by (auto simp: qat_def dest: spec [of _ t])
  next
    fix u b
    show "head_lock ?u = Some u \<longleftrightarrow> at_head (qpcs ?u u)" using D(5) [of u] at by (simp add: qat_def)
    show "tail_lock ?u = Some u \<longleftrightarrow> at_tail (qpcs ?u u)" using D(6) [of u] at by (simp add: qat_def)
    show "qpc_ok (qmem ?u) (qtail ?u) ?C (qpcs ?u u)"
      using others by (cases "u = t") (simp_all add: qat_def)
    assume own: "qown (qpcs ?u u) = Some b"
    then have own': "u \<noteq> t" "qown (qpcs q u) = Some b" by (auto simp: qat_def split: if_splits)
    show "qmem ?u b \<noteq> None" using D(7) [OF own'(2)] by (simp add: qat_def)
    show "b \<notin> set ?C" using D(8) [OF own'(2)] D(9) [OF own'(2), of t] own'(1) at by auto
    fix w assume "qown (qpcs ?u w) = Some b"
    then have "qown (qpcs q w) = Some b" by (auto simp: qat_def split: if_splits)
    with D(9) [OF own'(2)] show "u = w" by blast
  qed
qed

lemma queue_ok_tail:
  assumes ok: "queue_ok C q" and at: "qpcs q t = ETail v a"
  shows "queue_ok C (qat t EUnlock (q\<lparr>qtail := a\<rparr>))" (is "queue_ok C ?u")
proof -
  note D = queue_ok_D [OF ok]
  have a: "a = last C" using D(10) [of t] at by simp
  have only: "\<not> at_tail (qpcs q u)" if "u \<noteq> t" for u using at_tail_unique [OF ok, of t u] at that by auto
  show ?thesis unfolding queue_ok_def
  proof (intro conjI allI impI)
    fix u b
    show "head_lock ?u = Some u \<longleftrightarrow> at_head (qpcs ?u u)" using D(5) [of u] at by (simp add: qat_def)
    show "tail_lock ?u = Some u \<longleftrightarrow> at_tail (qpcs ?u u)" using D(6) [of u] at by (simp add: qat_def)
    show "qpc_ok (qmem ?u) (qtail ?u) C (qpcs ?u u)"
      using qpc_ok_tail [OF D(10) only] a by (cases "u = t") (simp_all add: qat_def)
    assume own: "qown (qpcs ?u u) = Some b"
    then have own': "u \<noteq> t" "qown (qpcs q u) = Some b" by (auto simp: qat_def split: if_splits)
    show "qmem ?u b \<noteq> None" "b \<notin> set C" using D(7,8) [OF own'(2)] by (simp_all add: qat_def)
    fix w assume "qown (qpcs ?u w) = Some b"
    then have "qown (qpcs q w) = Some b" by (auto simp: qat_def split: if_splits)
    with D(9) [OF own'(2)] show "u = w" by blast
  qed (use D a in \<open>auto simp: qat_def\<close>)
qed

lemma queue_ok_advance:
  assumes ok: "queue_ok C q" and at: "qpcs q t = DMove tmp b v"
  shows "queue_ok (tl C) (qat t (DUnlock tmp v) (q\<lparr>qhead := b, deq := deq q @ [v]\<rparr>))" (is "queue_ok _ ?u")
proof -
  note D = queue_ok_D [OF ok]
  obtain ds where C: "C = tmp # b # ds" and v: "key (the (qmem q b)) = v" using D(10) [of t] at by auto
  have last: "last (tl C) = last C" using C by simp
  have only: "\<not> at_head (qpcs q u)" if "u \<noteq> t" for u using at_head_unique [OF ok, of t u] at that by auto
  have mem: "qmem q tmp \<noteq> None" "path (qmem q) (Some b) (b # ds)" "tmp \<notin> set (tl C)"
    using D(1,2) C by (auto split: option.splits)
  have sub: "x \<notin> set C \<Longrightarrow> x \<notin> set (tl C)" for x using C by simp
  show ?thesis unfolding queue_ok_def
  proof (intro conjI allI impI)
    show "path (qmem ?u) (Some (qhead ?u)) (tl C)" using mem(2) C by (simp add: qat_def)
    show "distinct (tl C)" using D(2) C by simp
    show "enq ?u = deq ?u @ keys (qmem ?u) (tl (tl C))" using D(3) C v by (simp add: qat_def)
    assume "\<forall>u. \<not> linking (qpcs ?u u)"
    moreover have "\<not> linking (qpcs q t)" using at by simp
    ultimately have "\<forall>u. \<not> linking (qpcs q u)" by (auto simp: qat_def split: if_splits)
    then show "qtail ?u = last (tl C)" using D(4) last by (simp add: qat_def)
  next
    fix u x
    show "head_lock ?u = Some u \<longleftrightarrow> at_head (qpcs ?u u)" using D(5) [of u] at by (simp add: qat_def)
    show "tail_lock ?u = Some u \<longleftrightarrow> at_tail (qpcs ?u u)" using D(6) [of u] at by (simp add: qat_def)
    show "qpc_ok (qmem ?u) (qtail ?u) (tl C) (qpcs ?u u)"
      using qpc_ok_head [OF D(10) only last] by (cases "u = t") (simp_all add: qat_def)
    assume own: "qown (qpcs ?u u) = Some x"
    show "qmem ?u x \<noteq> None" using own mem(1) D(7) by (cases "u = t") (auto simp: qat_def)
    show "x \<notin> set (tl C)" using own mem(3) D(8) sub by (cases "u = t") (auto simp: qat_def)
    have t: "qown (qpcs q w) \<noteq> Some tmp" for w using D(8) [of w tmp] C by auto
    fix w assume "qown (qpcs ?u w) = Some x"
    with own t D(9) show "u = w" by (auto simp: qat_def split: if_splits)
  qed
qed

lemma queue_ok_local:
  assumes ok: "queue_ok C q" and at: "qown p = None" "at_head p = at_head (qpcs q t)"
    "at_tail p = at_tail (qpcs q t)" "linking p = linking (qpcs q t)"
    and new: "qpc_ok (qmem q) (qtail q) C p"
  shows "queue_ok C (qat t p q)"
  using queue_ok_D(5,6) [OF ok] at new
  by (intro queue_ok_move [OF ok, of _ t p]) (auto simp: qat_def)

lemma queue_ok_write:
  assumes ok: "queue_ok C q" and at: "qown p = Some a" "qmem q a = None \<or> qown (qpcs q t) = Some a"
    "\<not> at_head p" "\<not> at_head (qpcs q t)" "\<not> at_tail p" "\<not> at_tail (qpcs q t)"
    and new: "qpc_ok ((qmem q)(a \<mapsto> n)) (qtail q) C p"
  shows "queue_ok C (qat t p (q\<lparr>qmem := (qmem q)(a \<mapsto> n)\<rparr>))"
proof -
  have "\<exists>b x. (qmem q)(a \<mapsto> n) = (qmem q)(b := x) \<and>
      (qmem q b = None \<or> qown (qpcs q t) = Some b) \<and> (x = None \<longrightarrow> qown p = None)"
    by (intro exI [of _ a] exI [of _ "Some n"]) (use at in auto)
  moreover have "linking p = linking (qpcs q t)"
    using at linking_at_tail [of p] linking_at_tail [of "qpcs q t"] by blast
  moreover have "qown (qpcs q t) = Some a \<or> qmem q a = None" using at(2) by auto
  ultimately show ?thesis
    using queue_ok_D(5,6) [OF ok] at(1,3-) new
    by (intro queue_ok_move [OF ok, of _ t p]) (simp_all add: qat_def)
qed

lemma queue_ok_ret: "queue_ok C q \<Longrightarrow> queue_ok C (q\<lparr>qret := r\<rparr>)"
  by (simp add: queue_ok_def)

lemma enqueue_queue_ok:
  assumes ok: "queue_ok C q" and step: "Queue_Enqueue t q = Some u"
  shows "\<exists>D. queue_ok D u"
proof (cases "qpcs q t")
  case (EValue v a)
  then obtain n where "u = qat t (ENull v a) (q\<lparr>qmem := (qmem q)(a \<mapsto> n\<lparr>key := v\<rparr>)\<rparr>)"
    using step by (auto simp: Queue_Enqueue_def split: option.splits)
  then show ?thesis using EValue queue_ok_write [OF ok, of "ENull v a" a t] by (auto intro!: exI [of _ C])
next
  case (ENull v a)
  then obtain n where n: "qmem q a = Some n" "u = qat t (ELock v a) (q\<lparr>qmem := (qmem q)(a \<mapsto> n\<lparr>nxt := None\<rparr>)\<rparr>)"
    using step by (auto simp: Queue_Enqueue_def split: option.splits)
  have "key n = v" using queue_ok_D(10) [OF ok, of t] ENull n(1) by simp
  then have "n\<lparr>nxt := None\<rparr> = \<lparr>key = v, nxt = None\<rparr>" by (cases n) auto
  then show ?thesis using n(2) ENull queue_ok_write [OF ok, of "ELock v a" a t] by (auto intro!: exI [of _ C])
next
  case (ELock v a)
  then have lock: "tail_lock q = None" and u: "u = qat t (ELink v a) (q\<lparr>tail_lock := Some t\<rparr>)"
    using step by (auto simp: Queue_Enqueue_def split: if_splits)
  have none: "\<not> at_tail (qpcs q w)" for w using queue_ok_D(6) [OF ok, of w] lock by simp
  then have "qtail q = last C" using queue_ok_D(4) [OF ok] linking_at_tail by blast
  then have "queue_ok C u" unfolding u
    using ELock queue_ok_D(5,7,10) [OF ok] queue_ok_D(10) [OF ok, of t] none
    by (intro queue_ok_move [OF ok, of _ t "ELink v a"]) (auto simp: qat_def)
  then show ?thesis ..
next
  case (ELink v a)
  then show ?thesis using step queue_ok_link [OF ok ELink] by (auto simp: Queue_Enqueue_def split: option.splits)
next
  case (ETail v a)
  then show ?thesis using step queue_ok_tail [OF ok ETail] by (auto simp: Queue_Enqueue_def)
next
  case EUnlock
  then have u: "u = qat t QIdle (q\<lparr>tail_lock := None\<rparr>)" using step by (auto simp: Queue_Enqueue_def)
  have "w \<noteq> t \<Longrightarrow> \<not> at_tail (qpcs q w)" for w using at_tail_unique [OF ok, of t w] EUnlock by auto
  then have "queue_ok C u" unfolding u using EUnlock queue_ok_D(5) [OF ok]
    by (intro queue_ok_move [OF ok, of _ t QIdle]) (auto simp: qat_def)
  then show ?thesis ..
qed (use step in \<open>auto simp: Queue_Enqueue_def\<close>)

lemma chain_next:
  assumes "path h p (a # cs)" "h a = Some n" "nxt n = Some b"
  shows "\<exists>ds. cs = b # ds"
  using assms by (cases cs) auto

lemma release_head:
  assumes ok: "queue_ok C q" and at: "at_head (qpcs q t)" "\<not> at_head p" "\<not> at_tail p" "\<not> at_tail (qpcs q t)"
    and own: "qown p = None \<or> qown p = qown (qpcs q t)"
    and new: "qpc_ok (qmem q) (qtail q) C p"
  shows "queue_ok C (qat t p (q\<lparr>head_lock := None\<rparr>))"
proof -
  have "w \<noteq> t \<Longrightarrow> \<not> at_head (qpcs q w)" for w using at_head_unique [OF ok, of t w] at by auto
  then show ?thesis
    using at own new queue_ok_D(6,7) [OF ok] linking_at_tail [of p] linking_at_tail [of "qpcs q t"]
    by (intro queue_ok_move [OF ok, of _ t p]) (auto simp: qat_def)
qed

lemma dequeue_queue_ok:
  assumes ok: "queue_ok C q" and step: "Queue_Dequeue t q = Some u"
  shows "\<exists>D. queue_ok D u"
proof (cases "qpcs q t")
  case DLock
  then have lock: "head_lock q = None" and u: "u = qat t DHead (q\<lparr>head_lock := Some t\<rparr>)"
    using step by (auto simp: Queue_Dequeue_def split: if_splits)
  have "\<not> at_head (qpcs q w)" for w using queue_ok_D(5) [OF ok, of w] lock by simp
  then have "queue_ok C u" unfolding u using DLock queue_ok_D(6) [OF ok]
    by (intro queue_ok_move [OF ok, of _ t DHead]) (auto simp: qat_def)
  then show ?thesis ..
next
  case DHead
  have "\<exists>cs. C = qhead q # cs" using chain_cons [OF ok] by blast
  then have "queue_ok C (qat t (DNext (qhead q)) q)" using DHead by (intro queue_ok_local [OF ok]) auto
  then show ?thesis using step DHead by (auto simp: Queue_Dequeue_def)
next
  case (DNext tmp)
  then obtain n where n: "qmem q tmp = Some n" "u = qat t (DTest tmp (nxt n)) q"
    using step by (auto simp: Queue_Dequeue_def split: option.splits)
  obtain cs where C: "C = tmp # cs" using queue_ok_D(10) [OF ok, of t] DNext by auto
  have "\<exists>ds. cs = b # ds" if "nxt n = Some b" for b
    using chain_next [of _ _ tmp cs n b] queue_ok_D(1) [OF ok] C n(1) that by blast
  with C have "queue_ok C (qat t (DTest tmp (nxt n)) q)" using DNext by (intro queue_ok_local [OF ok]) auto
  then show ?thesis using n(2) by blast
next
  case (DTest tmp b)
  then have u: "u = qat t (case b of None \<Rightarrow> DEmpty | Some b \<Rightarrow> DValue tmp b) q"
    using step by (auto simp: Queue_Dequeue_def)
  have "queue_ok C u" unfolding u using DTest queue_ok_D(10) [OF ok, of t]
    by (intro queue_ok_local [OF ok]) (auto split: option.splits)
  then show ?thesis ..
next
  case DEmpty
  then have "u = (qat t QIdle (q\<lparr>head_lock := None\<rparr>))\<lparr>qret := (qret q)(t \<mapsto> (- 1, None))\<rparr>"
    using step by (auto simp: Queue_Dequeue_def)
  moreover have "queue_ok C (qat t QIdle (q\<lparr>head_lock := None\<rparr>))"
    using DEmpty by (intro release_head [OF ok]) auto
  ultimately show ?thesis using queue_ok_ret by blast
next
  case (DValue tmp b)
  then obtain n where n: "qmem q b = Some n" "u = qat t (DMove tmp b (key n)) q"
    using step by (auto simp: Queue_Dequeue_def split: option.splits)
  have "queue_ok C u" unfolding n(2) using DValue queue_ok_D(10) [OF ok, of t] n(1)
    by (intro queue_ok_local [OF ok]) auto
  then show ?thesis ..
next
  case (DMove tmp b v)
  then show ?thesis using step queue_ok_advance [OF ok DMove] by (auto simp: Queue_Dequeue_def)
next
  case (DUnlock tmp v)
  then have "queue_ok C (qat t (DFree tmp v) (q\<lparr>head_lock := None\<rparr>))"
    by (intro release_head [OF ok]) auto
  then show ?thesis using step DUnlock by (auto simp: Queue_Dequeue_def)
next
  case (DFree tmp v)
  then have u: "u = (qat t QIdle (q\<lparr>qmem := (qmem q)(tmp := None)\<rparr>))\<lparr>qret := (qret q)(t \<mapsto> (0, Some v))\<rparr>"
    using step by (auto simp: Queue_Dequeue_def split: option.splits)
  have "queue_ok C (qat t QIdle (q\<lparr>qmem := (qmem q)(tmp := None)\<rparr>))"
    using DFree queue_ok_D(5,6) [OF ok] by (intro queue_ok_move [OF ok, of _ t QIdle]) (auto simp: qat_def)
  then show ?thesis unfolding u using queue_ok_ret by blast
qed (use step in \<open>auto simp: Queue_Dequeue_def\<close>)

lemma queue_step_ok:
  assumes ok: "queue_ok C q" and step: "queue_step l q = Some u"
  shows "\<exists>D. queue_ok D u"
proof (cases l)
  case (Enq t v)
  then show ?thesis using step queue_ok_local [OF ok, of "EMalloc v" t] by (auto split: if_splits)
next
  case (Deq t)
  then show ?thesis using step queue_ok_local [OF ok, of DLock t] by (auto split: if_splits)
next
  case (QMalloc t a n)
  then obtain v where v: "qpcs q t = EMalloc v" using step by (auto split: qpc.splits)
  with QMalloc step have "qmem q a = None" "u = qat t (EValue v a) (q\<lparr>qmem := (qmem q)(a \<mapsto> n)\<rparr>)"
    by (auto split: if_splits)
  then show ?thesis using v queue_ok_write [OF ok, of "EValue v a" a t] by auto
next
  case (QGo t)
  then show ?thesis using step enqueue_queue_ok [OF ok, of t] dequeue_queue_ok [OF ok, of t]
    by (cases "Queue_Enqueue t q") auto
qed

lemma Queue_Init_ok: "queue_ok [a] (Queue_Init a n)"
  by (simp add: queue_ok_def Queue_Init_def)

interpretation tlq: safe_machine queue_step "Queue_Init a n" "\<lambda>q. \<exists>C. queue_ok C q"
  for a :: addr and n :: lnode
  by unfold_locales (use Queue_Init_ok queue_step_ok in blast)+

section \<open>Properties\<close>

text \<open>C4: the two-lock queue is first in, first out, under any interleaving of enqueues and dequeues:
  the nodes after the dummy hold exactly the values enqueued and not yet dequeued, in order, and the
  value a dequeue is about to take is the oldest of them.\<close>

theorem Queue_fifo:
  assumes "reach queue_step (Queue_Init a n) q"
  shows "\<exists>d vs. qmem q (qhead q) = Some d \<and> is_list (qmem q) (nxt d) vs \<and> enq q = deq q @ vs \<and>
    (\<forall>t tmp b v. qpcs q t = DMove tmp b v \<longrightarrow> vs \<noteq> [] \<and> v = hd vs)"
proof -
  obtain C where ok: "queue_ok C q" using tlq.reach_inv [OF assms] by blast
  note D = queue_ok_D [OF ok]
  have "path (qmem q) (Some (qhead q)) (qhead q # tl C)" using D(1) chain_cons [OF ok] by simp
  then obtain d where d: "qmem q (qhead q) = Some d" "path (qmem q) (nxt d) (tl C)"
    by (auto split: option.splits)
  have m: "keys (qmem q) (tl C) \<noteq> [] \<and> v = hd (keys (qmem q) (tl C))" if "qpcs q t = DMove tmp b v" for t tmp b v
    using D(10) [of t] that by auto
  show ?thesis
    by (intro exI [of _ d] exI [of _ "keys (qmem q) (tl C)"] conjI allI impI)
      (use d D(3) path_is_list [OF d(2)] m in auto)
qed

definition queue_demo :: "qlabel list" where
  "queue_demo = [Enq 0 5, QMalloc 0 3 \<lparr>key = 0, nxt = Some 8\<rparr>, QGo 0, QGo 0, QGo 0, QGo 0,
     Deq 1, QGo 1, QGo 1, QGo 1, QGo 1, QGo 1]"

theorem Queue_fifo_witness:
  "\<exists>q. exec queue_step queue_demo (Queue_Init 1 \<lparr>key = 9, nxt = None\<rparr>) = Some q \<and>
     enq q = [5] \<and> deq q = [] \<and> (\<exists>t tmp b. qpcs q t = DMove tmp b 5)"
proof -
  obtain q where q: "exec queue_step queue_demo (Queue_Init 1 \<lparr>key = 9, nxt = None\<rparr>) = Some q"
      "enq q = [5]" "deq q = []" "\<exists>v. qpcs q 1 = DMove 1 3 v"
    unfolding queue_demo_def
    by (simp add: Queue_Init_def Queue_Enqueue_def Queue_Dequeue_def qat_def)
  then obtain v where v: "qpcs q 1 = DMove 1 3 v" by blast
  with Queue_fifo [OF reachI [OF q(1)]] q(2,3) have "v = 5" by auto
  with v q show ?thesis by blast
qed

text \<open>C5: no thread of the two-lock queue touches freed memory, although a dequeue frees the old dummy
  without any lock while an enqueue may still hold it as the old tail: in every reachable state a
  thread inside an operation can take its next step unless it waits for a lock that another thread
  holds (or for \<open>malloc\<close>).\<close>

theorem Queue_no_use_after_free:
  assumes "reach queue_step (Queue_Init a n) q" "qpcs q t \<noteq> QIdle" "\<forall>v. qpcs q t \<noteq> EMalloc v"
    and "\<forall>v b. qpcs q t = ELock v b \<longrightarrow> tail_lock q = None" "qpcs q t = DLock \<longrightarrow> head_lock q = None"
  shows "queue_step (QGo t) q \<noteq> None"
proof -
  obtain C where ok: "queue_ok C q" using tlq.reach_inv [OF assms(1)] by blast
  note D = queue_ok_D [OF ok]
  have C: "qmem q x \<noteq> None" if "x \<in> set C" for x using path_dom [OF D(1)] that by blast
  show ?thesis
  proof (cases "qpcs q t")
    case (EValue v b)
    then show ?thesis using D(7) [of t b] by (auto simp: Queue_Enqueue_def)
  next
    case (ENull v b)
    then show ?thesis using D(7) [of t b] by (auto simp: Queue_Enqueue_def)
  next
    case (ELock v b)
    then show ?thesis using assms(4) by (auto simp: Queue_Enqueue_def)
  next
    case (ELink v b)
    have "qtail q \<in> set C" using D(10) [of t] ELink chain_cons [OF ok] by (metis last_in_set list.distinct(1) qpc_ok.simps(3))
    with C [of "qtail q"] ELink show ?thesis by (auto simp: Queue_Enqueue_def)
  next
    case DLock
    then show ?thesis using assms(5) by (auto simp: Queue_Enqueue_def Queue_Dequeue_def)
  next
    case (DNext tmp)
    then show ?thesis using C [of tmp] D(10) [of t] by (auto simp: Queue_Enqueue_def Queue_Dequeue_def)
  next
    case (DValue tmp b)
    then show ?thesis using C [of b] D(10) [of t] by (auto simp: Queue_Enqueue_def Queue_Dequeue_def)
  next
    case (DFree tmp v)
    then show ?thesis using D(7) [of t tmp] by (auto simp: Queue_Enqueue_def Queue_Dequeue_def)
  qed (use assms(2,3) in \<open>auto simp: Queue_Enqueue_def Queue_Dequeue_def\<close>)
qed

text \<open>The witness: the dequeuer moves past and frees the dummy that the enqueuer still has as the tail.\<close>

theorem Queue_no_use_after_free_witness:
  "\<exists>q. exec queue_step (queue_demo @ [QGo 1, QGo 1, QGo 1]) (Queue_Init 1 \<lparr>key = 9, nxt = None\<rparr>) = Some q \<and>
     qmem q (qtail q) = None \<and> queue_step (QGo 0) q \<noteq> None"
proof -
  obtain q where q: "exec queue_step (queue_demo @ [QGo 1, QGo 1, QGo 1]) (Queue_Init 1 \<lparr>key = 9, nxt = None\<rparr>) = Some q"
      "qmem q (qtail q) = None" "qpcs q 0 = ETail 5 3"
    unfolding queue_demo_def
    by (simp add: Queue_Init_def Queue_Enqueue_def Queue_Dequeue_def qat_def)
  then show ?thesis using Queue_no_use_after_free [OF reachI [OF q(1)], of 0] by simp
qed

end
