(* ===== verification/Monitors.thy ===== *)
theory Monitors
  imports Sync_Prelude
begin

text \<open>
  Programs built from a mutex and condition variables.

  The sources touch the data of a monitor only while they hold its mutex, so a critical section, from
  taking the mutex to giving it back or to going to sleep, is one atomic step of the models. A
  thread asleep on a condition variable has a position of its own; \<open>wk\<close> says for a position which
  position a notification of the condition variable wakes it to (\<open>None\<close> when it does not sleep there).
  \<open>notify_one\<close> wakes any one sleeper: the label of the step chooses it, and \<open>None\<close> may be chosen
  only when nobody sleeps. A spurious wake-up is a step of its own.

  The locale \<open>fifo_machine\<close> is the contract of everything that is a queue: a step pushes, pops, or
  leaves the queue alone.
\<close>

definition notify_one :: "('p \<Rightarrow> 'p option) \<Rightarrow> nat \<Rightarrow> tid option \<Rightarrow> (tid \<Rightarrow> 'p) \<Rightarrow> (tid \<Rightarrow> 'p) option" where
  "notify_one wk m c f =
     (case c of
        None \<Rightarrow> if \<exists>i<m. wk (f i) \<noteq> None then None else Some f
      | Some i \<Rightarrow> if i < m then map_option (\<lambda>p. f(i := p)) (wk (f i)) else None)"

definition notify_all :: "('p \<Rightarrow> 'p option) \<Rightarrow> (tid \<Rightarrow> 'p) \<Rightarrow> (tid \<Rightarrow> 'p)" where
  "notify_all wk f = (\<lambda>i. case wk (f i) of None \<Rightarrow> f i | Some p \<Rightarrow> p)"

abbreviation sleeping :: "nat \<Rightarrow> ('p \<Rightarrow> 'p option) \<Rightarrow> (tid \<Rightarrow> 'p) \<Rightarrow> int" where
  "sleeping m wk f \<equiv> cnt m (\<lambda>p. wk p \<noteq> None) f"

lemma notify_one_cases:
  assumes "notify_one wk m c f = Some g"
  obtains (nobody) "c = None" "g = f" "sleeping m wk f = 0"
    | (somebody) i p where "c = Some i" "i < m" "wk (f i) = Some p" "g = f(i := p)"
proof (cases c)
  case None
  then have "g = f" "\<forall>i<m. \<not> wk (f i) \<noteq> None" using assms by (auto simp: notify_one_def split: if_splits)
  with None nobody show thesis by (simp add: cnt_eq_0)
next
  case (Some i)
  with assms somebody show thesis by (auto simp: notify_one_def split: if_splits)
qed

lemma notify_one_enabled: "\<exists>c g. notify_one wk m c f = Some g"
proof (cases "\<exists>i<m. wk (f i) \<noteq> None")
  case True
  then obtain i p where "i < m" "wk (f i) = Some p" by auto
  then have "notify_one wk m (Some i) f = Some (f(i := p))" by (simp add: notify_one_def)
  then show ?thesis by blast
next
  case False
  then have "notify_one wk m None f = Some f" by (simp add: notify_one_def)
  then show ?thesis by blast
qed

lemma cnt_notify_all:
  "cnt m P (notify_all wk f) = cnt m (\<lambda>x. P (case wk x of None \<Rightarrow> x | Some p \<Rightarrow> p)) f"
  by (simp add: cnt_def notify_all_def)

lemma cnt_mono: "(\<And>x. P x \<Longrightarrow> Q x) \<Longrightarrow> cnt m P f \<le> cnt m Q f"
  by (induction m) (auto simp: cnt_Suc)

lemma cnt_False [simp]: "cnt m (\<lambda>_. False) f = 0"
  by (induction m) (auto simp: cnt_Suc)

lemma cnt_zero_at: "cnt m P f = 0 \<Longrightarrow> i < m \<Longrightarrow> \<not> P (f i)"
  by (simp add: cnt_eq_0)

lemma cnt_zero_iff_le: "cnt m P f < 1 \<longleftrightarrow> cnt m P f = 0"
  using cnt_nonneg [of m P f] by linarith

section \<open>Queues\<close>

text \<open>What a step does to a queue with the histories of its pushes and pops.\<close>

definition queue_move :: "'x list \<times> 'x list \<times> 'x list \<Rightarrow> 'x list \<times> 'x list \<times> 'x list \<Rightarrow> bool" where
  "queue_move a b \<longleftrightarrow> (case (a, b) of ((q, up, dn), (q', up', dn')) \<Rightarrow>
     (q' = q \<and> up' = up \<and> dn' = dn) \<or>
     (\<exists>x. q' = q @ [x] \<and> up' = up @ [x] \<and> dn' = dn) \<or>
     (\<exists>x. q = x # q' \<and> up' = up \<and> dn' = dn @ [x]))"

locale fifo_machine = safe_machine step init inv
  for step :: "'l \<Rightarrow> 's \<Rightarrow> 's option" and init :: 's and inv :: "'s \<Rightarrow> bool" +
  fixes view :: "'s \<Rightarrow> 'x list \<times> 'x list \<times> 'x list"
  assumes view_init: "view init = ([], [], [])"
    and view_step: "inv s \<Longrightarrow> step l s = Some t \<Longrightarrow> queue_move (view s) (view t)"
begin

lemma fifo: "reach step init s \<Longrightarrow> view s = (q, up, dn) \<Longrightarrow> up = dn @ q"
proof (induction arbitrary: q up dn rule: reach.induct)
  case reach_init
  then show ?case by (simp add: view_init)
next
  case (reach_step s l t)
  obtain q' up' dn' where v: "view s = (q', up', dn')" by (cases "view s")
  with reach_step.IH have "up' = dn' @ q'" .
  with view_step [OF reach_inv [OF reach_step.hyps(1)] reach_step.hyps(2)] v reach_step.prems show ?case
    by (auto simp: queue_move_def)
qed

text \<open>What has been popped stays popped, and later pops come after it.\<close>

lemma popped_prefix: "inv s \<Longrightarrow> exec step ls s = Some t \<Longrightarrow> view s = (q, up, dn) \<Longrightarrow> view t = (q', up', dn')
    \<Longrightarrow> \<exists>xs. dn' = dn @ xs"
proof (induction ls arbitrary: s q up dn)
  case Nil
  then show ?case by simp
next
  case (Cons l ls)
  then obtain u where u: "step l s = Some u" "exec step ls u = Some t" by (auto split: option.splits)
  obtain q2 up2 dn2 where v: "view u = (q2, up2, dn2)" by (cases "view u")
  have "\<exists>xs. dn2 = dn @ xs" using view_step [OF Cons.prems(1) u(1)] Cons.prems(3) v by (auto simp: queue_move_def)
  moreover have "\<exists>ys. dn' = dn2 @ ys" using Cons.IH [OF inv_step [OF Cons.prems(1) u(1)] u(2) v Cons.prems(4)] .
  ultimately show ?case by auto
qed

end

end
