(* ===== verification/Thread_Pool.thy ===== *)
theory Thread_Pool
  imports Monitors
begin

text \<open>
  \<open>threads-locks/thread-pool/thread-pool.hpp\<close> and \<open>thread-pool.cpp\<close>: a pool of \<open>n\<close> worker threads
  (0 to \<open>n - 1\<close>, as \<open>Start\<close> creates them) and the clients that call it (\<open>n\<close> to \<open>m - 1\<close>). Positions:
  a worker is about to lock and test (\<open>WLoop\<close>), asleep on \<open>m_queue_not_empty\<close>, running a job, or has
  returned; a client is about to lock in \<open>QueueJob\<close>, asleep on \<open>m_queue_not_full\<close>, awake again and
  about to test, about to notify after unlocking, or inside \<open>Stop\<close>.

  \<open>pushed\<close>, \<open>popped\<close> and \<open>ran\<close> are history variables: jobs accepted, started and finished.
\<close>

datatype 'j ppc =
    WLoop
  | WWait
  | WRun 'j
  | WDone
  | CIdle
  | CQueue 'j
  | CWait 'j
  | CTest 'j
  | CNotify
  | CStop
  | CStopNotEmpty
  | CStopNotFull
  | CJoin

record 'j pool =
  max_que_size :: nat
  block_when_full :: bool
  should_terminate :: bool
  jobs_que :: "'j list"
  ppcs :: "tid \<Rightarrow> 'j ppc"
  pret :: "tid \<Rightarrow> bool option"
  pushed :: "'j list"
  popped :: "'j list"
  ran :: "'j list"

text \<open>The constructor and \<open>Start\<close>.\<close>

definition ThreadPool :: "nat \<Rightarrow> nat \<Rightarrow> bool \<Rightarrow> 'j pool" where
  "ThreadPool num_threads que_size is_blocking =
     \<lparr>max_que_size = que_size, block_when_full = is_blocking, should_terminate = False, jobs_que = [],
      ppcs = (\<lambda>i. if i < num_threads then WLoop else CIdle), pret = (\<lambda>_. None),
      pushed = [], popped = [], ran = []\<rparr>"

fun not_empty :: "'j ppc \<Rightarrow> 'j ppc option" where
  "not_empty WWait = Some WLoop"
| "not_empty _ = None"

fun not_full :: "'j ppc \<Rightarrow> 'j ppc option" where
  "not_full (CWait j) = Some (CTest j)"
| "not_full _ = None"

definition pool_at :: "tid \<Rightarrow> 'j ppc \<Rightarrow> 'j pool \<Rightarrow> 'j pool" where
  "pool_at t p s = s\<lparr>ppcs := (ppcs s)(t := p)\<rparr>"

definition pool_ret :: "tid \<Rightarrow> bool \<Rightarrow> 'j pool \<Rightarrow> 'j pool" where
  "pool_ret t b s = s\<lparr>ppcs := (ppcs s)(t := CIdle), pret := (pret s)(t \<mapsto> b)\<rparr>"

definition ThreadLoop :: "nat \<Rightarrow> tid option \<Rightarrow> tid \<Rightarrow> 'j pool \<Rightarrow> 'j pool option" where
  "ThreadLoop m c t s =
     (if jobs_que s = [] \<and> \<not> should_terminate s
      then (if c = None then Some (pool_at t WWait s) else None)
      else if should_terminate s then (if c = None then Some (pool_at t WDone s) else None)
      else (case notify_one not_full m c (ppcs s) of None \<Rightarrow> None
        | Some f \<Rightarrow> Some (pool_at t (WRun (hd (jobs_que s)))
            (s\<lparr>ppcs := f, jobs_que := tl (jobs_que s), popped := popped s @ [hd (jobs_que s)]\<rparr>))))"

text \<open>The wait for room, and what follows it, up to the end of the critical section.\<close>

definition push_job :: "tid \<Rightarrow> 'j \<Rightarrow> 'j pool \<Rightarrow> 'j pool" where
  "push_job t j s =
     (if \<not> (length (jobs_que s) < max_que_size s \<or> should_terminate s) then pool_at t (CWait j) s
      else if should_terminate s then pool_ret t False s
      else pool_at t CNotify (s\<lparr>jobs_que := jobs_que s @ [j], pushed := pushed s @ [j]\<rparr>))"

text \<open>\<open>return -1\<close> from a function of type \<open>bool\<close> returns true.\<close>

definition QueueJob :: "tid \<Rightarrow> 'j \<Rightarrow> 'j pool \<Rightarrow> 'j pool" where
  "QueueJob t j s =
     (if length (jobs_que s) = max_que_size s \<and> block_when_full s then pool_ret t ((- 1 :: int) \<noteq> 0) s
      else push_job t j s)"

definition busy :: "'j pool \<Rightarrow> bool" where
  "busy s \<longleftrightarrow> jobs_que s = []"

definition pool_run :: "nat \<Rightarrow> nat \<Rightarrow> tid option \<Rightarrow> tid \<Rightarrow> 'j pool \<Rightarrow> 'j pool option" where
  "pool_run n m c t s =
     (if ppcs s t = WLoop then ThreadLoop m c t s
      else if ppcs s t = CNotify then
        (case notify_one not_empty m c (ppcs s) of None \<Rightarrow> None
         | Some f \<Rightarrow> Some (pool_ret t True (s\<lparr>ppcs := f\<rparr>)))
      else if c \<noteq> None then None
      else (case ppcs s t of
        WRun j \<Rightarrow> Some (pool_at t WLoop (s\<lparr>ran := ran s @ [j]\<rparr>))
      | CQueue j \<Rightarrow> Some (QueueJob t j s)
      | CTest j \<Rightarrow> Some (push_job t j s)
      | CStop \<Rightarrow> Some (pool_at t CStopNotEmpty (s\<lparr>should_terminate := True\<rparr>))
      | CStopNotEmpty \<Rightarrow> Some (pool_at t CStopNotFull (s\<lparr>ppcs := notify_all not_empty (ppcs s)\<rparr>))
      | CStopNotFull \<Rightarrow> Some (pool_at t CJoin (s\<lparr>ppcs := notify_all not_full (ppcs s)\<rparr>))
      | CJoin \<Rightarrow> if \<forall>i<n. ppcs s i = WDone then Some (pool_at t CIdle s) else None
      | _ \<Rightarrow> None))"

datatype 'j pool_label = Queue_Job tid 'j | Stop tid | Go tid "tid option" | Spurious tid

fun pool_step :: "nat \<Rightarrow> nat \<Rightarrow> 'j pool_label \<Rightarrow> 'j pool \<Rightarrow> 'j pool option" where
  "pool_step n m (Queue_Job t j) s =
     (if t < m \<and> ppcs s t = CIdle then Some (pool_at t (CQueue j) s) else None)"
| "pool_step n m (Stop t) s = (if t < m \<and> ppcs s t = CIdle then Some (pool_at t CStop s) else None)"
| "pool_step n m (Go t c) s = (if t < m then pool_run n m c t s else None)"
| "pool_step n m (Spurious t) s =
     (if t < m then
        (case not_empty (ppcs s t) of Some p \<Rightarrow> Some (pool_at t p s)
         | None \<Rightarrow> (case not_full (ppcs s t) of Some p \<Rightarrow> Some (pool_at t p s) | None \<Rightarrow> None))
      else None)"

section \<open>The queue of the pool\<close>

lemma pool_at_simps [simp]:
  "jobs_que (pool_at t p s) = jobs_que s" "pushed (pool_at t p s) = pushed s"
  "popped (pool_at t p s) = popped s" "should_terminate (pool_at t p s) = should_terminate s"
  "max_que_size (pool_at t p s) = max_que_size s" "ppcs (pool_at t p s) = (ppcs s)(t := p)"
  "jobs_que (pool_ret t b s) = jobs_que s" "pushed (pool_ret t b s) = pushed s"
  "popped (pool_ret t b s) = popped s" "should_terminate (pool_ret t b s) = should_terminate s"
  "max_que_size (pool_ret t b s) = max_que_size s" "ppcs (pool_ret t b s) = (ppcs s)(t := CIdle)"
  by (simp_all add: pool_at_def pool_ret_def)

text \<open>The steps of a pool, in cases.\<close>

lemma pool_step_cases:
  assumes "pool_step n m l s = Some u"
  obtains (call) t p where "t < m" "ppcs s t = CIdle" "u = pool_at t p s" "(\<exists>j. p = CQueue j \<and> l = Queue_Job t j) \<or> (p = CStop \<and> l = Stop t)"
  | (spurious) t p where "t < m" "u = pool_at t p s" "not_empty (ppcs s t) = Some p \<or> not_full (ppcs s t) = Some p" "l = Spurious t"
  | (sleep) t where "t < m" "ppcs s t = WLoop" "jobs_que s = []" "\<not> should_terminate s" "u = pool_at t WWait s" "\<exists>c. l = Go t c"
  | (exit) t where "t < m" "ppcs s t = WLoop" "should_terminate s" "u = pool_at t WDone s" "\<exists>c. l = Go t c"
  | (pop) t j js c f where "t < m" "ppcs s t = WLoop" "\<not> should_terminate s" "jobs_que s = j # js"
      "notify_one not_full m c (ppcs s) = Some f"
      "u = pool_at t (WRun j) (s\<lparr>ppcs := f, jobs_que := js, popped := popped s @ [j]\<rparr>)" "l = Go t c"
  | (notify) t c f where "t < m" "ppcs s t = CNotify" "notify_one not_empty m c (ppcs s) = Some f"
      "u = pool_ret t True (s\<lparr>ppcs := f\<rparr>)" "l = Go t c"
  | (finish) t j where "t < m" "ppcs s t = WRun j" "u = pool_at t WLoop (s\<lparr>ran := ran s @ [j]\<rparr>)" "\<exists>c. l = Go t c"
  | (refuse) t j where "t < m" "ppcs s t = CQueue j" "length (jobs_que s) = max_que_size s"
      "block_when_full s" "u = pool_ret t True s" "\<exists>c. l = Go t c"
  | (push) t j where "t < m" "ppcs s t = CQueue j \<or> ppcs s t = CTest j" "u = push_job t j s" "\<exists>c. l = Go t c"
  | (stop) t where "t < m" "ppcs s t = CStop" "u = pool_at t CStopNotEmpty (s\<lparr>should_terminate := True\<rparr>)" "\<exists>c. l = Go t c"
  | (stop_ne) t where "t < m" "ppcs s t = CStopNotEmpty"
      "u = pool_at t CStopNotFull (s\<lparr>ppcs := notify_all not_empty (ppcs s)\<rparr>)" "\<exists>c. l = Go t c"
  | (stop_nf) t where "t < m" "ppcs s t = CStopNotFull"
      "u = pool_at t CJoin (s\<lparr>ppcs := notify_all not_full (ppcs s)\<rparr>)" "\<exists>c. l = Go t c"
  | (join) t where "t < m" "ppcs s t = CJoin" "\<forall>i<n. ppcs s i = WDone" "u = pool_at t CIdle s" "\<exists>c. l = Go t c"
proof (cases l)
  case (Queue_Job t j)
  then show thesis using assms call by (auto split: if_splits)
next
  case (Stop t)
  then show thesis using assms call by (auto split: if_splits)
next
  case (Spurious t)
  then show thesis using assms spurious by (auto split: if_splits option.splits)
next
  case (Go t c)
  then have t: "t < m" and r: "pool_run n m c t s = Some u" using assms by (auto split: if_splits)
  show thesis
  proof (cases "ppcs s t")
    case WLoop
    then have r: "ThreadLoop m c t s = Some u" using r by (simp add: pool_run_def)
    show thesis
    proof (cases "should_terminate s")
      case True
      then show thesis using Go r t WLoop exit by (auto simp: ThreadLoop_def split: if_splits)
    next
      case F: False
      show thesis
      proof (cases "jobs_que s")
        case Nil
        then show thesis using Go r t WLoop F sleep by (auto simp: ThreadLoop_def split: if_splits)
      next
        case (Cons j js)
        then show thesis using Go r t WLoop F pop by (auto simp: ThreadLoop_def split: option.splits)
      qed
    qed
  next
    case CNotify
    then show thesis using Go r t notify by (auto simp: pool_run_def split: option.splits)
  next
    case (CQueue j)
    then have "u = QueueJob t j s" using r by (auto simp: pool_run_def split: if_splits)
    then show thesis using CQueue Go t refuse push by (auto simp: QueueJob_def split: if_splits)
  qed (use Go r t finish push stop stop_ne stop_nf join in \<open>auto simp: pool_run_def split: if_splits\<close>)
qed

fun worker_pc :: "'j ppc \<Rightarrow> bool" where
  "worker_pc WLoop = True"
| "worker_pc WWait = True"
| "worker_pc (WRun j) = True"
| "worker_pc WDone = True"
| "worker_pc p = False"

fun testing :: "'j ppc \<Rightarrow> bool" where
  "testing (CTest j) = True"
| "testing p = False"

text \<open>The positions a thread can be at only after \<open>Stop\<close> has set the flag.\<close>

fun stopper :: "'j ppc \<Rightarrow> bool" where
  "stopper WDone = True"
| "stopper CStopNotEmpty = True"
| "stopper CStopNotFull = True"
| "stopper CJoin = True"
| "stopper p = False"

fun asleep_full :: "'j ppc \<Rightarrow> bool" where
  "asleep_full (CWait j) = True"
| "asleep_full p = False"

text \<open>While somebody sleeps on a condition variable, there are as many threads awake or notifications on
  their way as there is work for the sleepers; after \<open>Stop\<close> has set the flag, sleepers are woken by
  the notifications it has yet to send.\<close>

definition wakes_ok :: "bool \<Rightarrow> int \<Rightarrow> int \<Rightarrow> int \<Rightarrow> int \<Rightarrow> int \<Rightarrow> int \<Rightarrow> int \<Rightarrow> int \<Rightarrow> int \<Rightarrow> bool" where
  "wakes_ok quit jobs cap ne nf ntf lp tst x y \<longleftrightarrow>
     (\<not> quit \<longrightarrow> (ne = 0 \<or> jobs \<le> ntf + lp) \<and> (nf = 0 \<or> cap - jobs \<le> tst)) \<and>
     (quit \<longrightarrow> (ne = 0 \<or> 1 \<le> x) \<and> (nf = 0 \<or> 1 \<le> x + y))"

definition pool_wakes :: "nat \<Rightarrow> 'j pool \<Rightarrow> bool" where
  "pool_wakes m s \<longleftrightarrow> (let f = ppcs s in
     wakes_ok (should_terminate s) (int (length (jobs_que s))) (int (max_que_size s))
       (num_at m WWait f) (cnt m asleep_full f) (num_at m CNotify f) (num_at m WLoop f)
       (cnt m testing f) (num_at m CStopNotEmpty f) (num_at m CStopNotFull f))"

definition pool_inv :: "nat \<Rightarrow> nat \<Rightarrow> 'j pool \<Rightarrow> bool" where
  "pool_inv n m s \<longleftrightarrow> (\<forall>i<m. worker_pc (ppcs s i) \<longleftrightarrow> i < n) \<and>
     length (jobs_que s) \<le> max_que_size s \<and> pool_wakes m s \<and>
     (\<not> should_terminate s \<longrightarrow> cnt m stopper (ppcs s) = 0)"

lemma not_empty_iff [simp]: "not_empty p = Some q \<longleftrightarrow> p = WWait \<and> q = WLoop"
  by (cases p) auto

lemma not_full_iff [simp]: "not_full p = Some q \<longleftrightarrow> (\<exists>j. p = CWait j \<and> q = CTest j)"
  by (cases p) auto

lemma not_empty_None [simp]: "not_empty p = None \<longleftrightarrow> p \<noteq> WWait"
  by (cases p) auto

lemma not_full_None [simp]: "not_full p = None \<longleftrightarrow> (\<forall>j. p \<noteq> CWait j)"
  by (cases p) auto

lemma asleep_ne: "sleeping m not_empty f = num_at m WWait f"
  by simp

lemma asleep_nf: "sleeping m not_full f = cnt m asleep_full f"
proof -
  have "(\<lambda>p. not_full p \<noteq> None) = (asleep_full :: 'a ppc \<Rightarrow> bool)"
  proof
    fix p :: "'a ppc"
    show "(not_full p \<noteq> None) = asleep_full p" by (cases p) auto
  qed
  then show ?thesis by simp
qed

lemma at_most: "i < m \<Longrightarrow> P (f i) \<Longrightarrow> 1 \<le> cnt m P f"
  by (rule cnt_pos)

lemma wk_wake_ne: "wakes_ok T j z ne nf a b c x y \<Longrightarrow> 1 \<le> ne \<Longrightarrow> wakes_ok T j z (ne - 1) nf a (b + 1) c x y"
  and wk_wake_nf: "wakes_ok T j z ne nf a b c x y \<Longrightarrow> 1 \<le> nf \<Longrightarrow> wakes_ok T j z ne (nf - 1) a b (c + 1) x y"
  and wk_sleep: "wakes_ok False 0 z ne nf a b c x y \<Longrightarrow> 0 \<le> a \<Longrightarrow> 1 \<le> b \<Longrightarrow>
    wakes_ok False 0 z (ne + 1) nf a (b - 1) c x y"
  and wk_exit: "wakes_ok True j z ne nf a b c x y \<Longrightarrow> wakes_ok True j z ne nf a (b - 1) c x y"
  and wk_pop0: "wakes_ok False j z ne 0 a b c x y \<Longrightarrow> wakes_ok False (j - 1) z ne 0 a (b - 1) c x y"
  and wk_pop1: "wakes_ok False j z ne nf a b c x y \<Longrightarrow> 1 \<le> nf \<Longrightarrow>
    wakes_ok False (j - 1) z ne (nf - 1) a (b - 1) (c + 1) x y"
  and wk_note0: "wakes_ok T j z 0 nf a b c x y \<Longrightarrow> wakes_ok T j z 0 nf (a - 1) b c x y"
  and wk_note1: "wakes_ok T j z ne nf a b c x y \<Longrightarrow> 1 \<le> ne \<Longrightarrow> wakes_ok T j z (ne - 1) nf (a - 1) (b + 1) c x y"
  and wk_loop: "wakes_ok T j z ne nf a b c x y \<Longrightarrow> wakes_ok T j z ne nf a (b + 1) c x y"
  and wk_full: "wakes_ok False z z ne nf a b c x y \<Longrightarrow> 0 \<le> c \<Longrightarrow> wakes_ok False z z ne (nf + 1) a b c x y"
  and wk_full1: "wakes_ok False z z ne nf a b c x y \<Longrightarrow> 1 \<le> c \<Longrightarrow> wakes_ok False z z ne (nf + 1) a b (c - 1) x y"
  and wk_test: "wakes_ok True j z ne nf a b c x y \<Longrightarrow> wakes_ok True j z ne nf a b (c - 1) x y"
  and wk_push: "wakes_ok False j z ne nf a b c x y \<Longrightarrow> wakes_ok False (1 + j) z ne nf (a + 1) b c x y"
  and wk_push1: "wakes_ok False j z ne nf a b c x y \<Longrightarrow> wakes_ok False (1 + j) z ne nf (a + 1) b (c - 1) x y"
  and wk_stop: "0 \<le> x \<Longrightarrow> 0 \<le> y \<Longrightarrow> wakes_ok True j z ne nf a b c (x + 1) y"
  and wk_all_ne: "wakes_ok True j z ne nf a b c x y \<Longrightarrow> 1 \<le> x \<Longrightarrow> 0 \<le> y \<Longrightarrow> wakes_ok True j z 0 nf a b' c (x - 1) (y + 1)"
  and wk_all_nf: "wakes_ok True j z ne nf a b c x y \<Longrightarrow> wakes_ok True j z ne 0 a b c' x (y - 1)"
  by (auto simp: wakes_ok_def)

lemma pool_full: "length (jobs_que s) \<le> max_que_size s \<Longrightarrow> \<not> length (jobs_que s) < max_que_size s
    \<Longrightarrow> length (jobs_que s) = max_que_size s"
  by simp

lemma push_job_wakes:
  assumes w: "pool_wakes m s" and t: "t < m" "ppcs s t = CQueue j \<or> ppcs s t = CTest j"
    and size: "length (jobs_que s) \<le> max_que_size s"
  shows "pool_wakes m (push_job t j s)"
proof -
  consider (full) "\<not> should_terminate s" "int (length (jobs_que s)) = int (max_que_size s)"
    | (quit) "should_terminate s"
    | (room) "\<not> should_terminate s" "length (jobs_que s) < max_que_size s"
    using size by linarith
  then show ?thesis
  proof cases
    case full
    then show ?thesis using t w cnt_pos [of t m testing "ppcs s"] wk_full wk_full1
      by (elim disjE) (auto simp: push_job_def pool_wakes_def Let_def cnt_simps)
  next
    case quit
    then show ?thesis using t w wk_test
      by (elim disjE) (auto simp: push_job_def pool_wakes_def Let_def cnt_simps)
  next
    case room
    then show ?thesis using t w wk_push wk_push1
      by (elim disjE) (auto simp: push_job_def pool_wakes_def Let_def cnt_simps)
  qed
qed

lemma cnt_notify_ne: "P WWait = P WLoop \<Longrightarrow> cnt m P (notify_all not_empty f) = cnt m P f"
  unfolding cnt_notify_all by (rule arg_cong [where f = "\<lambda>P. cnt m P f"]) (auto split: option.splits)

lemma cnt_notify_nf: "(\<And>j. P (CWait j) = P (CTest j)) \<Longrightarrow> cnt m P (notify_all not_full f) = cnt m P f"
  unfolding cnt_notify_all by (rule arg_cong [where f = "\<lambda>P. cnt m P f"]) (auto split: option.splits)

lemma nobody_ne: "num_at m WWait (notify_all not_empty f) = 0"
  by (auto simp: cnt_eq_0 notify_all_def split: option.splits)

lemma nobody_nf: "cnt m asleep_full (notify_all not_full f) = 0"
proof -
  have "\<not> asleep_full (notify_all not_full f i)" for i
    by (cases "f i") (auto simp: notify_all_def)
  then show ?thesis by (simp add: cnt_eq_0)
qed

lemma stopping_at:
  assumes "pool_inv n m s" "t < m" "stopper (ppcs s t)"
  shows "should_terminate s"
  using assms cnt_zero_at [of m stopper "ppcs s" t] by (auto simp: pool_inv_def)

lemma pool_wakes_step:
  assumes w: "pool_inv n m s" and step: "pool_step n m l s = Some u"
  shows "pool_wakes m u"
proof -
  have s: "pool_wakes m s" and size: "length (jobs_que s) \<le> max_que_size s" using w by (simp_all add: pool_inv_def)
  from step show ?thesis
  proof (cases rule: pool_step_cases)
    case (call t p)
    then show ?thesis using s by (auto simp: pool_wakes_def Let_def cnt_simps)
  next
    case (spurious t p)
    then show ?thesis using s cnt_pos [of t m "\<lambda>p. p = WWait" "ppcs s"] cnt_pos [of t m asleep_full "ppcs s"]
        wk_wake_ne wk_wake_nf
      by (auto simp: pool_wakes_def Let_def cnt_simps)
  next
    case (sleep t)
    then show ?thesis using s cnt_pos [of t m "\<lambda>p. p = WLoop" "ppcs s"] wk_sleep
      by (simp add: pool_wakes_def Let_def cnt_simps)
  next
    case (exit t)
    then show ?thesis using s wk_exit by (simp add: pool_wakes_def Let_def cnt_simps)
  next
    case (pop t j js c f)
    from pop(5) show ?thesis
    proof (cases rule: notify_one_cases)
      case nobody
      have "cnt m asleep_full (ppcs s) = 0" using nobody(3) unfolding asleep_nf .
      then show ?thesis using nobody s pop wk_pop0 [of "int (length (jobs_que s))"]
        by (simp add: pool_wakes_def Let_def cnt_simps)
    next
      case (somebody i p)
      then obtain j' where j': "ppcs s i = CWait j'" "p = CTest j'" by auto
      then have i: "i \<noteq> t" "1 \<le> cnt m asleep_full (ppcs s)"
        using pop(2) somebody(2) cnt_pos [of i m asleep_full "ppcs s"] by auto
      show ?thesis using s pop(1-4,6) somebody(2,4) i j' wk_pop1 [of "int (length (jobs_que s))"]
        by (simp add: pool_wakes_def Let_def cnt_simps)
    qed
  next
    case (notify t c f)
    from notify(3) show ?thesis
    proof (cases rule: notify_one_cases)
      case nobody
      then show ?thesis using s notify wk_note0 by (simp add: pool_wakes_def Let_def cnt_simps)
    next
      case (somebody i p)
      then have i: "i \<noteq> t" "1 \<le> num_at m WWait (ppcs s)" "ppcs s i = WWait" "p = WLoop"
        using notify(2) cnt_pos [of i m "\<lambda>p. p = WWait" "ppcs s"] by auto
      show ?thesis using s notify(1,2,4) somebody(2,4) i wk_note1
        by (simp add: pool_wakes_def Let_def cnt_simps)
    qed
  next
    case (finish t j)
    then show ?thesis using s wk_loop by (simp add: pool_wakes_def Let_def cnt_simps)
  next
    case (refuse t j)
    then show ?thesis using s by (simp add: pool_wakes_def Let_def cnt_simps)
  next
    case (push t j)
    then show ?thesis using push_job_wakes [OF s _ _ size] by simp
  next
    case (stop t)
    then show ?thesis using wk_stop by (simp add: pool_wakes_def Let_def cnt_simps)
  next
    case (stop_ne t)
    have x: "1 \<le> num_at m CStopNotEmpty (ppcs s)" using stop_ne cnt_pos [of t m "\<lambda>p. p = CStopNotEmpty" "ppcs s"] by simp
    have T: "should_terminate s" using stopping_at [OF w stop_ne(1)] stop_ne(2) by simp
    have at: "notify_all not_empty (ppcs s) t = CStopNotEmpty" using stop_ne(2) by (simp add: notify_all_def)
    have "wakes_ok True (int (length (jobs_que s))) (int (max_que_size s)) 0 (cnt m asleep_full (ppcs s))
        (num_at m CNotify (ppcs s)) (num_at m WLoop (notify_all not_empty (ppcs s))) (cnt m testing (ppcs s))
        (num_at m CStopNotEmpty (ppcs s) - 1) (num_at m CStopNotFull (ppcs s) + 1)"
      using s T x wk_all_ne by (simp add: pool_wakes_def Let_def)
    then show ?thesis using stop_ne(1,3) T at
      by (simp add: pool_wakes_def Let_def cnt_simps cnt_notify_ne nobody_ne)
  next
    case (stop_nf t)
    have x: "1 \<le> num_at m CStopNotFull (ppcs s)" using stop_nf cnt_pos [of t m "\<lambda>p. p = CStopNotFull" "ppcs s"] by simp
    have T: "should_terminate s" using stopping_at [OF w stop_nf(1)] stop_nf(2) by simp
    have at: "notify_all not_full (ppcs s) t = CStopNotFull" using stop_nf(2) by (simp add: notify_all_def)
    have "wakes_ok True (int (length (jobs_que s))) (int (max_que_size s)) (num_at m WWait (ppcs s)) 0
        (num_at m CNotify (ppcs s)) (num_at m WLoop (ppcs s)) (cnt m testing (notify_all not_full (ppcs s)))
        (num_at m CStopNotEmpty (ppcs s)) (num_at m CStopNotFull (ppcs s) - 1)"
      using s T x wk_all_nf by (simp add: pool_wakes_def Let_def)
    then show ?thesis using stop_nf(1,3) T at
      by (simp add: pool_wakes_def Let_def cnt_simps cnt_notify_nf nobody_nf)
  next
    case (join t)
    then show ?thesis using s by (simp add: pool_wakes_def Let_def cnt_simps)
  qed
qed

lemma push_job_simps [simp]:
  "should_terminate (push_job t j s) = should_terminate s" "popped (push_job t j s) = popped s"
  "max_que_size (push_job t j s) = max_que_size s"
  by (simp_all add: push_job_def)

lemma push_job_pc: "\<exists>p. ppcs (push_job t j s) = (ppcs s)(t := p) \<and> \<not> worker_pc p \<and> \<not> stopper p"
proof -
  consider "\<not> (length (jobs_que s) < max_que_size s \<or> should_terminate s)"
    | "should_terminate s" | "\<not> should_terminate s" "length (jobs_que s) < max_que_size s"
    by blast
  then show ?thesis by cases (auto simp: push_job_def)
qed

lemma shape_step:
  assumes sh: "\<forall>i<m. worker_pc (ppcs s i) \<longleftrightarrow> i < n" and step: "pool_step n m l s = Some u"
  shows "\<forall>i<m. worker_pc (ppcs u i) \<longleftrightarrow> i < n"
  using step
proof (cases rule: pool_step_cases)
  case (spurious t p)
  then show ?thesis using sh by auto
next
  case (pop t j js c f)
  from pop(5) show ?thesis
  proof (cases rule: notify_one_cases)
    case nobody
    then show ?thesis using pop sh by auto
  next
    case (somebody i p)
    then show ?thesis using pop(1,2,6) sh by auto
  qed
next
  case (notify t c f)
  from notify(3) show ?thesis
  proof (cases rule: notify_one_cases)
    case nobody
    then show ?thesis using notify sh by auto
  next
    case (somebody i p)
    then show ?thesis using notify(1,2,4) sh by auto
  qed
next
  case (push t j)
  then have "\<not> t < n" using sh by auto
  moreover obtain p where "ppcs (push_job t j s) = (ppcs s)(t := p)" "\<not> worker_pc p" using push_job_pc by metis
  ultimately show ?thesis using sh push(3) by auto
next
  case (stop_ne t)
  then show ?thesis using sh by (auto simp: notify_all_def split: option.splits)
next
  case (stop_nf t)
  then show ?thesis using sh by (auto simp: notify_all_def split: option.splits)
qed (use sh in auto)

lemma notify_stopping:
  assumes "notify_one wk m c f = Some g" "\<And>p q. wk p = Some q \<Longrightarrow> \<not> stopper p \<and> \<not> stopper q"
  shows "cnt m stopper g = cnt m stopper f"
  using assms(1)
proof (cases rule: notify_one_cases)
  case (somebody i p)
  then show ?thesis using assms(2) [OF somebody(3)] by (simp add: cnt_simps)
qed simp

lemma stopping_step:
  assumes inv: "pool_inv n m s" and step: "pool_step n m l s = Some u" and no: "\<not> should_terminate u"
  shows "cnt m stopper (ppcs u) = 0"
proof -
  have old: "\<not> should_terminate s \<Longrightarrow> cnt m stopper (ppcs s) = 0"
    using inv by (simp add: pool_inv_def)
  from step show ?thesis
  proof (cases rule: pool_step_cases)
    case (call t p)
    then show ?thesis using old no by (auto simp: cnt_simps)
  next
    case (spurious t p)
    then show ?thesis using old no by (auto simp: cnt_simps)
  next
    case (pop t j js c f)
    from pop(5) have "cnt m stopper f = cnt m stopper (ppcs s)" by (rule notify_stopping) auto
    moreover have "f t = WLoop" using pop(5) pop(2) by (cases rule: notify_one_cases) auto
    ultimately show ?thesis using old pop(1,3,6) by (simp add: cnt_simps)
  next
    case (notify t c f)
    from notify(3) have "cnt m stopper f = cnt m stopper (ppcs s)" by (rule notify_stopping) auto
    moreover have "f t = CNotify" using notify(3) notify(2) by (cases rule: notify_one_cases) auto
    ultimately show ?thesis using old no notify(1,4) by (simp add: cnt_simps)
  next
    case (push t j)
    obtain p where "ppcs (push_job t j s) = (ppcs s)(t := p)" "\<not> stopper p" using push_job_pc by metis
    then show ?thesis using old no push by (auto simp: cnt_simps)
  next
    case (stop_ne t)
    then show ?thesis using no stopping_at [OF inv, of t] by simp
  next
    case (stop_nf t)
    then show ?thesis using no stopping_at [OF inv, of t] by simp
  next
    case (join t)
    then show ?thesis using no stopping_at [OF inv, of t] by simp
  qed (use old no in \<open>simp_all add: cnt_simps\<close>)
qed

lemma size_step:
  assumes "pool_step n m l s = Some u" "length (jobs_que s) \<le> max_que_size s"
  shows "length (jobs_que u) \<le> max_que_size u"
  using assms(1) by (cases rule: pool_step_cases) (use assms(2) in \<open>auto simp: push_job_def\<close>)

lemma pool_inv_step: "pool_inv n m s \<Longrightarrow> pool_step n m l s = Some u \<Longrightarrow> pool_inv n m u"
  using pool_wakes_step [of n m s l u] shape_step [of m s n l u] size_step [of n m l s u]
    stopping_step [of n m s l u]
  unfolding pool_inv_def [of n m u] by (auto simp: pool_inv_def)

lemma pool_inv_init: "pool_inv n m (ThreadPool n size' blk)"
proof -
  have "cnt m P (\<lambda>i. if i < n then WLoop else CIdle) = 0" if "\<not> P WLoop" "\<not> P CIdle" for P :: "'a ppc \<Rightarrow> bool"
    using that by (simp add: cnt_eq_0)
  then show ?thesis by (simp add: pool_inv_def ThreadPool_def pool_wakes_def wakes_ok_def)
qed

lemma pool_queue_step:
  assumes "pool_step n m l s = Some u"
  shows "queue_move (jobs_que s, pushed s, popped s) (jobs_que u, pushed u, popped u)"
  using assms by (cases rule: pool_step_cases) (auto simp: queue_move_def push_job_def)

interpretation pool: safe_machine "pool_step n m" "ThreadPool n size' blk" "pool_inv n m"
  for n m size' :: nat and blk :: bool
  by unfold_locales (rule pool_inv_init, rule pool_inv_step)

interpretation pool_queue: fifo_machine "pool_step n m" "ThreadPool n size' blk" "pool_inv n m"
  "\<lambda>s. (jobs_que s, pushed s, popped s)"
  for n m size' :: nat and blk :: bool
  by unfold_locales (simp add: ThreadPool_def, rule pool_queue_step)

section \<open>A pool that cannot go on\<close>

definition pool_stuck :: "nat \<Rightarrow> nat \<Rightarrow> 'j pool \<Rightarrow> bool" where
  "pool_stuck n m s \<longleftrightarrow> (\<forall>t c. pool_step n m (Go t c) s = None)"

lemma stuck_at:
  assumes "pool_stuck n m s" "t < m"
  shows "ppcs s t = WWait \<or> ppcs s t = WDone \<or> ppcs s t = CIdle \<or> (\<exists>j. ppcs s t = CWait j)
    \<or> (ppcs s t = CJoin \<and> (\<exists>i<n. ppcs s i \<noteq> WDone))"
proof -
  have no: "pool_run n m c t s = None" for c
    using assms by (simp add: pool_stuck_def split: if_splits)
  obtain c f where c: "notify_one not_full m c (ppcs s) = Some f" using notify_one_enabled by blast
  obtain d g where d: "notify_one not_empty m d (ppcs s) = Some g" using notify_one_enabled by blast
  show ?thesis using no [of c] no [of d] no [of None] c d
    by (cases "ppcs s t") (auto simp: pool_run_def ThreadLoop_def split: if_splits)
qed

lemma stuck_counts:
  assumes "pool_stuck n m s"
  shows "num_at m CNotify (ppcs s) = 0" "num_at m WLoop (ppcs s) = 0" "cnt m testing (ppcs s) = 0"
    "num_at m CStopNotEmpty (ppcs s) = 0" "num_at m CStopNotFull (ppcs s) = 0"
  using stuck_at [OF assms] by (fastforce simp: cnt_eq_0)+

section \<open>Properties\<close>

text \<open>C16: the jobs of the pool are started in the order they were accepted, each at most once, and none
  disappears: what was accepted is what was started followed by what is queued. The queue never holds
  more than its maximum.\<close>

theorem pool_fifo:
  assumes "reach (pool_step n m) (ThreadPool n size' blk) s"
  shows "pushed s = popped s @ jobs_que s \<and> length (jobs_que s) \<le> size'"
proof -
  have "length (jobs_que s) \<le> max_que_size s" using pool.reach_inv [OF assms] by (simp add: pool_inv_def)
  moreover have "max_que_size s = size'" using assms
  proof induction
    case reach_init
    show ?case by (simp add: ThreadPool_def)
  next
    case (reach_step s l t)
    from reach_step(2) show ?case by (cases rule: pool_step_cases) (use reach_step(3) in simp_all)
  qed
  ultimately show ?thesis using pool_queue.fifo [OF assms] by simp
qed

definition pool_demo :: "nat pool_label list" where
  "pool_demo = [Queue_Job 1 7, Go 0 None, Go 1 None, Queue_Job 2 8, Go 2 None, Go 1 (Some 0), Go 0 None]"

theorem pool_fifo_witness:
  "\<exists>s. exec (pool_step 1 3) pool_demo (ThreadPool 1 2 True) = Some s \<and>
     pushed s = [7, 8] \<and> popped s = [7] \<and> jobs_que s = [8]"
proof -
  obtain s where s: "exec (pool_step 1 3) pool_demo (ThreadPool 1 2 True) = Some s"
      "pushed s = [7, 8]" "popped s = [7]"
    unfolding pool_demo_def
    by (simp add: ThreadPool_def pool_run_def ThreadLoop_def QueueJob_def push_job_def notify_one_def
        pool_at_def pool_ret_def numeral_3_eq_3 Ex_less_Suc)
  then show ?thesis using pool_fifo [OF reachI [OF s(1)]] by simp
qed

text \<open>Where a pool can be stuck. With a queue of no places at all, a client sleeps in \<open>QueueJob\<close> until the pool is stopped.\<close>

lemma pool_size: "reach (pool_step n m) (ThreadPool n size' blk) s \<Longrightarrow> max_que_size s = size'"
proof (induction rule: reach.induct)
  case reach_init
  show ?case by (simp add: ThreadPool_def)
next
  case (reach_step s l t)
  from reach_step(2) show ?case by (cases rule: pool_step_cases) (use reach_step(3) in simp_all)
qed

lemma pool_stuck_running:
  assumes "reach (pool_step n m) (ThreadPool n size' blk) s" "pool_stuck n m s" "0 < n" "n \<le> m" "\<not> should_terminate s"
  shows "jobs_que s = []" "i < m \<Longrightarrow> (if i < n then ppcs s i = WWait else ppcs s i = CIdle \<or> size' = 0 \<and> (\<exists>j. ppcs s i = CWait j))"
proof -
  have inv: "pool_inv n m s" using pool.reach_inv [OF assms(1)] .
  have sh: "i < m \<Longrightarrow> worker_pc (ppcs s i) \<longleftrightarrow> i < n" for i using inv by (simp add: pool_inv_def)
  have w: "pool_wakes m s" using inv by (simp add: pool_inv_def)
  note at = stuck_at [OF assms(2)] and zero = stuck_counts [OF assms(2)]
  have c: "num_at m WWait (ppcs s) = 0 \<or> jobs_que s = []"
      "cnt m asleep_full (ppcs s) = 0 \<or> max_que_size s \<le> length (jobs_que s)"
    using w assms(5) zero by (auto simp: pool_wakes_def wakes_ok_def Let_def)
  have work: "i < n \<Longrightarrow> ppcs s i = WWait" for i
    using at [of i] sh [of i] assms(4) stopping_at [OF inv, of i] assms(5) by fastforce
  then have "num_at m WWait (ppcs s) \<noteq> 0"
    using assms(3,4) cnt_pos [of 0 m "\<lambda>p. p = WWait" "ppcs s"] by simp
  with c(1) show J: "jobs_que s = []" by blast
  show "if i < n then ppcs s i = WWait else ppcs s i = CIdle \<or> size' = 0 \<and> (\<exists>j. ppcs s i = CWait j)" if i: "i < m"
  proof (cases "size' = 0")
    case True
    then show ?thesis using at [OF i] sh [OF i] work [of i] stopping_at [OF inv i] assms(5) by auto
  next
    case False
    then have F: "cnt m asleep_full (ppcs s) = 0" using c(2) J pool_size [OF assms(1)] by simp
    show ?thesis using at [OF i] sh [OF i] work [of i] cnt_zero_at [OF F i] stopping_at [OF inv i] assms(5) by auto
  qed
qed

lemma pool_stuck_stopped:
  assumes "reach (pool_step n m) (ThreadPool n size' blk) s" "pool_stuck n m s" "n \<le> m" "should_terminate s" "i < m"
  shows "ppcs s i = (if i < n then WDone else CIdle)"
proof -
  have inv: "pool_inv n m s" using pool.reach_inv [OF assms(1)] .
  have sh: "i < m \<Longrightarrow> worker_pc (ppcs s i) \<longleftrightarrow> i < n" for i using inv by (simp add: pool_inv_def)
  have w: "pool_wakes m s" using inv by (simp add: pool_inv_def)
  note at = stuck_at [OF assms(2)] and zero = stuck_counts [OF assms(2)]
  have c: "num_at m WWait (ppcs s) = 0" "cnt m asleep_full (ppcs s) = 0"
    using w assms(4) zero by (auto simp: pool_wakes_def wakes_ok_def Let_def)
  have work: "i < n \<Longrightarrow> ppcs s i = WDone" for i
    using at [of i] sh [of i] assms(3) cnt_zero_at [OF c(1), of i] by fastforce
  show ?thesis using at [OF assms(5)] sh [OF assms(5)] work cnt_zero_at [OF c(2) assms(5)] cnt_zero_at [OF c(1) assms(5)] by auto
qed

lemma pool_stuck_state:
  assumes "reach (pool_step n m) (ThreadPool n size' blk) s" "pool_stuck n m s" "0 < n" "n \<le> m" "0 < size'"
  shows "(\<not> should_terminate s \<longrightarrow> popped s = pushed s \<and> (\<forall>i<m. ppcs s i = (if i < n then WWait else CIdle))) \<and>
    (should_terminate s \<longrightarrow> (\<forall>i<m. ppcs s i = (if i < n then WDone else CIdle)))"
  using pool_stuck_running [OF assms(1-4)] pool_stuck_stopped [OF assms(1,2,4)] pool_queue.fifo [OF assms(1)] assms(5)
  by fastforce

text \<open>C17: no wake-up is lost and no thread is left behind. A running pool with at least one worker that can take no
  further step has started every accepted job and its workers sleep; no client is inside a call, but that with a queue of size
  0 a client may sleep in \<open>QueueJob\<close>, since no job ever fits. A stopped pool that can take no further step, whatever
  its numbers of workers and of places, has ended every worker and every call, including \<open>Stop\<close>.\<close>

theorem pool_no_lost_wakeup:
  assumes "reach (pool_step n m) (ThreadPool n size' blk) s" "pool_stuck n m s" "n \<le> m"
  shows "(0 < n \<and> \<not> should_terminate s \<longrightarrow> popped s = pushed s \<and> (\<forall>i<n. ppcs s i = WWait) \<and>
      (\<forall>i. n \<le> i \<and> i < m \<longrightarrow> ppcs s i = CIdle \<or> size' = 0 \<and> (\<exists>j. ppcs s i = CWait j))) \<and>
    (should_terminate s \<longrightarrow> (\<forall>i<m. ppcs s i = (if i < n then WDone else CIdle)))"
proof (intro conjI impI allI)
  assume a: "0 < n \<and> \<not> should_terminate s"
  then have a: "0 < n" "\<not> should_terminate s" by simp_all
  note q = pool_stuck_running [OF assms(1,2) a(1) assms(3) a(2)]
  show "popped s = pushed s" using pool_queue.fifo [OF assms(1)] q(1) by simp
  show "ppcs s i = WWait" if "i < n" for i using q(2) [of i] that assms(3) by simp
  show "ppcs s i = CIdle \<or> size' = 0 \<and> (\<exists>j. ppcs s i = CWait j)" if "n \<le> i \<and> i < m" for i
    using q(2) [of i] that by auto
qed (rule pool_stuck_stopped [OF assms])

theorem pool_no_lost_wakeup_witness:
  "\<exists>s. exec (pool_step 1 2) [Go 0 None, Queue_Job 1 (7 :: nat), Go 1 None, Go 1 (Some 0), Go 0 None, Go 0 None, Go 0 None]
     (ThreadPool 1 2 True) = Some s \<and> popped s = pushed s \<and> ppcs s 0 = WWait"
proof -
  obtain s where s: "exec (pool_step 1 2) [Go 0 None, Queue_Job 1 (7 :: nat), Go 1 None, Go 1 (Some 0), Go 0 None, Go 0 None, Go 0 None]
     (ThreadPool 1 2 True) = Some s" "ppcs s = (\<lambda>i. CIdle)(0 := WWait, 1 := CIdle)" "jobs_que s = []" "\<not> should_terminate s"
    by (simp add: ThreadPool_def pool_run_def ThreadLoop_def QueueJob_def push_job_def notify_one_def
        pool_at_def pool_ret_def numeral_2_eq_2 Ex_less_Suc fun_eq_iff)
  then have "pool_stuck 1 2 s" by (auto simp: pool_stuck_def pool_run_def less_Suc_eq numeral_2_eq_2)
  with pool_no_lost_wakeup [OF reachI [OF s(1)]] s show ?thesis by simp
qed

text \<open>\<open>Stop\<close> abandons the queue: once the flag is set no job is started any more, whatever happens
  next, so the jobs that were accepted and are still queued never run.\<close>

theorem pool_stop_abandons_jobs:
  assumes "should_terminate s" "exec (pool_step n m) ls s = Some u"
  shows "popped u = popped s \<and> should_terminate u"
  using assms
proof (induction ls arbitrary: s)
  case Nil
  then show ?case by simp
next
  case (Cons l ls)
  then obtain v where v: "pool_step n m l s = Some v" "exec (pool_step n m) ls v = Some u"
    by (auto split: option.splits)
  from v(1) have "popped v = popped s \<and> should_terminate v"
    by (cases rule: pool_step_cases) (use Cons.prems(1) in simp_all)
  then show ?case using Cons.IH [OF _ v(2)] by simp
qed

theorem pool_stop_abandons_jobs_witness:
  "\<exists>s u. exec (pool_step 1 3) [Queue_Job 1 (7 :: nat), Go 1 None, Stop 2, Go 2 None] (ThreadPool 1 2 True) = Some s \<and>
     exec (pool_step 1 3) [Go 0 None, Go 1 None, Go 2 None, Go 2 None, Go 2 None] s = Some u \<and>
     jobs_que u = [7] \<and> popped u = [] \<and> ppcs u 2 = CIdle"
proof -
  obtain s u where s: "exec (pool_step 1 3) [Queue_Job 1 (7 :: nat), Go 1 None, Stop 2, Go 2 None] (ThreadPool 1 2 True) = Some s"
     "should_terminate s" "popped s = []"
     "exec (pool_step 1 3) [Go 0 None, Go 1 None, Go 2 None, Go 2 None, Go 2 None] s = Some u"
     "jobs_que u = [7]" "ppcs u 2 = CIdle"
    by (simp add: ThreadPool_def pool_run_def ThreadLoop_def QueueJob_def push_job_def notify_one_def
        notify_all_def pool_at_def pool_ret_def numeral_3_eq_3 Ex_less_Suc)
  with pool_stop_abandons_jobs [OF s(2,4)] show ?thesis by auto
qed

text \<open>In a pool whose queue is full, \<open>QueueJob\<close> with \<open>m_block_when_full\<close> set does not block: it
  drops the job and returns true (its \<open>return -1\<close> becomes true). Without the flag it does block.\<close>

theorem queue_full_reports_success:
  assumes "ppcs s t = CQueue j" "t < m" "length (jobs_que s) = max_que_size s" "\<not> should_terminate s"
  shows "\<exists>u. pool_step n m (Go t None) s = Some u \<and> jobs_que u = jobs_que s \<and> pushed u = pushed s \<and>
    (if block_when_full s then pret u t = Some True \<and> ppcs u t = CIdle else ppcs u t = CWait j)"
  using assms by (simp add: pool_run_def QueueJob_def push_job_def) (simp add: pool_ret_def)

theorem queue_full_reports_success_witness:
  "\<exists>s u. exec (pool_step 0 1) [Queue_Job 0 (7 :: nat)] (ThreadPool 0 0 True) = Some s \<and>
     pool_step 0 1 (Go 0 None) s = Some u \<and> pret u 0 = Some True \<and> pushed u = []"
proof -
  obtain s where s: "exec (pool_step 0 1) [Queue_Job 0 (7 :: nat)] (ThreadPool 0 0 True) = Some s"
      "ppcs s 0 = CQueue 7" "length (jobs_que s) = max_que_size s" "\<not> should_terminate s"
      "block_when_full s" "pushed s = []"
    by (simp add: ThreadPool_def pool_at_def)
  with queue_full_reports_success [OF s(2) _ s(3,4), of 1 0] show ?thesis by auto
qed

end
