(* ===== verification/Dispatch_Queue.thy ===== *)
theory Dispatch_Queue
  imports Monitors
begin

text \<open>
  \<open>threads-locks/other-problems/call-backs/dispatch-que.cpp\<close>: a queue of functions served by \<open>n\<close>
  threads (0 to \<open>n - 1\<close>), with the threads that use it (\<open>n\<close> to \<open>m - 1\<close>). A server is about to
  evaluate its wait with the lock held (\<open>DLoop\<close>: at its start, after a function, or woken), asleep on
  \<open>cv_\<close>, running a function without the lock, or has returned. A user is idle, about to start the
  destructor, joining thread \<open>k\<close>, or has destroyed the queue. \<open>dispatched\<close> and \<open>taken\<close> are history
  variables. The two overloads of \<open>dispatch\<close> do the same to the queue.
\<close>

datatype 'j dpc = DLoop | DWait | DRun 'j | DDone | UIdle | UDestroy | UJoin nat | UDead

record 'j dispatch_queue =
  quit :: bool
  queue :: "'j list"
  dpcs :: "tid \<Rightarrow> 'j dpc"
  dispatched :: "'j list"
  taken :: "'j list"

definition dispatch_queue :: "nat \<Rightarrow> 'j dispatch_queue" where
  "dispatch_queue thread_cnt =
     \<lparr>quit = False, queue = [], dpcs = (\<lambda>i. if i < thread_cnt then DLoop else UIdle), dispatched = [], taken = []\<rparr>"

fun cv_wake :: "'j dpc \<Rightarrow> 'j dpc option" where
  "cv_wake DWait = Some DLoop"
| "cv_wake p = None"

definition dq_at :: "tid \<Rightarrow> 'j dpc \<Rightarrow> 'j dispatch_queue \<Rightarrow> 'j dispatch_queue" where
  "dq_at t p s = s\<lparr>dpcs := (dpcs s)(t := p)\<rparr>"

definition dispatch_thread_handler :: "tid \<Rightarrow> 'j dispatch_queue \<Rightarrow> 'j dispatch_queue" where
  "dispatch_thread_handler t s =
     (if \<not> (queue s \<noteq> [] \<or> quit s) then dq_at t DWait s
      else if \<not> quit s \<and> queue s \<noteq> []
      then dq_at t (DRun (hd (queue s))) (s\<lparr>queue := tl (queue s), taken := taken s @ [hd (queue s)]\<rparr>)
      else dq_at t DDone s)"

definition dispatch :: "nat \<Rightarrow> tid option \<Rightarrow> 'j \<Rightarrow> 'j dispatch_queue \<Rightarrow> 'j dispatch_queue option" where
  "dispatch m c j s =
     (case notify_one cv_wake m c (dpcs s) of None \<Rightarrow> None
      | Some f \<Rightarrow> Some (s\<lparr>queue := queue s @ [j], dispatched := dispatched s @ [j], dpcs := f\<rparr>))"

definition destroy_step :: "nat \<Rightarrow> tid \<Rightarrow> 'j dispatch_queue \<Rightarrow> 'j dispatch_queue option" where
  "destroy_step n t s =
     (case dpcs s t of
        UDestroy \<Rightarrow> Some (dq_at t (UJoin 0) (s\<lparr>quit := True, dpcs := notify_all cv_wake (dpcs s)\<rparr>))
      | UJoin k \<Rightarrow>
          (if k < n then (if dpcs s k = DDone then Some (dq_at t (UJoin (k + 1)) s) else None)
           else Some (dq_at t UDead s))
      | _ \<Rightarrow> None)"

datatype 'j dq_label = Dispatch tid 'j "tid option" | Destroy tid | Serve tid | DSpurious tid

fun dq_step :: "nat \<Rightarrow> nat \<Rightarrow> 'j dq_label \<Rightarrow> 'j dispatch_queue \<Rightarrow> 'j dispatch_queue option" where
  "dq_step n m (Dispatch t j c) s = (if t < m \<and> dpcs s t = UIdle then dispatch m c j s else None)"
| "dq_step n m (Destroy t) s =
     (if t < m \<and> dpcs s t = UIdle \<and> \<not> quit s then Some (dq_at t UDestroy s) else None)"
| "dq_step n m (Serve t) s =
     (if t < m then
        (case dpcs s t of
           DLoop \<Rightarrow> Some (dispatch_thread_handler t s)
         | DRun j \<Rightarrow> Some (dq_at t DLoop s)
         | _ \<Rightarrow> destroy_step n t s)
      else None)"
| "dq_step n m (DSpurious t) s =
     (if t < m then map_option (\<lambda>p. dq_at t p s) (cv_wake (dpcs s t)) else None)"

section \<open>Invariant\<close>

lemma cv_wake_iff [simp]: "cv_wake p = Some q \<longleftrightarrow> p = DWait \<and> q = DLoop"
  by (cases p) auto

lemma cv_wake_None [simp]: "cv_wake p = None \<longleftrightarrow> p \<noteq> DWait"
  by (cases p) auto

lemma dq_at_simps [simp]:
  "queue (dq_at t p s) = queue s" "quit (dq_at t p s) = quit s" "dispatched (dq_at t p s) = dispatched s"
  "taken (dq_at t p s) = taken s" "dpcs (dq_at t p s) = (dpcs s)(t := p)"
  by (simp_all add: dq_at_def)

fun server :: "'j dpc \<Rightarrow> bool" where
  "server DLoop = True"
| "server DWait = True"
| "server (DRun j) = True"
| "server DDone = True"
| "server p = False"

fun quitting :: "'j dpc \<Rightarrow> bool" where
  "quitting DDone = True"
| "quitting (UJoin k) = True"
| "quitting UDead = True"
| "quitting p = False"

definition dq_inv :: "nat \<Rightarrow> nat \<Rightarrow> 'j dispatch_queue \<Rightarrow> bool" where
  "dq_inv n m s \<longleftrightarrow>
     (\<forall>i<m. server (dpcs s i) \<longleftrightarrow> i < n) \<and> (\<not> quit s \<longrightarrow> (\<forall>i<m. \<not> quitting (dpcs s i))) \<and>
     (num_at m DWait (dpcs s) = 0 \<or> (\<not> quit s \<and> int (length (queue s)) \<le> num_at m DLoop (dpcs s)))"

lemma dq_step_cases:
  assumes "dq_step n m l s = Some u"
  obtains (dispatch) t j c f where "t < m" "dpcs s t = UIdle" "notify_one cv_wake m c (dpcs s) = Some f"
      "u = s\<lparr>queue := queue s @ [j], dispatched := dispatched s @ [j], dpcs := f\<rparr>" "l = Dispatch t j c"
  | (begin_destroy) t where "t < m" "dpcs s t = UIdle" "u = dq_at t UDestroy s" "l = Destroy t"
  | (sleep) t where "t < m" "dpcs s t = DLoop" "queue s = []" "\<not> quit s" "u = dq_at t DWait s" "l = Serve t"
  | (take_job) t j js where "t < m" "dpcs s t = DLoop" "queue s = j # js" "\<not> quit s"
      "u = dq_at t (DRun j) (s\<lparr>queue := js, taken := taken s @ [j]\<rparr>)" "l = Serve t"
  | (exit) t where "t < m" "dpcs s t = DLoop" "quit s" "u = dq_at t DDone s" "l = Serve t"
  | (finish) t j where "t < m" "dpcs s t = DRun j" "u = dq_at t DLoop s" "l = Serve t"
  | (set_quit) t where "t < m" "dpcs s t = UDestroy"
      "u = dq_at t (UJoin 0) (s\<lparr>quit := True, dpcs := notify_all cv_wake (dpcs s)\<rparr>)" "l = Serve t"
  | (join) t k p where "t < m" "dpcs s t = UJoin k" "k < n \<longrightarrow> dpcs s k = DDone" "u = dq_at t p s"
      "p = (if k < n then UJoin (k + 1) else UDead)" "l = Serve t"
  | (spurious) t where "t < m" "dpcs s t = DWait" "u = dq_at t DLoop s" "l = DSpurious t"
proof (cases l)
  case (Dispatch t j c)
  then show thesis using assms dispatch by (auto simp: dispatch_def split: if_splits option.splits)
next
  case (Destroy t)
  then show thesis using assms begin_destroy by (auto split: if_splits)
next
  case (DSpurious t)
  then show thesis using assms spurious by (auto split: if_splits)
next
  case (Serve t)
  then have t: "t < m" using assms by (auto split: if_splits)
  show thesis
  proof (cases "dpcs s t")
    case DLoop
    consider "queue s = []" "\<not> quit s" | j js where "queue s = j # js" "\<not> quit s" | "quit s"
      by (cases "queue s") auto
    then show thesis
    proof cases
      case 1
      then show thesis using assms Serve DLoop t sleep by (auto simp: dispatch_thread_handler_def)
    next
      case 2
      then show thesis using assms Serve DLoop t take_job by (auto simp: dispatch_thread_handler_def)
    next
      case 3
      then show thesis using assms Serve DLoop t exit by (auto simp: dispatch_thread_handler_def)
    qed
  next
    case (UJoin k)
    then show thesis using assms Serve t join by (cases "k < n") (auto simp: destroy_step_def split: if_splits)
  qed (use assms Serve t finish set_quit in \<open>auto simp: destroy_step_def\<close>)
qed

lemma dq_shape_step:
  assumes "\<forall>i<m. server (dpcs s i) \<longleftrightarrow> i < n" "dq_step n m l s = Some u"
  shows "\<forall>i<m. server (dpcs u i) \<longleftrightarrow> i < n"
  using assms(2)
proof (cases rule: dq_step_cases)
  case (dispatch t j c f)
  from dispatch(3) show ?thesis
  proof (cases rule: notify_one_cases)
    case nobody
    then show ?thesis using dispatch(4) assms(1) by simp
  next
    case (somebody i p)
    then show ?thesis using dispatch(4) assms(1) by auto
  qed
next
  case (set_quit t)
  then show ?thesis using assms(1) by (auto simp: notify_all_def split: option.splits)
qed (use assms(1) in auto)

lemma dq_quit_step:
  assumes "\<not> quit s \<longrightarrow> (\<forall>i<m. \<not> quitting (dpcs s i))" "dq_step n m l s = Some u"
  shows "\<not> quit u \<longrightarrow> (\<forall>i<m. \<not> quitting (dpcs u i))"
  using assms(2)
proof (cases rule: dq_step_cases)
  case (dispatch t j c f)
  from dispatch(3) show ?thesis
  proof (cases rule: notify_one_cases)
    case nobody
    then show ?thesis using dispatch(4) assms(1) by simp
  next
    case (somebody i p)
    then show ?thesis using dispatch(4) assms(1) by auto
  qed
next
  case (join t k p)
  then have "quit s" using assms(1) by auto
  then show ?thesis using join by simp
qed (use assms(1) in auto)

lemma dq_wake_step:
  assumes w: "num_at m DWait (dpcs s) = 0 \<or> (\<not> quit s \<and> int (length (queue s)) \<le> num_at m DLoop (dpcs s))"
    and step: "dq_step n m l s = Some u"
  shows "num_at m DWait (dpcs u) = 0 \<or> (\<not> quit u \<and> int (length (queue u)) \<le> num_at m DLoop (dpcs u))"
  using step
proof (cases rule: dq_step_cases)
  case (dispatch t j c f)
  from dispatch(3) show ?thesis
  proof (cases rule: notify_one_cases)
    case nobody
    then show ?thesis using dispatch(4) by simp
  next
    case (somebody i p)
    then have "1 \<le> num_at m DWait (dpcs s)" using cnt_pos [of i m "\<lambda>p. p = DWait" "dpcs s"] by simp
    then show ?thesis using w dispatch(4) somebody by (auto simp: cnt_simps)
  qed
next
  case (sleep t)
  then show ?thesis using cnt_pos [of t m "\<lambda>p. p = DLoop" "dpcs s"] by (simp add: cnt_simps)
next
  case (set_quit t)
  have "num_at m DWait (notify_all cv_wake (dpcs s)) = 0"
    by (auto simp: cnt_eq_0 notify_all_def split: option.splits)
  moreover have "notify_all cv_wake (dpcs s) t = UDestroy" using set_quit by (simp add: notify_all_def)
  ultimately show ?thesis using set_quit by (simp add: cnt_simps)
next
  case (spurious t)
  then show ?thesis using w cnt_pos [of t m "\<lambda>p. p = DWait" "dpcs s"] by (auto simp: cnt_simps)
qed (use w in \<open>auto simp: cnt_simps\<close>)

lemma dq_inv_step: "dq_inv n m s \<Longrightarrow> dq_step n m l s = Some u \<Longrightarrow> dq_inv n m u"
  using dq_shape_step [of m s n l u] dq_quit_step [of s m n l u] dq_wake_step [of m s n l u]
  unfolding dq_inv_def by blast

lemma dq_inv_init: "dq_inv n m (dispatch_queue n)"
  by (auto simp: dq_inv_def dispatch_queue_def cnt_eq_0)

lemma dq_queue_step:
  assumes "dq_step n m l s = Some u"
  shows "queue_move (queue s, dispatched s, taken s) (queue u, dispatched u, taken u)"
  using assms by (cases rule: dq_step_cases) (auto simp: queue_move_def)

interpretation dq: safe_machine "dq_step n m" "dispatch_queue n" "dq_inv n m"
  for n m :: nat
  by unfold_locales (rule dq_inv_init, rule dq_inv_step)

interpretation dq_queue: fifo_machine "dq_step n m" "dispatch_queue n" "dq_inv n m"
  "\<lambda>s. (queue s, dispatched s, taken s)"
  for n m :: nat
  by unfold_locales (simp add: dispatch_queue_def, rule dq_queue_step)

section \<open>Properties\<close>

definition dq_stuck :: "nat \<Rightarrow> nat \<Rightarrow> 'j dispatch_queue \<Rightarrow> bool" where
  "dq_stuck n m s \<longleftrightarrow> (\<forall>t. dq_step n m (Serve t) s = None)"

lemma dq_stuck_at:
  assumes "dq_stuck n m s" "t < m"
  shows "dpcs s t \<in> {DWait, DDone, UIdle, UDead} \<or> (\<exists>k<n. dpcs s t = UJoin k \<and> dpcs s k \<noteq> DDone)"
proof -
  have "dq_step n m (Serve t) s = None" using assms(1) by (simp add: dq_stuck_def)
  then show ?thesis using assms(2)
    by (cases "dpcs s t") (auto simp: destroy_step_def split: if_splits)
qed

lemma dq_stuck_quit:
  assumes inv: "dq_inv n m s" and st: "dq_stuck n m s" and n: "n \<le> m" and q: "quit s" and i: "i < m"
  shows "dpcs s i \<in> (if i < n then {DDone} else {UIdle, UDead})"
proof -
  have sh: "i < m \<Longrightarrow> server (dpcs s i) \<longleftrightarrow> i < n" for i using inv by (simp add: dq_inv_def)
  have no: "num_at m DWait (dpcs s) = 0" using inv q by (simp add: dq_inv_def)
  have servers: "dpcs s i = DDone" if "i < n" for i
    using dq_stuck_at [OF st, of i] sh [of i] that n cnt_zero_at [OF no, of i] by auto
  show ?thesis using dq_stuck_at [OF st i] sh [OF i] servers cnt_zero_at [OF no i] by auto
qed

lemma dq_stuck_state:
  assumes inv: "dq_inv n m s" and st: "dq_stuck n m s" and n: "0 < n" "n \<le> m"
  shows "if quit s then \<forall>i<m. dpcs s i \<in> (if i < n then {DDone} else {UIdle, UDead})
    else queue s = [] \<and> (\<forall>i<m. dpcs s i \<in> (if i < n then {DWait} else {UIdle}))"
proof -
  have sh: "i < m \<Longrightarrow> server (dpcs s i) \<longleftrightarrow> i < n" for i using inv by (simp add: dq_inv_def)
  show ?thesis
  proof (cases "quit s")
    case False
    have q: "i < m \<Longrightarrow> \<not> quitting (dpcs s i)" for i using inv False by (simp add: dq_inv_def)
    have at: "dpcs s i \<in> (if i < n then {DWait} else {UIdle})" if "i < m" for i
      using dq_stuck_at [OF st that] sh [OF that] q [OF that] by auto
    then have "dpcs s 0 = DWait" using n by (metis (full_types) less_le_trans singletonD)
    then have "1 \<le> num_at m DWait (dpcs s)"
      using cnt_pos [of 0 m "\<lambda>p. p = DWait" "dpcs s"] n by simp
    moreover have "num_at m DLoop (dpcs s) = 0" unfolding cnt_eq_0
    proof (intro allI impI)
      fix i assume "i < m"
      with at [of i] show "dpcs s i \<noteq> DLoop" by (auto split: if_splits)
    qed
    ultimately have "queue s = []" using inv by (auto simp: dq_inv_def)
    with at False show ?thesis by simp
  next
    case True
    then show ?thesis using dq_stuck_quit [OF inv st n(2)] by simp
  qed
qed

lemma nothing_taken: "reach (dq_step 0 m) (dispatch_queue 0) s \<Longrightarrow> taken s = []"
proof (induction rule: reach.induct)
  case reach_init
  show ?case by (simp add: dispatch_queue_def)
next
  case (reach_step s l u)
  have "\<forall>i<m. \<not> server (dpcs s i)" using dq.reach_inv [OF reach_step(1)] by (simp add: dq_inv_def)
  with reach_step(2) show ?case by (cases rule: dq_step_cases) (use reach_step(3) in auto)
qed

text \<open>C18: the dispatch queue runs functions in the order they were dispatched, each at most once, and
  loses no wake-up: when it was made with at least one thread, no thread can go on and nobody has destroyed the queue, every
  dispatched function has been run (with no thread none ever is); when the destructor has set \<open>quit_\<close> and no thread can go on,
  every server has returned and the destructor has joined them all.\<close>

theorem dispatch_correct:
  assumes "reach (dq_step n m) (dispatch_queue n) s" "n \<le> m"
  shows "dispatched s = taken s @ queue s \<and>
    (dq_stuck n m s \<and> \<not> quit s \<and> 0 < n \<longrightarrow> taken s = dispatched s) \<and> (n = 0 \<longrightarrow> taken s = []) \<and>
    (dq_stuck n m s \<and> quit s \<longrightarrow> (\<forall>i<m. dpcs s i \<in> (if i < n then {DDone} else {UIdle, UDead})))"
proof (intro conjI impI allI)
  show fifo: "dispatched s = taken s @ queue s" using dq_queue.fifo [OF assms(1)] by simp
  note inv = dq.reach_inv [OF assms(1)]
  show "taken s = dispatched s" if "dq_stuck n m s \<and> \<not> quit s \<and> 0 < n"
    using dq_stuck_state [OF inv _ _ assms(2)] that fifo by auto
  show "taken s = []" if "n = 0" using assms(1) nothing_taken that by simp
  show "dpcs s i \<in> (if i < n then {DDone} else {UIdle, UDead})" if "dq_stuck n m s \<and> quit s" "i < m" for i
    using dq_stuck_quit [OF inv _ assms(2)] that by blast
qed

theorem dispatch_correct_witness:
  "\<exists>s. exec (dq_step 1 2) [Serve 0, Dispatch 1 (7 :: nat) (Some 0), Serve 0, Dispatch 1 8 None, Destroy 1, Serve 1, Serve 0, Serve 0, Serve 1, Serve 1]
     (dispatch_queue 1) = Some s \<and> dispatched s = [7, 8] \<and> taken s = [7] \<and> queue s = [8]"
proof -
  obtain s where s: "exec (dq_step 1 2) [Serve 0, Dispatch 1 (7 :: nat) (Some 0), Serve 0, Dispatch 1 8 None, Destroy 1, Serve 1, Serve 0, Serve 0, Serve 1, Serve 1]
     (dispatch_queue 1) = Some s" "dispatched s = [7, 8]" "taken s = [7]"
    by (simp add: dispatch_queue_def dispatch_thread_handler_def dispatch_def destroy_step_def
        notify_one_def notify_all_def dq_at_def numeral_2_eq_2 Ex_less_Suc)
  with dispatch_correct [OF reachI [OF s(1)]] show ?thesis by simp
qed

end
