(* ===== verification/Single_Slot.thy ===== *)
theory Single_Slot
  imports Monitors
begin

text \<open>
  \<open>threads-locks/c++11-Producer-consumer/SingleProducerSingleConsumer.cpp\<close> (the same file is also under
  \<open>threads-locks/condition variable/\<close>): one buffer, one condition variable, and an \<open>if\<close> instead of a
  \<open>while\<close> around the wait. A thread that has been woken does not test again: it goes on to \<open>put\<close> or
  \<open>get\<close>, whose assertions end the program when they fail (\<open>aborted\<close>).

  Producers are the threads 0 to \<open>p - 1\<close>, consumers \<open>p\<close> to \<open>m - 1\<close>. \<open>sent\<close> and \<open>received\<close> are history
  variables.
\<close>

datatype spc = SProd nat | SProdWait nat | SPut nat | SCons nat | SConsWait nat | SGet nat | SDone

record slot =
  sbuffer :: int
  scount :: nat
  spcs :: "tid \<Rightarrow> spc"
  aborted :: bool
  sent :: "int list"
  received :: "int list"

definition slot_init :: "nat \<Rightarrow> slot" where
  "slot_init p = \<lparr>sbuffer = 0, scount = 0, spcs = (\<lambda>i. if i < p then SProd 0 else SCons 0),
     aborted = False, sent = [], received = []\<rparr>"

definition slot_put :: "int \<Rightarrow> slot \<Rightarrow> slot" where
  "slot_put value s =
     (if scount s \<noteq> 0 then s\<lparr>aborted := True\<rparr>
      else s\<lparr>scount := 1, sbuffer := value, sent := sent s @ [value]\<rparr>)"

definition slot_get :: "slot \<Rightarrow> slot" where
  "slot_get s =
     (if scount s \<noteq> 1 then s\<lparr>aborted := True\<rparr>
      else s\<lparr>scount := 0, received := received s @ [sbuffer s]\<rparr>)"

definition slot_at :: "tid \<Rightarrow> spc \<Rightarrow> slot \<Rightarrow> slot" where
  "slot_at t b s = s\<lparr>spcs := (spcs s)(t := b)\<rparr>"

fun slot_cond :: "spc \<Rightarrow> spc option" where
  "slot_cond (SProdWait i) = Some (SPut i)"
| "slot_cond (SConsWait k) = Some (SGet k)"
| "slot_cond b = None"

text \<open>\<open>p4\<close> to \<open>p6\<close> and \<open>c4\<close> to \<open>c6\<close>: \<open>put\<close> or \<open>get\<close>, signal, unlock.\<close>

definition put_signal :: "nat \<Rightarrow> tid option \<Rightarrow> tid \<Rightarrow> nat \<Rightarrow> slot \<Rightarrow> slot option" where
  "put_signal m c t i s =
     (case notify_one slot_cond m c (spcs s) of None \<Rightarrow> None
      | Some f \<Rightarrow> Some (slot_at t (SProd (i + 1)) ((slot_put (int i) s)\<lparr>spcs := f\<rparr>)))"

definition get_signal :: "nat \<Rightarrow> tid option \<Rightarrow> tid \<Rightarrow> nat \<Rightarrow> slot \<Rightarrow> slot option" where
  "get_signal m c t k s =
     (case notify_one slot_cond m c (spcs s) of None \<Rightarrow> None
      | Some f \<Rightarrow> Some (slot_at t (SCons (k + 1)) ((slot_get s)\<lparr>spcs := f\<rparr>)))"

definition slot_run :: "nat \<Rightarrow> nat \<Rightarrow> tid option \<Rightarrow> tid \<Rightarrow> slot \<Rightarrow> slot option" where
  "slot_run loops m c t s =
     (case spcs s t of
        SProd i \<Rightarrow>
          (if \<not> i < loops then (if c = None then Some (slot_at t SDone s) else None)
           else if scount s = 1 then (if c = None then Some (slot_at t (SProdWait i) s) else None)
           else put_signal m c t i s)
      | SPut i \<Rightarrow> put_signal m c t i s
      | SCons k \<Rightarrow>
          (if \<not> k < loops then (if c = None then Some (slot_at t SDone s) else None)
           else if scount s = 0 then (if c = None then Some (slot_at t (SConsWait k) s) else None)
           else get_signal m c t k s)
      | SGet k \<Rightarrow> get_signal m c t k s
      | _ \<Rightarrow> None)"

datatype slot_label = SRun tid "tid option" | SWake tid

text \<open>An aborted program takes no step.\<close>

fun slot_step :: "nat \<Rightarrow> nat \<Rightarrow> slot_label \<Rightarrow> slot \<Rightarrow> slot option" where
  "slot_step loops m (SRun t c) s = (if t < m \<and> \<not> aborted s then slot_run loops m c t s else None)"
| "slot_step loops m (SWake t) s =
     (if t < m \<and> \<not> aborted s then map_option (\<lambda>b. slot_at t b s) (slot_cond (spcs s t)) else None)"

text \<open>The machine without spurious wake-ups.\<close>

fun quiet_step :: "nat \<Rightarrow> nat \<Rightarrow> slot_label \<Rightarrow> slot \<Rightarrow> slot option" where
  "quiet_step loops m (SRun t c) s = slot_step loops m (SRun t c) s"
| "quiet_step loops m (SWake t) s = None"

section \<open>One producer, one consumer\<close>

fun prod_at :: "nat \<Rightarrow> nat \<Rightarrow> nat \<Rightarrow> spc \<Rightarrow> bool" where
  "prod_at loops n c (SProd i) = (i = n \<and> i \<le> loops)"
| "prod_at loops n c (SProdWait i) = (i = n \<and> i < loops \<and> c = 1)"
| "prod_at loops n c (SPut i) = (i = n \<and> i < loops \<and> c = 0)"
| "prod_at loops n c SDone = (n = loops)"
| "prod_at loops n c b = False"

fun cons_at :: "nat \<Rightarrow> nat \<Rightarrow> nat \<Rightarrow> spc \<Rightarrow> bool" where
  "cons_at loops n c (SCons k) = (k = n \<and> k \<le> loops)"
| "cons_at loops n c (SConsWait k) = (k = n \<and> k < loops \<and> c = 0)"
| "cons_at loops n c (SGet k) = (k = n \<and> k < loops \<and> c = 1)"
| "cons_at loops n c SDone = (n = loops)"
| "cons_at loops n c b = False"

definition counts_up :: "int list \<Rightarrow> bool" where
  "counts_up xs \<longleftrightarrow> xs = map int [0..<length xs]"

lemma counts_up_Nil [simp]: "counts_up []"
  by (simp add: counts_up_def)

lemma counts_up_snoc: "counts_up xs \<Longrightarrow> counts_up (xs @ [int (length xs)])"
  by (simp add: counts_up_def)

lemma counts_up_take: "counts_up (xs @ ys) \<Longrightarrow> counts_up xs"
proof -
  assume a: "counts_up (xs @ ys)"
  have "xs = take (length xs) (xs @ ys)" by simp
  also have "\<dots> = map int (take (length xs) [0..<length (xs @ ys)])"
    unfolding take_map [symmetric] by (rule arg_cong [OF a [unfolded counts_up_def]])
  finally show "counts_up xs" by (simp add: counts_up_def take_upt)
qed

definition slot_inv :: "nat \<Rightarrow> slot \<Rightarrow> bool" where
  "slot_inv loops s \<longleftrightarrow> \<not> aborted s \<and> scount s \<le> 1 \<and>
     counts_up (sent s) \<and>
     sent s = received s @ (if scount s = 1 then [sbuffer s] else []) \<and>
     prod_at loops (length (sent s)) (scount s) (spcs s 0) \<and>
     cons_at loops (length (received s)) (scount s) (spcs s 1) \<and>
     \<not> (slot_cond (spcs s 0) \<noteq> None \<and> slot_cond (spcs s 1) \<noteq> None)"

lemma slot_inv_init: "slot_inv loops (slot_init 1)"
  by (simp add: slot_inv_def slot_init_def)

lemma sent_length: "slot_inv loops s \<Longrightarrow> length (sent s) = length (received s) + scount s"
  by (auto simp: slot_inv_def split: if_splits)

lemma notify_slot:
  assumes "notify_one slot_cond 2 c f = Some g"
  obtains "g = f" "slot_cond (f 0) = None" "slot_cond (f 1) = None"
    | b where "slot_cond (f 0) = Some b" "g = f(0 := b)"
    | b where "slot_cond (f 1) = Some b" "g = f(1 := b)"
  using assms
proof (cases rule: notify_one_cases)
  case nobody
  then have "slot_cond (f 0) = None" "slot_cond (f 1) = None"
    using cnt_zero_at [of 2 "\<lambda>b. slot_cond b \<noteq> None" f 0] cnt_zero_at [of 2 "\<lambda>b. slot_cond b \<noteq> None" f 1]
    by auto
  with nobody that(1) show thesis by simp
next
  case (somebody i b)
  then have "i = 0 \<or> i = 1" by auto
  with somebody that(2,3) show thesis by auto
qed

lemma slot_put_step:
  assumes inv: "slot_inv loops s" and at: "spcs s 0 = SProd i \<or> spcs s 0 = SPut i" "i < loops" "scount s = 0"
    and step: "put_signal 2 c 0 i s = Some u"
  shows "slot_inv loops u"
proof -
  obtain f where f: "notify_one slot_cond 2 c (spcs s) = Some f"
    "u = slot_at 0 (SProd (i + 1)) ((slot_put (int i) s)\<lparr>spcs := f\<rparr>)"
    using step by (auto simp: put_signal_def split: option.splits)
  have i: "i = length (sent s)" using inv at by (auto simp: slot_inv_def)
  have c: "cons_at loops (length (received s)) 0 (spcs s 1)"
    using inv unfolding slot_inv_def at(3) by blast
  have sl: "slot_cond (spcs s 0) = None" using at(1) by auto
  have "counts_up (sent s)" using inv unfolding slot_inv_def by blast
  then have h: "counts_up (sent s @ [int i])" "received s = sent s"
    using inv at i counts_up_snoc by (simp_all add: slot_inv_def)
  from f(1) have "cons_at loops (length (received s)) 1 (f 1)"
  proof (cases rule: notify_slot)
    case 1
    then show ?thesis using c by (cases "spcs s 1") auto
  next
    case (2 b)
    then show ?thesis using sl by simp
  next
    case (3 b)
    then show ?thesis using c by (cases "spcs s 1") auto
  qed
  then show ?thesis using inv at i h f(2) by (simp add: slot_inv_def slot_at_def slot_put_def)
qed

lemma slot_get_step:
  assumes inv: "slot_inv loops s" and at: "spcs s 1 = SCons k \<or> spcs s 1 = SGet k" "k < loops" "scount s = 1"
    and step: "get_signal 2 c 1 k s = Some u"
  shows "slot_inv loops u"
proof -
  obtain f where f: "notify_one slot_cond 2 c (spcs s) = Some f"
    "u = slot_at 1 (SCons (k + 1)) ((slot_get s)\<lparr>spcs := f\<rparr>)"
    using step by (auto simp: get_signal_def split: option.splits)
  have k: "k = length (received s)" using inv at by (auto simp: slot_inv_def)
  have c: "prod_at loops (length (sent s)) 1 (spcs s 0)"
    using inv unfolding slot_inv_def at(3) by blast
  have sl: "slot_cond (spcs s 1) = None" using at(1) by auto
  have h: "sent s = received s @ [sbuffer s]" using inv at by (simp add: slot_inv_def)
  from f(1) have "prod_at loops (length (sent s)) 0 (f 0)"
  proof (cases rule: notify_slot)
    case 1
    then show ?thesis using c by (cases "spcs s 0") auto
  next
    case (2 b)
    then show ?thesis using c by (cases "spcs s 0") auto
  next
    case (3 b)
    then show ?thesis using sl by simp
  qed
  then show ?thesis using inv at k h f(2) by (simp add: slot_inv_def slot_at_def slot_get_def)
qed

lemma slot_inv_step:
  assumes inv: "slot_inv loops s" and step: "quiet_step loops 2 l s = Some u"
  shows "slot_inv loops u"
proof (cases l)
  case (SWake t)
  then show ?thesis using step by simp
next
  case (SRun t c)
  then have t: "t = 0 \<or> t = 1" and r: "slot_run loops 2 c t s = Some u" using step by (auto split: if_splits)
  have cnt: "scount s = 0 \<or> scount s = 1" using inv by (auto simp: slot_inv_def)
  from t show ?thesis
  proof
    assume 0: "t = 0"
    show ?thesis
    proof (cases "spcs s 0")
      case (SProd i)
      have i: "i = length (sent s)" "i \<le> loops" using inv SProd by (auto simp: slot_inv_def)
      consider "i = loops" | "i < loops" "scount s = 1" | "i < loops" "scount s = 0" using i cnt by linarith
      then show ?thesis
      proof cases
        case 1
        then show ?thesis using r 0 SProd inv i by (auto simp: slot_run_def slot_inv_def slot_at_def split: if_splits)
      next
        case 2
        then have "slot_cond (spcs s 1) = None" using inv by (cases "spcs s 1") (auto simp: slot_inv_def)
        then show ?thesis using 2 r 0 SProd inv i by (auto simp: slot_run_def slot_inv_def slot_at_def split: if_splits)
      next
        case 3
        then show ?thesis using r 0 SProd slot_put_step [OF inv, of i] by (simp add: slot_run_def)
      qed
    next
      case (SPut i)
      have "i < loops" "scount s = 0" using inv SPut by (auto simp: slot_inv_def)
      then show ?thesis using r 0 SPut slot_put_step [OF inv, of i] by (simp add: slot_run_def)
    qed (use r 0 inv in \<open>auto simp: slot_run_def slot_inv_def\<close>)
  next
    assume 1: "t = 1"
    show ?thesis
    proof (cases "spcs s 1")
      case (SCons k)
      have k: "k = length (received s)" "k \<le> loops" using inv SCons by (auto simp: slot_inv_def)
      consider "k = loops" | "k < loops" "scount s = 0" | "k < loops" "scount s = 1" using k cnt by linarith
      then show ?thesis
      proof cases
        case a: 1
        then show ?thesis using r 1 SCons inv k by (auto simp: slot_run_def slot_inv_def slot_at_def split: if_splits)
      next
        case 2
        then have "slot_cond (spcs s 0) = None" using inv by (cases "spcs s 0") (auto simp: slot_inv_def)
        then show ?thesis using 2 r 1 SCons inv k by (auto simp: slot_run_def slot_inv_def slot_at_def split: if_splits)
      next
        case 3
        then show ?thesis using r 1 SCons slot_get_step [OF inv, of k] by (simp add: slot_run_def)
      qed
    next
      case (SGet k)
      have "k < loops" "scount s = 1" using inv SGet by (auto simp: slot_inv_def)
      then show ?thesis using r 1 SGet slot_get_step [OF inv, of k] by (simp add: slot_run_def)
    qed (use r 1 inv in \<open>auto simp: slot_run_def slot_inv_def\<close>)
  qed
qed

lemma slot_progress:
  assumes inv: "slot_inv loops s" and "\<not> (spcs s 0 = SDone \<and> spcs s 1 = SDone)"
  shows "\<exists>l u. quiet_step loops 2 l s = Some u"
proof -
  obtain c f where n: "notify_one slot_cond 2 c (spcs s) = Some f" using notify_one_enabled by blast
  have run: "\<exists>l u. quiet_step loops 2 l s = Some u" if "t < 2" "spcs s t \<noteq> SDone" "slot_cond (spcs s t) = None" for t
  proof (cases "slot_run loops 2 c t s = None")
    case True
    then have "slot_run loops 2 None t s \<noteq> None"
      using that n by (cases "spcs s t") (auto simp: slot_run_def put_signal_def get_signal_def split: if_splits)
    then show ?thesis using that inv by (intro exI [of _ "SRun t None"]) (auto simp: slot_inv_def)
  next
    case False
    then show ?thesis using that inv by (intro exI [of _ "SRun t c"]) (auto simp: slot_inv_def)
  qed
  show ?thesis
  proof (cases "slot_cond (spcs s 0) = None \<and> spcs s 0 \<noteq> SDone")
    case True
    then show ?thesis using run [of 0] by simp
  next
    case False
    have "scount s = 0 \<or> scount s = 1" using inv by (auto simp: slot_inv_def)
    then have "slot_cond (spcs s 1) = None \<and> spcs s 1 \<noteq> SDone"
      using False assms sent_length [OF inv]
      by (cases "spcs s 0"; cases "spcs s 1") (auto simp: slot_inv_def)
    then show ?thesis using run [of 1] by simp
  qed
qed

interpretation slot: live_machine "quiet_step loops 2" "slot_init 1" "slot_inv loops"
  "\<lambda>s. spcs s 0 = SDone \<and> spcs s 1 = SDone"
  for loops :: nat
  by unfold_locales (use slot_inv_init slot_inv_step slot_progress in blast)+

section \<open>Properties\<close>

text \<open>With one producer, one consumer and no spurious wake-ups the \<open>if\<close> is enough: no assertion
  fails, the values arrive in order, and a run that cannot go on has finished both threads with all
  values received.\<close>

theorem single_slot_correct:
  assumes "reach (quiet_step loops 2) (slot_init 1) s"
  shows "\<not> aborted s \<and> received s = map int [0..<length (received s)] \<and>
    ((\<forall>l. quiet_step loops 2 l s = None) \<longrightarrow> received s = map int [0..<loops])"
proof -
  have inv: "slot_inv loops s" using slot.reach_inv [OF assms] .
  have "counts_up (received s)" using inv counts_up_take unfolding slot_inv_def by metis
  then have r: "received s = map int [0..<length (received s)]" by (simp add: counts_up_def)
  have "length (received s) = loops" if "\<forall>l. quiet_step loops 2 l s = None"
    using slot.stuck_final [OF assms that] inv by (simp add: slot_inv_def)
  with r inv show ?thesis by (auto simp: slot_inv_def)
qed

theorem single_slot_correct_witness:
  "\<exists>s. exec (quiet_step 2 2) [SRun 1 None, SRun 0 (Some 1), SRun 0 None, SRun 1 (Some 0), SRun 0 None, SRun 1 None]
     (slot_init 1) = Some s \<and> received s = [0, 1]"
proof -
  obtain s where s: "exec (quiet_step 2 2) [SRun 1 None, SRun 0 (Some 1), SRun 0 None, SRun 1 (Some 0), SRun 0 None, SRun 1 None]
     (slot_init 1) = Some s" "length (received s) = 2"
    by (simp add: slot_init_def slot_run_def put_signal_def get_signal_def slot_put_def slot_get_def
        slot_at_def notify_one_def numeral_2_eq_2 Ex_less_Suc)
  then show ?thesis using single_slot_correct [OF reachI [OF s(1)]] by (auto simp: upt_rec)
qed

text \<open>The \<open>if\<close> is not enough beyond that: a spurious wake-up makes the assertion of \<open>get\<close> fail with
  one producer and one consumer, and with two consumers it fails even without spurious wake-ups.\<close>

theorem single_slot_if_fails:
  "(\<exists>s. reach (slot_step 2 2) (slot_init 1) s \<and> aborted s) \<and>
   (\<exists>s. reach (quiet_step 2 3) (slot_init 1) s \<and> aborted s)"
proof -
  obtain s where s: "exec (slot_step 2 2) [SRun 1 None, SWake 1, SRun 1 None] (slot_init 1) = Some s" "aborted s"
    by (simp add: slot_init_def slot_run_def put_signal_def get_signal_def slot_put_def slot_get_def
        slot_at_def notify_one_def numeral_2_eq_2 Ex_less_Suc)
  obtain u where u: "exec (quiet_step 2 3) [SRun 1 None, SRun 0 (Some 1), SRun 2 None, SRun 1 None] (slot_init 1) = Some u"
      "aborted u"
    by (simp add: slot_init_def slot_run_def put_signal_def get_signal_def slot_put_def slot_get_def
        slot_at_def notify_one_def numeral_3_eq_3 Ex_less_Suc)
  from reachI [OF s(1)] s(2) reachI [OF u(1)] u(2) show ?thesis by blast
qed

end
