(* ===== verification/Handoff.thy ===== *)
theory Handoff
  imports Monitors
begin

text \<open>
  Programs of two threads under \<open>threads-locks/c++11-Producer-consumer/\<close> in which one waits for the other:
  \<open>condition_varaible.cpp\<close> (a parent joins its child; also under \<open>threads-locks/condition variable/\<close>), and
  the three programs that prepare a vector and hand it over, by a condition variable
  (\<open>conditional_variable.cpp\<close>), an atomic flag (\<open>atomic-flag.cpp\<close>), or a promise that is never set
  (\<open>promise-future.cpp\<close>): destroying an unset promise makes its future ready, with an error.
\<close>

section \<open>Joining with a condition variable\<close>

datatype jpc = JStart | JTest | JWait | JEnd | XStart | XExit | XEnd

record join_prog =
  done_flag :: int
  jpcs :: "tid \<Rightarrow> jpc"

definition join_main :: join_prog where
  "join_main = \<lparr>done_flag = 0, jpcs = (\<lambda>i. if i = 0 then JStart else XEnd)\<rparr>"

fun join_c :: "jpc \<Rightarrow> jpc option" where
  "join_c JWait = Some JTest"
| "join_c p = None"

definition thr_exit :: "tid option \<Rightarrow> join_prog \<Rightarrow> join_prog option" where
  "thr_exit c s =
     (case notify_one join_c 2 c (jpcs s) of None \<Rightarrow> None
      | Some f \<Rightarrow> Some (s\<lparr>done_flag := 1, jpcs := f(1 := XEnd)\<rparr>))"

definition thr_join :: "join_prog \<Rightarrow> join_prog" where
  "thr_join s = s\<lparr>jpcs := (jpcs s)(0 := (if done_flag s = 0 then JWait else JEnd))\<rparr>"

datatype join_label = JRun tid "tid option" | JSpurious

text \<open>Thread 0 is \<open>main\<close>: it creates thread 1, the child, and joins it.\<close>

fun join_step :: "join_label \<Rightarrow> join_prog \<Rightarrow> join_prog option" where
  "join_step (JRun t c) s =
     (if t = 0 \<and> c = None then
        (case jpcs s 0 of
           JStart \<Rightarrow> Some (s\<lparr>jpcs := (jpcs s)(0 := JTest, 1 := XStart)\<rparr>)
         | JTest \<Rightarrow> Some (thr_join s)
         | _ \<Rightarrow> None)
      else if t = 1 then
        (case jpcs s 1 of
           XStart \<Rightarrow> (if c = None then Some (s\<lparr>jpcs := (jpcs s)(1 := XExit)\<rparr>) else None)
         | XExit \<Rightarrow> thr_exit c s
         | _ \<Rightarrow> None)
      else None)"
| "join_step JSpurious s = (if jpcs s 0 = JWait then Some (s\<lparr>jpcs := (jpcs s)(0 := JTest)\<rparr>) else None)"

definition join_inv :: "join_prog \<Rightarrow> bool" where
  "join_inv s \<longleftrightarrow>
     (jpcs s 0 = JStart \<and> jpcs s 1 = XEnd \<and> done_flag s = 0) \<or>
     (jpcs s 0 \<in> {JTest, JWait} \<and> jpcs s 1 \<in> {XStart, XExit} \<and> done_flag s = 0) \<or>
     (jpcs s 0 \<in> {JTest, JEnd} \<and> jpcs s 1 = XEnd \<and> done_flag s = 1)"

lemma join_inv_step:
  assumes inv: "join_inv s" and step: "join_step l s = Some u"
  shows "join_inv u"
proof (cases l)
  case (JRun t c)
  consider "t = 0" "c = None" | "t = 1" using step JRun by (auto split: if_splits)
  then show ?thesis
  proof cases
    case 1
    then show ?thesis using step JRun inv by (auto simp: join_inv_def thr_join_def)
  next
    case 2
    show ?thesis
    proof (cases "jpcs s 1")
      case XExit
      then obtain f where f: "notify_one join_c 2 c (jpcs s) = Some f" "u = s\<lparr>done_flag := 1, jpcs := f(1 := XEnd)\<rparr>"
        using step JRun 2 by (auto simp: thr_exit_def split: option.splits)
      have at: "jpcs s 0 \<in> {JTest, JWait}" using inv XExit by (auto simp: join_inv_def)
      from f(1) have "f 0 = JTest"
      proof (cases rule: notify_one_cases)
        case nobody
        then have "\<not> join_c (jpcs s 0) \<noteq> None" using cnt_zero_at [of 2 "\<lambda>p. join_c p \<noteq> None" "jpcs s" 0] by simp
        with at nobody show ?thesis by auto
      next
        case (somebody i p)
        then have "i = 0" using XExit by (cases "i = 0") (auto simp: less_Suc_eq numeral_2_eq_2)
        with somebody show ?thesis by (cases "jpcs s 0") auto
      qed
      with f(2) show ?thesis by (simp add: join_inv_def)
    qed (use step JRun 2 inv in \<open>auto simp: join_inv_def split: if_splits\<close>)
  qed
next
  case JSpurious
  then show ?thesis using step inv by (auto simp: join_inv_def split: if_splits)
qed

lemma join_progress:
  assumes inv: "join_inv s" and "jpcs s 0 \<noteq> JEnd"
  shows "\<exists>l u. join_step l s = Some u"
proof -
  obtain c f where c: "notify_one join_c 2 c (jpcs s) = Some f" using notify_one_enabled by blast
  have "join_step (JRun 0 None) s \<noteq> None \<or> join_step (JRun 1 None) s \<noteq> None \<or> join_step (JRun 1 c) s \<noteq> None"
    using inv assms(2) c by (auto simp: join_inv_def thr_exit_def)
  then show ?thesis by blast
qed

interpretation join: live_machine join_step join_main join_inv "\<lambda>s. jpcs s 0 = JEnd"
proof (unfold_locales, goal_cases)
  case 1
  show ?case by (simp add: join_inv_def join_main_def)
qed (use join_inv_step join_progress in blast)+

section \<open>Handing over a vector\<close>

datatype hpc = Prep | Publish | Notify | SEnd | Wait | Asleep | Use | REnd

record handoff =
  my_vec :: "int list"
  ready :: bool
  sender :: hpc
  receiver :: hpc
  crashed :: bool

definition hand_main :: handoff where
  "hand_main = \<lparr>my_vec = [], ready = False, sender = Prep, receiver = Wait, crashed = False\<rparr>"

definition prepare :: "handoff \<Rightarrow> handoff" where
  "prepare s = s\<lparr>my_vec := my_vec s @ [0, 1, 0, 3]\<rparr>"

text \<open>\<open>my_vec[2] = 2\<close>, which is undefined on a shorter vector.\<close>

definition complete :: "handoff \<Rightarrow> handoff" where
  "complete s = (if 2 < length (my_vec s) then s\<lparr>my_vec := (my_vec s)[2 := 2]\<rparr> else s\<lparr>crashed := True\<rparr>)"

definition wake :: "handoff \<Rightarrow> handoff" where
  "wake s = (if receiver s = Asleep then s\<lparr>receiver := Wait\<rparr> else s)"

datatype hand_label = Sender | Receiver | Spurious

text \<open>\<open>conditional_variable.cpp\<close>: the receiver tests and uses the vector under the mutex; the sender
  notifies after unlocking.\<close>

fun cond_step :: "hand_label \<Rightarrow> handoff \<Rightarrow> handoff option" where
  "cond_step Sender s =
     (case sender s of
        Prep \<Rightarrow> Some ((prepare s)\<lparr>sender := Notify\<rparr>)
      | Notify \<Rightarrow> Some ((wake s)\<lparr>sender := SEnd\<rparr>)
      | _ \<Rightarrow> None)"
| "cond_step Receiver s =
     (case receiver s of
        Wait \<Rightarrow> Some (if my_vec s = [] then s\<lparr>receiver := Asleep\<rparr> else (complete s)\<lparr>receiver := REnd\<rparr>)
      | _ \<Rightarrow> None)"
| "cond_step Spurious s = (if receiver s = Asleep then Some (wake s) else None)"

text \<open>\<open>atomic-flag.cpp\<close>: the flag orders the accesses; \<open>wait(false)\<close> sleeps while the flag is clear.\<close>

fun flag_step :: "hand_label \<Rightarrow> handoff \<Rightarrow> handoff option" where
  "flag_step Sender s =
     (case sender s of
        Prep \<Rightarrow> Some ((prepare s)\<lparr>sender := Publish\<rparr>)
      | Publish \<Rightarrow> Some (s\<lparr>ready := True, sender := Notify\<rparr>)
      | Notify \<Rightarrow> Some ((wake s)\<lparr>sender := SEnd\<rparr>)
      | _ \<Rightarrow> None)"
| "flag_step Receiver s =
     (case receiver s of
        Wait \<Rightarrow> Some (s\<lparr>receiver := (if ready s then Use else Asleep)\<rparr>)
      | Use \<Rightarrow> Some ((complete s)\<lparr>receiver := REnd\<rparr>)
      | _ \<Rightarrow> None)"
| "flag_step Spurious s = (if receiver s = Asleep then Some (wake s) else None)"

text \<open>\<open>promise-future.cpp\<close>: \<open>PrepareWork\<close> returns without \<open>set_value\<close>; the destruction of its promise
  makes the shared state ready and wakes the thread in \<open>fut.wait()\<close>.\<close>

fun promise_step :: "hand_label \<Rightarrow> handoff \<Rightarrow> handoff option" where
  "promise_step Sender s =
     (case sender s of
        Prep \<Rightarrow> Some ((prepare s)\<lparr>sender := Publish\<rparr>)
      | Publish \<Rightarrow> Some ((wake s)\<lparr>ready := True, sender := SEnd\<rparr>)
      | _ \<Rightarrow> None)"
| "promise_step Receiver s =
     (case receiver s of
        Wait \<Rightarrow> Some (s\<lparr>receiver := (if ready s then Use else Asleep)\<rparr>)
      | Use \<Rightarrow> Some ((complete s)\<lparr>receiver := REnd\<rparr>)
      | _ \<Rightarrow> None)"
| "promise_step Spurious s = None"

datatype mechanism = ConditionVariable | AtomicFlag | PromiseFuture

fun hand_step :: "mechanism \<Rightarrow> hand_label \<Rightarrow> handoff \<Rightarrow> handoff option" where
  "hand_step ConditionVariable = cond_step"
| "hand_step AtomicFlag = flag_step"
| "hand_step PromiseFuture = promise_step"

fun published :: "mechanism \<Rightarrow> handoff \<Rightarrow> bool" where
  "published ConditionVariable s = (my_vec s \<noteq> [])"
| "published d s = ready s"

definition hand_inv :: "mechanism \<Rightarrow> handoff \<Rightarrow> bool" where
  "hand_inv d s \<longleftrightarrow> \<not> crashed s \<and>
     (sender s = Prep \<longrightarrow> my_vec s = [] \<and> \<not> ready s) \<and>
     (sender s = Publish \<longrightarrow> d \<noteq> ConditionVariable \<and> \<not> ready s) \<and>
     (sender s \<in> {Notify, SEnd} \<longrightarrow> published d s) \<and> sender s \<in> {Prep, Publish, Notify, SEnd} \<and>
     (sender s = Notify \<longrightarrow> d \<noteq> PromiseFuture) \<and>
     (sender s = SEnd \<longrightarrow> receiver s \<noteq> Asleep) \<and>
     receiver s \<in> {Wait, Asleep, Use, REnd} \<and> (receiver s = Use \<longrightarrow> d \<noteq> ConditionVariable) \<and>
     (receiver s \<in> {Use, REnd} \<longrightarrow> sender s \<in> {Notify, SEnd}) \<and>
     (sender s \<noteq> Prep \<longrightarrow> my_vec s = (if receiver s = REnd then [0, 1, 2, 3] else [0, 1, 0, 3]))"

lemma hand_sender_step:
  assumes "hand_inv d s" "hand_step d Sender s = Some u"
  shows "hand_inv d u"
proof (cases d)
  case ConditionVariable
  then show ?thesis using assms
    by (cases "sender s"; auto simp: hand_inv_def prepare_def wake_def split: if_splits)
next
  case AtomicFlag
  then show ?thesis using assms
    by (cases "sender s"; auto simp: hand_inv_def prepare_def wake_def split: if_splits)
next
  case PromiseFuture
  then show ?thesis using assms
    by (cases "sender s"; auto simp: hand_inv_def prepare_def wake_def split: if_splits)
qed

lemma hand_receiver_step:
  assumes "hand_inv d s" "hand_step d Receiver s = Some u"
  shows "hand_inv d u"
proof (cases d)
  case ConditionVariable
  then show ?thesis using assms
    by (cases "receiver s"; cases "sender s"; auto simp: hand_inv_def complete_def split: if_splits)
next
  case AtomicFlag
  then show ?thesis using assms
    by (cases "receiver s"; cases "sender s"; auto simp: hand_inv_def complete_def split: if_splits)
next
  case PromiseFuture
  then show ?thesis using assms
    by (cases "receiver s"; cases "sender s"; auto simp: hand_inv_def complete_def split: if_splits)
qed

lemma hand_inv_step:
  assumes "hand_inv d s" "hand_step d l s = Some u"
  shows "hand_inv d u"
proof (cases l)
  case Spurious
  then show ?thesis using assms
    by (cases d; auto simp: hand_inv_def wake_def split: if_splits)
qed (use assms hand_sender_step hand_receiver_step in blast)+

lemma hand_progress:
  assumes "hand_inv d s" "\<not> (sender s = SEnd \<and> receiver s = REnd)"
  shows "\<exists>l u. hand_step d l s = Some u"
proof -
  have "hand_step d Sender s \<noteq> None \<or> hand_step d Receiver s \<noteq> None"
    using assms by (cases d; cases "sender s"; cases "receiver s") (auto simp: hand_inv_def)
  then show ?thesis by blast
qed

interpretation hand: live_machine "hand_step d" hand_main "hand_inv d" "\<lambda>s. sender s = SEnd \<and> receiver s = REnd"
  for d :: mechanism
proof (unfold_locales, goal_cases)
  case 1
  show ?case by (simp add: hand_inv_def hand_main_def)
qed (use hand_inv_step hand_progress in blast)+

section \<open>Properties\<close>

text \<open>\<open>thr_join\<close> returns only after \<open>thr_exit\<close> has set \<open>done\<close>, whichever thread comes first and
  whatever spurious wake-ups occur, and the parent cannot be left asleep: a run that cannot go on has
  returned from \<open>thr_join\<close>.\<close>

theorem join_correct:
  assumes "reach join_step join_main s"
  shows "(jpcs s 0 = JEnd \<longrightarrow> done_flag s = 1 \<and> jpcs s 1 = XEnd) \<and>
    ((\<forall>l. join_step l s = None) \<longrightarrow> jpcs s 0 = JEnd)"
  using join.reach_inv [OF assms] join.stuck_final [OF assms] by (auto simp: join_inv_def)

theorem join_correct_witness:
  "\<exists>s. exec join_step [JRun 0 None, JRun 0 None, JSpurious, JRun 0 None, JRun 1 None, JRun 1 (Some 0), JRun 0 None] join_main = Some s \<and>
     jpcs s 0 = JEnd \<and> done_flag s = 1"
proof -
  obtain s where s: "exec join_step [JRun 0 None, JRun 0 None, JSpurious, JRun 0 None, JRun 1 None, JRun 1 (Some 0), JRun 0 None] join_main = Some s"
      "jpcs s 0 = JEnd"
    by (simp add: join_main_def thr_join_def thr_exit_def notify_one_def)
  then show ?thesis using join_correct [OF reachI [OF s(1)]] by simp
qed

text \<open>With each of the three mechanisms the receiver never touches the vector before it is prepared,
  and a run that cannot go on has ended both threads with the vector 0, 1, 2, 3; the promise that is
  never set releases the receiver too.\<close>

theorem handoff_correct:
  assumes "reach (hand_step d) hand_main s"
  shows "\<not> crashed s \<and> ((\<forall>l. hand_step d l s = None) \<longrightarrow>
    sender s = SEnd \<and> receiver s = REnd \<and> my_vec s = [0, 1, 2, 3])"
  using hand.reach_inv [OF assms] hand.stuck_final [OF assms] by (auto simp: hand_inv_def)

theorem handoff_correct_witness:
  "\<exists>s. exec (hand_step PromiseFuture) [Receiver, Sender, Sender, Receiver, Receiver] hand_main = Some s \<and>
     my_vec s = [0, 1, 2, 3] \<and> \<not> crashed s"
proof -
  obtain s where s: "exec (hand_step PromiseFuture) [Receiver, Sender, Sender, Receiver, Receiver] hand_main = Some s"
      "my_vec s = [0, 1, 2, 3]"
    by (simp add: hand_main_def prepare_def complete_def wake_def)
  then show ?thesis using handoff_correct [OF reachI [OF s(1)]] by blast
qed

end
