(* ===== verification/Turn_Taking.thy ===== *)
theory Turn_Taking
  imports Monitors
begin

text \<open>
  Two programs in which two threads take turns over condition variables:
  \<open>threads-locks/c++11-Producer-consumer/ping-pong.cpp\<close> and
  \<open>threads-locks/other-problems/IK- problems/OddEven.cpp\<close>.
\<close>

section \<open>ping-pong.cpp\<close>

text \<open>Positions of \<open>ping\<close> and \<open>pong\<close>: at the test of the loop, about to lock and test the predicate,
  asleep, about to increment the counter, about to notify, returned. The limit (10000 in the source)
  is a parameter.\<close>

datatype ppos = AtLoop | AtWait | AsleepCv | AtCount | AtNotify | Returned

record pingpong =
  dataReady :: bool
  counter :: nat
  ping_at :: ppos
  pong_at :: ppos

definition pingpong_main :: pingpong where
  "pingpong_main = \<lparr>dataReady = False, counter = 0, ping_at = AtLoop, pong_at = AtLoop\<rparr>"

fun ping :: "nat \<Rightarrow> pingpong \<Rightarrow> pingpong option" where
  "ping countlimit s =
     (case ping_at s of
        AtLoop \<Rightarrow> Some (s\<lparr>ping_at := (if counter s \<le> countlimit then AtWait else Returned)\<rparr>)
      | AtWait \<Rightarrow> Some (if \<not> dataReady s then s\<lparr>dataReady := True, ping_at := AtCount\<rparr>
          else s\<lparr>ping_at := AsleepCv\<rparr>)
      | AtCount \<Rightarrow> Some (s\<lparr>counter := counter s + 1, ping_at := AtNotify\<rparr>)
      | AtNotify \<Rightarrow> Some (s\<lparr>pong_at := (if pong_at s = AsleepCv then AtWait else pong_at s), ping_at := AtLoop\<rparr>)
      | _ \<Rightarrow> None)"

fun pong :: "nat \<Rightarrow> pingpong \<Rightarrow> pingpong option" where
  "pong countlimit s =
     (case pong_at s of
        AtLoop \<Rightarrow> Some (s\<lparr>pong_at := (if counter s < countlimit then AtWait else Returned)\<rparr>)
      | AtWait \<Rightarrow> Some (if dataReady s then s\<lparr>dataReady := False, pong_at := AtNotify\<rparr>
          else s\<lparr>pong_at := AsleepCv\<rparr>)
      | AtNotify \<Rightarrow> Some (s\<lparr>ping_at := (if ping_at s = AsleepCv then AtWait else ping_at s), pong_at := AtLoop\<rparr>)
      | _ \<Rightarrow> None)"

datatype pp_label = Ping | Pong | WakePing | WakePong

fun pp_step :: "nat \<Rightarrow> pp_label \<Rightarrow> pingpong \<Rightarrow> pingpong option" where
  "pp_step countlimit Ping s = ping countlimit s"
| "pp_step countlimit Pong s = pong countlimit s"
| "pp_step countlimit WakePing s = (if ping_at s = AsleepCv then Some (s\<lparr>ping_at := AtWait\<rparr>) else None)"
| "pp_step countlimit WakePong s = (if pong_at s = AsleepCv then Some (s\<lparr>pong_at := AtWait\<rparr>) else None)"

definition pp_round :: "nat \<Rightarrow> pingpong \<Rightarrow> bool" where
  "pp_round k s \<longleftrightarrow> s = \<lparr>dataReady = False, counter = k, ping_at = AtLoop, pong_at = AtLoop\<rparr>"

lemma pp_one_round:
  assumes "pp_round k s" "Suc k < L"
  shows "\<exists>t. exec (pp_step L) [Ping, Ping, Ping, Ping, Pong, Pong, Pong] s = Some t \<and> pp_round (Suc k) t"
  using assms by (simp add: pp_round_def)

lemma pp_rounds: "k < L \<Longrightarrow> \<exists>s. reach (pp_step L) pingpong_main s \<and> pp_round k s"
proof (induction k)
  case 0
  show ?case
    by (rule exI [of _ pingpong_main]) (simp add: reach_init pp_round_def pingpong_main_def)
next
  case (Suc k)
  then obtain s where s: "reach (pp_step L) pingpong_main s" "pp_round k s" by auto
  then obtain ls t where "exec (pp_step L) ls s = Some t" "pp_round (Suc k) t"
    using pp_one_round [OF s(2) Suc.prems] by blast
  then show ?case using reach_exec [OF s(1)] by blast
qed

text \<open>The state that ends badly: \<open>pong\<close> has seen the limit and returned, and \<open>ping\<close> waits for it.\<close>

definition pp_dead :: "pingpong \<Rightarrow> bool" where
  "pp_dead s \<longleftrightarrow> dataReady s \<and> ping_at s \<in> {AtWait, AsleepCv} \<and> pong_at s = Returned"

lemma pp_dead_step: "pp_dead s \<Longrightarrow> pp_step L l s = Some t \<Longrightarrow> pp_dead t \<and> counter t = counter s"
  by (cases l; cases "ping_at s") (auto simp: pp_dead_def split: if_splits)

lemma pp_dead_exec: "pp_dead s \<Longrightarrow> exec (pp_step L) ls s = Some t \<Longrightarrow> pp_dead t \<and> counter t = counter s"
proof (induction ls arbitrary: s)
  case Nil
  then show ?case by simp
next
  case (Cons l ls)
  then obtain u where "pp_step L l s = Some u" "exec (pp_step L) ls u = Some t"
    by (auto split: option.splits)
  with pp_dead_step [OF Cons.prems(1)] Cons.IH show ?case by metis
qed

lemma pp_deadlock_reached:
  assumes "0 < L"
  shows "\<exists>s. reach (pp_step L) pingpong_main s \<and> pp_dead s \<and> ping_at s = AsleepCv \<and> counter s = L"
proof -
  obtain k where k: "L = Suc k" using assms by (cases L) auto
  then obtain s where s: "reach (pp_step L) pingpong_main s" "pp_round k s" using pp_rounds [of k L] by auto
  have "\<exists>t. exec (pp_step L) [Ping, Ping, Ping, Ping, Pong, Ping, Ping] s = Some t \<and>
      pp_dead t \<and> ping_at t = AsleepCv \<and> counter t = L"
    using s(2) k by (simp add: pp_round_def pp_dead_def)
  with reach_exec [OF s(1)] show ?thesis by blast
qed

section \<open>OddEven.cpp\<close>

text \<open>\<open>n\<close> iterations for each thread (5 in the source). A position is the number of iterations done, and
  whether the thread sleeps. \<open>printed\<close> lists the lines: the thread (1 or 2) and the number.\<close>

datatype opos = Turn nat | TurnWait nat | Over

record oddeven =
  number :: nat
  even_thread :: opos
  odd_thread :: opos
  printed :: "(nat \<times> nat) list"

definition oddeven_main :: oddeven where
  "oddeven_main = \<lparr>number = 0, even_thread = Turn 0, odd_thread = Turn 0, printed = []\<rparr>"

fun turn_wake :: "opos \<Rightarrow> opos" where
  "turn_wake (TurnWait k) = Turn k"
| "turn_wake p = p"

definition printEven :: "nat \<Rightarrow> oddeven \<Rightarrow> oddeven option" where
  "printEven n s =
     (case even_thread s of
        Turn k \<Rightarrow>
          (if \<not> k < n then Some (s\<lparr>even_thread := Over\<rparr>)
           else if number s mod 2 = 1 then Some (s\<lparr>even_thread := TurnWait k\<rparr>)
           else Some (s\<lparr>number := number s + 1, printed := printed s @ [(1, number s + 1)],
             even_thread := Turn (k + 1), odd_thread := turn_wake (odd_thread s)\<rparr>))
      | _ \<Rightarrow> None)"

definition printOdd :: "nat \<Rightarrow> oddeven \<Rightarrow> oddeven option" where
  "printOdd n s =
     (case odd_thread s of
        Turn k \<Rightarrow>
          (if \<not> k < n then Some (s\<lparr>odd_thread := Over\<rparr>)
           else if number s mod 2 = 0 then Some (s\<lparr>odd_thread := TurnWait k\<rparr>)
           else Some (s\<lparr>number := number s + 1, printed := printed s @ [(2, number s + 1)],
             odd_thread := Turn (k + 1), even_thread := turn_wake (even_thread s)\<rparr>))
      | _ \<Rightarrow> None)"

datatype oe_label = EvenRuns | OddRuns | WakeEven | WakeOdd

fun oe_step :: "nat \<Rightarrow> oe_label \<Rightarrow> oddeven \<Rightarrow> oddeven option" where
  "oe_step n EvenRuns s = printEven n s"
| "oe_step n OddRuns s = printOdd n s"
| "oe_step n WakeEven s =
     (case even_thread s of TurnWait k \<Rightarrow> Some (s\<lparr>even_thread := Turn k\<rparr>) | _ \<Rightarrow> None)"
| "oe_step n WakeOdd s =
     (case odd_thread s of TurnWait k \<Rightarrow> Some (s\<lparr>odd_thread := Turn k\<rparr>) | _ \<Rightarrow> None)"

definition oe_lines :: "nat \<Rightarrow> (nat \<times> nat) list" where
  "oe_lines c = map (\<lambda>i. (if even i then 1 else 2, i + 1)) [0..<c]"

text \<open>A thread that has printed \<open>k\<close> of its \<open>n\<close> lines; it sleeps only while it is not its turn.\<close>

fun turn_ok :: "nat \<Rightarrow> nat \<Rightarrow> bool \<Rightarrow> opos \<Rightarrow> bool" where
  "turn_ok n k mine (Turn j) = (j = k \<and> k \<le> n)"
| "turn_ok n k mine (TurnWait j) = (j = k \<and> k < n \<and> \<not> mine)"
| "turn_ok n k mine Over = (k = n)"

definition oe_inv :: "nat \<Rightarrow> oddeven \<Rightarrow> bool" where
  "oe_inv n s \<longleftrightarrow> printed s = oe_lines (number s) \<and>
     turn_ok n ((number s + 1) div 2) (even (number s)) (even_thread s) \<and>
     turn_ok n (number s div 2) (odd (number s)) (odd_thread s)"

lemma oe_lines_Suc: "oe_lines (Suc c) = oe_lines c @ [(if even c then 1 else 2, Suc c)]"
  by (simp add: oe_lines_def)

lemma turn_wake_ok: "turn_ok n k mine p \<Longrightarrow> turn_ok n k mine' (turn_wake p)"
  by (cases p) auto

lemma oe_even_step:
  assumes inv: "oe_inv n s" and step: "printEven n s = Some u"
  shows "oe_inv n u"
proof (cases "even_thread s")
  case (Turn k)
  have k: "k = (number s + 1) div 2" "k \<le> n" using inv Turn by (auto simp: oe_inv_def)
  consider "\<not> k < n" | "k < n" "odd (number s)" | "k < n" "even (number s)" by blast
  then show ?thesis
  proof cases
    case 1
    then show ?thesis using step Turn inv k by (auto simp: printEven_def oe_inv_def)
  next
    case 2
    then show ?thesis using step Turn inv k by (auto simp: printEven_def oe_inv_def odd_iff_mod_2_eq_one)
  next
    case 3
    then have u: "u = s\<lparr>number := number s + 1, printed := printed s @ [(1, number s + 1)],
             even_thread := Turn (k + 1), odd_thread := turn_wake (odd_thread s)\<rparr>"
      using step Turn by (auto simp: printEven_def)
    have e: "(number s + 1) div 2 = number s div 2" using 3 by presburger
    have "turn_ok n (number s div 2) (odd (number s + 1)) (turn_wake (odd_thread s))"
      using inv turn_wake_ok by (auto simp: oe_inv_def)
    then show ?thesis using u inv k 3 e by (simp add: oe_inv_def oe_lines_Suc)
  qed
qed (use step in \<open>auto simp: printEven_def\<close>)

lemma oe_odd_step:
  assumes inv: "oe_inv n s" and step: "printOdd n s = Some u"
  shows "oe_inv n u"
proof (cases "odd_thread s")
  case (Turn k)
  have k: "k = number s div 2" "k \<le> n" using inv Turn by (auto simp: oe_inv_def)
  consider "\<not> k < n" | "k < n" "even (number s)" | "k < n" "odd (number s)" by blast
  then show ?thesis
  proof cases
    case 1
    then show ?thesis using step Turn inv k by (auto simp: printOdd_def oe_inv_def)
  next
    case 2
    then show ?thesis using step Turn inv k by (auto simp: printOdd_def oe_inv_def even_iff_mod_2_eq_zero)
  next
    case 3
    then have u: "u = s\<lparr>number := number s + 1, printed := printed s @ [(2, number s + 1)],
             odd_thread := Turn (k + 1), even_thread := turn_wake (even_thread s)\<rparr>"
      using step Turn by (auto simp: printOdd_def odd_iff_mod_2_eq_one)
    have e: "(number s + 1 + 1) div 2 = (number s + 1) div 2" "(number s + 1) div 2 = k + 1"
      using 3 k by presburger+
    have "turn_ok n ((number s + 1) div 2) (even (number s + 1)) (turn_wake (even_thread s))"
      using inv turn_wake_ok by (auto simp: oe_inv_def)
    then show ?thesis using u inv k 3 e by (simp add: oe_inv_def oe_lines_Suc)
  qed
qed (use step in \<open>auto simp: printOdd_def\<close>)

lemma oe_inv_step: "oe_inv n s \<Longrightarrow> oe_step n l s = Some u \<Longrightarrow> oe_inv n u"
proof (cases l)
  case EvenRuns
  assume "oe_inv n s" "oe_step n l s = Some u"
  with EvenRuns oe_even_step show ?thesis by simp
next
  case OddRuns
  assume "oe_inv n s" "oe_step n l s = Some u"
  with OddRuns oe_odd_step show ?thesis by simp
qed (auto simp: oe_inv_def split: opos.splits)

lemma oe_progress:
  assumes inv: "oe_inv n s" and "\<not> (even_thread s = Over \<and> odd_thread s = Over)"
  shows "\<exists>l u. oe_step n l s = Some u"
proof -
  have "\<exists>u. printEven n s = Some u" if "even_thread s = Turn k" for k
    using that by (auto simp: printEven_def)
  moreover have "\<exists>u. printOdd n s = Some u" if "odd_thread s = Turn k" for k
    using that by (auto simp: printOdd_def)
  ultimately have r: "(\<exists>k. even_thread s = Turn k) \<or> (\<exists>k. odd_thread s = Turn k) \<Longrightarrow> ?thesis"
    by (metis oe_step.simps(1,2))
  have "(\<exists>k. even_thread s = Turn k) \<or> (\<exists>k. odd_thread s = Turn k)"
  proof (cases "even (number s)")
    case True
    then have "(number s + 1) div 2 = number s div 2" by presburger
    then show ?thesis using inv assms(2) True
      by (cases "even_thread s"; cases "odd_thread s") (auto simp: oe_inv_def)
  next
    case False
    then have "(number s + 1) div 2 = number s div 2 + 1" by presburger
    then show ?thesis using inv assms(2) False
      by (cases "even_thread s"; cases "odd_thread s") (auto simp: oe_inv_def)
  qed
  then show ?thesis by (rule r)
qed

interpretation oe: live_machine "oe_step n" oddeven_main "oe_inv n" "\<lambda>s. even_thread s = Over \<and> odd_thread s = Over"
  for n :: nat
proof (unfold_locales, goal_cases)
  case 1
  show ?case by (simp add: oe_inv_def oddeven_main_def oe_lines_def)
qed (use oe_inv_step oe_progress in blast)+

section \<open>Properties\<close>

text \<open>Ping-pong can deadlock with every positive limit: when \<open>pong\<close> reads the counter after the last
  increment it returns without consuming the data, and \<open>ping\<close>, whose test still admits one more
  iteration, waits for ever; no step, not even a spurious wake-up, leads out.\<close>

theorem ping_pong_deadlock:
  assumes "0 < countlimit"
  shows "\<exists>s. reach (pp_step countlimit) pingpong_main s \<and> ping_at s = AsleepCv \<and> pong_at s = Returned \<and>
    counter s = countlimit \<and>
    (\<forall>ls t. exec (pp_step countlimit) ls s = Some t \<longrightarrow> ping_at t \<in> {AtWait, AsleepCv})"
proof -
  obtain s where s: "reach (pp_step countlimit) pingpong_main s" "pp_dead s" "ping_at s = AsleepCv" "counter s = countlimit"
    using pp_deadlock_reached [OF assms] by blast
  moreover have "\<forall>ls t. exec (pp_step countlimit) ls s = Some t \<longrightarrow> ping_at t \<in> {AtWait, AsleepCv}"
    using pp_dead_exec [OF s(2)] unfolding pp_dead_def by blast
  ultimately show ?thesis unfolding pp_dead_def by blast
qed

theorem ping_pong_deadlock_witness:
  "\<exists>s. reach (pp_step 10000) pingpong_main s \<and> ping_at s = AsleepCv \<and> pong_at s = Returned"
  using ping_pong_deadlock [of 10000] by auto

text \<open>The two threads of OddEven alternate strictly under every scheduling, wake-up and spurious
  wake-up: the lines come out as 1, 2, 3, ..., thread 1 (\<open>printEven\<close>) printing the odd numbers and
  thread 2 (\<open>printOdd\<close>) the even ones; and a run that cannot go on has ended both threads after
  \<open>2 n\<close> lines.\<close>

theorem odd_even_alternates:
  assumes "reach (oe_step n) oddeven_main s"
  shows "printed s = map (\<lambda>i. (if even i then 1 else 2, i + 1)) [0..<number s] \<and>
    ((\<forall>l. oe_step n l s = None) \<longrightarrow> number s = 2 * n)"
proof
  have inv: "oe_inv n s" using oe.reach_inv [OF assms] .
  then show "printed s = map (\<lambda>i. (if even i then 1 else 2, i + 1)) [0..<number s]"
    by (simp add: oe_inv_def oe_lines_def)
  show "(\<forall>l. oe_step n l s = None) \<longrightarrow> number s = 2 * n"
  proof
    assume "\<forall>l. oe_step n l s = None"
    then have "even_thread s = Over \<and> odd_thread s = Over" by (rule oe.stuck_final [OF assms])
    then have "(number s + 1) div 2 = n" "number s div 2 = n" using inv by (auto simp: oe_inv_def)
    then show "number s = 2 * n" by presburger
  qed
qed

theorem odd_even_alternates_witness:
  "\<exists>s. exec (oe_step 5) [OddRuns, WakeOdd, OddRuns, EvenRuns, EvenRuns, OddRuns, EvenRuns] oddeven_main = Some s \<and>
     printed s = [(1, 1), (2, 2), (1, 3)]"
proof -
  have "map_option number (exec (oe_step 5) [OddRuns, WakeOdd, OddRuns, EvenRuns, EvenRuns, OddRuns, EvenRuns]
      oddeven_main) = Some 3"
    by (simp add: oddeven_main_def printEven_def printOdd_def)
  then obtain s where s: "exec (oe_step 5) [OddRuns, WakeOdd, OddRuns, EvenRuns, EvenRuns, OddRuns, EvenRuns] oddeven_main = Some s"
      "number s = 3"
    by auto
  have "[0..<3] = [0, 1, 2 :: nat]" by (simp add: upt_rec)
  with odd_even_alternates [OF reachI [OF s(1)]] s show ?thesis by simp
qed

end
