(* ===== verification/Lockfree_Stack.thy ===== *)
theory Lockfree_Stack
  imports Heap_Lists
begin

text \<open>
  The stack \<open>LFS\<close> of \<open>threads-locks/atomic-tutorial/compare-and-exchange.cpp\<close>: a linked list whose head
  is an atomic pointer, changed by compare-exchange.

  Every access of the head or of a node is a step. \<open>new\<close> is the environment: it returns any address that
  is not allocated at the moment, so an address comes back after \<open>delete\<close>. A compare-exchange may fail
  spuriously (the flag of the label \<open>Run\<close>). Reading or freeing a node that is not allocated sets \<open>fault\<close>,
  after which the program takes no step.

  \<open>log\<close> and \<open>returns\<close> are history variables, read by no step: the effects on the stack in the order in which they
  happen, each with its thread (the successful compare-exchanges, and the reads of a null head that make a \<open>pop\<close>
  give up), and for every thread the calls it has returned from, with the value returned. The set of threads
  that may call \<open>pop\<close> is a parameter \<open>P\<close>.
\<close>

datatype lfs_pc =
    Idle
  | PNew int
  | PLoad int addr
  | PCas int addr
  | OLoad
  | OTest "addr option"
  | OCas addr "addr option"
  | ORead addr
  | OFree addr int

datatype stack_op = Pushed int | Popped int | PopEmpty

datatype stack_ret = PushRet int | PopRet int

record lfs =
  nodes :: heap
  top :: "addr option"
  pos :: "tid \<Rightarrow> lfs_pc"
  returns :: "tid \<Rightarrow> stack_ret list"
  fault :: "mem_error option"
  log :: "(tid \<times> stack_op) list"

definition LFS :: lfs where
  "LFS = \<lparr>nodes = (\<lambda>_. None), top = None, pos = (\<lambda>_. Idle), returns = (\<lambda>_. []), fault = None,
     log = []\<rparr>"

definition goto :: "tid \<Rightarrow> lfs_pc \<Rightarrow> lfs \<Rightarrow> lfs" where
  "goto t p s = s\<lparr>pos := (pos s)(t := p)\<rparr>"

definition finish :: "tid \<Rightarrow> stack_ret \<Rightarrow> lfs \<Rightarrow> lfs" where
  "finish t r s = s\<lparr>pos := (pos s)(t := Idle), returns := (returns s)(t := returns s t @ [r])\<rparr>"

definition effect :: "tid \<Rightarrow> stack_op \<Rightarrow> lfs \<Rightarrow> lfs" where
  "effect t o' s = s\<lparr>log := log s @ [(t, o')]\<rparr>"

definition crash :: "mem_error \<Rightarrow> lfs \<Rightarrow> lfs" where
  "crash e s = s\<lparr>fault := Some e\<rparr>"

text \<open>The constructor of \<open>node\<close> at the address \<open>new\<close> returned.\<close>

definition new_node :: "tid \<Rightarrow> addr \<Rightarrow> lfs \<Rightarrow> lfs option" where
  "new_node t a s =
     (case pos s t of
        PNew v \<Rightarrow>
          (if nodes s a = None
           then Some (goto t (PLoad v a) (s\<lparr>nodes := (nodes s)(a \<mapsto> \<lparr>key = v, nxt = None\<rparr>)\<rparr>)) else None)
      | _ \<Rightarrow> None)"

text \<open>A failing compare-exchange stores the head it found in its first argument, \<open>new_node->next\<close>.\<close>

definition push_step :: "bool \<Rightarrow> tid \<Rightarrow> lfs \<Rightarrow> lfs option" where
  "push_step sp t s =
     (case pos s t of
        PLoad v a \<Rightarrow>
          (case nodes s a of None \<Rightarrow> Some (crash UseAfterFree s)
           | Some n \<Rightarrow> Some (goto t (PCas v a) (s\<lparr>nodes := (nodes s)(a \<mapsto> n\<lparr>nxt := top s\<rparr>)\<rparr>)))
      | PCas v a \<Rightarrow>
          (case nodes s a of None \<Rightarrow> Some (crash UseAfterFree s)
           | Some n \<Rightarrow>
               if top s = nxt n \<and> \<not> sp
               then Some (finish t (PushRet v) (effect t (Pushed v) (s\<lparr>top := Some a\<rparr>)))
               else Some (goto t (PCas v a) (s\<lparr>nodes := (nodes s)(a \<mapsto> n\<lparr>nxt := top s\<rparr>)\<rparr>)))
      | _ \<Rightarrow> None)"

text \<open>\<open>return false\<close> from a function of type \<open>int\<close> returns 0. A \<open>pop\<close> that reads a null head, at its first load or when its
  compare-exchange fails, will return that.\<close>

definition see_head :: "tid \<Rightarrow> lfs \<Rightarrow> lfs" where
  "see_head t s = goto t (OTest (top s)) (if top s = None then effect t PopEmpty s else s)"

definition pop_step :: "bool \<Rightarrow> tid \<Rightarrow> lfs \<Rightarrow> lfs option" where
  "pop_step sp t s =
     (case pos s t of
        OLoad \<Rightarrow> Some (see_head t s)
      | OTest None \<Rightarrow> Some (finish t (PopRet 0) s)
      | OTest (Some g) \<Rightarrow>
          (case nodes s g of None \<Rightarrow> Some (crash UseAfterFree s)
           | Some n \<Rightarrow> Some (goto t (OCas g (nxt n)) s))
      | OCas g nextn \<Rightarrow>
          (if top s = Some g \<and> \<not> sp
           then Some (goto t (ORead g)
             (effect t (Popped (case nodes s g of None \<Rightarrow> 0 | Some n \<Rightarrow> key n)) (s\<lparr>top := nextn\<rparr>)))
           else Some (see_head t s))
      | ORead g \<Rightarrow>
          (case nodes s g of None \<Rightarrow> Some (crash UseAfterFree s)
           | Some n \<Rightarrow> Some (goto t (OFree g (key n)) s))
      | OFree g m \<Rightarrow>
          (case nodes s g of None \<Rightarrow> Some (crash BadFree s)
           | Some n \<Rightarrow> Some (finish t (PopRet m) (s\<lparr>nodes := (nodes s)(g := None)\<rparr>)))
      | _ \<Rightarrow> None)"

datatype lfs_label = Push tid int | Pop tid | New tid addr | Run tid bool

fun lfs_step :: "(tid \<Rightarrow> bool) \<Rightarrow> lfs_label \<Rightarrow> lfs \<Rightarrow> lfs option" where
  "lfs_step P (Push t v) s = (if fault s = None \<and> pos s t = Idle then Some (goto t (PNew v) s) else None)"
| "lfs_step P (Pop t) s = (if fault s = None \<and> pos s t = Idle \<and> P t then Some (goto t OLoad s) else None)"
| "lfs_step P (New t a) s = (if fault s = None then new_node t a s else None)"
| "lfs_step P (Run t sp) s =
     (if fault s = None then (case push_step sp t s of None \<Rightarrow> pop_step sp t s | Some u \<Rightarrow> Some u) else None)"

section \<open>The abstract stack\<close>

text \<open>A run of an abstract stack: a push puts its value on top, a pop takes the value on top, and a pop that finds
  nothing is allowed only when the stack is empty.\<close>

fun replay :: "(tid \<times> stack_op) list \<Rightarrow> int list \<Rightarrow> int list option" where
  "replay [] st = Some st"
| "replay ((t, Pushed v) # l) st = replay l (v # st)"
| "replay ((t, Popped v) # l) st =
     (case st of [] \<Rightarrow> None | x # xs \<Rightarrow> if x = v then replay l xs else None)"
| "replay ((t, PopEmpty) # l) st = (if st = [] then replay l st else None)"

text \<open>What the calls of a thread return in such a run.\<close>

fun ret_of :: "stack_op \<Rightarrow> stack_ret" where
  "ret_of (Pushed v) = PushRet v"
| "ret_of (Popped v) = PopRet v"
| "ret_of PopEmpty = PopRet 0"

definition answers :: "tid \<Rightarrow> (tid \<times> stack_op) list \<Rightarrow> stack_ret list" where
  "answers t l = map (ret_of \<circ> snd) (filter (\<lambda>e. fst e = t) l)"

lemma replay_append: "replay (l @ l') st = (case replay l st of None \<Rightarrow> None | Some st' \<Rightarrow> replay l' st')"
  by (induction l st rule: replay.induct) (auto split: list.splits)

lemma answers_simps [simp]:
  "answers t [] = []" "answers t (l @ l') = answers t l @ answers t l'"
  "answers t ((u, e) # l) = (if u = t then ret_of e # answers t l else answers t l)"
  by (simp_all add: answers_def)

section \<open>Invariant for one popping thread\<close>

fun owned :: "lfs_pc \<Rightarrow> addr option" where
  "owned (PLoad v a) = Some a"
| "owned (PCas v a) = Some a"
| "owned (ORead g) = Some g"
| "owned (OFree g m) = Some g"
| "owned p = None"

fun popping :: "lfs_pc \<Rightarrow> bool" where
  "popping OLoad = True"
| "popping (OTest g) = True"
| "popping (OCas g n) = True"
| "popping (ORead g) = True"
| "popping (OFree g m) = True"
| "popping p = False"

text \<open>A call whose effect has happened and that has not returned yet.\<close>

fun in_flight :: "heap \<Rightarrow> lfs_pc \<Rightarrow> stack_ret list" where
  "in_flight h (ORead g) = [PopRet (key (the (h g)))]"
| "in_flight h (OFree g m) = [PopRet m]"
| "in_flight h (OTest None) = [PopRet 0]"
| "in_flight h p = []"

fun lfs_pc_ok :: "heap \<Rightarrow> addr list \<Rightarrow> lfs_pc \<Rightarrow> bool" where
  "lfs_pc_ok h as (PLoad v a) = (key (the (h a)) = v)"
| "lfs_pc_ok h as (PCas v a) = (key (the (h a)) = v)"
| "lfs_pc_ok h as (OTest (Some g)) = (g \<in> set as)"
| "lfs_pc_ok h as (OCas g n) = (g \<in> set as \<and> nxt (the (h g)) = n)"
| "lfs_pc_ok h as p = True"

definition lfs_inv :: "tid \<Rightarrow> addr list \<Rightarrow> lfs \<Rightarrow> bool" where
  "lfs_inv c as s \<longleftrightarrow> fault s = None \<and> path (nodes s) (top s) as \<and> distinct as \<and>
     replay (log s) [] = Some (keys (nodes s) as) \<and>
     (\<forall>t. answers t (log s) = returns s t @ in_flight (nodes s) (pos s t)) \<and>
     (\<forall>t. lfs_pc_ok (nodes s) as (pos s t) \<and> (popping (pos s t) \<longrightarrow> t = c)) \<and>
     (\<forall>t a. owned (pos s t) = Some a \<longrightarrow> nodes s a \<noteq> None \<and> a \<notin> set as \<and>
        (\<forall>u. owned (pos s u) = Some a \<longrightarrow> u = t))"

lemma lfs_inv_init: "lfs_inv c [] LFS"
  by (simp add: lfs_inv_def LFS_def)

lemma lfs_pc_ok_upd:
  "lfs_pc_ok h as p \<Longrightarrow> a \<notin> set as \<Longrightarrow> owned p \<noteq> Some a \<Longrightarrow> lfs_pc_ok (h(a := x)) as p"
  by (cases p rule: owned.cases) (auto split: option.splits elim: lfs_pc_ok.elims)

lemma lfs_pc_ok_push: "lfs_pc_ok h as p \<Longrightarrow> lfs_pc_ok h (a # as) p"
  by (cases "(h, as, p)" rule: lfs_pc_ok.cases) auto

lemma in_flight_upd: "owned p \<noteq> Some a \<Longrightarrow> in_flight (h(a := x)) p = in_flight h p"
  by (cases "(h, p)" rule: in_flight.cases) auto

lemma in_flight_popping: "in_flight h p \<noteq> [] \<Longrightarrow> popping p"
  by (cases p) auto

lemma lfs_invD:
  assumes "lfs_inv c as s"
  shows "fault s = None" "path (nodes s) (top s) as" "distinct as"
    "replay (log s) [] = Some (keys (nodes s) as)"
    "\<And>t. answers t (log s) = returns s t @ in_flight (nodes s) (pos s t)"
    "\<And>t. lfs_pc_ok (nodes s) as (pos s t)" "\<And>t. popping (pos s t) \<Longrightarrow> t = c"
    "\<And>t a. owned (pos s t) = Some a \<Longrightarrow> nodes s a \<noteq> None"
    "\<And>t a. owned (pos s t) = Some a \<Longrightarrow> a \<notin> set as"
    "\<And>t u a. owned (pos s t) = Some a \<Longrightarrow> owned (pos s u) = Some a \<Longrightarrow> u = t"
proof -
  note d = assms [unfolded lfs_inv_def]
  show "fault s = None" "path (nodes s) (top s) as" "distinct as"
    "replay (log s) [] = Some (keys (nodes s) as)"
    using d by simp_all
  show "answers t (log s) = returns s t @ in_flight (nodes s) (pos s t)" for t using d by simp
  show "lfs_pc_ok (nodes s) as (pos s t)" for t using d by simp
  show "t = c" if "popping (pos s t)" for t using d that by blast
  have o: "owned (pos s t) = Some a \<Longrightarrow> nodes s a \<noteq> None \<and> a \<notin> set as \<and>
      (\<forall>u. owned (pos s u) = Some a \<longrightarrow> u = t)" for t a
    using d by blast
  show "nodes s a \<noteq> None" if "owned (pos s t) = Some a" for t a
    by (rule conjunct1 [OF o [OF that]])
  show "a \<notin> set as" if "owned (pos s t) = Some a" for t a
    by (rule conjunct1 [OF conjunct2 [OF o [OF that]]])
  show "u = t" if "owned (pos s t) = Some a" "owned (pos s u) = Some a" for t u a
    by (rule conjunct2 [OF conjunct2 [OF o [OF that(1)]], THEN spec, THEN mp, OF that(2)])
qed

lemma lfs_invI:
  assumes "fault s = None" "path (nodes s) (top s) as" "distinct as"
    "replay (log s) [] = Some (keys (nodes s) as)"
    "\<And>t. answers t (log s) = returns s t @ in_flight (nodes s) (pos s t)"
    "\<And>t. lfs_pc_ok (nodes s) as (pos s t)" "\<And>t. popping (pos s t) \<Longrightarrow> t = c"
    "\<And>t a. owned (pos s t) = Some a \<Longrightarrow> nodes s a \<noteq> None"
    "\<And>t a. owned (pos s t) = Some a \<Longrightarrow> a \<notin> set as"
    "\<And>t u a. owned (pos s t) = Some a \<Longrightarrow> owned (pos s u) = Some a \<Longrightarrow> u = t"
  shows "lfs_inv c as s"
  unfolding lfs_inv_def using assms by blast

lemma goto_simps [simp]:
  "fault (goto t p s) = fault s" "nodes (goto t p s) = nodes s" "top (goto t p s) = top s"
  "log (goto t p s) = log s" "returns (goto t p s) = returns s" "pos (goto t p s) = (pos s)(t := p)"
  "fault (finish t r s) = fault s" "nodes (finish t r s) = nodes s" "top (finish t r s) = top s"
  "log (finish t r s) = log s" "returns (finish t r s) = (returns s)(t := returns s t @ [r])"
  "pos (finish t r s) = (pos s)(t := Idle)"
  "fault (effect t e s) = fault s" "nodes (effect t e s) = nodes s" "top (effect t e s) = top s"
  "log (effect t e s) = log s @ [(t, e)]" "returns (effect t e s) = returns s" "pos (effect t e s) = pos s"
  by (simp_all add: goto_def finish_def effect_def)

lemma see_head_simps [simp]:
  "fault (see_head t s) = fault s" "nodes (see_head t s) = nodes s" "top (see_head t s) = top s"
  "returns (see_head t s) = returns s" "pos (see_head t s) = (pos s)(t := OTest (top s))"
  "log (see_head t s) = log s @ (if top s = None then [(t, PopEmpty)] else [])"
  by (simp_all add: see_head_def)

text \<open>A step that leaves the nodes and the head as they are.\<close>

lemma lfs_inv_move:
  assumes inv: "lfs_inv c as s" and u: "nodes u = nodes s" "top u = top s" "replay (log u) [] = replay (log s) []"
      "fault u = None" "pos u = (pos s)(t := p)"
      "\<And>v. answers v (log u) = returns u v @ in_flight (nodes s) (pos u v)"
    and p: "lfs_pc_ok (nodes s) as p" "popping p \<Longrightarrow> t = c" "owned p = owned (pos s t)"
  shows "lfs_inv c as u"
proof -
  note D = lfs_invD [OF inv]
  have o: "owned (pos u v) = owned (pos s v)" for v using u p(3) by simp
  show ?thesis
  proof (rule lfs_invI)
    show "lfs_pc_ok (nodes u) as (pos u v)" for v using u p(1) D(6) by simp
    show "v = c" if "popping (pos u v)" for v using that u p(2) D(7) by (cases "v = t") simp_all
    show "nodes u a \<noteq> None" if "owned (pos u v) = Some a" for v a using D(8) that o u by simp
    show "a \<notin> set as" if "owned (pos u v) = Some a" for v a using D(9) that o by simp
    show "w = v" if "owned (pos u v) = Some a" "owned (pos u w) = Some a" for v w a
      using D(10) that o by metis
    show "answers v (log u) = returns u v @ in_flight (nodes u) (pos u v)" for v using u(1,6) by simp
  qed (use D(1-4) u in simp_all)
qed

lemma lfs_inv_goto:
  assumes inv: "lfs_inv c as s"
    and p: "lfs_pc_ok (nodes s) as p" "popping p \<Longrightarrow> t = c" "owned p = owned (pos s t)"
      "in_flight (nodes s) p = in_flight (nodes s) (pos s t)"
  shows "lfs_inv c as (goto t p s)"
proof -
  note D = lfs_invD [OF inv]
  show ?thesis
  proof (rule lfs_inv_move [OF inv, where t = t and p = p])
    show "answers v (log (goto t p s)) = returns (goto t p s) v @ in_flight (nodes s) (pos (goto t p s) v)" for v
      using D(5) p(4) by simp
  qed (use p D(1) in simp_all)
qed

text \<open>Reading the head, and returning 0 when it was null.\<close>

lemma lfs_inv_see:
  assumes inv: "lfs_inv c as s" and p: "popping (pos s t)" "owned (pos s t) = None" "in_flight (nodes s) (pos s t) = []"
  shows "lfs_inv c as (see_head t s)"
proof -
  note D = lfs_invD [OF inv]
  have empty: "as = []" if "top s = None" using D(2) that by (cases as) simp_all
  show ?thesis
  proof (rule lfs_inv_move [OF inv, where t = t and p = "OTest (top s)"])
    show "lfs_pc_ok (nodes s) as (OTest (top s))"
      using path_Some [of "nodes s" _ as] D(2) by (cases "top s") fastforce+
    show "replay (log (see_head t s)) [] = replay (log s) []"
      using D(4) empty by (simp add: replay_append)
    show "answers v (log (see_head t s)) = returns (see_head t s) v @ in_flight (nodes s) (pos (see_head t s) v)" for v
      using D(5) [of v] p(3) by (cases "top s") auto
  qed (use D(1,7) p in simp_all)
qed

lemma lfs_inv_give_up:
  assumes inv: "lfs_inv c as s" and at: "pos s t = OTest None"
  shows "lfs_inv c as (finish t (PopRet 0) s)"
proof -
  note D = lfs_invD [OF inv]
  show ?thesis
  proof (rule lfs_inv_move [OF inv, where t = t and p = Idle])
    show "answers v (log (finish t (PopRet 0) s)) =
        returns (finish t (PopRet 0) s) v @ in_flight (nodes s) (pos (finish t (PopRet 0) s) v)" for v
      using D(5) [of v] at by simp
  qed (use D(1) at in simp_all)
qed

text \<open>A thread writes to a node it owns, or to a node that was not allocated and that it owns from now on.\<close>

lemma lfs_inv_write:
  assumes inv: "lfs_inv c as s" and own: "owned p = Some a" and np: "\<not> popping p" "\<not> popping (pos s t)"
    and mine: "owned (pos s t) = Some a \<or> nodes s a = None"
    and ok: "lfs_pc_ok ((nodes s)(a \<mapsto> n)) as p"
  shows "lfs_inv c as (goto t p (s\<lparr>nodes := (nodes s)(a \<mapsto> n)\<rparr>))"
proof -
  note D = lfs_invD [OF inv]
  let ?h = "(nodes s)(a \<mapsto> n)" and ?u = "goto t p (s\<lparr>nodes := (nodes s)(a \<mapsto> n)\<rparr>)"
  have a: "a \<notin> set as" using mine D(9) path_dom [OF D(2)] by blast
  have other: "owned (pos s u) \<noteq> Some a" if "u \<noteq> t" for u
    using mine D(8) D(10) that by blast
  have fl: "in_flight ?h (pos ?u v) = in_flight (nodes s) (pos s v)" for v
  proof (cases "v = t")
    case True
    have "in_flight ?h p = []" "in_flight (nodes s) (pos s t) = []" using np in_flight_popping by blast+
    then show ?thesis using True by simp
  next
    case False
    then show ?thesis using in_flight_upd [OF other] by simp
  qed
  show ?thesis
  proof (rule lfs_invI)
    show "answers v (log ?u) = returns ?u v @ in_flight (nodes ?u) (pos ?u v)" for v using D(5) fl [of v] by simp
    show "lfs_pc_ok (nodes ?u) as (pos ?u v)" for v
      using ok lfs_pc_ok_upd [OF D(6) a other] by simp
    show "v = c" if "popping (pos ?u v)" for v using that np(1) D(7) by (cases "v = t") simp_all
    show "nodes ?u b \<noteq> None" if "owned (pos ?u v) = Some b" for v b
      using that own D(8) by (cases "v = t") auto
    show "b \<notin> set as" if "owned (pos ?u v) = Some b" for v b
      using that own a D(9) by (cases "v = t") auto
    show "w = v" if "owned (pos ?u v) = Some b" "owned (pos ?u w) = Some b" for v w b
    proof (cases "b = a")
      case True
      with that other show ?thesis by (auto split: if_splits)
    next
      case False
      with that own have "owned (pos s v) = Some b" "owned (pos s w) = Some b" by (auto split: if_splits)
      then show ?thesis by (rule D(10))
    qed
  qed (use D(1-4) a in auto)
qed

lemma owned_push [simp]: "owned (PNew v) = None" "owned Idle = None"
  by simp_all

text \<open>The compare-exchange of \<open>push\<close> links the node.\<close>

lemma lfs_inv_link:
  assumes inv: "lfs_inv c as s" and at: "pos s t = PCas v a" and n: "nodes s a = Some n" "nxt n = top s"
  shows "lfs_inv c (a # as) (finish t (PushRet v) (effect t (Pushed v) (s\<lparr>top := Some a\<rparr>)))"
proof -
  note D = lfs_invD [OF inv]
  let ?u = "finish t (PushRet v) (effect t (Pushed v) (s\<lparr>top := Some a\<rparr>))"
  have own: "owned (pos s t) = Some a" using at by simp
  have v: "key n = v" using D(6) [of t] at n by simp
  show ?thesis
  proof (rule lfs_invI)
    show "path (nodes ?u) (top ?u) (a # as)" using n D(2) by simp
    show "distinct (a # as)" using D(3) D(9) [OF own] by simp
    show "replay (log ?u) [] = Some (keys (nodes ?u) (a # as))" using D(4) n v by (simp add: replay_append)
    show "answers w (log ?u) = returns ?u w @ in_flight (nodes ?u) (pos ?u w)" for w using D(5) [of w] at by simp
    show "lfs_pc_ok (nodes ?u) (a # as) (pos ?u w)" for w using lfs_pc_ok_push [OF D(6)] by simp
    show "w = c" if "popping (pos ?u w)" for w using that D(7) by (cases "w = t") simp_all
    show "nodes ?u b \<noteq> None" if "owned (pos ?u w) = Some b" for w b
      using that D(8) by (cases "w = t") simp_all
    show "b \<notin> set (a # as)" if "owned (pos ?u w) = Some b" for w b
      using that D(9) D(10) own by (cases "w = t") auto
    show "x = w" if "owned (pos ?u w) = Some b" "owned (pos ?u x) = Some b" for w x b
      using that D(10) by (auto split: if_splits)
  qed (use D(1) in simp)
qed

text \<open>The compare-exchange of \<open>pop\<close> unlinks the first node, and \<open>delete\<close> frees it.\<close>

lemma lfs_inv_unlink:
  assumes inv: "lfs_inv c as s" and at: "pos s t = OCas g nx" and top: "top s = Some g"
  shows "lfs_inv c (tl as) (goto t (ORead g)
     (effect t (Popped (case nodes s g of None \<Rightarrow> 0 | Some n \<Rightarrow> key n)) (s\<lparr>top := nx\<rparr>)))"
proof -
  note D = lfs_invD [OF inv]
  let ?u = "goto t (ORead g) (effect t (Popped (case nodes s g of None \<Rightarrow> 0 | Some n \<Rightarrow> key n)) (s\<lparr>top := nx\<rparr>))"
  have c: "c = t" using D(7) [of t] at by simp
  obtain n bs where n: "nodes s g = Some n" "as = g # bs" "path (nodes s) (nxt n) bs"
    using path_Some D(2) top by metis
  have nx: "nxt n = nx" using D(6) [of t] at n by simp
  show ?thesis
  proof (rule lfs_invI)
    show "path (nodes ?u) (top ?u) (tl as)" using n nx by simp
    show "distinct (tl as)" using D(3) n by simp
    show "replay (log ?u) [] = Some (keys (nodes ?u) (tl as))" using D(4) n by (simp add: replay_append)
    show "answers w (log ?u) = returns ?u w @ in_flight (nodes ?u) (pos ?u w)" for w using D(5) [of w] n at by simp
    show "lfs_pc_ok (nodes ?u) (tl as) (pos ?u w)" for w
    proof (cases "w = t")
      case False
      then have "\<not> popping (pos s w)" using D(7) [of w] c by blast
      then show ?thesis using False D(6) [of w] by (cases "pos s w") simp_all
    qed simp
    show "w = c" if "popping (pos ?u w)" for w using that D(7) c by (cases "w = t") simp_all
    show "nodes ?u b \<noteq> None" if "owned (pos ?u w) = Some b" for w b
      using that D(8) n by (cases "w = t") auto
    show "b \<notin> set (tl as)" if "owned (pos ?u w) = Some b" for w b
      using that D(9) [of w b] D(3) n by (cases "w = t") auto
    have "owned (pos s w) \<noteq> Some g" for w using D(9) [of w g] n by auto
    then show "x = w" if "owned (pos ?u w) = Some b" "owned (pos ?u x) = Some b" for w x b
      using that D(10) by (auto split: if_splits)
  qed (use D(1) in simp)
qed

lemma lfs_inv_free:
  assumes inv: "lfs_inv c as s" and at: "pos s t = OFree g m"
  shows "lfs_inv c as (finish t (PopRet m) (s\<lparr>nodes := (nodes s)(g := None)\<rparr>))"
proof -
  note D = lfs_invD [OF inv]
  let ?u = "finish t (PopRet m) (s\<lparr>nodes := (nodes s)(g := None)\<rparr>)"
  have c: "c = t" using D(7) [of t] at by simp
  have own: "owned (pos s t) = Some g" using at by simp
  have g: "g \<notin> set as" by (rule D(9) [OF own])
  have other: "owned (pos s w) \<noteq> Some g" if "w \<noteq> t" for w using D(10) [OF own] that by blast
  show ?thesis
  proof (rule lfs_invI)
    show "answers w (log ?u) = returns ?u w @ in_flight (nodes ?u) (pos ?u w)" for w
      using D(5) [of w] at in_flight_upd [OF other] by simp
    show "lfs_pc_ok (nodes ?u) as (pos ?u w)" for w using lfs_pc_ok_upd [OF D(6) g other] by simp
    show "w = c" if "popping (pos ?u w)" for w using that D(7) by (cases "w = t") simp_all
    show "nodes ?u b \<noteq> None" if "owned (pos ?u w) = Some b" for w b
      using that D(8) [of w b] other [of w] by (cases "w = t") auto
    show "b \<notin> set as" if "owned (pos ?u w) = Some b" for w b
      using that D(9) by (cases "w = t") simp_all
    show "x = w" if "owned (pos ?u w) = Some b" "owned (pos ?u x) = Some b" for w x b
      using that D(10) by (auto split: if_splits)
  qed (use D(1-4) g in auto)
qed

lemma push_inv:
  assumes inv: "lfs_inv c as s" and step: "push_step sp t s = Some u"
  shows "\<exists>bs. lfs_inv c bs u"
proof -
  note D = lfs_invD [OF inv]
  show ?thesis
  proof (cases "pos s t")
    case (PLoad v a)
    then obtain n where n: "nodes s a = Some n" using D(8) [of t a] by auto
    have "key n = v" using D(6) [of t] PLoad n by simp
    then have "lfs_inv c as (goto t (PCas v a) (s\<lparr>nodes := (nodes s)(a \<mapsto> n\<lparr>nxt := top s\<rparr>)\<rparr>))"
      using lfs_inv_write [OF inv] PLoad by simp
    then show ?thesis using step PLoad n by (auto simp: push_step_def)
  next
    case (PCas v a)
    then obtain n where n: "nodes s a = Some n" using D(8) [of t a] by auto
    have "key n = v" using D(6) [of t] PCas n by simp
    then have "lfs_inv c as (goto t (PCas v a) (s\<lparr>nodes := (nodes s)(a \<mapsto> n\<lparr>nxt := top s\<rparr>)\<rparr>))"
      using lfs_inv_write [OF inv] PCas by simp
    then show ?thesis using step PCas n lfs_inv_link [OF inv PCas n]
      by (auto simp: push_step_def split: if_splits)
  qed (use step in \<open>simp_all add: push_step_def\<close>)
qed

lemma pop_inv:
  assumes inv: "lfs_inv c as s" and step: "pop_step sp t s = Some u"
  shows "\<exists>bs. lfs_inv c bs u"
proof -
  note D = lfs_invD [OF inv]
  have move: "lfs_inv c as (goto t p s)"
    if "lfs_pc_ok (nodes s) as p" "popping p \<Longrightarrow> popping (pos s t)" "owned p = owned (pos s t)"
      "in_flight (nodes s) p = in_flight (nodes s) (pos s t)" for p
    by (rule lfs_inv_goto [OF inv that(1)]) (use that D(7) in simp_all)
  show ?thesis
  proof (cases "pos s t")
    case OLoad
    then show ?thesis using step lfs_inv_see [OF inv, of t] by (auto simp: pop_step_def)
  next
    case (OTest g)
    show ?thesis
    proof (cases g)
      case None
      then show ?thesis using step OTest lfs_inv_give_up [OF inv, of t] by (auto simp: pop_step_def)
    next
      case (Some a)
      then have "a \<in> set as" using D(6) [of t] OTest by simp
      then obtain n where "nodes s a = Some n" using path_dom [OF D(2)] by auto
      then show ?thesis using step OTest Some move [of "OCas a (nxt n)"] \<open>a \<in> set as\<close>
        by (auto simp: pop_step_def)
    qed
  next
    case (OCas g nx)
    then show ?thesis using step lfs_inv_see [OF inv, of t] lfs_inv_unlink [OF inv OCas]
      by (auto simp: pop_step_def split: if_splits)
  next
    case (ORead g)
    then obtain n where "nodes s g = Some n" using D(8) [of t g] by auto
    then show ?thesis using step ORead move [of "OFree g (key n)"] by (auto simp: pop_step_def)
  next
    case (OFree g m)
    then obtain n where "nodes s g = Some n" using D(8) [of t g] by auto
    then show ?thesis using step OFree lfs_inv_free [OF inv OFree] by (auto simp: pop_step_def)
  qed (use step in \<open>simp_all add: pop_step_def\<close>)
qed

lemma lfs_step_inv:
  assumes inv: "lfs_inv c as s" and step: "lfs_step (\<lambda>t. t = c) l s = Some u"
  shows "\<exists>bs. lfs_inv c bs u"
proof (cases l)
  case (Push t v)
  then have "pos s t = Idle" "u = goto t (PNew v) s" using step by (auto split: if_splits)
  then have "lfs_inv c as u" using lfs_invD(1) [OF inv]
    by (auto intro!: lfs_inv_goto [OF inv])
  then show ?thesis ..
next
  case (Pop t)
  then have "pos s t = Idle" "u = goto t OLoad s" "t = c" using step by (auto split: if_splits)
  then have "lfs_inv c as u" using lfs_invD(1) [OF inv]
    by (auto intro!: lfs_inv_goto [OF inv])
  then show ?thesis ..
next
  case (New t a)
  then obtain v where v: "pos s t = PNew v" "nodes s a = None"
    and u: "u = goto t (PLoad v a) (s\<lparr>nodes := (nodes s)(a \<mapsto> \<lparr>key = v, nxt = None\<rparr>)\<rparr>)"
    using step by (auto simp: new_node_def split: if_splits lfs_pc.splits)
  have "lfs_inv c as u" unfolding u using v by (intro lfs_inv_write [OF inv]) simp_all
  then show ?thesis ..
next
  case (Run t sp)
  with step consider "push_step sp t s = Some u" | "pop_step sp t s = Some u"
    by (auto split: if_splits option.splits)
  then show ?thesis using push_inv [OF inv] pop_inv [OF inv] by cases blast+
qed

interpretation lfs: safe_machine "lfs_step (\<lambda>t. t = c)" LFS "\<lambda>s. \<exists>as. lfs_inv c as s" for c :: tid
  by unfold_locales (use lfs_inv_init lfs_step_inv in blast)+

section \<open>Properties\<close>

lemmas lfs_eval = new_node_def push_step_def pop_step_def see_head_def goto_def finish_def effect_def crash_def

text \<open>C3: with any number of pushing threads and one popping thread the stack is linearisable and touches no
  freed node. In every reachable state the effects, in the order in which they happened, are a run of an abstract
  stack from empty to the content of the linked list, and every thread's calls have returned exactly what that run
  gives them, in order: a push its value, a pop the value it takes, and 0 from a pop that found the stack empty; one call more
  than returned may have taken effect, that of a pop under way, and it will return what the run gives it.\<close>

theorem stack_linearisable:
  assumes "reach (lfs_step (\<lambda>t. t = c)) LFS s"
  shows "fault s = None \<and>
    (\<exists>as. path (nodes s) (top s) as \<and> replay (log s) [] = Some (keys (nodes s) as)) \<and>
    (\<forall>t. pos s t = Idle \<longrightarrow> returns s t = answers t (log s)) \<and>
    (\<forall>t. \<exists>fl. answers t (log s) = returns s t @ fl \<and> length fl \<le> 1)"
proof -
  obtain as where inv: "lfs_inv c as s" using lfs.reach_inv [OF assms] by blast
  note D = lfs_invD [OF inv]
  have "length (in_flight h p) \<le> 1" for h p by (cases "(h, p)" rule: in_flight.cases) auto
  then have fl: "\<exists>fl. answers t (log s) = returns s t @ fl \<and> length fl \<le> 1" for t using D(5) by blast
  show ?thesis using D(1,2,4,5) fl by auto
qed

text \<open>Thread 0 pops once from the empty stack, then 7, which was pushed after 8 although its call began first.\<close>

definition lfs_demo :: "lfs_label list" where
  "lfs_demo = [Push 1 7, Pop 0, Run 0 False, New 1 4, Run 1 False, Push 2 8, New 2 5, Run 2 False, Run 2 False, Run 0 False,
     Run 1 False, Run 1 False, Pop 0, Run 0 False, Run 0 False, Run 0 False, Run 0 False, Run 0 False]"

theorem stack_linearisable_witness:
  "\<exists>s. exec (lfs_step (\<lambda>t. t = 0)) lfs_demo LFS = Some s \<and> returns s 0 = [PopRet 0, PopRet 7] \<and> fault s = None \<and>
     log s = [(0, PopEmpty), (2, Pushed 8), (1, Pushed 7), (0, Popped 7)]"
proof -
  obtain s where s: "exec (lfs_step (\<lambda>t. t = 0)) lfs_demo LFS = Some s"
      "log s = [(0, PopEmpty), (2, Pushed 8), (1, Pushed 7), (0, Popped 7)]" "pos s 0 = Idle"
    by (simp add: lfs_demo_def LFS_def lfs_eval)
  with stack_linearisable [OF reachI [OF s(1)]] show ?thesis by simp
qed

text \<open>With two popping threads it is neither: one thread reads the successor of a node the other has
  freed; and when the address of a freed node is used again for a new one, a delayed compare-exchange
  succeeds (ABA), which leaves the head pointing to a freed node and loses the value 6 that is still on the stack.\<close>

theorem stack_two_poppers:
  "(\<exists>s. reach (lfs_step (\<lambda>t. t < 2)) LFS s \<and> fault s = Some UseAfterFree) \<and>
   (\<exists>s a. reach (lfs_step (\<lambda>t. t < 2)) LFS s \<and> fault s = None \<and> top s = Some a \<and> nodes s a = None \<and>
      replay (log s) [] = Some [6])"
proof -
  obtain s where s: "exec (lfs_step (\<lambda>t. t < 2)) [Push 2 7, New 2 4, Run 2 False, Run 2 False, Pop 0, Run 0 False,
      Pop 1, Run 1 False, Run 1 False, Run 1 False, Run 1 False, Run 1 False, Run 0 False] LFS = Some s"
      "fault s = Some UseAfterFree"
    by (simp add: LFS_def lfs_eval)
  obtain u where u: "exec (lfs_step (\<lambda>t. t < 2))
      [Push 2 7, New 2 4, Run 2 False, Run 2 False, Push 2 8, New 2 5, Run 2 False, Run 2 False,
       Pop 0, Run 0 False, Run 0 False,
       Pop 1, Run 1 False, Run 1 False, Run 1 False, Run 1 False, Run 1 False,
       Pop 1, Run 1 False, Run 1 False, Run 1 False, Run 1 False, Run 1 False,
       Push 2 6, New 2 3, Run 2 False, Run 2 False, Push 2 9, New 2 5, Run 2 False, Run 2 False, Run 0 False] LFS = Some u"
      "fault u = None" "top u = Some 4" "nodes u 4 = None"
      "log u = [(2, Pushed 7), (2, Pushed 8), (1, Popped 8), (1, Popped 7), (2, Pushed 6), (2, Pushed 9), (0, Popped 9)]"
    by (simp add: LFS_def lfs_eval)
  have "replay (log u) [] = Some [6]" unfolding u(5) by simp
  with reachI [OF s(1)] s(2) reachI [OF u(1)] u(2-4) show ?thesis by blast
qed

end
