(* ===== verification/Event_Queue.thy ===== *)
theory Event_Queue
  imports Sync_Prelude "HOL-Library.Sublist"
begin

text \<open>
  \<open>threads-locks/other-problems/call-backs/EventQueue\<close>: events are posted without a lock, a forwarder thread
  calls the subscribers back under the mutex.

  \<^item> The atomics \<open>pending_event_\<close> and \<open>halting_\<close> and the notification are separate steps, since \<open>PostEvent\<close> and
    the destructor do not take the mutex: a notification can fall between the test of the predicate (\<open>FPred\<close>)
    and the sleep (\<open>FBlock\<close>).
  \<^item> \<open>mutex\<close> is held by the forwarder or by nobody: the critical section of \<open>SubscribeToEvent\<close> is one step.
  \<^item> A subscriber is a number; \<open>alive h\<close> says that the \<open>shared_ptr\<close> returned to it still exists. \<open>weak_ptr::lock\<close>
    succeeds exactly then, and keeps the callback alive while it runs.
  \<^item> \<open>wait_for\<close> tests the predicate, sleeps until notified, woken spuriously or timed out, takes the mutex again;
    after a time-out it tests the predicate once more and returns.
  \<^item> A callback may subscribe (label \<open>CallbackSubscribes\<close>): it then waits for a mutex its own thread holds.

  History variables: \<open>posts\<close> counts the stores to \<open>pending_event_\<close> by \<open>PostEvent\<close>, \<open>handled\<close> is its value at the
  last reset, \<open>round\<close> is the list of subscribers when the last round of callbacks began and \<open>called\<close> the callbacks
  of that round so far.
\<close>

type_synonym handler = nat

datatype fpc =
    FLock
  | FLoop
  | FPred
  | FBlock
  | FSleep
  | FRelock bool
  | FTest
  | FReset
  | FRemove "handler list" "handler list"
  | FTrigger "handler list"
  | FCallback handler "handler list"
  | FSelfLock
  | FUnlock
  | FDone

datatype xpc = XIdle | XNotify | XJoin | XDead

record event_queue =
  pending_event :: bool
  halting :: bool
  subscribers :: "handler list"
  alive :: "handler \<Rightarrow> bool"
  mutex_held :: bool
  forwarder :: fpc
  posting :: nat
  destructor :: xpc
  posts :: nat
  handled :: nat
  round :: "handler list"
  called :: "handler list"

definition EventQueue :: event_queue where
  "EventQueue = \<lparr>pending_event = False, halting = False, subscribers = [], alive = (\<lambda>_. False),
     mutex_held = False, forwarder = FLock, posting = 0, destructor = XIdle,
     posts = 0, handled = 0, round = [], called = []\<rparr>"

text \<open>\<open>notify_all\<close>: only a thread that sleeps already is woken.\<close>

definition notify :: "event_queue \<Rightarrow> event_queue" where
  "notify s = (if forwarder s = FSleep then s\<lparr>forwarder := FRelock False\<rparr> else s)"

text \<open>The two statements of \<open>PostEvent\<close>; \<open>posting\<close> counts the threads between them.\<close>

definition PostEvent :: "event_queue \<Rightarrow> event_queue" where
  "PostEvent s = s\<lparr>pending_event := True, posts := posts s + 1, posting := posting s + 1\<rparr>"

definition PostEvent_notify :: "event_queue \<Rightarrow> event_queue option" where
  "PostEvent_notify s = (if posting s = 0 then None else Some ((notify s)\<lparr>posting := posting s - 1\<rparr>))"

definition SubscribeToEvent :: "handler \<Rightarrow> event_queue \<Rightarrow> event_queue option" where
  "SubscribeToEvent h s =
     (if mutex_held s \<or> h \<in> set (subscribers s) \<or> alive s h then None
      else Some (s\<lparr>subscribers := subscribers s @ [h], alive := (alive s)(h := True)\<rparr>))"

definition destroy :: "event_queue \<Rightarrow> event_queue option" where
  "destroy s =
     (case destructor s of
        XIdle \<Rightarrow> Some (s\<lparr>halting := True, destructor := XNotify\<rparr>)
      | XNotify \<Rightarrow> Some ((notify s)\<lparr>destructor := XJoin\<rparr>)
      | XJoin \<Rightarrow> (if forwarder s = FDone then Some (s\<lparr>destructor := XDead\<rparr>) else None)
      | XDead \<Rightarrow> None)"

text \<open>\<open>triggerSubscribers\<close>: \<open>remove_if\<close>, one subscriber at a time, then the loop of \<open>for_each\<close>.\<close>

definition triggerSubscribers :: "event_queue \<Rightarrow> event_queue option" where
  "triggerSubscribers s =
     (case forwarder s of
        FRemove kept [] \<Rightarrow> Some (s\<lparr>subscribers := kept, forwarder := FTrigger kept\<rparr>)
      | FRemove kept (h # hs) \<Rightarrow> Some (s\<lparr>forwarder := FRemove (if alive s h then kept @ [h] else kept) hs\<rparr>)
      | FTrigger [] \<Rightarrow> Some (s\<lparr>forwarder := FLoop\<rparr>)
      | FTrigger (h # hs) \<Rightarrow>
          Some (if alive s h then s\<lparr>forwarder := FCallback h hs, called := called s @ [h]\<rparr>
                else s\<lparr>forwarder := FTrigger hs\<rparr>)
      | FCallback h hs \<Rightarrow> Some (s\<lparr>forwarder := FTrigger hs\<rparr>)
      | _ \<Rightarrow> None)"

definition run_forwardThread :: "event_queue \<Rightarrow> event_queue option" where
  "run_forwardThread s =
     (case forwarder s of
        FLock \<Rightarrow> (if mutex_held s then None else Some (s\<lparr>mutex_held := True, forwarder := FLoop\<rparr>))
      | FLoop \<Rightarrow> Some (s\<lparr>forwarder := (if \<not> halting s then FPred else FUnlock)\<rparr>)
      | FPred \<Rightarrow> Some (s\<lparr>forwarder := (if pending_event s \<or> halting s then FTest else FBlock)\<rparr>)
      | FBlock \<Rightarrow> Some (s\<lparr>mutex_held := False, forwarder := FSleep\<rparr>)
      | FRelock timeout \<Rightarrow>
          (if mutex_held s then None
           else Some (s\<lparr>mutex_held := True, forwarder := (if timeout then FTest else FPred)\<rparr>))
      | FTest \<Rightarrow> Some (s\<lparr>forwarder := (if pending_event s then FReset else FLoop)\<rparr>)
      | FReset \<Rightarrow> Some (s\<lparr>pending_event := False, handled := posts s, forwarder := FRemove [] (subscribers s),
          round := subscribers s, called := []\<rparr>)
      | FUnlock \<Rightarrow> Some (s\<lparr>mutex_held := False, forwarder := FDone\<rparr>)
      | _ \<Rightarrow> triggerSubscribers s)"

datatype eq_label = Post | Notify | Subscribe handler | Drop handler | Destroy | Forward | Timeout | SpuriousWake
  | CallbackSubscribes

fun eq_step :: "eq_label \<Rightarrow> event_queue \<Rightarrow> event_queue option" where
  "eq_step Post s = (if destructor s = XIdle then Some (PostEvent s) else None)"
| "eq_step Notify s = PostEvent_notify s"
| "eq_step (Subscribe h) s = (if destructor s = XIdle then SubscribeToEvent h s else None)"
| "eq_step (Drop h) s = (if alive s h then Some (s\<lparr>alive := (alive s)(h := False)\<rparr>) else None)"
| "eq_step Destroy s = (if posting s = 0 \<or> destructor s \<noteq> XIdle then destroy s else None)"
| "eq_step Forward s = run_forwardThread s"
| "eq_step Timeout s = (if forwarder s = FSleep then Some (s\<lparr>forwarder := FRelock True\<rparr>) else None)"
| "eq_step SpuriousWake s = (if forwarder s = FSleep then Some (s\<lparr>forwarder := FRelock False\<rparr>) else None)"
| "eq_step CallbackSubscribes s =
     (case forwarder s of FCallback h hs \<Rightarrow> Some (s\<lparr>forwarder := FSelfLock\<rparr>) | _ \<Rightarrow> None)"

section \<open>Invariant\<close>

fun locked :: "fpc \<Rightarrow> bool" where
  "locked FLock = False"
| "locked FSleep = False"
| "locked (FRelock b) = False"
| "locked FDone = False"
| "locked f = True"

text \<open>A round that has dealt with \<open>pre\<close> keeps what is alive, in the old order.\<close>

definition keeps :: "(handler \<Rightarrow> bool) \<Rightarrow> handler list \<Rightarrow> handler list \<Rightarrow> bool" where
  "keeps al xs ys \<longleftrightarrow> subseq xs ys \<and> (\<forall>h\<in>set ys. al h \<longrightarrow> h \<in> set xs)"

definition round_ok :: "event_queue \<Rightarrow> handler list \<Rightarrow> bool" where
  "round_ok s hs \<longleftrightarrow> keeps (alive s) (subscribers s) (round s) \<and>
     (\<exists>pre. subscribers s = pre @ hs \<and> keeps (alive s) (called s) pre)"

fun fpc_ok :: "event_queue \<Rightarrow> fpc \<Rightarrow> bool" where
  "fpc_ok s (FRemove kept rest) \<longleftrightarrow> round s = subscribers s \<and> called s = [] \<and>
     (\<exists>pre. subscribers s = pre @ rest \<and> keeps (alive s) kept pre)"
| "fpc_ok s (FTrigger hs) = round_ok s hs"
| "fpc_ok s (FCallback h hs) = round_ok s hs"
| "fpc_ok s FUnlock = halting s"
| "fpc_ok s FDone = halting s"
| "fpc_ok s f = True"

definition eq_inv :: "event_queue \<Rightarrow> bool" where
  "eq_inv s \<longleftrightarrow> mutex_held s = locked (forwarder s) \<and> distinct (subscribers s) \<and>
     (\<not> pending_event s \<longrightarrow> handled s = posts s) \<and> handled s \<le> posts s \<and>
     (halting s \<longleftrightarrow> destructor s \<noteq> XIdle) \<and> fpc_ok s (forwarder s)"

lemma keeps_refl: "keeps al xs xs"
  by (simp add: keeps_def)

lemma keeps_Nil [simp]: "keeps al [] []"
  by (rule keeps_refl)

lemma keeps_trans: "keeps al xs ys \<Longrightarrow> keeps al ys zs \<Longrightarrow> keeps al xs zs"
  unfolding keeps_def by (meson subseq_order.order_trans)

lemma keeps_drop: "keeps al xs ys \<Longrightarrow> keeps (al(h := False)) xs ys"
  by (auto simp: keeps_def)

lemma keeps_snoc: "keeps al xs ys \<Longrightarrow> keeps al (xs @ [h]) (ys @ [h])"
  by (auto simp: keeps_def intro: list_emb_append_mono)

lemma keeps_skip: "keeps al xs ys \<Longrightarrow> \<not> al h \<Longrightarrow> keeps al xs (ys @ [h])"
  by (auto simp: keeps_def intro: subseq_rev_drop_many)

lemma fpc_ok_drop: "fpc_ok s f \<Longrightarrow> fpc_ok (s\<lparr>alive := (alive s)(h := False)\<rparr>) f"
  by (cases f) (auto simp: round_ok_def intro: keeps_drop)

lemma fpc_ok_cong:
  "fpc_ok s f \<Longrightarrow> alive u = alive s \<Longrightarrow> subscribers u = subscribers s \<Longrightarrow> round u = round s \<Longrightarrow>
    called u = called s \<Longrightarrow> (halting s \<Longrightarrow> halting u) \<Longrightarrow> fpc_ok u f"
  by (cases f) (auto simp: round_ok_def)

text \<open>The rounds.\<close>

lemma subseq_distinct: "subseq xs ys \<Longrightarrow> distinct ys \<Longrightarrow> distinct xs"
  by (induction rule: list_emb.induct) (auto dest: list_emb_set)

lemma distinct_keeps: "distinct ys \<Longrightarrow> keeps al xs ys \<Longrightarrow> distinct xs"
  unfolding keeps_def using subseq_distinct by blast

lemma remove_ok:
  assumes "fpc_ok s (FRemove kept (h # hs))"
  shows "fpc_ok s (FRemove (if alive s h then kept @ [h] else kept) hs)"
proof -
  from assms obtain pre where pre: "subscribers s = pre @ h # hs" "keeps (alive s) kept pre" by auto
  have "keeps (alive s) (if alive s h then kept @ [h] else kept) (pre @ [h])"
    using keeps_snoc [OF pre(2)] keeps_skip [OF pre(2)] by simp
  then show ?thesis using assms pre(1) by (auto intro: exI [of _ "pre @ [h]"])
qed

lemma removed_ok:
  assumes "fpc_ok s (FRemove kept [])"
  shows "keeps (alive s) kept (round s)" "called s = []"
  using assms by auto

lemma visit_ok:
  assumes ok: "round_ok s (h # hs)"
    and u: "alive u = alive s" "subscribers u = subscribers s" "round u = round s"
      "called u = (if alive s h then called s @ [h] else called s)"
  shows "round_ok u hs"
proof -
  from ok obtain pre where pre: "subscribers s = pre @ h # hs" "keeps (alive s) (called s) pre"
    by (auto simp: round_ok_def)
  have "keeps (alive s) (called u) (pre @ [h])"
    using keeps_snoc [OF pre(2)] keeps_skip [OF pre(2)] u by simp
  then show ?thesis using ok u pre(1) unfolding round_ok_def by (auto intro!: exI [of _ "pre @ [h]"])
qed

lemma eq_invI:
  assumes "eq_inv s" "mutex_held u = locked (forwarder u)" "distinct (subscribers u)"
    "pending_event u = pending_event s" "handled u = handled s" "posts u = posts s"
    "halting u = halting s" "destructor u = destructor s" "fpc_ok u (forwarder u)"
  shows "eq_inv u"
  using assms unfolding eq_inv_def by simp

lemma trigger_inv:
  assumes inv: "eq_inv s" and step: "triggerSubscribers s = Some u"
  shows "eq_inv u"
proof -
  have i: "mutex_held s = locked (forwarder s)" "distinct (subscribers s)" "fpc_ok s (forwarder s)"
    using inv unfolding eq_inv_def by blast+
  show ?thesis
  proof (cases "forwarder s")
    case (FRemove kept rest)
    show ?thesis
    proof (cases rest)
      case Nil
      then have u: "u = s\<lparr>subscribers := kept, forwarder := FTrigger kept\<rparr>"
        using step FRemove by (simp add: triggerSubscribers_def)
      have "fpc_ok s (FRemove kept [])" using i(3) FRemove Nil by simp
      note k = removed_ok [OF this]
      have "round s = subscribers s" using i(3) FRemove by simp
      with i(2) k(1) have "distinct kept" using distinct_keeps by metis
      then show ?thesis using k i(1) FRemove by (intro eq_invI [OF inv]) (simp_all add: u round_ok_def)
    next
      case (Cons h hs)
      then have u: "u = s\<lparr>forwarder := FRemove (if alive s h then kept @ [h] else kept) hs\<rparr>"
        using step FRemove by (simp add: triggerSubscribers_def)
      have "fpc_ok u (forwarder u)"
        using remove_ok [of s kept h hs] i(3) FRemove Cons by (auto intro: fpc_ok_cong simp: u simp del: fpc_ok.simps)
      then show ?thesis using i FRemove by (intro eq_invI [OF inv]) (simp_all add: u)
    qed
  next
    case (FTrigger hs)
    show ?thesis
    proof (cases hs)
      case Nil
      then show ?thesis using step FTrigger i
        by (intro eq_invI [OF inv]) (auto simp: triggerSubscribers_def)
    next
      case (Cons h hs')
      have ok: "round_ok s (h # hs')" using i(3) FTrigger Cons by simp
      show ?thesis using step FTrigger Cons i visit_ok [OF ok]
        by (cases "alive s h"; intro eq_invI [OF inv]) (auto simp: triggerSubscribers_def)
    qed
  next
    case (FCallback h hs)
    then show ?thesis using step i
      by (intro eq_invI [OF inv]) (auto simp: triggerSubscribers_def round_ok_def)
  qed (use step in \<open>simp_all add: triggerSubscribers_def\<close>)
qed

lemma forward_inv:
  assumes inv: "eq_inv s" and step: "run_forwardThread s = Some u"
  shows "eq_inv u"
proof (cases "\<exists>a b. forwarder s = FRemove a b \<or> forwarder s = FTrigger a \<or> (\<exists>h. forwarder s = FCallback h a)")
  case True
  then have "triggerSubscribers s = Some u" using step by (auto simp: run_forwardThread_def)
  then show ?thesis by (rule trigger_inv [OF inv])
next
  case False
  then show ?thesis
    using step inv
    by (cases "forwarder s")
      (auto simp: run_forwardThread_def triggerSubscribers_def eq_inv_def split: if_splits)
qed

lemma notify_fields [simp]:
  "posts (notify s) = posts s" "pending_event (notify s) = pending_event s" "handled (notify s) = handled s"
  "halting (notify s) = halting s" "destructor (notify s) = destructor s" "mutex_held (notify s) = mutex_held s"
  "subscribers (notify s) = subscribers s"
  by (simp_all add: notify_def)

lemma notify_inv: "eq_inv s \<Longrightarrow> eq_inv (notify s)"
  by (auto simp: eq_inv_def notify_def)

lemma eq_inv_cong:
  assumes "eq_inv s" "mutex_held u = mutex_held s" "forwarder u = forwarder s"
    "alive u = alive s" "subscribers u = subscribers s" "round u = round s" "called u = called s"
    "\<not> pending_event u \<Longrightarrow> handled u = posts u" "handled u \<le> posts u" "halting u \<longleftrightarrow> destructor u \<noteq> XIdle"
    "halting s \<Longrightarrow> halting u"
  shows "eq_inv u"
  using assms fpc_ok_cong [of s "forwarder s" u] unfolding eq_inv_def by simp

lemma subscribe_inv:
  assumes inv: "eq_inv s" and step: "SubscribeToEvent h s = Some u"
  shows "eq_inv u"
proof -
  have u: "u = s\<lparr>subscribers := subscribers s @ [h], alive := (alive s)(h := True)\<rparr>"
      "\<not> mutex_held s" "h \<notin> set (subscribers s)"
    using step by (auto simp: SubscribeToEvent_def split: if_splits)
  have "\<not> locked (forwarder s)" using inv u(2) by (simp add: eq_inv_def)
  then show ?thesis using inv u by (cases "forwarder s") (auto simp: eq_inv_def)
qed

lemma destroy_inv:
  assumes inv: "eq_inv s" and step: "destroy s = Some u"
  shows "eq_inv u"
proof (cases "destructor s")
  case XNotify
  then show ?thesis using step notify_inv [OF inv] inv
    by (intro eq_inv_cong [OF notify_inv [OF inv]]) (auto simp: destroy_def eq_inv_def)
qed (use step inv in \<open>auto simp: destroy_def eq_inv_def split: if_splits intro: fpc_ok_cong\<close>)

lemma eq_step_inv:
  assumes inv: "eq_inv s" and step: "eq_step l s = Some u"
  shows "eq_inv u"
proof (cases l)
  case Post
  then show ?thesis using step inv
    by (intro eq_inv_cong [OF inv]) (auto simp: PostEvent_def eq_inv_def split: if_splits)
next
  case Notify
  then show ?thesis using step inv
    by (intro eq_inv_cong [OF notify_inv [OF inv]]) (auto simp: PostEvent_notify_def eq_inv_def split: if_splits)
next
  case (Subscribe h)
  then show ?thesis using step subscribe_inv [OF inv] by (auto split: if_splits)
next
  case (Drop h)
  then show ?thesis using step inv fpc_ok_drop by (auto simp: eq_inv_def split: if_splits)
next
  case Destroy
  then show ?thesis using step destroy_inv [OF inv] by (auto split: if_splits)
next
  case Forward
  then show ?thesis using step forward_inv [OF inv] by simp
next
  case CallbackSubscribes
  then show ?thesis using step inv by (auto simp: eq_inv_def split: fpc.splits)
qed (use step inv in \<open>auto simp: eq_inv_def split: if_splits\<close>)

lemma eq_inv_init: "eq_inv EventQueue"
  by (simp add: eq_inv_def EventQueue_def)

interpretation eq: safe_machine eq_step EventQueue eq_inv
  by unfold_locales (use eq_inv_init eq_step_inv in blast)+

section \<open>Progress of the forwarder\<close>

text \<open>How many steps of its own the forwarder needs until it resets a pending event.\<close>

fun delay :: "fpc \<Rightarrow> nat" where
  "delay FReset = 1"
| "delay FTest = 2"
| "delay FPred = 3"
| "delay FLoop = 4"
| "delay FLock = 5"
| "delay (FRelock b) = 4"
| "delay FSleep = 4"
| "delay FBlock = 5"
| "delay (FTrigger hs) = 5 + 2 * length hs"
| "delay (FCallback h hs) = 6 + 2 * length hs"
| "delay (FRemove kept hs) = 6 + 2 * length kept + 3 * length hs"
| "delay f = 1"

lemma forward_delay:
  assumes "pending_event s" "\<not> halting s" "forwarder s \<notin> {FUnlock, FDone}" "run_forwardThread s = Some u"
  shows "(pending_event u \<and> delay (forwarder u) < delay (forwarder s)) \<or> handled u = posts s"
  using assms
  by (cases "forwarder s" rule: delay.cases)
    (auto simp: run_forwardThread_def triggerSubscribers_def neq_Nil_conv split: if_splits list.splits)

lemma forward_frame:
  assumes "run_forwardThread s = Some u"
  shows "halting u = halting s" "posts u = posts s" "handled u = handled s \<or> handled u = posts s"
    "destructor u = destructor s"
  using assms by (cases "forwarder s" rule: delay.cases;
    auto simp: run_forwardThread_def triggerSubscribers_def split: if_splits list.splits)+

lemma other_step:
  assumes "eq_step l s = Some u" "l \<noteq> Forward" "l \<noteq> Destroy" "l \<noteq> CallbackSubscribes"
  shows "halting u = halting s" "posts s \<le> posts u" "handled u = handled s"
    "pending_event s \<Longrightarrow> pending_event u" "delay (forwarder u) \<le> delay (forwarder s)"
    "forwarder u = FSelfLock \<longleftrightarrow> forwarder s = FSelfLock"
  using assms by (cases l; auto simp: PostEvent_def PostEvent_notify_def SubscribeToEvent_def notify_def split: if_splits)+

lemma forward_self_lock: "run_forwardThread s = Some u \<Longrightarrow> forwarder u \<noteq> FSelfLock"
  by (cases "forwarder s" rule: delay.cases)
    (auto simp: run_forwardThread_def triggerSubscribers_def split: if_splits list.splits)

lemma handled_step: "eq_inv s \<Longrightarrow> eq_step l s = Some u \<Longrightarrow> handled s \<le> handled u"
proof (cases "l = Forward")
  case True
  assume "eq_inv s" "eq_step l s = Some u"
  with True forward_frame(3) [of s u] show ?thesis by (auto simp: eq_inv_def)
next
  case False
  assume "eq_step l s = Some u"
  with False have "handled u = handled s"
    by (cases l)
      (auto simp: PostEvent_def PostEvent_notify_def SubscribeToEvent_def destroy_def
        split: if_splits xpc.splits fpc.splits)
  then show ?thesis by simp
qed

lemma handled_mono: "eq_inv s \<Longrightarrow> exec eq_step ls s = Some t \<Longrightarrow> handled s \<le> handled t"
proof (induction ls arbitrary: s)
  case Nil
  then show ?case by simp
next
  case (Cons l ls)
  then obtain u where "eq_step l s = Some u" "exec eq_step ls u = Some t" by (auto split: option.splits)
  with Cons.IH [OF eq_step_inv] handled_step Cons.prems(1) show ?case by (meson order_trans)
qed

lemma delay_run:
  assumes "exec eq_step ls s = Some t" "eq_inv s" "Destroy \<notin> set ls" "CallbackSubscribes \<notin> set ls"
    "\<not> halting s" "forwarder s \<noteq> FSelfLock" "K \<le> posts s" "pending_event s \<or> K \<le> handled s"
  shows "K \<le> handled t \<or>
    (pending_event t \<and> delay (forwarder t) + count_list ls Forward \<le> delay (forwarder s))"
  using assms
proof (induction ls arbitrary: s)
  case Nil
  then show ?case by auto
next
  case (Cons l ls)
  from Cons.prems(1) obtain u where u: "eq_step l s = Some u" "exec eq_step ls u = Some t"
    by (auto split: option.splits)
  have inv: "eq_inv u" by (rule eq_step_inv [OF Cons.prems(2) u(1)])
  have le: "handled s \<le> posts s" using Cons.prems(2) by (simp add: eq_inv_def)
  have s: "\<not> halting u" "forwarder u \<noteq> FSelfLock" "K \<le> posts u" "handled s \<le> handled u \<or> handled u = posts s"
    and d: "pending_event s \<Longrightarrow> K \<le> handled u \<or>
      (pending_event u \<and> delay (forwarder u) + count_list [l] Forward \<le> delay (forwarder s))"
  proof -
    have "\<not> halting u \<and> forwarder u \<noteq> FSelfLock \<and> K \<le> posts u \<and> (handled s \<le> handled u \<or> handled u = posts s) \<and>
      (pending_event s \<longrightarrow> K \<le> handled u \<or>
        (pending_event u \<and> delay (forwarder u) + count_list [l] Forward \<le> delay (forwarder s)))"
    proof (cases "l = Forward")
      case True
      then have f: "run_forwardThread s = Some u" using u(1) by simp
      have "forwarder s \<notin> {FUnlock, FDone}" using Cons.prems(2,5) by (auto simp: eq_inv_def)
      then show ?thesis using forward_delay [OF _ Cons.prems(5) _ f] forward_frame [OF f] forward_self_lock [OF f]
          Cons.prems(5,7) le True by auto
    next
      case False
      then have "l \<noteq> Destroy" "l \<noteq> CallbackSubscribes" using Cons.prems(3,4) by auto
      note o = other_step [OF u(1) False this]
      show ?thesis using o Cons.prems(5-7) False by auto
    qed
    then show "\<not> halting u" "forwarder u \<noteq> FSelfLock" "K \<le> posts u" "handled s \<le> handled u \<or> handled u = posts s"
      "pending_event s \<Longrightarrow> K \<le> handled u \<or>
      (pending_event u \<and> delay (forwarder u) + count_list [l] Forward \<le> delay (forwarder s))"
      by blast+
  qed
  have "pending_event u \<or> K \<le> handled u" using d s(4) Cons.prems(7,8) by auto
  then have ih: "K \<le> handled t \<or> (pending_event t \<and> delay (forwarder t) + count_list ls Forward \<le> delay (forwarder u))"
    using Cons.IH [OF u(2) inv _ _ s(1-3)] Cons.prems(3,4) by auto
  show ?case
  proof (cases "K \<le> handled u")
    case True
    with handled_mono [OF inv u(2)] show ?thesis by simp
  next
    case False
    then have "pending_event s" using s(4) Cons.prems(7,8) by auto
    with d False ih show ?thesis by auto
  qed
qed

text \<open>How many steps of its own the forwarder takes at most once \<open>halting_\<close> is set.\<close>

definition delay_end :: "event_queue \<Rightarrow> nat" where
  "delay_end s =
     (case forwarder s of
        FDone \<Rightarrow> 0 | FUnlock \<Rightarrow> 1 | FLoop \<Rightarrow> 2 | FLock \<Rightarrow> 3
      | FTrigger hs \<Rightarrow> 3 + 2 * length hs | FCallback h hs \<Rightarrow> 4 + 2 * length hs
      | FRemove kept hs \<Rightarrow> 4 + 2 * length kept + 3 * length hs
      | FReset \<Rightarrow> 5 + 3 * length (subscribers s) | FTest \<Rightarrow> 6 + 3 * length (subscribers s)
      | FPred \<Rightarrow> 7 + 3 * length (subscribers s) | FRelock b \<Rightarrow> 8 + 3 * length (subscribers s)
      | FSleep \<Rightarrow> 8 + 3 * length (subscribers s) | FBlock \<Rightarrow> 9 + 3 * length (subscribers s)
      | FSelfLock \<Rightarrow> 0)"

lemma delay_end_forward:
  assumes "run_forwardThread s = Some u" "halting s"
  shows "delay_end u < delay_end s"
  using assms
  by (cases "forwarder s" rule: delay.cases)
    (auto simp: delay_end_def run_forwardThread_def triggerSubscribers_def split: if_splits list.splits)

lemma delay_end_other:
  assumes "eq_step l s = Some u" "l \<noteq> Forward" "destructor s \<noteq> XIdle"
  shows "delay_end u \<le> delay_end s"
  using assms
  by (cases l; cases "forwarder s")
    (auto simp: delay_end_def PostEvent_notify_def destroy_def notify_def split: if_splits xpc.splits)

lemma destructor_step:
  assumes "eq_step l s = Some u" "destructor s = XJoin \<or> destructor s = XDead"
  shows "destructor u = XJoin \<or> destructor u = XDead" "destructor u = XDead \<Longrightarrow> destructor s = XDead \<or> forwarder s = FDone"
  using assms forward_frame(4)
  by (cases l; auto simp: PostEvent_notify_def destroy_def split: if_splits fpc.splits)+

lemma delay_end_run:
  assumes "exec eq_step ls s = Some t" "eq_inv s" "destructor s = XJoin \<or> destructor s = XDead"
  shows "delay_end t + count_list ls Forward \<le> delay_end s \<and> eq_inv t \<and>
    (destructor t = XJoin \<or> destructor t = XDead)"
  using assms
proof (induction ls arbitrary: s)
  case Nil
  then show ?case by simp
next
  case (Cons l ls)
  from Cons.prems(1) obtain u where u: "eq_step l s = Some u" "exec eq_step ls u = Some t"
    by (auto split: option.splits)
  have "delay_end u + count_list [l] Forward \<le> delay_end s"
  proof (cases "l = Forward")
    case True
    moreover have "halting s" using Cons.prems(2,3) by (auto simp: eq_inv_def)
    ultimately show ?thesis using delay_end_forward u(1) by fastforce
  next
    case False
    then show ?thesis using delay_end_other [OF u(1)] Cons.prems(3) by auto
  qed
  with Cons.IH [OF u(2) eq_step_inv [OF Cons.prems(2) u(1)] destructor_step(1) [OF u(1) Cons.prems(3)]]
  show ?case by auto
qed

lemma forwarder_moves:
  assumes "eq_inv s" "forwarder s \<notin> {FDone, FSelfLock}"
  shows "\<exists>u. eq_step Forward s = Some u \<or> eq_step Timeout s = Some u"
  using assms
  by (cases "forwarder s" rule: delay.cases)
    (auto simp: eq_inv_def run_forwardThread_def triggerSubscribers_def split: list.splits)

text \<open>A forwarder that waits for its own mutex, and one that missed the notification of the destructor.\<close>

lemma self_lock_step:
  assumes "eq_inv s" "forwarder s = FSelfLock" "eq_step l s = Some u"
  shows "forwarder u = FSelfLock" "subscribers u = subscribers s" "handled u = handled s"
    "destructor u = XDead \<Longrightarrow> destructor s = XDead"
  using assms
  by (cases l; auto simp: eq_inv_def PostEvent_def PostEvent_notify_def SubscribeToEvent_def destroy_def notify_def
      run_forwardThread_def triggerSubscribers_def split: if_splits xpc.splits)+

lemma self_lock_run:
  assumes "exec eq_step ls s = Some t" "eq_inv s" "forwarder s = FSelfLock"
  shows "forwarder t = FSelfLock \<and> subscribers t = subscribers s \<and> handled t = handled s \<and>
    (destructor t = XDead \<longrightarrow> destructor s = XDead)"
  using assms
proof (induction ls arbitrary: s)
  case Nil
  then show ?case by simp
next
  case (Cons l ls)
  from Cons.prems(1) obtain u where u: "eq_step l s = Some u" "exec eq_step ls u = Some t"
    by (auto split: option.splits)
  note st = self_lock_step [OF Cons.prems(2,3) u(1)]
  from Cons.IH [OF u(2) eq_step_inv [OF Cons.prems(2) u(1)] st(1)] st(2-4) show ?case by auto
qed

lemma asleep_step:
  assumes "eq_step l s = Some u" "forwarder s = FSleep" "destructor s = XJoin" "posting s = 0"
    "l \<noteq> Timeout" "l \<noteq> SpuriousWake"
  shows "forwarder u = FSleep \<and> destructor u = XJoin \<and> posting u = 0"
  using assms
  by (cases l)
    (auto simp: PostEvent_notify_def destroy_def run_forwardThread_def triggerSubscribers_def split: if_splits)

lemma asleep_run:
  assumes "exec eq_step ls s = Some t" "forwarder s = FSleep" "destructor s = XJoin" "posting s = 0"
    "Timeout \<notin> set ls" "SpuriousWake \<notin> set ls"
  shows "forwarder t = FSleep \<and> destructor t = XJoin"
  using assms
proof (induction ls arbitrary: s)
  case Nil
  then show ?case by simp
next
  case (Cons l ls)
  from Cons.prems(1) obtain u where u: "eq_step l s = Some u" "exec eq_step ls u = Some t"
    by (auto split: option.splits)
  with asleep_step [OF u(1) Cons.prems(2-4)] Cons.IH [OF u(2)] Cons.prems(5,6) show ?case by auto
qed

section \<open>Properties\<close>

text \<open>C13: no event is lost, although \<open>PostEvent\<close> takes no lock and its notification may come too early: in any
  run in which the forwarder takes \<open>delay\<close> steps of its own, whatever the other threads do in between, every
  event posted before the run has been picked up (as long as the queue is not being destroyed and no callback
  subscribes).\<close>

theorem event_picked_up:
  assumes "reach eq_step EventQueue s" "destructor s = XIdle" "forwarder s \<noteq> FSelfLock"
    and "exec eq_step ls s = Some t" "Destroy \<notin> set ls" "CallbackSubscribes \<notin> set ls"
    and "delay (forwarder s) \<le> count_list ls Forward"
  shows "posts s \<le> handled t"
proof -
  have inv: "eq_inv s" using eq.reach_inv [OF assms(1)] .
  have "0 < delay f" for f by (cases f) simp_all
  then have "\<not> delay (forwarder t) + count_list ls Forward \<le> delay (forwarder s)"
    using assms(7) by (metis add.commute less_add_same_cancel1 linorder_not_le order_less_le_trans)
  moreover have "\<not> halting s" "pending_event s \<or> posts s \<le> handled s"
    using inv assms(2) by (auto simp: eq_inv_def)
  ultimately show ?thesis
    using delay_run [OF assms(4) inv assms(5,6) _ assms(3) order_refl] by blast
qed

definition missed_notification :: "eq_label list" where
  "missed_notification = [Subscribe 3, Subscribe 4, Forward, Forward, Forward, Post, Notify, Forward, Drop 3]"

theorem event_picked_up_witness:
  "\<exists>s t. exec eq_step missed_notification EventQueue = Some s \<and> forwarder s = FSleep \<and> pending_event s \<and>
     exec eq_step [Timeout, Forward, Forward, Forward, Forward] s = Some t \<and> posts s \<le> handled t"
proof -
  obtain s where s: "exec eq_step missed_notification EventQueue = Some s" "forwarder s = FSleep" "pending_event s"
      "destructor s = XIdle" "\<not> mutex_held s" "subscribers s = [3, 4]"
    by (simp add: missed_notification_def EventQueue_def SubscribeToEvent_def run_forwardThread_def PostEvent_def
        PostEvent_notify_def notify_def)
  let ?ls = "[Timeout, Forward, Forward, Forward, Forward]"
  obtain t where t: "exec eq_step ?ls s = Some t"
    using s(2-) by (simp add: run_forwardThread_def triggerSubscribers_def)
  from event_picked_up [OF reachI [OF s(1)] s(4) _ t] s(2) have "posts s \<le> handled t" by simp
  with s t show ?thesis by blast
qed

text \<open>C14: when a round of callbacks is over, every subscriber of its beginning that still has its handle has been
  called, in the order of the subscriptions and at most once, and nobody else has.\<close>

theorem event_round_complete:
  assumes "reach eq_step EventQueue s" "forwarder s = FTrigger []"
  shows "subseq (called s) (round s) \<and> (\<forall>h\<in>set (round s). alive s h \<longrightarrow> h \<in> set (called s)) \<and>
    distinct (called s)"
proof -
  have inv: "eq_inv s" using eq.reach_inv [OF assms(1)] .
  then have k: "keeps (alive s) (called s) (subscribers s)" "keeps (alive s) (subscribers s) (round s)"
    using assms(2) by (auto simp: eq_inv_def round_ok_def)
  have "distinct (called s)" using distinct_keeps [OF _ k(1)] inv by (simp add: eq_inv_def)
  with keeps_trans [OF k] show ?thesis by (simp add: keeps_def)
qed

theorem event_round_complete_witness:
  "\<exists>s. exec eq_step (missed_notification @ [Timeout, Forward, Forward, Forward, Forward, Forward, Forward, Forward,
     Forward]) EventQueue = Some s \<and> called s = [4] \<and> round s = [3, 4] \<and> subseq (called s) (round s)"
proof -
  obtain s where s: "exec eq_step (missed_notification @ [Timeout, Forward, Forward, Forward, Forward, Forward, Forward,
     Forward, Forward]) EventQueue = Some s" "forwarder s = FTrigger []" "called s = [4]" "round s = [3, 4]"
    by (simp add: missed_notification_def EventQueue_def SubscribeToEvent_def run_forwardThread_def PostEvent_def
        PostEvent_notify_def notify_def triggerSubscribers_def)
  with event_round_complete [OF reachI [OF s(1)] s(2)] show ?thesis by blast
qed

text \<open>C15: the destructor returns: once it has notified and joins, the forwarder takes at most \<open>delay_end\<close> more
  steps, and a run in which neither it nor the destructor can go on, nor a time-out occur, has destroyed the
  queue (unless a callback subscribes).\<close>

theorem event_destructor_returns:
  assumes "reach eq_step EventQueue s" "destructor s = XJoin" "exec eq_step ls s = Some t"
  shows "count_list ls Forward \<le> delay_end s \<and>
    ((\<forall>l\<in>{Forward, Timeout, Destroy}. eq_step l t = None) \<longrightarrow> destructor t = XDead \<or> forwarder t = FSelfLock)"
proof -
  have inv: "eq_inv s" using eq.reach_inv [OF assms(1)] .
  have t: "delay_end t + count_list ls Forward \<le> delay_end s" "eq_inv t" "destructor t = XJoin \<or> destructor t = XDead"
    using delay_end_run [OF assms(3) inv] assms(2) by auto
  have "destructor t = XDead \<or> forwarder t = FSelfLock" if stuck: "\<forall>l\<in>{Forward, Timeout, Destroy}. eq_step l t = None"
  proof (rule ccontr)
    assume n: "\<not> ?thesis"
    then have "forwarder t = FDone" using forwarder_moves [OF t(2)] stuck by fastforce
    with n t(3) stuck show False by (auto simp: destroy_def)
  qed
  with t(1) show ?thesis by simp
qed

theorem event_destructor_returns_witness:
  "\<exists>s t. exec eq_step [Subscribe 3, Forward, Forward, Destroy, Destroy] EventQueue = Some s \<and> destructor s = XJoin \<and>
     exec eq_step [Forward, Forward, Forward, Forward, Destroy] s = Some t \<and> destructor t = XDead \<and>
     4 \<le> delay_end s"
proof -
  let ?ls = "[Forward, Forward, Forward, Forward, Destroy]"
  obtain s where s: "exec eq_step [Subscribe 3, Forward, Forward, Destroy, Destroy] EventQueue = Some s"
      "destructor s = XJoin" "forwarder s = FPred" "halting s" "\<not> pending_event s" "posting s = 0"
    by (simp add: EventQueue_def SubscribeToEvent_def run_forwardThread_def destroy_def notify_def)
  obtain t where t: "exec eq_step ?ls s = Some t" "destructor t = XDead"
    using s(2-) by (simp add: run_forwardThread_def destroy_def)
  from event_destructor_returns [OF reachI [OF s(1)] s(2) t(1)] have "4 \<le> delay_end s" by simp
  with s t show ?thesis by blast
qed

text \<open>The time-out is needed for that: the destructor's notification can fall between the forwarder's test of
  the predicate and its sleep, and then, without a time-out or a spurious wake-up, the destructor waits for ever.\<close>

theorem event_timeout_needed:
  "\<exists>s. reach eq_step EventQueue s \<and> destructor s = XJoin \<and> forwarder s = FSleep \<and>
     (\<nexists>ls t. exec eq_step ls s = Some t \<and> Timeout \<notin> set ls \<and> SpuriousWake \<notin> set ls \<and> destructor t \<noteq> XJoin)"
proof -
  obtain s where s: "exec eq_step [Forward, Forward, Forward, Destroy, Destroy, Forward] EventQueue = Some s"
      "destructor s = XJoin" "forwarder s = FSleep" "posting s = 0"
    by (simp add: EventQueue_def run_forwardThread_def destroy_def notify_def)
  with asleep_run [OF _ s(3,2,4)] reachI [OF s(1)] show ?thesis by blast
qed

text \<open>A callback that calls \<open>SubscribeToEvent\<close> stops the queue for ever: the forwarder waits for the mutex
  it holds, no subscription succeeds and no event is handled any more, and the destructor does not return.\<close>

theorem event_callback_subscribes:
  assumes "reach eq_step EventQueue s" "forwarder s = FSelfLock" "destructor s \<noteq> XDead"
    and "exec eq_step ls s = Some t"
  shows "forwarder t = FSelfLock \<and> subscribers t = subscribers s \<and> handled t = handled s \<and> destructor t \<noteq> XDead"
  using self_lock_run [OF assms(4) eq.reach_inv [OF assms(1)] assms(2)] assms(3) by simp

theorem event_callback_subscribes_witness:
  "\<exists>s t. exec eq_step [Subscribe 3, Post, Forward, Forward, Forward, Forward, Forward, Forward, Forward, Forward,
      CallbackSubscribes] EventQueue = Some s \<and> forwarder s = FSelfLock \<and>
     exec eq_step [Notify, Destroy, Destroy] s = Some t \<and> forwarder t = FSelfLock \<and> destructor t \<noteq> XDead"
proof -
  obtain s where s: "exec eq_step [Subscribe 3, Post, Forward, Forward, Forward, Forward, Forward, Forward, Forward,
      Forward, CallbackSubscribes] EventQueue = Some s" "forwarder s = FSelfLock" "destructor s = XIdle" "posting s = 1"
    by (simp add: EventQueue_def SubscribeToEvent_def run_forwardThread_def PostEvent_def triggerSubscribers_def)
  obtain t where t: "exec eq_step [Notify, Destroy, Destroy] s = Some t"
    using s(2-) by (simp add: PostEvent_notify_def destroy_def notify_def)
  from event_callback_subscribes [OF reachI [OF s(1)] s(2) _ t] s(3)
  have "forwarder t = FSelfLock \<and> destructor t \<noteq> XDead" by simp
  with s t show ?thesis by blast
qed

end
