(* ===== verification/Shared_Counters.thy ===== *)
theory Shared_Counters
  imports Sync_Prelude
begin

text \<open>
  Counters that threads share: the mutex-protected counter of \<open>threads-locks/locked data structures/counter.cpp\<close>,
  and the completion counter of \<open>threads-locks/other-problems/call-backs/thraed-safe-callback.cpp\<close>.

  The value of a counter is an \<open>int\<close> without bounds: the overflow of a C \<open>int\<close>, which is undefined, is not modelled.
\<close>

section \<open>counter.cpp\<close>

text \<open>\<open>value++\<close> and \<open>value--\<close> are a read and a write. \<open>increments\<close> and \<open>decrements\<close> are history variables: the
  writes so far.\<close>

datatype cop = Increment | Decrement | Get

datatype cpc = CIdle | CLock cop | CRead cop | CWrite cop int | CUnlock cop int

record counter_t =
  cvalue :: int
  clock :: "tid option"
  cpcs :: "tid \<Rightarrow> cpc"
  cret :: "tid \<Rightarrow> int option"
  increments :: nat
  decrements :: nat

definition counter_init :: counter_t where
  "counter_init = \<lparr>cvalue = 0, clock = None, cpcs = (\<lambda>_. CIdle), cret = (\<lambda>_. None), increments = 0, decrements = 0\<rparr>"

definition counter_at :: "tid \<Rightarrow> cpc \<Rightarrow> counter_t \<Rightarrow> counter_t" where
  "counter_at t p c = c\<lparr>cpcs := (cpcs c)(t := p)\<rparr>"

text \<open>What \<open>increment\<close>, \<open>decrement\<close> and \<open>get\<close> do between lock and unlock.\<close>

fun increment :: "tid \<Rightarrow> counter_t \<Rightarrow> counter_t option" where
  "increment t c =
     (case cpcs c t of
        CRead Increment \<Rightarrow> Some (counter_at t (CWrite Increment (cvalue c + 1)) c)
      | CWrite Increment v \<Rightarrow>
          Some (counter_at t (CUnlock Increment v) (c\<lparr>cvalue := v, increments := increments c + 1\<rparr>))
      | _ \<Rightarrow> None)"

fun decrement :: "tid \<Rightarrow> counter_t \<Rightarrow> counter_t option" where
  "decrement t c =
     (case cpcs c t of
        CRead Decrement \<Rightarrow> Some (counter_at t (CWrite Decrement (cvalue c - 1)) c)
      | CWrite Decrement v \<Rightarrow>
          Some (counter_at t (CUnlock Decrement v) (c\<lparr>cvalue := v, decrements := decrements c + 1\<rparr>))
      | _ \<Rightarrow> None)"

fun get_value :: "tid \<Rightarrow> counter_t \<Rightarrow> counter_t option" where
  "get_value t c = (case cpcs c t of CRead Get \<Rightarrow> Some (counter_at t (CUnlock Get (cvalue c)) c) | _ \<Rightarrow> None)"

text \<open>\<open>Call t f\<close>: a thread calls a function. \<open>Run t\<close>: its next step.\<close>

datatype counter_label = Call tid cop | Run tid

fun counter_step :: "counter_label \<Rightarrow> counter_t \<Rightarrow> counter_t option" where
  "counter_step (Call t f) c = (if cpcs c t = CIdle then Some (counter_at t (CLock f) c) else None)"
| "counter_step (Run t) c =
     (case cpcs c t of
        CIdle \<Rightarrow> None
      | CLock f \<Rightarrow> (if clock c = None then Some (counter_at t (CRead f) (c\<lparr>clock := Some t\<rparr>)) else None)
      | CUnlock f v \<Rightarrow>
          Some ((counter_at t CIdle (c\<lparr>clock := None\<rparr>))
            \<lparr>cret := (cret c)(t := (if f = Get then Some v else cret c t))\<rparr>)
      | CRead Increment \<Rightarrow> increment t c
      | CRead Decrement \<Rightarrow> decrement t c
      | CRead Get \<Rightarrow> get_value t c
      | CWrite Decrement v \<Rightarrow> decrement t c
      | CWrite _ v \<Rightarrow> increment t c)"

fun inside :: "cpc \<Rightarrow> bool" where
  "inside CIdle = False"
| "inside (CLock f) = False"
| "inside p = True"

fun cpc_ok :: "int \<Rightarrow> cpc \<Rightarrow> bool" where
  "cpc_ok v (CWrite Increment w) = (w = v + 1)"
| "cpc_ok v (CWrite Decrement w) = (w = v - 1)"
| "cpc_ok v (CWrite Get w) = False"
| "cpc_ok v (CUnlock f w) = (w = v)"
| "cpc_ok v p = True"

definition counter_inv :: "counter_t \<Rightarrow> bool" where
  "counter_inv c \<longleftrightarrow> cvalue c = int (increments c) - int (decrements c) \<and>
     (\<forall>t. cpc_ok (cvalue c) (cpcs c t)) \<and> (\<forall>t. inside (cpcs c t) \<longleftrightarrow> clock c = Some t)"

lemma cpc_ok_outside: "\<not> inside p \<Longrightarrow> cpc_ok v p"
  by (cases p) auto

lemma counter_inv_move:
  assumes inv: "counter_inv c"
    and u: "cpcs u = (cpcs c)(t := p)" "cvalue u = int (increments u) - int (decrements u)" "cpc_ok (cvalue u) p"
      "clock u = (if inside p then Some t else if inside (cpcs c t) then None else clock c)"
    and own: "inside p \<or> cvalue u \<noteq> cvalue c \<Longrightarrow> clock c = None \<or> clock c = Some t"
      "cvalue u \<noteq> cvalue c \<Longrightarrow> clock c = Some t"
  shows "counter_inv u"
proof -
  have i: "inside (cpcs c v) \<longleftrightarrow> clock c = Some v" "cpc_ok (cvalue c) (cpcs c v)" for v
    using inv by (auto simp: counter_inv_def)
  have "cpc_ok (cvalue u) (cpcs u v)" for v
  proof (cases "v = t \<or> cvalue u = cvalue c")
    case True
    then show ?thesis using u(1,3) i(2) [of v] by auto
  next
    case False
    then have "\<not> inside (cpcs c v)" using own(2) i(1) by auto
    then show ?thesis using False u(1) cpc_ok_outside by simp
  qed
  moreover have "inside (cpcs u v) \<longleftrightarrow> clock u = Some v" for v
    using u(1,4) own(1) i(1) [of v] i(1) [of t] by (cases "v = t") auto
  ultimately show ?thesis using u(2) by (simp add: counter_inv_def)
qed

lemma counter_inv_step:
  assumes inv: "counter_inv c" and step: "counter_step l c = Some u"
  shows "counter_inv u"
proof -
  have v: "cvalue c = int (increments c) - int (decrements c)" using inv by (simp add: counter_inv_def)
  have i: "inside (cpcs c t) \<longleftrightarrow> clock c = Some t" "cpc_ok (cvalue c) (cpcs c t)" for t
    using inv by (auto simp: counter_inv_def)
  show ?thesis
  proof (cases l)
    case (Call t f)
    then show ?thesis using step v by (intro counter_inv_move [OF inv, of _ t "CLock f"])
        (auto simp: counter_at_def split: if_splits)
  next
    case (Run t)
    show ?thesis
    proof (cases "cpcs c t")
      case (CLock f)
      then show ?thesis using step v Run by (intro counter_inv_move [OF inv, of _ t "CRead f"])
          (auto simp: counter_at_def split: if_splits)
    next
      case (CUnlock f w)
      then show ?thesis using step v Run i [of t] by (intro counter_inv_move [OF inv, of _ t CIdle])
          (auto simp: counter_at_def)
    next
      case (CRead f)
      then show ?thesis using step v Run i [of t]
        by (intro counter_inv_move [OF inv, of _ t "cpcs u t"]; cases f) (auto simp: counter_at_def)
    next
      case (CWrite f w)
      then show ?thesis using step v Run i [of t]
        by (intro counter_inv_move [OF inv, of _ t "cpcs u t"]; cases f) (auto simp: counter_at_def)
    qed (use step Run in simp)
  qed
qed

interpretation counter: safe_machine counter_step counter_init counter_inv
proof (unfold_locales, goal_cases)
  case 1
  show ?case by (simp add: counter_inv_def counter_init_def)
qed (rule counter_inv_step)

section \<open>thraed-safe-callback.cpp\<close>

text \<open>\<open>StartTwoTasks\<close> launches two tasks with \<open>std::async\<close>. The future that \<open>std::async\<close> returns is a temporary
  of \<open>asyncCall\<close>, and its destructor waits for the task (\<open>MJoin\<close>). With \<open>detached\<close> it would not. A task decrements
  the counter, loads it in a separate access, and calls the callback when it finds 0.\<close>

datatype tpos = TNone | TDec | TLoad | TCall | TSkipped | TCalled

datatype mpos = MLaunch bool | MJoin bool | MEnd

record two_tasks =
  tcounter :: int
  tasks :: "bool \<Rightarrow> tpos"
  main_at :: mpos
  calls :: nat

definition StartTwoTasks :: two_tasks where
  "StartTwoTasks = \<lparr>tcounter = 2, tasks = (\<lambda>_. TNone), main_at = MLaunch False, calls = 0\<rparr>"

definition task_ended :: "tpos \<Rightarrow> bool" where
  "task_ended p \<longleftrightarrow> p = TSkipped \<or> p = TCalled"

definition next_task :: "bool \<Rightarrow> mpos" where
  "next_task i = (if i then MEnd else MLaunch True)"

definition asyncCall :: "bool \<Rightarrow> two_tasks \<Rightarrow> two_tasks option" where
  "asyncCall detached s =
     (case main_at s of
        MLaunch i \<Rightarrow>
          Some (s\<lparr>tasks := (tasks s)(i := TDec), main_at := (if detached then next_task i else MJoin i)\<rparr>)
      | MJoin i \<Rightarrow> (if task_ended (tasks s i) then Some (s\<lparr>main_at := next_task i\<rparr>) else None)
      | MEnd \<Rightarrow> None)"

definition parallel :: "bool \<Rightarrow> two_tasks \<Rightarrow> two_tasks option" where
  "parallel i s =
     (case tasks s i of
        TDec \<Rightarrow> Some (s\<lparr>tcounter := tcounter s - 1, tasks := (tasks s)(i := TLoad)\<rparr>)
      | TLoad \<Rightarrow> Some (s\<lparr>tasks := (tasks s)(i := (if tcounter s = 0 then TCall else TSkipped))\<rparr>)
      | TCall \<Rightarrow> Some (s\<lparr>calls := calls s + 1, tasks := (tasks s)(i := TCalled)\<rparr>)
      | _ \<Rightarrow> None)"

datatype task_label = MainThread | Task bool

fun task_step :: "bool \<Rightarrow> task_label \<Rightarrow> two_tasks \<Rightarrow> two_tasks option" where
  "task_step detached MainThread s = asyncCall detached s"
| "task_step detached (Task i) s = parallel i s"

fun decremented :: "tpos \<Rightarrow> int" where
  "decremented TNone = 0"
| "decremented TDec = 0"
| "decremented p = 1"

definition tasks_ok :: "two_tasks \<Rightarrow> bool" where
  "tasks_ok s \<longleftrightarrow> tcounter s = 2 - decremented (tasks s False) - decremented (tasks s True) \<and>
     (tasks s False \<in> {TCall, TCalled} \<or> tasks s True \<in> {TCall, TCalled} \<longrightarrow> tcounter s = 0) \<and>
     \<not> (tasks s False = TSkipped \<and> tasks s True = TSkipped) \<and>
     calls s = (if tasks s False = TCalled then 1 else 0) + (if tasks s True = TCalled then 1 else 0)"

fun main_ok :: "mpos \<Rightarrow> tpos \<Rightarrow> tpos \<Rightarrow> bool" where
  "main_ok (MLaunch False) p q = (p = TNone \<and> q = TNone)"
| "main_ok (MLaunch True) p q = (p \<noteq> TNone \<and> q = TNone)"
| "main_ok (MJoin False) p q = (p \<noteq> TNone \<and> q = TNone)"
| "main_ok (MJoin True) p q = (p \<noteq> TNone \<and> q \<noteq> TNone)"
| "main_ok MEnd p q = (p \<noteq> TNone \<and> q \<noteq> TNone)"

definition tasks_inv :: "two_tasks \<Rightarrow> bool" where
  "tasks_inv s \<longleftrightarrow> tasks_ok s \<and> main_ok (main_at s) (tasks s False) (tasks s True)"

lemma parallel_cases:
  assumes "parallel i s = Some u"
  obtains (dec) "tasks s i = TDec" "u = s\<lparr>tcounter := tcounter s - 1, tasks := (tasks s)(i := TLoad)\<rparr>"
    | (load) "tasks s i = TLoad" "u = s\<lparr>tasks := (tasks s)(i := (if tcounter s = 0 then TCall else TSkipped))\<rparr>"
    | (call) "tasks s i = TCall" "u = s\<lparr>calls := calls s + 1, tasks := (tasks s)(i := TCalled)\<rparr>"
  using assms by (cases "tasks s i") (auto simp: parallel_def)

lemma decremented_range: "0 \<le> decremented p" "decremented p \<le> 1" "decremented p = 0 \<longleftrightarrow> p = TNone \<or> p = TDec"
  by (cases p; simp)+

lemma main_ok_upd: "p \<noteq> TNone \<Longrightarrow> q \<noteq> TNone \<Longrightarrow> main_ok m p r = main_ok m q r \<and> main_ok m r p = main_ok m r q"
  by (cases "(m, p, r)" rule: main_ok.cases) auto

definition seq_inv :: "two_tasks \<Rightarrow> bool" where
  "seq_inv s \<longleftrightarrow> tasks_inv s \<and> tasks s False \<notin> {TCall, TCalled} \<and>
     (main_at s \<in> {MLaunch True, MJoin True, MEnd} \<longrightarrow> tasks s False = TSkipped) \<and>
     (main_at s = MEnd \<longrightarrow> task_ended (tasks s True))"

lemma tasks_inv_init: "tasks_inv StartTwoTasks"
  by (simp add: tasks_inv_def tasks_ok_def StartTwoTasks_def)

lemma parallel_ok:
  assumes ok: "tasks_ok s" and step: "parallel i s = Some u"
  shows "tasks_ok u"
  using step
proof (cases rule: parallel_cases)
  case dec
  then show ?thesis using ok decremented_range(1,2) [of "tasks s True"] decremented_range(1,2) [of "tasks s False"]
    by (cases i) (auto simp: tasks_ok_def)
next
  case load
  then show ?thesis using ok by (cases i) (auto simp: tasks_ok_def)
next
  case call
  then show ?thesis using ok by (cases i) (auto simp: tasks_ok_def)
qed

lemma parallel_main_ok:
  assumes "main_ok (main_at s) (tasks s False) (tasks s True)" "parallel i s = Some u"
  shows "main_ok (main_at u) (tasks u False) (tasks u True)"
proof -
  have "tasks s i \<noteq> TNone" "tasks u i \<noteq> TNone" "tasks u (\<not> i) = tasks s (\<not> i)" "main_at u = main_at s"
    using assms(2) by (auto elim!: parallel_cases split: if_splits)
  with assms(1) main_ok_upd [of "tasks s i" "tasks u i" "main_at s" "tasks s (\<not> i)"] show ?thesis by (cases i) simp_all
qed

lemma launch_ok:
  assumes "tasks_ok s" "tasks s i = TNone"
  shows "tasks_ok (s\<lparr>tasks := (tasks s)(i := TDec), main_at := m\<rparr>)"
  using assms by (cases i) (auto simp: tasks_ok_def)

lemma async_inv:
  assumes inv: "tasks_inv s" and step: "asyncCall d s = Some u"
  shows "tasks_inv u"
proof (cases "main_at s")
  case (MLaunch i)
  have n: "tasks s i = TNone" using inv MLaunch by (cases i) (simp_all add: tasks_inv_def)
  have "tasks_ok u" using launch_ok [OF _ n] step MLaunch inv
    by (auto simp: asyncCall_def tasks_inv_def)
  moreover have "main_ok (main_at u) (tasks u False) (tasks u True)" using step MLaunch inv
    by (cases i; cases d) (auto simp: asyncCall_def tasks_inv_def next_task_def)
  ultimately show ?thesis by (simp add: tasks_inv_def)
next
  case (MJoin i)
  then have u: "u = s\<lparr>main_at := next_task i\<rparr>" using step by (simp add: asyncCall_def split: if_splits)
  have "main_ok (next_task i) (tasks s False) (tasks s True)" using inv MJoin
    by (cases i) (simp_all add: tasks_inv_def next_task_def)
  moreover have "tasks_ok u = tasks_ok s" by (simp add: u tasks_ok_def)
  ultimately show ?thesis using inv by (simp add: u tasks_inv_def)
qed (use step in \<open>simp add: asyncCall_def\<close>)

lemma tasks_inv_step:
  assumes inv: "tasks_inv s" and step: "task_step d l s = Some u"
  shows "tasks_inv u"
proof (cases l)
  case MainThread
  then show ?thesis using inv step async_inv by simp
next
  case (Task i)
  then have "parallel i s = Some u" using step by simp
  with parallel_ok parallel_main_ok inv show ?thesis unfolding tasks_inv_def by blast
qed

lemma seq_inv_step:
  assumes inv: "seq_inv s" and step: "task_step False l s = Some u"
  shows "seq_inv u"
proof -
  have t: "tasks_inv u" using tasks_inv_step [OF _ step] inv by (simp add: seq_inv_def)
  show ?thesis
  proof (cases l)
    case MainThread
    with step have a: "asyncCall False s = Some u" by simp
    show ?thesis
    proof (cases "main_at s")
      case (MLaunch i)
      then show ?thesis using inv a t by (cases i) (auto simp: asyncCall_def seq_inv_def)
    next
      case (MJoin i)
      then show ?thesis using inv a t
        by (cases i) (auto simp: asyncCall_def seq_inv_def next_task_def task_ended_def split: if_splits)
    qed (use a in \<open>simp add: asyncCall_def\<close>)
  next
    case (Task i)
    with step have "parallel i s = Some u" by simp
    then show ?thesis
    proof (cases rule: parallel_cases)
      case dec
      then show ?thesis using inv t by (cases i) (auto simp: seq_inv_def task_ended_def)
    next
      case load
      show ?thesis
      proof (cases i)
        case True
        then show ?thesis using load inv t by (auto simp: seq_inv_def task_ended_def)
      next
        case False
        then have "main_at s \<notin> {MLaunch True, MJoin True, MEnd}" using load(1) inv by (auto simp: seq_inv_def)
        then have "tasks s True = TNone" using inv
          by (cases "main_at s") (auto simp: seq_inv_def tasks_inv_def elim!: main_ok.elims)
        then have "tcounter s = 1" using inv load(1) False by (auto simp: seq_inv_def tasks_inv_def tasks_ok_def)
        then show ?thesis using load inv t False by (auto simp: seq_inv_def)
      qed
    next
      case call
      then show ?thesis using inv t by (cases i) (auto simp: seq_inv_def task_ended_def)
    qed
  qed
qed

lemma tasks_progress:
  assumes "tasks_inv s" "\<not> (main_at s = MEnd \<and> task_ended (tasks s False) \<and> task_ended (tasks s True))"
  shows "\<exists>l u. task_step d l s = Some u"
proof -
  have "\<exists>u. parallel i s = Some u" if "tasks s i \<notin> {TNone, TSkipped, TCalled}" for i
    using that by (cases "tasks s i") (auto simp: parallel_def)
  then have run: "\<exists>l u. task_step d l s = Some u" if "tasks s i \<notin> {TNone, TSkipped, TCalled}" for i
    using that by (metis task_step.simps(2))
  show ?thesis
  proof (cases "main_at s")
    case (MLaunch i)
    then have "\<exists>u. task_step d MainThread s = Some u" by (simp add: asyncCall_def)
    then show ?thesis by blast
  next
    case (MJoin i)
    show ?thesis
    proof (cases "task_ended (tasks s i)")
      case True
      then have "\<exists>u. task_step d MainThread s = Some u" using MJoin by (simp add: asyncCall_def)
      then show ?thesis by blast
    next
      case False
      moreover have "tasks s i \<noteq> TNone" using assms(1) MJoin by (cases i) (auto simp: tasks_inv_def)
      ultimately show ?thesis using run [of i] by (auto simp: task_ended_def)
    qed
  next
    case MEnd
    then obtain i where "\<not> task_ended (tasks s i)" using assms(2) by blast
    moreover have "tasks s i \<noteq> TNone" using assms(1) MEnd by (cases i) (auto simp: tasks_inv_def)
    ultimately show ?thesis using run [of i] by (auto simp: task_ended_def)
  qed
qed

interpretation any: live_machine "task_step d" StartTwoTasks tasks_inv
  "\<lambda>s. main_at s = MEnd \<and> task_ended (tasks s False) \<and> task_ended (tasks s True)" for d :: bool
  by unfold_locales (use tasks_inv_init tasks_inv_step tasks_progress in blast)+

interpretation seq: safe_machine "task_step False" StartTwoTasks seq_inv
proof (unfold_locales, goal_cases)
  case 1
  show ?case using tasks_inv_init by (simp add: seq_inv_def StartTwoTasks_def)
qed (rule seq_inv_step)

section \<open>Properties\<close>

text \<open>The counter of \<open>counter.cpp\<close> loses no update: under any interleaving of any number of threads its value
  is the number of increments less the number of decrements written so far, at most one thread is between lock
  and unlock, and \<open>get\<close> is about to return the value at that very moment.\<close>

theorem counter_exact:
  assumes "reach counter_step counter_init c"
  shows "cvalue c = int (increments c) - int (decrements c) \<and>
    (inside (cpcs c t) \<and> inside (cpcs c u) \<longrightarrow> t = u) \<and>
    (\<forall>v. cpcs c t = CUnlock Get v \<longrightarrow> v = int (increments c) - int (decrements c))"
proof -
  have inv: "counter_inv c" using counter.reach_inv [OF assms] .
  then have "cpc_ok (cvalue c) (cpcs c t)" "inside (cpcs c t) \<longleftrightarrow> clock c = Some t" "inside (cpcs c u) \<longleftrightarrow> clock c = Some u"
    "cvalue c = int (increments c) - int (decrements c)"
    by (auto simp: counter_inv_def)
  then show ?thesis by auto
qed

theorem counter_exact_witness:
  "\<exists>c. exec counter_step [Call 1 Increment, Call 2 Decrement, Run 1, Run 1, Run 1, Run 1, Call 1 Increment, Run 2,
     Run 2, Run 2, Run 2, Run 1, Run 1, Run 1, Run 1, Call 3 Get, Run 3, Run 3] counter_init = Some c \<and>
     cpcs c 3 = CUnlock Get 1 \<and> increments c = 2 \<and> decrements c = 1 \<and> cvalue c = 1"
proof -
  obtain c where c: "exec counter_step [Call 1 Increment, Call 2 Decrement, Run 1, Run 1, Run 1, Run 1, Call 1 Increment,
     Run 2, Run 2, Run 2, Run 2, Run 1, Run 1, Run 1, Run 1, Call 3 Get, Run 3, Run 3] counter_init = Some c"
     "cpcs c 3 = CUnlock Get 1" "increments c = 2" "decrements c = 1"
    by (simp add: counter_init_def counter_at_def)
  with counter_exact [OF reachI [OF c(1)]] show ?thesis by simp
qed

text \<open>The callback runs exactly once, but only because the tasks run one after the other, each launch waiting
  for its task; were the two tasks really concurrent it would run at least once, and it could run twice, since
  the decrement and the test are two accesses of the counter.\<close>

theorem callback_once:
  assumes "reach (task_step d) StartTwoTasks s" "\<forall>l. task_step d l s = None"
  shows "1 \<le> calls s \<and> (\<not> d \<longrightarrow> calls s = 1) \<and>
    (\<exists>u. reach (task_step True) StartTwoTasks u \<and> main_at u = MEnd \<and> calls u = 2)"
proof -
  have inv: "tasks_inv s" using any.reach_inv [OF assms(1)] .
  have fin: "task_ended (tasks s False)" "task_ended (tasks s True)" using any.stuck_final [OF assms] by auto
  have "1 \<le> calls s" using inv fin by (auto simp: tasks_inv_def tasks_ok_def task_ended_def)
  moreover have "calls s = 1" if "\<not> d"
  proof -
    have "reach (task_step False) StartTwoTasks s" using assms(1) that by simp
    then have "seq_inv s" by (rule seq.reach_inv)
    then have "tasks s False = TSkipped" using fin by (auto simp: seq_inv_def task_ended_def)
    then have "tasks s True = TCalled" using inv fin by (auto simp: tasks_inv_def tasks_ok_def task_ended_def)
    with \<open>tasks s False = TSkipped\<close> inv show ?thesis by (simp add: tasks_inv_def tasks_ok_def)
  qed
  moreover have "\<exists>u. reach (task_step True) StartTwoTasks u \<and> main_at u = MEnd \<and> calls u = 2"
  proof -
    obtain u where u: "exec (task_step True) [MainThread, MainThread, Task False, Task True, Task False, Task True,
      Task False, Task True] StartTwoTasks = Some u" "main_at u = MEnd" "calls u = 2"
      by (simp add: StartTwoTasks_def asyncCall_def parallel_def next_task_def)
    from reachI [OF u(1)] u(2,3) show ?thesis by blast
  qed
  ultimately show ?thesis by simp
qed

theorem callback_once_witness:
  "\<exists>s. exec (task_step False) [MainThread, Task False, Task False, MainThread, MainThread, Task True, Task True, Task True,
     MainThread] StartTwoTasks = Some s \<and> main_at s = MEnd \<and> calls s = 1"
proof -
  obtain s where s: "exec (task_step False) [MainThread, Task False, Task False, MainThread, MainThread, Task True, Task True,
     Task True, MainThread] StartTwoTasks = Some s" "main_at s = MEnd" "tasks s False = TSkipped" "tasks s True = TCalled"
    by (simp add: StartTwoTasks_def asyncCall_def parallel_def next_task_def task_ended_def)
  have "task_step False l s = None" for l
  proof (cases l)
    case (Task i)
    then show ?thesis using s(3,4) by (cases i) (simp_all add: parallel_def)
  qed (use s(2) in \<open>simp add: asyncCall_def\<close>)
  then have "calls s = 1" using callback_once [OF reachI [OF s(1)]] by simp
  with s(1,2) show ?thesis by blast
qed

end
