(* ===== verification/Dining_Philosophers.thy ===== *)
theory Dining_Philosophers
  imports Semaphores
begin

text \<open>
  The four programs \<open>threads-sema/dining_philosophers_deadlock.c\<close>, \<open>..._no_deadlock.c\<close> and their variants
  \<open>..._print.c\<close>, which serialise their output with a semaphore.

  The order in which a philosopher waits for the forks is the parameter \<open>g\<close>: \<open>get_forks\<close> of the deadlock files or
  \<open>get_forks_nd\<close> of the others. A position carries the number of iterations done. \<open>num_loops\<close> is a parameter
  \<open>L\<close>. \<open>think\<close> and \<open>eat\<close> are empty in the source; a philosopher eats at \<open>Eat\<close>.
\<close>

section \<open>The programs\<close>

definition left :: "nat \<Rightarrow> nat" where
  "left p = p"

definition right :: "nat \<Rightarrow> nat" where
  "right p = (p + 1) mod 5"

type_synonym fork_order = "nat \<Rightarrow> nat \<times> nat"

definition get_forks :: fork_order where
  "get_forks p = (left p, right p)"

definition get_forks_nd :: fork_order where
  "get_forks_nd p = (if p = 4 then (right p, left p) else (left p, right p))"

datatype dpos = Loop nat | First nat | Second nat | Eat nat | PutRight nat | Returned

record dining =
  forks :: "nat \<Rightarrow> sem"
  at_table :: "nat \<Rightarrow> dpos"

definition dining_main :: dining where
  "dining_main = \<lparr>forks = (\<lambda>_. sem_init 1), at_table = (\<lambda>_. Loop 0)\<rparr>"

definition set_fork :: "nat \<Rightarrow> nat \<Rightarrow> dpos \<Rightarrow> sem \<Rightarrow> dining \<Rightarrow> dining" where
  "set_fork p f q v s = s\<lparr>forks := (forks s)(f := v), at_table := (at_table s)(p := q)\<rparr>"

definition philosopher :: "fork_order \<Rightarrow> nat \<Rightarrow> nat \<Rightarrow> dining \<Rightarrow> dining option" where
  "philosopher g L p s =
     (case at_table s p of
        Loop i \<Rightarrow> Some (s\<lparr>at_table := (at_table s)(p := (if i < L then First i else Returned))\<rparr>)
      | First i \<Rightarrow>
          map_option (\<lambda>v. set_fork p (fst (g p)) (Second i) v s) (sem_wait (forks s (fst (g p))))
      | Second i \<Rightarrow>
          map_option (\<lambda>v. set_fork p (snd (g p)) (Eat i) v s) (sem_wait (forks s (snd (g p))))
      | Eat i \<Rightarrow> Some (set_fork p (left p) (PutRight i) (sem_post (forks s (left p))) s)
      | PutRight i \<Rightarrow> Some (set_fork p (right p) (Loop (i + 1)) (sem_post (forks s (right p))) s)
      | Returned \<Rightarrow> None)"

definition dining_step :: "fork_order \<Rightarrow> nat \<Rightarrow> nat \<Rightarrow> dining \<Rightarrow> dining option" where
  "dining_step g L p s = (if p < 5 then philosopher g L p s else None)"

text \<open>The variants that print. \<open>space\<close> takes \<open>print_lock\<close>, \<open>space_end\<close> gives it back. \<open>to_say\<close> holds the
  messages a philosopher prints before the next step of its loop, \<open>printing\<close> says that it holds the lock.\<close>

datatype message = Start | Think | Try nat | EatMsg | Done

definition says :: "fork_order \<Rightarrow> nat \<Rightarrow> dpos \<Rightarrow> message list" where
  "says g p q =
     (case q of First i \<Rightarrow> [Think, Try (fst (g p))] | Second i \<Rightarrow> [Try (snd (g p))] | Eat i \<Rightarrow> [EatMsg]
      | Loop (Suc i) \<Rightarrow> [Done] | _ \<Rightarrow> [])"

record dining_print =
  table :: dining
  print_lock :: sem
  to_say :: "nat \<Rightarrow> message list"
  printing :: "nat \<Rightarrow> bool"
  screen :: "(nat \<times> message) list"

definition print_main :: dining_print where
  "print_main = \<lparr>table = dining_main, print_lock = sem_init 1, to_say = (\<lambda>_. [Start]),
     printing = (\<lambda>_. False), screen = []\<rparr>"

definition space :: "nat \<Rightarrow> message \<Rightarrow> dining_print \<Rightarrow> dining_print option" where
  "space p m s = map_option (\<lambda>v. s\<lparr>print_lock := v, printing := (printing s)(p := True),
     screen := screen s @ [(p, m)]\<rparr>) (sem_wait (print_lock s))"

definition space_end :: "nat \<Rightarrow> dining_print \<Rightarrow> dining_print" where
  "space_end p s = s\<lparr>print_lock := sem_post (print_lock s), printing := (printing s)(p := False),
     to_say := (to_say s)(p := tl (to_say s p))\<rparr>"

definition philosopher_print :: "fork_order \<Rightarrow> nat \<Rightarrow> nat \<Rightarrow> dining_print \<Rightarrow> dining_print option" where
  "philosopher_print g L p s =
     (case to_say s p of
        m # ms \<Rightarrow> if printing s p then Some (space_end p s) else space p m s
      | [] \<Rightarrow> map_option (\<lambda>d. s\<lparr>table := d, to_say := (to_say s)(p := says g p (at_table d p))\<rparr>)
          (dining_step g L p (table s)))"

definition print_step :: "fork_order \<Rightarrow> nat \<Rightarrow> nat \<Rightarrow> dining_print \<Rightarrow> dining_print option" where
  "print_step g L p s = (if p < 5 then philosopher_print g L p s else None)"

section \<open>Invariant\<close>

fun held :: "fork_order \<Rightarrow> nat \<Rightarrow> dpos \<Rightarrow> nat set" where
  "held g p (Second i) = {fst (g p)}"
| "held g p (Eat i) = {left p, right p}"
| "held g p (PutRight i) = {right p}"
| "held g p q = {}"

fun laps_ok :: "nat \<Rightarrow> dpos \<Rightarrow> bool" where
  "laps_ok L (Loop i) = (i \<le> L)"
| "laps_ok L (First i) = (i < L)"
| "laps_ok L (Second i) = (i < L)"
| "laps_ok L (Eat i) = (i < L)"
| "laps_ok L (PutRight i) = (i < L)"
| "laps_ok L Returned = True"

definition forks_ok :: "(nat \<Rightarrow> sem) \<Rightarrow> (nat \<Rightarrow> nat set) \<Rightarrow> bool" where
  "forks_ok fk H \<longleftrightarrow> (\<forall>f. fk f = (if \<exists>p<5. f \<in> H p then 0 else 1)) \<and>
     (\<forall>p<5. \<forall>q<5. p \<noteq> q \<longrightarrow> H p \<inter> H q = {})"

definition dining_inv :: "fork_order \<Rightarrow> nat \<Rightarrow> dining \<Rightarrow> bool" where
  "dining_inv g L s \<longleftrightarrow> forks_ok (forks s) (\<lambda>p. held g p (at_table s p)) \<and> (\<forall>p<5. laps_ok L (at_table s p))"

text \<open>Both orders take the left and the right fork, which differ.\<close>

definition two_forks :: "fork_order \<Rightarrow> bool" where
  "two_forks g \<longleftrightarrow> (\<forall>p<5. {fst (g p), snd (g p)} = {left p, right p} \<and> left p \<noteq> right p)"

lemma less_5: "(p::nat) < 5 \<longleftrightarrow> p = 0 \<or> p = 1 \<or> p = 2 \<or> p = 3 \<or> p = 4"
  by auto

lemma two_forks_orders: "two_forks get_forks" "two_forks get_forks_nd"
  by (auto simp: two_forks_def get_forks_def get_forks_nd_def left_def right_def less_5)

lemma forks_take:
  assumes ok: "forks_ok fk H" and p: "p < 5" and f: "fk f \<noteq> 0" and H': "H' p = insert f (H p)" "\<And>q. q \<noteq> p \<Longrightarrow> H' q = H q"
  shows "forks_ok (fk(f := fk f - 1)) H'"
proof -
  have v: "fk x = (if \<exists>p<5. x \<in> H p then 0 else 1)" for x using ok by (simp add: forks_ok_def)
  have free: "f \<notin> H q" if "q < 5" for q using v [of f] f that by (auto split: if_splits)
  have "(fk(f := fk f - 1)) x = (if \<exists>q<5. x \<in> H' q then 0 else 1)" for x
  proof (cases "x = f")
    case True
    then show ?thesis using v [of f] free H'(1) p by auto
  next
    case False
    then have "(x \<in> H' q) = (x \<in> H q)" for q using H' by (cases "q = p") auto
    then show ?thesis using v [of x] False by simp
  qed
  moreover have "H' q \<inter> H' r = {}" if "q < 5" "r < 5" "q \<noteq> r" for q r
    using ok that free H' unfolding forks_ok_def by (cases "q = p"; cases "r = p") auto
  ultimately show ?thesis by (simp add: forks_ok_def)
qed

lemma forks_put:
  assumes ok: "forks_ok fk H" and p: "p < 5" and f: "f \<in> H p" and H': "H' p = H p - {f}" "\<And>q. q \<noteq> p \<Longrightarrow> H' q = H q"
  shows "forks_ok (fk(f := fk f + 1)) H'"
proof -
  have v: "fk x = (if \<exists>p<5. x \<in> H p then 0 else 1)" for x using ok by (simp add: forks_ok_def)
  have other: "f \<notin> H q" if "q < 5" "q \<noteq> p" for q using ok that f p unfolding forks_ok_def by blast
  have "(fk(f := fk f + 1)) x = (if \<exists>q<5. x \<in> H' q then 0 else 1)" for x
  proof (cases "x = f")
    case True
    then have "\<not> (\<exists>q<5. x \<in> H' q)" using other H' by (metis Diff_iff insertI1)
    then show ?thesis using True v [of f] f p by auto
  next
    case False
    then have "(x \<in> H' q) = (x \<in> H q)" for q using H' by (cases "q = p") auto
    then show ?thesis using v [of x] False by simp
  qed
  moreover have "H' q \<inter> H' r = {}" if "q < 5" "r < 5" "q \<noteq> r" for q r
  proof -
    have "H q \<inter> H r = {}" using ok that by (simp add: forks_ok_def)
    then show ?thesis using H' by (cases "q = p"; cases "r = p") auto
  qed
  ultimately show ?thesis by (simp add: forks_ok_def)
qed

lemma forks_same: "forks_ok fk H \<Longrightarrow> (\<And>q. H' q = H q) \<Longrightarrow> forks_ok fk H'"
  by (simp add: forks_ok_def)

lemma dining_inv_step:
  assumes g: "two_forks g" and inv: "dining_inv g L s" and step: "dining_step g L p s = Some u"
  shows "dining_inv g L u"
proof -
  have p: "p < 5" "philosopher g L p s = Some u" using step by (auto simp: dining_step_def split: if_splits)
  have fo: "forks_ok (forks s) (\<lambda>q. held g q (at_table s q))" and lo: "\<And>q. q < 5 \<Longrightarrow> laps_ok L (at_table s q)"
    using inv by (auto simp: dining_inv_def)
  have two: "{fst (g p), snd (g p)} = {left p, right p}" "left p \<noteq> right p" using g p(1) by (auto simp: two_forks_def)
  have finish: "dining_inv g L u"
    if "forks_ok (forks u) (\<lambda>q. held g q (at_table u q))" "laps_ok L (at_table u p)"
      "\<And>q. q \<noteq> p \<Longrightarrow> at_table u q = at_table s q"
    using that lo by (metis dining_inv_def)
  show ?thesis
  proof (cases "at_table s p")
    case (Loop i)
    then have u: "u = s\<lparr>at_table := (at_table s)(p := (if i < L then First i else Returned))\<rparr>"
      using p(2) by (simp add: philosopher_def)
    show ?thesis by (rule finish) (use forks_same [OF fo] Loop u lo [OF p(1)] in auto)
  next
    case (First i)
    then have u: "u = set_fork p (fst (g p)) (Second i) (forks s (fst (g p)) - 1) s" "forks s (fst (g p)) \<noteq> 0"
      using p(2) by (auto simp: philosopher_def sem_wait_def split: if_splits)
    have "forks_ok ((forks s)(fst (g p) := forks s (fst (g p)) - 1)) (\<lambda>q. held g q (at_table u q))"
      by (rule forks_take [OF fo p(1) u(2)]) (use First u in \<open>simp_all add: set_fork_def\<close>)
    then show ?thesis by (intro finish) (use First u lo [OF p(1)] in \<open>simp_all add: set_fork_def\<close>)
  next
    case (Second i)
    then have u: "u = set_fork p (snd (g p)) (Eat i) (forks s (snd (g p)) - 1) s" "forks s (snd (g p)) \<noteq> 0"
      using p(2) by (auto simp: philosopher_def sem_wait_def split: if_splits)
    have "forks_ok ((forks s)(snd (g p) := forks s (snd (g p)) - 1)) (\<lambda>q. held g q (at_table u q))"
      by (rule forks_take [OF fo p(1) u(2)]) (use Second u two in \<open>auto simp: set_fork_def\<close>)
    then show ?thesis by (intro finish) (use Second u lo [OF p(1)] in \<open>simp_all add: set_fork_def\<close>)
  next
    case (Eat i)
    then have u: "u = set_fork p (left p) (PutRight i) (forks s (left p) + 1) s"
      using p(2) by (simp add: philosopher_def sem_post_def)
    have "forks_ok ((forks s)(left p := forks s (left p) + 1)) (\<lambda>q. held g q (at_table u q))"
      by (rule forks_put [OF fo p(1)]) (use Eat u two in \<open>auto simp: set_fork_def\<close>)
    then show ?thesis by (intro finish) (use Eat u lo [OF p(1)] in \<open>simp_all add: set_fork_def\<close>)
  next
    case (PutRight i)
    then have u: "u = set_fork p (right p) (Loop (i + 1)) (forks s (right p) + 1) s"
      using p(2) by (simp add: philosopher_def sem_post_def)
    have "forks_ok ((forks s)(right p := forks s (right p) + 1)) (\<lambda>q. held g q (at_table u q))"
      by (rule forks_put [OF fo p(1)]) (use PutRight u in \<open>auto simp: set_fork_def\<close>)
    then show ?thesis by (intro finish) (use PutRight u lo [OF p(1)] in \<open>simp_all add: set_fork_def\<close>)
  qed (use p(2) in \<open>simp add: philosopher_def\<close>)
qed

lemma dining_inv_init: "dining_inv g L dining_main"
  by (simp add: dining_inv_def dining_main_def forks_ok_def sem_init_def)

section \<open>Termination\<close>

fun pos_rank :: "nat \<Rightarrow> dpos \<Rightarrow> nat" where
  "pos_rank L (Loop i) = 5 * (L - i) + 1"
| "pos_rank L (First i) = 5 * (L - i)"
| "pos_rank L (Second i) = 5 * (L - i) - 1"
| "pos_rank L (Eat i) = 5 * (L - i) - 2"
| "pos_rank L (PutRight i) = 5 * (L - i) - 3"
| "pos_rank L Returned = 0"

definition dining_rank :: "nat \<Rightarrow> dining \<Rightarrow> nat" where
  "dining_rank L s = (\<Sum>p<5. pos_rank L (at_table s p))"

definition all_returned :: "dining \<Rightarrow> bool" where
  "all_returned s \<longleftrightarrow> (\<forall>p<5. at_table s p = Returned)"

lemma philosopher_rank:
  assumes "dining_inv g L s" "dining_step g L p s = Some u"
  shows "dining_rank L u < dining_rank L s"
proof -
  have p: "p < 5" "philosopher g L p s = Some u" "laps_ok L (at_table s p)"
    using assms by (auto simp: dining_step_def dining_inv_def split: if_splits)
  have "pos_rank L (at_table u p) < pos_rank L (at_table s p) \<and> (\<forall>q. q \<noteq> p \<longrightarrow> at_table u q = at_table s q)"
    using p(2,3) by (cases "at_table s p") (auto simp: philosopher_def set_fork_def)
  then show ?thesis unfolding dining_rank_def by (intro sum_decreases [OF p(1)]) auto
qed

lemma dining_step_waits:
  assumes "dining_step g L p s = None" "p < 5"
  shows "at_table s p = Returned \<or> (\<exists>i. at_table s p = First i \<and> forks s (fst (g p)) = 0) \<or>
    (\<exists>i. at_table s p = Second i \<and> forks s (snd (g p)) = 0)"
  using assms by (cases "at_table s p") (auto simp: dining_step_def philosopher_def sem_wait_def split: if_splits)

text \<open>A fork that is taken in a state where everybody waits is somebody's first fork. So nobody waits for the fork
  4 as the second one; then nobody waits for 3, 2, 1, and nobody has a fork at all.\<close>

lemma nd_orders:
  "p < 5 \<Longrightarrow> fst (get_forks_nd p) = (if p = 4 then 0 else p)"
  "p < 5 \<Longrightarrow> snd (get_forks_nd p) = (if p = 4 then 4 else Suc p)"
  by (auto simp: get_forks_nd_def left_def right_def)

lemma dining_progress:
  assumes inv: "dining_inv get_forks_nd L s" and "\<not> all_returned s"
  shows "\<exists>p u. dining_step get_forks_nd L p s = Some u"
proof (rule ccontr)
  assume no: "\<not> ?thesis"
  note w = dining_step_waits [where g = get_forks_nd and L = L and s = s]
  have stuck: "at_table s p = Returned \<or> (\<exists>i. at_table s p = First i \<and> forks s (fst (get_forks_nd p)) = 0) \<or>
      (\<exists>i. at_table s p = Second i \<and> forks s (snd (get_forks_nd p)) = 0)" if "p < 5" for p
    using w [OF _ that] no by fastforce
  have fk: "forks s f = (if \<exists>p<5. f \<in> held get_forks_nd p (at_table s p) then 0 else 1)" for f
    using inv by (simp add: dining_inv_def forks_ok_def)
  have own: "\<exists>q<5. f = fst (get_forks_nd q) \<and> (\<exists>i. at_table s q = Second i)" if f: "forks s f = 0" for f
  proof -
    obtain q where q: "q < 5" "f \<in> held get_forks_nd q (at_table s q)" using fk [of f] f by (auto split: if_splits)
    show ?thesis using stuck [OF q(1)] q by auto
  qed
  have nsec: "\<not> (\<exists>i. at_table s p = Second i)" if "p < 5" for p
  proof -
    have taken: "\<exists>q<5. snd (get_forks_nd p) = fst (get_forks_nd q) \<and> (\<exists>i. at_table s q = Second i)"
      if "\<exists>i. at_table s p = Second i" "p < 5" for p
      using stuck [OF that(2)] that own [of "snd (get_forks_nd p)"] by auto
    have next_waits: "\<exists>i. at_table s (Suc p) = Second i" if "\<exists>i. at_table s p = Second i" "p < 4" for p
      using taken [OF that(1)] that(2) nd_orders by (auto split: if_splits)
    have 4: "\<not> (\<exists>i. at_table s 4 = Second i)"
      using taken [of 4] nd_orders by (auto split: if_splits)
    have "\<not> (\<exists>i. at_table s (4 - n) = Second i)" if "n \<le> 4" for n
      using that
    proof (induction n)
      case (Suc n)
      then have "Suc (4 - Suc n) = 4 - n" "4 - Suc n < 4" by simp_all
      with next_waits [of "4 - Suc n"] Suc show ?case by auto
    qed (use 4 in simp)
    from this [of "4 - p"] that show ?thesis by simp
  qed
  have free: "forks s f \<noteq> 0" for f using own [of f] nsec by blast
  have "at_table s p = Returned" if "p < 5" for p using stuck [OF that] nsec [OF that] free by blast
  with assms(2) show False by (simp add: all_returned_def)
qed

interpretation dining: safe_machine "dining_step get_forks L" dining_main "dining_inv get_forks L" for L :: nat
  by unfold_locales (use dining_inv_init dining_inv_step [OF two_forks_orders(1)] in blast)+

interpretation dining_nd: finite_machine "dining_step get_forks_nd L" dining_main "dining_inv get_forks_nd L"
  all_returned "dining_rank L" for L :: nat
  by unfold_locales
    (use dining_inv_init dining_inv_step [OF two_forks_orders(2)] dining_progress philosopher_rank in blast)+

lemma eating_exclusive:
  assumes "dining_inv g L s" "p < 5" "q < 5" "p \<noteq> q" "at_table s p = Eat i" "at_table s q = Eat j"
  shows "{left p, right p} \<inter> {left q, right q} = {}"
proof -
  have "held g p (at_table s p) \<inter> held g q (at_table s q) = {}"
    using assms(1-4) by (simp add: dining_inv_def forks_ok_def)
  with assms(5,6) show ?thesis by simp
qed

section \<open>Printing\<close>

text \<open>A state of the printing program is a state of the silent one with output under way.\<close>

definition print_inv :: "dining_print \<Rightarrow> bool" where
  "print_inv s \<longleftrightarrow> print_lock s = (if \<exists>p<5. printing s p then 0 else 1) \<and>
     (\<forall>p<5. \<forall>q<5. printing s p \<and> printing s q \<longrightarrow> p = q) \<and>
     (\<forall>p<5. printing s p \<longrightarrow> to_say s p \<noteq> [])"

lemma print_inv_init: "print_inv print_main"
  by (simp add: print_inv_def print_main_def sem_init_def)

lemma print_inv_step:
  assumes inv: "print_inv s" and step: "print_step g L p s = Some u"
  shows "print_inv u"
proof -
  have p: "p < 5" "philosopher_print g L p s = Some u" using step by (auto simp: print_step_def split: if_splits)
  have i: "print_lock s = (if \<exists>p<5. printing s p then 0 else 1)" "\<And>q r. q < 5 \<Longrightarrow> r < 5 \<Longrightarrow> printing s q \<Longrightarrow> printing s r \<Longrightarrow> q = r"
    "\<And>q. q < 5 \<Longrightarrow> printing s q \<Longrightarrow> to_say s q \<noteq> []"
    using inv unfolding print_inv_def by blast+
  show ?thesis
  proof (cases "to_say s p")
    case Nil
    then have np: "\<not> printing s p" using i(3) p(1) by blast
    obtain d where "u = s\<lparr>table := d, to_say := (to_say s)(p := says g p (at_table d p))\<rparr>"
      using p(2) Nil by (auto simp: philosopher_print_def)
    with np i show ?thesis by (auto simp: print_inv_def)
  next
    case (Cons m ms)
    show ?thesis
    proof (cases "printing s p")
      case True
      then have u: "u = space_end p s" using p(2) Cons by (simp add: philosopher_print_def)
      have lock: "print_lock s = 0" using i(1) p(1) True by auto
      have other: "\<not> printing s q" if "q < 5" "q \<noteq> p" for q using i(2) [OF that(1) p(1)] True that(2) by blast
      then have none: "\<not> (\<exists>q<5. ((printing s)(p := False)) q)" by auto
      show ?thesis unfolding u print_inv_def space_end_def using lock none by (auto simp: sem_post_def)
    next
      case False
      then have lock: "print_lock s \<noteq> 0"
        and u: "printing u = (printing s)(p := True)" "print_lock u = print_lock s - 1" "to_say u = to_say s"
        using p(2) Cons by (auto simp: philosopher_print_def space_def sem_wait_def split: if_splits)
      have none: "\<not> (\<exists>q<5. printing s q)" using lock i(1) by (auto split: if_splits)
      show ?thesis unfolding print_inv_def u using none i(1) Cons p(1) by auto
    qed
  qed
qed

interpretation print: safe_machine "print_step g L" print_main print_inv for g :: fork_order and L :: nat
  by unfold_locales (use print_inv_init print_inv_step in blast)+

lemma print_simulates:
  assumes "print_step g L p s = Some u"
  shows "table u = table s \<or> dining_step g L p (table s) = Some (table u)"
  using assms
  by (auto simp: print_step_def philosopher_print_def space_def space_end_def split: if_splits list.splits)

lemma print_reach: "reach (print_step g L) print_main s \<Longrightarrow> reach (dining_step g L) dining_main (table s)"
proof (induction rule: reach.induct)
  case reach_init
  show ?case by (simp add: print_main_def reach.reach_init)
next
  case (reach_step s p u)
  then show ?case using print_simulates [OF reach_step(2)] by (metis reach.reach_step)
qed

lemma print_stuck:
  assumes inv: "print_inv s" and stuck: "\<And>p. print_step g L p s = None"
  shows "dining_step g L p (table s) = None" "p < 5 \<Longrightarrow> to_say s p = []"
proof -
  have n: "to_say s p = []" if "p < 5" for p
  proof (rule ccontr)
    assume say: "to_say s p \<noteq> []"
    show False
    proof (cases "\<exists>q<5. printing s q")
      case True
      then obtain q where q: "q < 5" "printing s q" by blast
      then have "to_say s q \<noteq> []" using inv by (simp add: print_inv_def)
      then have "print_step g L q s \<noteq> None" using q by (auto simp: print_step_def philosopher_print_def neq_Nil_conv)
      then show False using stuck [of q] by simp
    next
      case False
      then have "print_lock s = 1" "\<not> printing s p" using inv that by (auto simp: print_inv_def)
      then have "print_step g L p s \<noteq> None" using say that
        by (auto simp: print_step_def philosopher_print_def space_def sem_wait_def neq_Nil_conv)
      then show False using stuck [of p] by simp
    qed
  qed
  then show "p < 5 \<Longrightarrow> to_say s p = []" .
  show "dining_step g L p (table s) = None"
  proof (cases "p < 5")
    case True
    with n have "to_say s p = []" by simp
    then show ?thesis using stuck [of p] True by (simp add: print_step_def philosopher_print_def)
  qed (simp add: dining_step_def)
qed

section \<open>Properties\<close>

text \<open>With the asymmetric order of the no-deadlock files every interleaving of the five philosophers ends, after a
  bounded number of steps, and one that cannot go on has brought every philosopher through all its loops; two
  philosophers that eat at the same time share no fork.\<close>

theorem dining_no_deadlock:
  assumes "exec (dining_step get_forks_nd L) ls dining_main = Some s"
  shows "length ls \<le> dining_rank L dining_main \<and>
    ((\<forall>p. dining_step get_forks_nd L p s = None) \<longrightarrow> all_returned s) \<and>
    (p < 5 \<and> q < 5 \<and> p \<noteq> q \<and> at_table s p = Eat i \<and> at_table s q = Eat j \<longrightarrow>
      {left p, right p} \<inter> {left q, right q} = {})"
  using dining_nd.run_bound [OF assms] dining_nd.stuck_final [OF reachI [OF assms]]
    eating_exclusive [OF dining_nd.reach_inv [OF reachI [OF assms]]] by blast

definition two_eat :: "nat list" where
  "two_eat = [4, 4, 2, 2, 4, 2, 1, 1]"

theorem dining_no_deadlock_witness:
  "\<exists>s. exec (dining_step get_forks_nd 1) two_eat dining_main = Some s \<and>
     at_table s 2 = Eat 0 \<and> at_table s 4 = Eat 0 \<and> {left 2, right 2} \<inter> {left 4, right 4} = {}"
proof -
  obtain s where s: "exec (dining_step get_forks_nd 1) two_eat dining_main = Some s"
      "at_table s 2 = Eat 0" "at_table s 4 = Eat 0"
    by (simp add: two_eat_def dining_main_def dining_step_def philosopher_def set_fork_def get_forks_nd_def
        left_def right_def sem_defs)
  with dining_no_deadlock [OF s(1), of 2 4 0 0] show ?thesis by auto
qed

text \<open>With the symmetric order of the deadlock files the five philosophers can block each other for ever, each
  holding its left fork, as soon as there is one loop; neighbours still never eat together.\<close>

theorem dining_deadlock:
  assumes "0 < L"
  shows "(\<exists>s. reach (dining_step get_forks L) dining_main s \<and>
      (\<forall>p<5. at_table s p = Second 0 \<and> dining_step get_forks L p s = None)) \<and>
    (reach (dining_step get_forks L) dining_main u \<and> p < 5 \<and> q < 5 \<and> p \<noteq> q \<and> at_table u p = Eat i \<and>
      at_table u q = Eat j \<longrightarrow> {left p, right p} \<inter> {left q, right q} = {})"
proof -
  have "map_option (\<lambda>s. (map (forks s) [0, 1, 2, 3, 4], map (at_table s) [0, 1, 2, 3, 4]))
      (exec (dining_step get_forks L) [0, 0, 1, 1, 2, 2, 3, 3, 4, 4] dining_main) =
      Some ([0, 0, 0, 0, 0], [Second 0, Second 0, Second 0, Second 0, Second 0])"
    using assms by (simp add: dining_main_def dining_step_def philosopher_def set_fork_def get_forks_def
        left_def right_def sem_defs)
  then obtain s where s: "exec (dining_step get_forks L) [0, 0, 1, 1, 2, 2, 3, 3, 4, 4] dining_main = Some s"
      "forks s 0 = 0 \<and> forks s 1 = 0 \<and> forks s 2 = 0 \<and> forks s 3 = 0 \<and> forks s 4 = 0"
      "at_table s 0 = Second 0 \<and> at_table s 1 = Second 0 \<and> at_table s 2 = Second 0 \<and> at_table s 3 = Second 0 \<and>
       at_table s 4 = Second 0"
    by auto
  have z: "forks s f = 0" "at_table s f = Second 0" if "f < 5" for f
    using s(2,3) that unfolding less_5 by blast+
  have "right p < 5" for p by (simp add: right_def)
  with z have "at_table s p = Second 0 \<and> dining_step get_forks L p s = None" if "p < 5" for p
    using that by (simp add: dining_step_def philosopher_def get_forks_def sem_wait_def)
  with reachI [OF s(1)] eating_exclusive [OF dining.reach_inv, of L u p q i j] show ?thesis by blast
qed

theorem dining_deadlock_witness:
  "\<exists>s. reach (dining_step get_forks 1) dining_main s \<and> (\<forall>p<5. dining_step get_forks 1 p s = None)"
  using dining_deadlock [of 1 dining_main 0 1 0 0] by auto

text \<open>C33: the printing variants refine the silent ones, for either order of the forks: every reachable state has a
  reachable silent state for its table, the print lock admits one philosopher at a time, and a printing program that
  cannot go on has nothing left to print and its silent one cannot go on either, so printing adds no deadlock.\<close>

theorem printing_refines:
  assumes "reach (print_step g L) print_main s"
  shows "reach (dining_step g L) dining_main (table s) \<and>
    (p < 5 \<and> q < 5 \<and> printing s p \<and> printing s q \<longrightarrow> p = q) \<and>
    ((\<forall>p. print_step g L p s = None) \<longrightarrow>
      (\<forall>p<5. to_say s p = []) \<and> (\<forall>p. dining_step g L p (table s) = None))"
  using print_reach [OF assms] print.reach_inv [OF assms] print_stuck [of s g L] unfolding print_inv_def by blast

theorem printing_refines_witness:
  "\<exists>s. exec (print_step get_forks 1) [0, 0, 0, 1, 1, 0, 0, 0, 0, 0] print_main = Some s \<and>
     screen s = [(0, Start), (1, Start), (0, Think), (0, Try 0)] \<and>
     reach (dining_step get_forks 1) dining_main (table s)"
proof -
  obtain s where s: "exec (print_step get_forks 1) [0, 0, 0, 1, 1, 0, 0, 0, 0, 0] print_main = Some s"
      "screen s = [(0, Start), (1, Start), (0, Think), (0, Try 0)]"
    by (simp add: print_main_def dining_main_def print_step_def philosopher_print_def dining_step_def philosopher_def
        set_fork_def get_forks_def left_def right_def sem_defs space_def space_end_def says_def)
  with printing_refines [OF reachI [OF s(1)]] show ?thesis by blast
qed

end
