(* ===== verification/Bounded_Buffer.thy ===== *)
theory Bounded_Buffer
  imports Monitors
begin

text \<open>
  The producer/consumer programs over a circular array:
  \<open>threads-locks/c++11-Producer-consumer/MultiProducerMultiConsumerBuffer.cpp\<close> (and its copy under
  \<open>threads-locks/condition variable/\<close>), with the condition variables \<open>empty\<close> and \<open>fill\<close>, and
  \<open>MpMCSingleCV.cpp\<close>, with one condition variable and broadcasts.

  The array has \<open>M\<close> places (\<open>MAX\<close>, 1000 in the sources). Producers are the threads 0 to \<open>p - 1\<close>,
  consumers \<open>p\<close> to \<open>m - 1\<close>. A producer makes \<open>np\<close> iterations; a consumer makes \<open>nc\<close>, or loops for ever
  (\<open>None\<close>, the \<open>while(true)\<close> of the sources). \<open>put_hist\<close> and \<open>got_hist\<close> are history variables.
\<close>

section \<open>The circular array\<close>

record ring =
  buffer :: "int list"
  fill_ptr :: nat
  use_ptr :: nat
  count :: nat

definition ring_init :: "nat \<Rightarrow> ring" where
  "ring_init M = \<lparr>buffer = replicate M 0, fill_ptr = 0, use_ptr = 0, count = 0\<rparr>"

definition put :: "nat \<Rightarrow> int \<Rightarrow> ring \<Rightarrow> ring" where
  "put M value r =
     r\<lparr>buffer := (buffer r)[fill_ptr r := value], fill_ptr := (fill_ptr r + 1) mod M, count := count r + 1\<rparr>"

definition get :: "nat \<Rightarrow> ring \<Rightarrow> int \<times> ring" where
  "get M r = (buffer r ! use_ptr r, r\<lparr>use_ptr := (use_ptr r + 1) mod M, count := count r - 1\<rparr>)"

text \<open>\<open>put\<close> of \<open>MpMCSingleCV.cpp\<close> ignores its argument.\<close>

definition put_index :: "nat \<Rightarrow> int \<Rightarrow> ring \<Rightarrow> ring" where
  "put_index M value r = put M (int (fill_ptr r) + 1) r"

definition contents :: "nat \<Rightarrow> ring \<Rightarrow> int list" where
  "contents M r = map (\<lambda>k. buffer r ! ((use_ptr r + k) mod M)) [0..<count r]"

definition ring_ok :: "nat \<Rightarrow> ring \<Rightarrow> bool" where
  "ring_ok M r \<longleftrightarrow> 0 < M \<and> length (buffer r) = M \<and> count r \<le> M \<and> use_ptr r < M \<and>
     fill_ptr r = (use_ptr r + count r) mod M"

lemma ring_ok_init: "0 < M \<Longrightarrow> ring_ok M (ring_init M)"
  by (simp add: ring_ok_def ring_init_def)

lemma contents_init [simp]: "contents M (ring_init M) = []"
  by (simp add: contents_def ring_init_def)

lemma mod_shift_ne: "k < c \<Longrightarrow> c < M \<Longrightarrow> (u + k) mod M \<noteq> (u + c) mod (M :: nat)"
proof
  assume k: "k < c" "c < M" and eq: "(u + k) mod M = (u + c) mod M"
  from eq have "M dvd (u + c) - (u + k)" using k by (metis add_le_cancel_left less_imp_le mod_eq_dvd_iff_nat)
  then have "M dvd c - k" by simp
  with k show False by (metis dvd_imp_le leD less_imp_diff_less zero_less_diff)
qed

lemma put_ok:
  assumes "ring_ok M r" "count r < M"
  shows "ring_ok M (put M v r)" "contents M (put M v r) = contents M r @ [v]" "count (put M v r) = count r + 1"
proof -
  show "count (put M v r) = count r + 1" by (simp add: put_def)
  show "ring_ok M (put M v r)" using assms by (simp add: ring_ok_def put_def mod_Suc_eq)
  have f: "fill_ptr r < length (buffer r)" "fill_ptr r = (use_ptr r + count r) mod M"
    using assms by (simp_all add: ring_ok_def)
  have "(buffer r)[fill_ptr r := v] ! ((use_ptr r + k) mod M) = buffer r ! ((use_ptr r + k) mod M)"
    if "k < count r" for k
    using mod_shift_ne [OF that assms(2), of "use_ptr r"] f(2) by simp
  then show "contents M (put M v r) = contents M r @ [v]"
    using f by (simp add: contents_def put_def)
qed

lemma get_ok:
  assumes r: "ring_ok M r" "0 < count r" and g: "get M r = (v, r')"
  shows "ring_ok M r'" "contents M r = v # contents M r'" "count r' = count r - 1"
proof -
  have r': "v = buffer r ! use_ptr r" "r' = r\<lparr>use_ptr := (use_ptr r + 1) mod M, count := count r - 1\<rparr>"
    using g by (simp_all add: get_def)
  show "count r' = count r - 1" by (simp add: r')
  obtain c where c: "count r = Suc c" using r(2) by (cases "count r") auto
  show "ring_ok M r'" using r(1) c by (simp add: r' ring_ok_def mod_add_left_eq)
  have u: "use_ptr r mod M = use_ptr r" using r(1) by (simp add: ring_ok_def)
  have "[0..<Suc c] = 0 # map Suc [0..<c]" by (simp add: map_Suc_upt upt_conv_Cons)
  then show "contents M r = v # contents M r'"
    using u by (simp add: contents_def r' c mod_add_left_eq del: upt_Suc)
qed

lemma contents_length: "length (contents M r) = count r"
  by (simp add: contents_def)

section \<open>Two condition variables\<close>

datatype bpc = PLoop nat | PWait nat | CLoop nat | CWait nat | BDone

record buf =
  ring :: ring
  bpcs :: "tid \<Rightarrow> bpc"
  put_hist :: "int list"
  got_hist :: "int list"

definition buf_init :: "nat \<Rightarrow> nat \<Rightarrow> buf" where
  "buf_init M p =
     \<lparr>ring = ring_init M, bpcs = (\<lambda>i. if i < p then PLoop 0 else CLoop 0), put_hist = [], got_hist = []\<rparr>"

fun empty :: "bpc \<Rightarrow> bpc option" where
  "empty (PWait i) = Some (PLoop i)"
| "empty b = None"

fun fill :: "bpc \<Rightarrow> bpc option" where
  "fill (CWait k) = Some (CLoop k)"
| "fill b = None"

definition buf_at :: "tid \<Rightarrow> bpc \<Rightarrow> buf \<Rightarrow> buf" where
  "buf_at t b s = s\<lparr>bpcs := (bpcs s)(t := b)\<rparr>"

text \<open>One iteration of \<open>producer\<close>, from locking the mutex (or the exit of the loop) to giving it back.\<close>

definition producer :: "nat \<Rightarrow> nat \<Rightarrow> nat \<Rightarrow> tid option \<Rightarrow> tid \<Rightarrow> nat \<Rightarrow> buf \<Rightarrow> buf option" where
  "producer M np m c t i s =
     (if \<not> i < np then (if c = None then Some (buf_at t BDone s) else None)
      else if count (ring s) = M then (if c = None then Some (buf_at t (PWait i) s) else None)
      else (case notify_one fill m c (bpcs s) of None \<Rightarrow> None
        | Some f \<Rightarrow> Some (buf_at t (PLoop (i + 1))
            (s\<lparr>ring := put M (int i) (ring s), put_hist := put_hist s @ [int i], bpcs := f\<rparr>))))"

definition consumer :: "nat \<Rightarrow> nat option \<Rightarrow> nat \<Rightarrow> tid option \<Rightarrow> tid \<Rightarrow> nat \<Rightarrow> buf \<Rightarrow> buf option" where
  "consumer M nc m c t k s =
     (if nc = Some k then (if c = None then Some (buf_at t BDone s) else None)
      else if count (ring s) = 0 then (if c = None then Some (buf_at t (CWait k) s) else None)
      else (case get M (ring s) of (tmp, r) \<Rightarrow>
        (case notify_one empty m c (bpcs s) of None \<Rightarrow> None
         | Some f \<Rightarrow> Some (buf_at t (CLoop (k + 1))
             (s\<lparr>ring := r, got_hist := got_hist s @ [tmp], bpcs := f\<rparr>)))))"

datatype buf_label = Run tid "tid option" | Wake tid

fun buf_step :: "nat \<Rightarrow> nat \<Rightarrow> nat option \<Rightarrow> nat \<Rightarrow> buf_label \<Rightarrow> buf \<Rightarrow> buf option" where
  "buf_step M np nc m (Run t c) s =
     (if t < m then
        (case bpcs s t of
           PLoop i \<Rightarrow> producer M np m c t i s
         | CLoop k \<Rightarrow> consumer M nc m c t k s
         | _ \<Rightarrow> None)
      else None)"
| "buf_step M np nc m (Wake t) s =
     (if t < m then
        (case bpcs s t of
           PWait i \<Rightarrow> Some (buf_at t (PLoop i) s)
         | CWait k \<Rightarrow> Some (buf_at t (CLoop k) s)
         | _ \<Rightarrow> None)
      else None)"

lemma buf_at_simps [simp]:
  "ring (buf_at t b s) = ring s" "put_hist (buf_at t b s) = put_hist s"
  "got_hist (buf_at t b s) = got_hist s" "bpcs (buf_at t b s) = (bpcs s)(t := b)"
  by (simp_all add: buf_at_def)

lemma empty_iff [simp]: "empty b = Some d \<longleftrightarrow> (\<exists>i. b = PWait i \<and> d = PLoop i)"
  by (cases b) auto

lemma fill_iff [simp]: "fill b = Some d \<longleftrightarrow> (\<exists>k. b = CWait k \<and> d = CLoop k)"
  by (cases b) auto

lemma buf_step_cases:
  assumes "buf_step M np nc m l s = Some u"
  obtains (produce) t i c f where "t < m" "bpcs s t = PLoop i" "i < np" "count (ring s) \<noteq> M"
      "notify_one fill m c (bpcs s) = Some f"
      "u = buf_at t (PLoop (i + 1)) (s\<lparr>ring := put M (int i) (ring s), put_hist := put_hist s @ [int i], bpcs := f\<rparr>)"
  | (full) t i where "t < m" "bpcs s t = PLoop i" "i < np" "count (ring s) = M" "u = buf_at t (PWait i) s"
  | (consume) t k c f v r where "t < m" "bpcs s t = CLoop k" "nc \<noteq> Some k" "count (ring s) \<noteq> 0"
      "get M (ring s) = (v, r)" "notify_one empty m c (bpcs s) = Some f"
      "u = buf_at t (CLoop (k + 1)) (s\<lparr>ring := r, got_hist := got_hist s @ [v], bpcs := f\<rparr>)"
  | (none) t k where "t < m" "bpcs s t = CLoop k" "nc \<noteq> Some k" "count (ring s) = 0" "u = buf_at t (CWait k) s"
  | (pdone) t i where "t < m" "bpcs s t = PLoop i" "\<not> i < np" "u = buf_at t BDone s"
  | (cdone) t k where "t < m" "bpcs s t = CLoop k" "nc = Some k" "u = buf_at t BDone s"
  | (pwake) t i where "t < m" "bpcs s t = PWait i" "u = buf_at t (PLoop i) s"
  | (cwake) t k where "t < m" "bpcs s t = CWait k" "u = buf_at t (CLoop k) s"
proof (cases l)
  case (Wake t)
  then show thesis using assms pwake cwake by (auto split: if_splits bpc.splits)
next
  case (Run t c)
  then have t: "t < m" using assms by (auto split: if_splits)
  show thesis
  proof (cases "bpcs s t")
    case (PLoop i)
    then show thesis using assms Run t produce full pdone
      by (auto simp: producer_def split: if_splits option.splits)
  next
    case (CLoop k)
    then show thesis using assms Run t consume none cdone
      by (auto simp: consumer_def split: if_splits option.splits prod.splits)
  qed (use assms Run t in auto)
qed

text \<open>Threads that sleep, and threads that will still go through the monitor once more.\<close>

fun p_asleep :: "bpc \<Rightarrow> bool" where
  "p_asleep (PWait i) = True"
| "p_asleep b = False"

fun c_asleep :: "bpc \<Rightarrow> bool" where
  "c_asleep (CWait k) = True"
| "c_asleep b = False"

fun p_active :: "nat \<Rightarrow> bpc \<Rightarrow> bool" where
  "p_active np (PLoop i) = (i < np)"
| "p_active np b = False"

fun c_active :: "nat option \<Rightarrow> bpc \<Rightarrow> bool" where
  "c_active nc (CLoop k) = (nc \<noteq> Some k)"
| "c_active nc b = False"

fun bpc_ok :: "nat \<Rightarrow> nat option \<Rightarrow> bool \<Rightarrow> bpc \<Rightarrow> bool" where
  "bpc_ok np nc isp (PLoop i) = isp"
| "bpc_ok np nc isp (PWait i) = (isp \<and> i < np)"
| "bpc_ok np nc isp (CLoop k) = (\<not> isp)"
| "bpc_ok np nc isp (CWait k) = (\<not> isp \<and> nc \<noteq> Some k)"
| "bpc_ok np nc isp BDone = (isp \<or> nc \<noteq> None)"

definition buf_wakes :: "int \<Rightarrow> int \<Rightarrow> int \<Rightarrow> int \<Rightarrow> int \<Rightarrow> int \<Rightarrow> bool" where
  "buf_wakes c z sc ac sp ap \<longleftrightarrow> (sc = 0 \<or> c \<le> ac) \<and> (sp = 0 \<or> z - c \<le> ap)"

definition buf_inv :: "nat \<Rightarrow> nat \<Rightarrow> nat option \<Rightarrow> nat \<Rightarrow> nat \<Rightarrow> buf \<Rightarrow> bool" where
  "buf_inv M np nc p m s \<longleftrightarrow> ring_ok M (ring s) \<and> (\<forall>i<m. bpc_ok np nc (i < p) (bpcs s i)) \<and>
     buf_wakes (int (count (ring s))) (int M) (cnt m c_asleep (bpcs s)) (cnt m (c_active nc) (bpcs s))
       (cnt m p_asleep (bpcs s)) (cnt m (p_active np) (bpcs s))"

lemma bw_put0: "buf_wakes c z 0 ac sp ap \<Longrightarrow> buf_wakes (1 + c) z 0 ac sp (ap - 1)"
  and bw_put1: "buf_wakes c z sc ac sp ap \<Longrightarrow> 1 \<le> sc \<Longrightarrow> buf_wakes (1 + c) z (sc - 1) (ac + 1) sp (ap - 1)"
  and bw_get0: "buf_wakes c z sc ac 0 ap \<Longrightarrow> buf_wakes (c - 1) z sc (ac - 1) 0 ap"
  and bw_get1: "buf_wakes c z sc ac sp ap \<Longrightarrow> 1 \<le> sp \<Longrightarrow> buf_wakes (c - 1) z sc (ac - 1) (sp - 1) (ap + 1)"
  and bw_full: "buf_wakes z z sc ac sp ap \<Longrightarrow> 1 \<le> ap \<Longrightarrow> buf_wakes z z sc ac (sp + 1) (ap - 1)"
  and bw_none: "buf_wakes 0 z sc ac sp ap \<Longrightarrow> 1 \<le> ac \<Longrightarrow> buf_wakes 0 z (sc + 1) (ac - 1) sp ap"
  and bw_pwake: "buf_wakes c z sc ac sp ap \<Longrightarrow> 1 \<le> sp \<Longrightarrow> buf_wakes c z sc ac (sp - 1) (ap + 1)"
  and bw_cwake: "buf_wakes c z sc ac sp ap \<Longrightarrow> 1 \<le> sc \<Longrightarrow> buf_wakes c z (sc - 1) (ac + 1) sp ap"
  and bw_pmore: "buf_wakes c z sc ac sp (ap - 1) \<Longrightarrow> buf_wakes c z sc ac sp ap"
  and bw_cmore: "buf_wakes c z sc (ac - 1) sp ap \<Longrightarrow> buf_wakes c z sc ac sp ap"
  by (auto simp: buf_wakes_def)

lemma fill_asleep: "sleeping m fill f = cnt m c_asleep f"
proof -
  have "(\<lambda>b. fill b \<noteq> None) = c_asleep" by (rule ext) (case_tac b, auto)
  then show ?thesis by simp
qed

lemma empty_asleep: "sleeping m empty f = cnt m p_asleep f"
proof -
  have "(\<lambda>b. empty b \<noteq> None) = p_asleep" by (rule ext) (case_tac b, auto)
  then show ?thesis by simp
qed

lemma buf_inv_init: "0 < M \<Longrightarrow> buf_inv M np nc p m (buf_init M p)"
proof -
  assume "0 < M"
  moreover have "cnt m c_asleep (\<lambda>i. if i < p then PLoop 0 else CLoop 0) = 0"
    "cnt m p_asleep (\<lambda>i. if i < p then PLoop 0 else CLoop 0) = 0"
    by (simp_all add: cnt_eq_0)
  ultimately show ?thesis by (simp add: buf_inv_def buf_init_def ring_ok_init buf_wakes_def)
qed

lemma buf_produce:
  assumes inv: "buf_inv M np nc p m s" and t: "t < m" "bpcs s t = PLoop i" "i < np" "count (ring s) \<noteq> M"
    and n: "notify_one fill m c (bpcs s) = Some f"
  shows "buf_inv M np nc p m (buf_at t (PLoop (i + 1)) (s\<lparr>ring := put M (int i) (ring s), put_hist := h, bpcs := f\<rparr>))"
    (is "buf_inv _ _ _ _ _ ?u")
proof -
  have r: "ring_ok M (ring s)" "count (ring s) < M" using inv t(4) by (auto simp: buf_inv_def ring_ok_def)
  note r' = put_ok [OF r, of "int i"]
  have w: "buf_wakes (int (count (ring s))) (int M) (cnt m c_asleep (bpcs s)) (cnt m (c_active nc) (bpcs s))
       (cnt m p_asleep (bpcs s)) (cnt m (p_active np) (bpcs s))" using inv by (simp add: buf_inv_def)
  have ok: "\<forall>i<m. bpc_ok np nc (i < p) (bpcs s i)" using inv by (simp add: buf_inv_def)
  have okt: "t < p" using ok t by fastforce
  from n show ?thesis
  proof (cases rule: notify_one_cases)
    case nobody
    have "cnt m c_asleep (bpcs s) = 0" using nobody(3) unfolding fill_asleep .
    then have "buf_wakes (1 + int (count (ring s))) (int M) 0 (cnt m (c_active nc) (bpcs s))
       (cnt m p_asleep (bpcs s)) (cnt m (p_active np) (bpcs s) - 1)" using w bw_put0 by simp
    then show ?thesis using bw_pmore [of "1 + int (count (ring s))"] nobody t r' ok okt \<open>cnt m c_asleep (bpcs s) = 0\<close>
      by (cases "Suc i < np") (auto simp: buf_inv_def cnt_simps)
  next
    case (somebody j b)
    then obtain k where k: "bpcs s j = CWait k" "b = CLoop k" by auto
    then have nk: "nc \<noteq> Some k" "\<not> j < p" using ok somebody(2) by fastforce+
    have "1 \<le> cnt m c_asleep (bpcs s)" using k somebody(2) cnt_pos [of j m c_asleep "bpcs s"] by simp
    then have "buf_wakes (1 + int (count (ring s))) (int M) (cnt m c_asleep (bpcs s) - 1) (cnt m (c_active nc) (bpcs s) + 1)
       (cnt m p_asleep (bpcs s)) (cnt m (p_active np) (bpcs s) - 1)" using w bw_put1 by simp
    then show ?thesis using bw_pmore [of "1 + int (count (ring s))"] somebody t r' ok okt k nk
      by (cases "Suc i < np"; cases "j = t") (auto simp: buf_inv_def cnt_simps)
  qed
qed

lemma buf_consume:
  assumes inv: "buf_inv M np nc p m s" and t: "t < m" "bpcs s t = CLoop k" "nc \<noteq> Some k" "count (ring s) \<noteq> 0"
    and g: "get M (ring s) = (v, r)" and n: "notify_one empty m c (bpcs s) = Some f"
  shows "buf_inv M np nc p m (buf_at t (CLoop (k + 1)) (s\<lparr>ring := r, got_hist := h, bpcs := f\<rparr>))"
proof -
  have r: "ring_ok M (ring s)" "0 < count (ring s)" using inv t(4) by (auto simp: buf_inv_def)
  note r' = get_ok [OF r g]
  have c: "int (count r) = int (count (ring s)) - 1" using r(2) r'(3) by simp
  have w: "buf_wakes (int (count (ring s))) (int M) (cnt m c_asleep (bpcs s)) (cnt m (c_active nc) (bpcs s))
       (cnt m p_asleep (bpcs s)) (cnt m (p_active np) (bpcs s))" using inv by (simp add: buf_inv_def)
  have ok: "\<forall>i<m. bpc_ok np nc (i < p) (bpcs s i)" using inv by (simp add: buf_inv_def)
  have okt: "\<not> t < p" using ok t by fastforce
  from n show ?thesis
  proof (cases rule: notify_one_cases)
    case nobody
    have z: "cnt m p_asleep (bpcs s) = 0" using nobody(3) unfolding empty_asleep .
    then have "buf_wakes (int (count r)) (int M) (cnt m c_asleep (bpcs s)) (cnt m (c_active nc) (bpcs s) - 1)
       0 (cnt m (p_active np) (bpcs s))" using w bw_get0 unfolding c by simp
    then show ?thesis using bw_cmore [of "int (count r)"] nobody t r'(1) ok okt z
      by (cases "nc = Some (Suc k)") (auto simp: buf_inv_def cnt_simps)
  next
    case (somebody j b)
    then obtain i where i: "bpcs s j = PWait i" "b = PLoop i" by auto
    then have ni: "i < np" "j < p" using ok somebody(2) by fastforce+
    have "1 \<le> cnt m p_asleep (bpcs s)" using i somebody(2) cnt_pos [of j m p_asleep "bpcs s"] by simp
    then have "buf_wakes (int (count r)) (int M) (cnt m c_asleep (bpcs s)) (cnt m (c_active nc) (bpcs s) - 1)
       (cnt m p_asleep (bpcs s) - 1) (cnt m (p_active np) (bpcs s) + 1)" using w bw_get1 unfolding c by simp
    then show ?thesis using bw_cmore [of "int (count r)"] somebody t r'(1) ok okt i ni
      by (cases "nc = Some (Suc k)"; cases "j = t") (auto simp: buf_inv_def cnt_simps)
  qed
qed

lemma buf_inv_step:
  assumes inv: "buf_inv M np nc p m s" and step: "buf_step M np nc m l s = Some u"
  shows "buf_inv M np nc p m u"
proof -
  have w: "buf_wakes (int (count (ring s))) (int M) (cnt m c_asleep (bpcs s)) (cnt m (c_active nc) (bpcs s))
       (cnt m p_asleep (bpcs s)) (cnt m (p_active np) (bpcs s))"
    and ok: "\<forall>i<m. bpc_ok np nc (i < p) (bpcs s i)" using inv by (simp_all add: buf_inv_def)
  from step show ?thesis
  proof (cases rule: buf_step_cases)
    case (produce t i c f)
    then show ?thesis using buf_produce [OF inv] by simp
  next
    case (full t i)
    have "1 \<le> cnt m (p_active np) (bpcs s)" using full cnt_pos [of t m "p_active np" "bpcs s"] by simp
    then show ?thesis using inv w full bw_full ok by (auto simp: buf_inv_def cnt_simps)
  next
    case (consume t k c f v r)
    then show ?thesis using buf_consume [OF inv] by simp
  next
    case (none t k)
    have "1 \<le> cnt m (c_active nc) (bpcs s)" using none cnt_pos [of t m "c_active nc" "bpcs s"] by simp
    then show ?thesis using inv w none bw_none ok by (auto simp: buf_inv_def cnt_simps)
  next
    case (pdone t i)
    then show ?thesis using inv by (auto simp: buf_inv_def cnt_simps)
  next
    case (cdone t k)
    then show ?thesis using inv by (auto simp: buf_inv_def cnt_simps)
  next
    case (pwake t i)
    have "1 \<le> cnt m p_asleep (bpcs s)" using pwake cnt_pos [of t m p_asleep "bpcs s"] by simp
    moreover have "i < np" "t < p" using ok pwake by fastforce+
    ultimately show ?thesis using inv w pwake bw_pwake by (auto simp: buf_inv_def cnt_simps)
  next
    case (cwake t k)
    have "1 \<le> cnt m c_asleep (bpcs s)" using cwake cnt_pos [of t m c_asleep "bpcs s"] by simp
    moreover have "nc \<noteq> Some k" "\<not> t < p" using ok cwake by fastforce+
    ultimately show ?thesis using inv w cwake bw_cwake by (auto simp: buf_inv_def cnt_simps)
  qed
qed

lemma buf_queue_step:
  assumes "ring_ok M (ring s)" "buf_step M np nc m l s = Some u"
  shows "queue_move (contents M (ring s), put_hist s, got_hist s) (contents M (ring u), put_hist u, got_hist u)"
  using assms(2)
proof (cases rule: buf_step_cases)
  case (produce t i c f)
  then have "count (ring s) < M" using assms(1) by (simp add: ring_ok_def)
  then show ?thesis using produce put_ok(2) [OF assms(1)] by (simp add: queue_move_def)
next
  case (consume t k c f v r)
  then show ?thesis using get_ok(2) [OF assms(1) _ consume(5)] by (simp add: queue_move_def)
qed (simp_all add: queue_move_def)

interpretation buf: safe_machine "buf_step M np nc m" "buf_init M p" "\<lambda>s. 0 < M \<longrightarrow> buf_inv M np nc p m s"
  for M np p m :: nat and nc :: "nat option"
  by unfold_locales (use buf_inv_init buf_inv_step in blast)+

interpretation buf_queue: fifo_machine "buf_step M np nc m" "buf_init M p"
  "\<lambda>s. 0 < M \<longrightarrow> buf_inv M np nc p m s"
  "\<lambda>s. if 0 < M then (contents M (ring s), put_hist s, got_hist s) else ([], [], [])"
  for M np p m :: nat and nc :: "nat option"
proof (unfold_locales, goal_cases)
  case 1
  show ?case by (simp add: buf_init_def)
next
  case (2 s l t)
  show ?case
  proof (cases "0 < M")
    case True
    with 2 buf_queue_step [of M s np nc m l t] show ?thesis by (simp add: buf_inv_def)
  qed (simp add: queue_move_def)
qed

lemma buf_fifo:
  assumes "reach (buf_step M np nc m) (buf_init M p) s" "0 < M"
  shows "put_hist s = got_hist s @ contents M (ring s)"
  using buf_queue.fifo [OF assms(1)] assms(2) by simp

definition buf_stuck :: "nat \<Rightarrow> nat \<Rightarrow> nat option \<Rightarrow> nat \<Rightarrow> buf \<Rightarrow> bool" where
  "buf_stuck M np nc m s \<longleftrightarrow> (\<forall>t c. buf_step M np nc m (Run t c) s = None)"

lemma buf_stuck_at:
  assumes "buf_stuck M np nc m s" "t < m"
  shows "p_asleep (bpcs s t) \<or> c_asleep (bpcs s t) \<or> bpcs s t = BDone"
proof -
  obtain c f where c: "notify_one fill m c (bpcs s) = Some f" using notify_one_enabled by blast
  obtain d g where d: "notify_one empty m d (bpcs s) = Some g" using notify_one_enabled by blast
  have no: "buf_step M np nc m (Run t x) s = None" for x using assms(1) by (simp add: buf_stuck_def)
  show ?thesis using no [of c] no [of d] no [of None] c d assms(2)
    by (cases "bpcs s t") (auto simp: producer_def consumer_def split: if_splits prod.splits)
qed

lemma buf_stuck_idle:
  assumes "buf_stuck M np nc m s"
  shows "cnt m (c_active nc) (bpcs s) = 0" "cnt m (p_active np) (bpcs s) = 0"
proof -
  have "\<not> c_active nc (bpcs s t) \<and> \<not> p_active np (bpcs s t)" if "t < m" for t
    using buf_stuck_at [OF assms that] by (cases "bpcs s t") auto
  then show "cnt m (c_active nc) (bpcs s) = 0" "cnt m (p_active np) (bpcs s) = 0" by (simp_all add: cnt_eq_0)
qed

text \<open>With consumers that loop for ever, nothing is left when no thread can go on.\<close>

lemma buf_stuck_empty:
  assumes inv: "buf_inv M np None p m s" and "0 < M" "p < m" and stuck: "buf_stuck M np None m s"
  shows "count (ring s) = 0" "i < p \<Longrightarrow> bpcs s i = BDone" "p \<le> i \<Longrightarrow> i < m \<Longrightarrow> c_asleep (bpcs s i)"
proof -
  have ok: "i < m \<Longrightarrow> bpc_ok np None (i < p) (bpcs s i)" for i using inv by (simp add: buf_inv_def)
  note at = buf_stuck_at [OF stuck]
  have cons: "c_asleep (bpcs s i)" if "p \<le> i" "i < m" for i
    using at [OF that(2)] ok [OF that(2)] that by (cases "bpcs s i") auto
  have "cnt m c_asleep (bpcs s) \<noteq> 0"
    using cnt_pos [of p m c_asleep "bpcs s", OF assms(3)] cons [of p] assms(3) by simp
  then show e: "count (ring s) = 0"
    using inv buf_stuck_idle [OF stuck] by (auto simp: buf_inv_def buf_wakes_def)
  then have "cnt m p_asleep (bpcs s) = 0"
    using inv buf_stuck_idle [OF stuck] assms(2) by (auto simp: buf_inv_def buf_wakes_def)
  note no = cnt_zero_at [OF this]
  show "bpcs s i = BDone" if "i < p"
    using at [of i] ok [of i] no [of i] that assms(3) by (cases "bpcs s i") auto
  show "c_asleep (bpcs s i)" if "p \<le> i" "i < m" using cons that .
qed

section \<open>One condition variable\<close>

text \<open>\<open>MpMCSingleCV.cpp\<close>: everybody sleeps on \<open>cond\<close>, every put and get broadcasts. (The producers make 5
  iterations, the consumers loop for ever; both bounds are parameters here.)\<close>

fun cond :: "bpc \<Rightarrow> bpc option" where
  "cond (PWait i) = Some (PLoop i)"
| "cond (CWait k) = Some (CLoop k)"
| "cond b = None"

definition producer_b :: "nat \<Rightarrow> nat \<Rightarrow> tid \<Rightarrow> nat \<Rightarrow> buf \<Rightarrow> buf" where
  "producer_b M np t i s =
     (if \<not> i < np then buf_at t BDone s
      else if count (ring s) = M then buf_at t (PWait i) s
      else buf_at t (PLoop (i + 1))
        (s\<lparr>ring := put_index M (int i) (ring s), put_hist := put_hist s @ [int (fill_ptr (ring s)) + 1],
           bpcs := notify_all cond (bpcs s)\<rparr>))"

definition consumer_b :: "nat \<Rightarrow> nat option \<Rightarrow> tid \<Rightarrow> nat \<Rightarrow> buf \<Rightarrow> buf" where
  "consumer_b M nc t k s =
     (if nc = Some k then buf_at t BDone s
      else if count (ring s) = 0 then buf_at t (CWait k) s
      else (case get M (ring s) of (tmp, r) \<Rightarrow>
        buf_at t (CLoop (k + 1))
          (s\<lparr>ring := r, got_hist := got_hist s @ [tmp], bpcs := notify_all cond (bpcs s)\<rparr>)))"

datatype cv_label = RunB tid | WakeB tid

fun cv_step :: "nat \<Rightarrow> nat \<Rightarrow> nat option \<Rightarrow> nat \<Rightarrow> cv_label \<Rightarrow> buf \<Rightarrow> buf option" where
  "cv_step M np nc m (RunB t) s =
     (if t < m then
        (case bpcs s t of
           PLoop i \<Rightarrow> Some (producer_b M np t i s)
         | CLoop k \<Rightarrow> Some (consumer_b M nc t k s)
         | _ \<Rightarrow> None)
      else None)"
| "cv_step M np nc m (WakeB t) s =
     (if t < m then map_option (\<lambda>b. buf_at t b s) (cond (bpcs s t)) else None)"

definition cv_inv :: "nat \<Rightarrow> nat \<Rightarrow> nat option \<Rightarrow> nat \<Rightarrow> nat \<Rightarrow> buf \<Rightarrow> bool" where
  "cv_inv M np nc p m s \<longleftrightarrow> ring_ok M (ring s) \<and> (\<forall>i<m. bpc_ok np nc (i < p) (bpcs s i)) \<and>
     (\<forall>i<m. c_asleep (bpcs s i) \<longrightarrow> count (ring s) = 0) \<and>
     (\<forall>i<m. p_asleep (bpcs s i) \<longrightarrow> count (ring s) = M) \<and>
     fill_ptr (ring s) = length (put_hist s) mod M \<and>
     put_hist s = map (\<lambda>n. int (n mod M) + 1) [0..<length (put_hist s)]"

lemma notify_cond:
  "\<not> c_asleep (notify_all cond f i)" "\<not> p_asleep (notify_all cond f i)"
  "bpc_ok np nc q (f i) \<Longrightarrow> bpc_ok np nc q (notify_all cond f i)"
  by (cases "f i"; simp add: notify_all_def)+

lemma cv_step_cases:
  assumes "cv_step M np nc m l s = Some u"
  obtains (produce) t i where "t < m" "bpcs s t = PLoop i" "i < np" "count (ring s) \<noteq> M"
      "u = buf_at t (PLoop (i + 1))
        (s\<lparr>ring := put_index M (int i) (ring s), put_hist := put_hist s @ [int (fill_ptr (ring s)) + 1],
           bpcs := notify_all cond (bpcs s)\<rparr>)"
  | (full) t i where "t < m" "bpcs s t = PLoop i" "i < np" "count (ring s) = M" "u = buf_at t (PWait i) s"
  | (consume) t k v r where "t < m" "bpcs s t = CLoop k" "nc \<noteq> Some k" "count (ring s) \<noteq> 0"
      "get M (ring s) = (v, r)"
      "u = buf_at t (CLoop (k + 1))
          (s\<lparr>ring := r, got_hist := got_hist s @ [v], bpcs := notify_all cond (bpcs s)\<rparr>)"
  | (none) t k where "t < m" "bpcs s t = CLoop k" "nc \<noteq> Some k" "count (ring s) = 0" "u = buf_at t (CWait k) s"
  | (pdone) t i where "t < m" "bpcs s t = PLoop i" "\<not> i < np" "u = buf_at t BDone s"
  | (cdone) t k where "t < m" "bpcs s t = CLoop k" "nc = Some k" "u = buf_at t BDone s"
  | (pwake) t i where "t < m" "bpcs s t = PWait i" "u = buf_at t (PLoop i) s"
  | (cwake) t k where "t < m" "bpcs s t = CWait k" "u = buf_at t (CLoop k) s"
proof (cases l)
  case (WakeB t)
  then show thesis using assms pwake cwake by (cases "bpcs s t") (auto split: if_splits)
next
  case (RunB t)
  then have t: "t < m" using assms by (auto split: if_splits)
  show thesis
  proof (cases "bpcs s t")
    case (PLoop i)
    then show thesis using assms RunB t produce full pdone by (auto simp: producer_b_def split: if_splits)
  next
    case (CLoop k)
    then show thesis using assms RunB t consume none cdone
      by (auto simp: consumer_b_def split: if_splits prod.splits)
  qed (use assms RunB t in auto)
qed

lemma cv_inv_step:
  assumes inv: "cv_inv M np nc p m s" and step: "cv_step M np nc m l s = Some u"
  shows "cv_inv M np nc p m u"
proof -
  have ok: "\<forall>i<m. bpc_ok np nc (i < p) (bpcs s i)" and r: "ring_ok M (ring s)"
    and h: "fill_ptr (ring s) = length (put_hist s) mod M"
      "put_hist s = map (\<lambda>n. int (n mod M) + 1) [0..<length (put_hist s)]"
    using inv by (simp_all add: cv_inv_def)
  from step show ?thesis
  proof (cases rule: cv_step_cases)
    case (produce t i)
    have "count (ring s) < M" using r produce(4) by (simp add: ring_ok_def)
    then have "ring_ok M (put_index M (int i) (ring s))" using put_ok(1) [OF r] by (simp add: put_index_def)
    moreover have "fill_ptr (put_index M (int i) (ring s)) = Suc (length (put_hist s)) mod M"
      using h(1) by (simp add: put_index_def put_def mod_Suc_eq)
    moreover have "t < p" using ok produce by fastforce
    ultimately show ?thesis using produce ok h notify_cond
      by (auto simp: cv_inv_def simp del: upt_Suc) (simp add: upt_Suc_append h(1))
  next
    case (consume t k v r')
    have "ring_ok M r'" using get_ok(1) [OF r _ consume(5)] consume(4) by simp
    moreover have "fill_ptr r' = fill_ptr (ring s)" using consume(5) by (auto simp: get_def)
    moreover have "\<not> t < p" using ok consume by fastforce
    ultimately show ?thesis using consume ok h notify_cond by (auto simp: cv_inv_def)
  qed (use inv ok in \<open>fastforce simp: cv_inv_def\<close>)+
qed

lemma cv_inv_init: "0 < M \<Longrightarrow> cv_inv M np nc p m (buf_init M p)"
  by (auto simp: cv_inv_def buf_init_def ring_ok_init) (simp add: ring_init_def)

lemma cv_queue_step:
  assumes "ring_ok M (ring s)" "cv_step M np nc m l s = Some u"
  shows "queue_move (contents M (ring s), put_hist s, got_hist s) (contents M (ring u), put_hist u, got_hist u)"
  using assms(2)
proof (cases rule: cv_step_cases)
  case (produce t i)
  then have "count (ring s) < M" using assms(1) by (simp add: ring_ok_def)
  then show ?thesis using produce put_ok(2) [OF assms(1)] by (simp add: queue_move_def put_index_def)
next
  case (consume t k v r)
  then show ?thesis using get_ok(2) [OF assms(1) _ consume(5)] by (simp add: queue_move_def)
qed (simp_all add: queue_move_def)

interpretation cv_queue: fifo_machine "cv_step M np nc m" "buf_init M p"
  "\<lambda>s. 0 < M \<longrightarrow> cv_inv M np nc p m s"
  "\<lambda>s. if 0 < M then (contents M (ring s), put_hist s, got_hist s) else ([], [], [])"
  for M np p m :: nat and nc :: "nat option"
proof (unfold_locales, goal_cases)
  case 1
  show ?case by (simp add: cv_inv_init)
next
  case (2 s l t)
  then show ?case using cv_inv_step by blast
next
  case 3
  show ?case by (simp add: buf_init_def)
next
  case (4 s l t)
  show ?case
  proof (cases "0 < M")
    case True
    with 4 cv_queue_step [of M s np nc m l t] show ?thesis by (simp add: cv_inv_def)
  qed (simp add: queue_move_def)
qed

section \<open>Properties\<close>

text \<open>C27: the two-condition-variable buffer, with any number of producers and consumers and under any
  scheduling, wake-up order and spurious wake-ups, hands over every value exactly once and in the
  order of the puts, and never overruns its array.\<close>

theorem buffer_fifo:
  assumes "reach (buf_step M np nc m) (buf_init M p) s" "0 < M"
  shows "put_hist s = got_hist s @ contents M (ring s) \<and> count (ring s) \<le> M \<and>
    length (contents M (ring s)) = count (ring s)"
  using buf_fifo [OF assms] buf.reach_inv [OF assms(1)] assms(2)
  by (simp add: contents_length buf_inv_def ring_ok_def)

theorem buffer_fifo_witness:
  "\<exists>s. exec (buf_step 2 5 None 2) [Run 1 None, Run 0 (Some 1), Run 0 None, Run 0 None, Run 1 (Some 0), Run 0 None]
     (buf_init 2 1) = Some s \<and> put_hist s = [0, 1, 2] \<and> got_hist s = [0] \<and> contents 2 (ring s) = [1, 2]"
proof -
  obtain s where s: "exec (buf_step 2 5 None 2) [Run 1 None, Run 0 (Some 1), Run 0 None, Run 0 None, Run 1 (Some 0), Run 0 None]
     (buf_init 2 1) = Some s" "put_hist s = [0, 1, 2]" "got_hist s = [0]"
    by (simp add: buf_init_def ring_init_def producer_def consumer_def put_def get_def notify_one_def
        buf_at_def numeral_2_eq_2 Ex_less_Suc)
  then show ?thesis using buffer_fifo [OF reachI [OF s(1)]] by simp
qed

text \<open>C28: with two condition variables no wake-up is lost although each put and get signals one thread
  only: when no thread can go on, all producers or all consumers have finished; and with consumers
  that loop for ever every producer has finished and everything put has been got.\<close>

theorem buffer_no_lost_wakeup:
  assumes "reach (buf_step M np nc m) (buf_init M p) s" "0 < M" "p < m" "buf_stuck M np nc m s"
  shows "((\<forall>i<p. bpcs s i = BDone) \<or> (\<forall>i<m. p \<le> i \<longrightarrow> bpcs s i = BDone)) \<and>
    (nc = None \<longrightarrow> (\<forall>i<p. bpcs s i = BDone) \<and> got_hist s = put_hist s)"
proof -
  have inv: "buf_inv M np nc p m s" using buf.reach_inv [OF assms(1)] assms(2) by simp
  then have ok: "i < m \<Longrightarrow> bpc_ok np nc (i < p) (bpcs s i)" for i by (simp add: buf_inv_def)
  have w: "(cnt m c_asleep (bpcs s) = 0 \<or> count (ring s) = 0) \<and> (cnt m p_asleep (bpcs s) = 0 \<or> M \<le> count (ring s))"
    using inv buf_stuck_idle [OF assms(4)] by (auto simp: buf_inv_def buf_wakes_def)
  note at = buf_stuck_at [OF assms(4)]
  have prod: "bpcs s i = BDone" if "i < p" "cnt m p_asleep (bpcs s) = 0" for i
    using at [of i] ok [of i] that cnt_zero_at [OF that(2), of i] assms(3) by (cases "bpcs s i") auto
  have cons: "bpcs s i = BDone" if "p \<le> i" "i < m" "cnt m c_asleep (bpcs s) = 0" for i
    using at [of i] ok [of i] that cnt_zero_at [OF that(3), of i] by (cases "bpcs s i") auto
  have either: "cnt m c_asleep (bpcs s) = 0 \<or> cnt m p_asleep (bpcs s) = 0" using w assms(2) by auto
  show ?thesis
  proof (intro conjI impI)
    show "(\<forall>i<p. bpcs s i = BDone) \<or> (\<forall>i<m. p \<le> i \<longrightarrow> bpcs s i = BDone)"
      using either prod cons by blast
    assume n: "nc = None"
    note e = buf_stuck_empty [OF inv [unfolded n] assms(2,3) assms(4) [unfolded n]]
    show "\<forall>i<p. bpcs s i = BDone" using e(2) by blast
    have "contents M (ring s) = []" using e(1) by (simp add: contents_def)
    then show "got_hist s = put_hist s" using buf_fifo [OF assms(1,2)] by simp
  qed
qed

theorem buffer_no_lost_wakeup_witness:
  "\<exists>s. exec (buf_step 2 1 None 2) [Run 0 None, Run 1 None, Run 1 None, Run 0 None] (buf_init 2 1) = Some s \<and>
     got_hist s = put_hist s \<and> bpcs s 0 = BDone"
proof -
  obtain s where s: "exec (buf_step 2 1 None 2) [Run 0 None, Run 1 None, Run 1 None, Run 0 None] (buf_init 2 1) = Some s"
      "bpcs s 0 = BDone" "bpcs s 1 = CWait 1"
    by (simp add: buf_init_def ring_init_def producer_def consumer_def put_def get_def notify_one_def
        buf_at_def numeral_2_eq_2 Ex_less_Suc)
  then have "buf_stuck 2 1 None 2 s" by (auto simp: buf_stuck_def less_Suc_eq numeral_2_eq_2)
  with buffer_no_lost_wakeup [OF reachI [OF s(1)]] s show ?thesis by simp
qed

text \<open>The single-condition-variable program is also in order and without lost wake-ups, because it
  broadcasts; but since \<open>put\<close> ignores its argument, what the consumers receive is always the
  sequence 1, 2, ..., \<open>M\<close>, 1, 2, ... of buffer positions, whatever the producers put.\<close>

theorem single_cv_correct:
  assumes "reach (cv_step M np nc m) (buf_init M p) s" "0 < M"
  shows "(\<exists>rest. put_hist s = got_hist s @ rest \<and> length rest = count (ring s)) \<and>
    got_hist s = map (\<lambda>n. int (n mod M) + 1) [0..<length (got_hist s)] \<and>
    ((\<forall>t. cv_step M np nc m (RunB t) s = None) \<longrightarrow>
      (\<forall>i<m. i < p \<longrightarrow> bpcs s i = BDone) \<or> (\<forall>i<m. p \<le> i \<longrightarrow> bpcs s i = BDone))"
proof -
  have inv: "cv_inv M np nc p m s" using cv_queue.reach_inv [OF assms(1)] assms(2) by simp
  have fifo: "put_hist s = got_hist s @ contents M (ring s)" using cv_queue.fifo [OF assms(1)] assms(2) by simp
  have h: "put_hist s = map (\<lambda>n. int (n mod M) + 1) [0..<length (put_hist s)]"
    using inv unfolding cv_inv_def by blast
  have "got_hist s = take (length (got_hist s)) (put_hist s)" using fifo by simp
  also have "\<dots> = map (\<lambda>n. int (n mod M) + 1) (take (length (got_hist s)) [0..<length (put_hist s)])"
    unfolding take_map [symmetric] by (rule arg_cong [OF h])
  also have "\<dots> = map (\<lambda>n. int (n mod M) + 1) [0..<length (got_hist s)]"
    using fifo by (simp add: take_upt)
  finally have vals: "got_hist s = map (\<lambda>n. int (n mod M) + 1) [0..<length (got_hist s)]" .
  have "(\<forall>i<m. i < p \<longrightarrow> bpcs s i = BDone) \<or> (\<forall>i<m. p \<le> i \<longrightarrow> bpcs s i = BDone)"
    if st: "\<forall>t. cv_step M np nc m (RunB t) s = None"
  proof -
    have at: "c_asleep (bpcs s i) \<or> p_asleep (bpcs s i) \<or> bpcs s i = BDone" if "i < m" for i
      using st that by (cases "bpcs s i") (auto dest: spec [of _ i])
    have ok: "i < m \<Longrightarrow> bpc_ok np nc (i < p) (bpcs s i)" for i using inv by (simp add: cv_inv_def)
    have "i < m \<Longrightarrow> bpcs s i \<noteq> BDone \<Longrightarrow> (if i < p then count (ring s) = M else count (ring s) = 0)" for i
      using at [of i] ok [of i] inv unfolding cv_inv_def by (cases "bpcs s i") auto
    then show ?thesis using assms(2) by (metis less_irrefl not_less)
  qed
  with fifo vals contents_length show ?thesis by blast
qed

theorem single_cv_correct_witness:
  "\<exists>s. exec (cv_step 2 5 None 2) [RunB 0, RunB 0, RunB 1, RunB 0, RunB 1, RunB 1] (buf_init 2 1) = Some s \<and>
     got_hist s = [1, 2, 1]"
proof -
  obtain s where s: "exec (cv_step 2 5 None 2) [RunB 0, RunB 0, RunB 1, RunB 0, RunB 1, RunB 1] (buf_init 2 1) = Some s"
      "length (got_hist s) = 3"
    by (simp add: buf_init_def ring_init_def producer_b_def consumer_b_def put_index_def put_def get_def
        notify_all_def buf_at_def numeral_2_eq_2)
  have "[0..<3] = [0, 1, 2 :: nat]" by (simp add: upt_rec)
  with single_cv_correct [OF reachI [OF s(1)]] s show ?thesis by simp
qed

end
