(* ===== verification/End_Markers.thy ===== *)
theory End_Markers
  imports Bounded_Buffer
begin

text \<open>
  The producer/consumer programs that end: one producer (thread 0) puts \<open>0, ..., loops - 1\<close> and then one marker
  \<open>-1\<close> for each of the \<open>consumers\<close> (threads 1 to \<open>n\<close>); a consumer ends when it gets a marker.

  \<^item> \<open>threads-cv/pc.c\<close>: two condition variables (\<open>pc_step\<close>);
  \<^item> \<open>threads-cv/pc_single_cv.c\<close>: one condition variable, signalled (\<open>pc1_step\<close>).

  \<open>do_fill\<close> and \<open>do_get\<close> of both are \<open>put\<close> and \<open>get\<close> of \<open>Bounded_Buffer\<close>, with \<open>num_full\<close> for \<open>count\<close>. The two loops of
  the producer are one: \<open>item\<close> is the value of its \<open>k\<close>-th turn.
\<close>

definition item :: "nat \<Rightarrow> nat \<Rightarrow> int" where
  "item loops k = (if k < loops then int k else - 1)"

definition items :: "nat \<Rightarrow> nat \<Rightarrow> int list" where
  "items loops k = map (item loops) [0..<k]"

definition markers :: "int list \<Rightarrow> nat" where
  "markers xs = length (filter (\<lambda>v. v = - 1) xs)"

lemma items_0 [simp]: "items loops 0 = []"
  by (simp add: items_def)

lemma items_Suc: "items loops (Suc k) = items loops k @ [item loops k]"
  by (simp add: items_def)

lemma length_items [simp]: "length (items loops k) = k"
  by (simp add: items_def)

lemma markers_simps [simp]:
  "markers [] = 0" "markers (x # xs) = (if x = - 1 then 1 else 0) + markers xs"
  "markers (xs @ ys) = markers xs + markers ys"
  by (simp_all add: markers_def)

lemma markers_items: "markers (items loops k) = k - loops"
  by (induction k) (auto simp: items_Suc item_def)

lemma items_all: "items loops (loops + n) = map int [0..<loops] @ replicate n (- 1)"
proof (induction n)
  case 0
  show ?case by (simp add: items_def item_def)
next
  case (Suc n)
  then show ?case by (simp add: items_Suc item_def flip: replicate_append_same)
qed

section \<open>pc.c\<close>

datatype cpos = PNext nat | PSleep nat | PEnd | CNext | CSleep | CEnd

record pc =
  pring :: ring
  ppos :: "tid \<Rightarrow> cpos"
  put_h :: "int list"
  got_h :: "int list"

definition pc_main :: "nat \<Rightarrow> pc" where
  "pc_main M = \<lparr>pring = ring_init M, ppos = (\<lambda>t. if t = 0 then PNext 0 else CNext), put_h = [], got_h = []\<rparr>"

fun empty_cv :: "cpos \<Rightarrow> cpos option" where
  "empty_cv (PSleep k) = Some (PNext k)"
| "empty_cv p = None"

fun fill_cv :: "cpos \<Rightarrow> cpos option" where
  "fill_cv CSleep = Some CNext"
| "fill_cv p = None"

definition pc_at :: "tid \<Rightarrow> cpos \<Rightarrow> pc \<Rightarrow> pc" where
  "pc_at t p s = s\<lparr>ppos := (ppos s)(t := p)\<rparr>"

text \<open>One iteration of the producer and of a consumer; \<open>wk\<close> says whom its signal can wake.\<close>

definition pc_producer ::
  "(cpos \<Rightarrow> cpos option) \<Rightarrow> nat \<Rightarrow> nat \<Rightarrow> nat \<Rightarrow> tid option \<Rightarrow> nat \<Rightarrow> pc \<Rightarrow> pc option" where
  "pc_producer wk M loops n c k s =
     (if \<not> k < loops + n then (if c = None then Some (pc_at 0 PEnd s) else None)
      else if count (pring s) = M then (if c = None then Some (pc_at 0 (PSleep k) s) else None)
      else (case notify_one wk (n + 1) c (ppos s) of None \<Rightarrow> None
        | Some f \<Rightarrow> Some (pc_at 0 (PNext (k + 1))
            (s\<lparr>ppos := f, pring := put M (item loops k) (pring s), put_h := put_h s @ [item loops k]\<rparr>))))"

definition pc_consumer ::
  "(cpos \<Rightarrow> cpos option) \<Rightarrow> nat \<Rightarrow> nat \<Rightarrow> tid option \<Rightarrow> tid \<Rightarrow> pc \<Rightarrow> pc option" where
  "pc_consumer wk M n c t s =
     (if count (pring s) = 0 then (if c = None then Some (pc_at t CSleep s) else None)
      else (case get M (pring s) of (tmp, r) \<Rightarrow>
        (case notify_one wk (n + 1) c (ppos s) of None \<Rightarrow> None
         | Some f \<Rightarrow> Some (pc_at t (if tmp \<noteq> - 1 then CNext else CEnd)
             (s\<lparr>ppos := f, pring := r, got_h := got_h s @ [tmp]\<rparr>)))))"

datatype pc_label = Turn tid "tid option" | WakeUp tid

fun pc_step :: "nat \<Rightarrow> nat \<Rightarrow> nat \<Rightarrow> pc_label \<Rightarrow> pc \<Rightarrow> pc option" where
  "pc_step M loops n (Turn t c) s =
     (if t \<le> n then
        (case ppos s t of
           PNext k \<Rightarrow> pc_producer fill_cv M loops n c k s
         | CNext \<Rightarrow> pc_consumer empty_cv M n c t s
         | _ \<Rightarrow> None)
      else None)"
| "pc_step M loops n (WakeUp t) s =
     (if t \<le> n then
        (case ppos s t of PSleep k \<Rightarrow> Some (pc_at t (PNext k) s) | CSleep \<Rightarrow> Some (pc_at t CNext s) | _ \<Rightarrow> None)
      else None)"

section \<open>pc_single_cv.c\<close>

fun cv :: "cpos \<Rightarrow> cpos option" where
  "cv (PSleep k) = Some (PNext k)"
| "cv CSleep = Some CNext"
| "cv p = None"

fun pc1_step :: "nat \<Rightarrow> nat \<Rightarrow> nat \<Rightarrow> pc_label \<Rightarrow> pc \<Rightarrow> pc option" where
  "pc1_step M loops n (Turn t c) s =
     (if t \<le> n then
        (case ppos s t of
           PNext k \<Rightarrow> pc_producer cv M loops n c k s
         | CNext \<Rightarrow> pc_consumer cv M n c t s
         | _ \<Rightarrow> None)
      else None)"
| "pc1_step M loops n (WakeUp t) s =
     (if t \<le> n then map_option (\<lambda>p. pc_at t p s) (cv (ppos s t)) else None)"

section \<open>Invariant\<close>

text \<open>What any scheduling keeps, whoever is woken.\<close>

fun producer_ok :: "nat \<Rightarrow> nat \<Rightarrow> nat \<Rightarrow> cpos \<Rightarrow> bool" where
  "producer_ok loops n k (PNext j) = (j = k \<and> k \<le> loops + n)"
| "producer_ok loops n k (PSleep j) = (j = k \<and> k < loops + n)"
| "producer_ok loops n k PEnd = (k = loops + n)"
| "producer_ok loops n k p = False"

definition pc_data :: "nat \<Rightarrow> nat \<Rightarrow> nat \<Rightarrow> pc \<Rightarrow> bool" where
  "pc_data M loops n s \<longleftrightarrow> ring_ok M (pring s) \<and> put_h s = items loops (length (put_h s)) \<and>
     put_h s = got_h s @ contents M (pring s) \<and>
     producer_ok loops n (length (put_h s)) (ppos s 0) \<and>
     (\<forall>t. 1 \<le> t \<and> t \<le> n \<longrightarrow> ppos s t \<in> {CNext, CSleep, CEnd}) \<and>
     num_at (n + 1) CEnd (ppos s) = int (markers (got_h s))"

definition pc_wakes :: "nat \<Rightarrow> nat \<Rightarrow> pc \<Rightarrow> bool" where
  "pc_wakes M n s \<longleftrightarrow>
     (num_at (n + 1) CSleep (ppos s) = 0 \<or> int (count (pring s)) \<le> num_at (n + 1) CNext (ppos s)) \<and>
     (\<forall>k. ppos s 0 = PSleep k \<longrightarrow> count (pring s) = M)"

lemma pc_at_simps [simp]:
  "pring (pc_at t p s) = pring s" "put_h (pc_at t p s) = put_h s" "got_h (pc_at t p s) = got_h s"
  "ppos (pc_at t p s) = (ppos s)(t := p)"
  by (simp_all add: pc_at_def)

text \<open>A condition variable wakes a sleeper to the position before its test.\<close>

definition wakes :: "(cpos \<Rightarrow> cpos option) \<Rightarrow> bool" where
  "wakes wk \<longleftrightarrow> (\<forall>p q. wk p = Some q \<longrightarrow> (\<exists>k. p = PSleep k \<and> q = PNext k) \<or> (p = CSleep \<and> q = CNext))"

lemma wakes_cvs: "wakes empty_cv" "wakes fill_cv" "wakes cv"
proof -
  have "empty_cv p = Some q \<longleftrightarrow> (\<exists>k. p = PSleep k \<and> q = PNext k)" for p q by (cases p) auto
  then show "wakes empty_cv" by (auto simp: wakes_def)
  have "fill_cv p = Some q \<longleftrightarrow> p = CSleep \<and> q = CNext" for p q by (cases p) auto
  then show "wakes fill_cv" by (auto simp: wakes_def)
  have "cv p = Some q \<longleftrightarrow> (\<exists>k. p = PSleep k \<and> q = PNext k) \<or> (p = CSleep \<and> q = CNext)" for p q by (cases p) auto
  then show "wakes cv" by (auto simp: wakes_def)
qed

lemma pc_dataI:
  assumes "ring_ok M (pring u)" "put_h u = items loops (length (put_h u))"
    "put_h u = got_h u @ contents M (pring u)" "producer_ok loops n (length (put_h u)) (ppos u 0)"
    "\<And>t. 1 \<le> t \<Longrightarrow> t \<le> n \<Longrightarrow> ppos u t \<in> {CNext, CSleep, CEnd}"
    "num_at (n + 1) CEnd (ppos u) = int (markers (got_h u))"
  shows "pc_data M loops n u"
  using assms by (simp add: pc_data_def)

lemma pc_dataD:
  assumes "pc_data M loops n s"
  shows "ring_ok M (pring s)" "put_h s = items loops (length (put_h s))"
    "put_h s = got_h s @ contents M (pring s)" "producer_ok loops n (length (put_h s)) (ppos s 0)"
    "\<And>t. 1 \<le> t \<Longrightarrow> t \<le> n \<Longrightarrow> ppos s t \<in> {CNext, CSleep, CEnd}"
    "num_at (n + 1) CEnd (ppos s) = int (markers (got_h s))"
  using assms unfolding pc_data_def by blast+

lemma wake_data:
  assumes d: "pc_data M loops n s" and t: "t \<le> n"
    and q: "(\<exists>k. ppos s t = PSleep k \<and> q = PNext k) \<or> (ppos s t = CSleep \<and> q = CNext)"
  shows "pc_data M loops n (pc_at t q s)"
proof (rule pc_dataI)
  note D = pc_dataD [OF d]
  have consumer0: "ppos s 0 \<noteq> CSleep" using D(4) by auto
  show "producer_ok loops n (length (put_h (pc_at t q s))) (ppos (pc_at t q s) 0)"
    using D(4) q consumer0 by (cases "t = 0") auto
  show "ppos (pc_at t q s) v \<in> {CNext, CSleep, CEnd}" if "1 \<le> v" "v \<le> n" for v
    using D(5) [OF that] q by (cases "v = t") auto
  show "num_at (n + 1) CEnd (ppos (pc_at t q s)) = int (markers (got_h (pc_at t q s)))"
    using D(6) q t by (auto simp: cnt_simps)
qed (use pc_dataD(1-3) [OF d] in simp_all)

lemma notify_data:
  assumes d: "pc_data M loops n s" and w: "wakes wk" and f: "notify_one wk (n + 1) c (ppos s) = Some f"
  shows "pc_data M loops n (s\<lparr>ppos := f\<rparr>)"
    and "wk (ppos s t) = None \<Longrightarrow> f t = ppos s t"
proof -
  have "f = ppos s \<or> (\<exists>j q. j \<le> n \<and> wk (ppos s j) = Some q \<and> f = (ppos s)(j := q))"
    using f
  proof (cases rule: notify_one_cases)
    case (somebody i p)
    then have "i \<le> n \<and> wk (ppos s i) = Some p \<and> f = (ppos s)(i := p)" by simp
    then show ?thesis by blast
  qed simp
  then show "pc_data M loops n (s\<lparr>ppos := f\<rparr>)"
  proof (elim disjE exE conjE)
    fix j q assume j: "j \<le> n" "wk (ppos s j) = Some q" "f = (ppos s)(j := q)"
    then have "pc_data M loops n (pc_at j q s)" using w by (intro wake_data [OF d]) (auto simp: wakes_def)
    then show ?thesis using j(3) by (simp add: pc_at_def)
  qed (use d in simp)
  show "wk (ppos s t) = None \<Longrightarrow> f t = ppos s t"
    using f by (cases rule: notify_one_cases) auto
qed

lemma fill_data:
  assumes d: "pc_data M loops n s" and at: "ppos s 0 = PNext k" and k: "k < loops + n" and c: "count (pring s) \<noteq> M"
  shows "pc_data M loops n (pc_at 0 (PNext (k + 1))
     (s\<lparr>pring := put M (item loops k) (pring s), put_h := put_h s @ [item loops k]\<rparr>))"
proof -
  note D = pc_dataD [OF d]
  have len: "length (put_h s) = k" using D(4) at by auto
  have "count (pring s) < M" using D(1) c by (simp add: ring_ok_def)
  note p = put_ok [OF D(1) this, of "item loops k"]
  show ?thesis
  proof (rule pc_dataI)
    show "ppos (pc_at 0 (PNext (k + 1)) (s\<lparr>pring := put M (item loops k) (pring s),
        put_h := put_h s @ [item loops k]\<rparr>)) t \<in> {CNext, CSleep, CEnd}" if "1 \<le> t" "t \<le> n" for t
      using D(5) [OF that] that by simp
  qed (use D p len k at in \<open>simp_all add: items_Suc cnt_simps\<close>)
qed

lemma get_data:
  assumes d: "pc_data M loops n s" and at: "ppos s t = CNext" "t \<le> n" and c: "count (pring s) \<noteq> 0"
    and g: "get M (pring s) = (v, r)"
  shows "pc_data M loops n (pc_at t (if v \<noteq> - 1 then CNext else CEnd) (s\<lparr>pring := r, got_h := got_h s @ [v]\<rparr>))"
proof -
  note D = pc_dataD [OF d]
  have t0: "t \<noteq> 0" using D(4) at(1) by (cases t) auto
  have "0 < count (pring s)" using c by simp
  note r = get_ok [OF D(1) this g]
  let ?u = "pc_at t (if v \<noteq> - 1 then CNext else CEnd) (s\<lparr>pring := r, got_h := got_h s @ [v]\<rparr>)"
  show ?thesis
  proof (rule pc_dataI)
    show "ppos ?u x \<in> {CNext, CSleep, CEnd}" if "1 \<le> x" "x \<le> n" for x using D(5) [OF that] by simp
    show "num_at (n + 1) CEnd (ppos ?u) = int (markers (got_h ?u))" using D(6) at by (simp add: cnt_simps)
  qed (use D r t0 in simp_all)
qed

lemma sleep_data:
  assumes d: "pc_data M loops n s" and t: "t \<le> n"
    and q: "(t = 0 \<and> (\<exists>k. ppos s 0 = PNext k \<and> (k < loops + n \<and> q = PSleep k \<or> \<not> k < loops + n \<and> q = PEnd))) \<or>
      (ppos s t = CNext \<and> q = CSleep)"
  shows "pc_data M loops n (pc_at t q s)"
proof (rule pc_dataI)
  note D = pc_dataD [OF d]
  have consumer0: "ppos s 0 \<noteq> CNext" using D(4) by auto
  show "producer_ok loops n (length (put_h (pc_at t q s))) (ppos (pc_at t q s) 0)"
    using D(4) q consumer0 by (cases "t = 0") auto
  show "ppos (pc_at t q s) v \<in> {CNext, CSleep, CEnd}" if "1 \<le> v" "v \<le> n" for v
    using D(5) [OF that] q that by (cases "v = t") auto
  show "num_at (n + 1) CEnd (ppos (pc_at t q s)) = int (markers (got_h (pc_at t q s)))"
    using D(6) q t by (auto simp: cnt_simps)
qed (use pc_dataD(1-3) [OF d] in simp_all)

text \<open>The steps, in cases.\<close>

lemma pc_producer_cases:
  assumes "pc_producer wk M loops n c k s = Some u"
  obtains (ended) "c = None" "\<not> k < loops + n" "u = pc_at 0 PEnd s"
    | (full) "c = None" "k < loops + n" "count (pring s) = M" "u = pc_at 0 (PSleep k) s"
    | (fill) f where "k < loops + n" "count (pring s) \<noteq> M" "notify_one wk (n + 1) c (ppos s) = Some f"
      "u = pc_at 0 (PNext (k + 1)) (s\<lparr>ppos := f, pring := put M (item loops k) (pring s), put_h := put_h s @ [item loops k]\<rparr>)"
  using assms by (auto simp: pc_producer_def split: if_splits option.splits)

lemma pc_consumer_cases:
  assumes "pc_consumer wk M n c t s = Some u"
  obtains (none) "c = None" "count (pring s) = 0" "u = pc_at t CSleep s"
    | (take) f v r where "count (pring s) \<noteq> 0" "get M (pring s) = (v, r)" "notify_one wk (n + 1) c (ppos s) = Some f"
      "u = pc_at t (if v \<noteq> - 1 then CNext else CEnd) (s\<lparr>ppos := f, pring := r, got_h := got_h s @ [v]\<rparr>)"
  using assms by (auto simp: pc_consumer_def split: if_splits option.splits prod.splits)

lemma producer_data:
  assumes d: "pc_data M loops n s" and w: "wakes wk" and at: "ppos s 0 = PNext k"
    and step: "pc_producer wk M loops n c k s = Some u"
  shows "pc_data M loops n u"
  using step
proof (cases rule: pc_producer_cases)
  case ended
  then show ?thesis using sleep_data [OF d, of 0 PEnd] at by simp
next
  case full
  then show ?thesis using sleep_data [OF d, of 0 "PSleep k"] at by simp
next
  case (fill f)
  have "wk (PNext k) = None" using w by (cases "wk (PNext k)") (auto simp: wakes_def)
  then have "f 0 = PNext k" using notify_data(2) [OF d w fill(3), of 0] at by simp
  with fill_data [OF notify_data(1) [OF d w fill(3)]] fill show ?thesis by simp
qed

lemma consumer_data:
  assumes d: "pc_data M loops n s" and w: "wakes wk" and at: "ppos s t = CNext" "t \<le> n"
    and step: "pc_consumer wk M n c t s = Some u"
  shows "pc_data M loops n u"
  using step
proof (cases rule: pc_consumer_cases)
  case none
  then show ?thesis using sleep_data [OF d at(2), of CSleep] at by simp
next
  case (take f v r)
  have "wk CNext = None" using w by (cases "wk CNext") (auto simp: wakes_def)
  then have "f t = CNext" using notify_data(2) [OF d w take(3), of t] at by simp
  with get_data [OF notify_data(1) [OF d w take(3)] _ at(2)] take show ?thesis by simp
qed

lemma pc_data_init: "0 < M \<Longrightarrow> pc_data M loops n (pc_main M)"
  by (rule pc_dataI) (simp_all add: pc_main_def ring_ok_init cnt_eq_0)

lemma turn_data:
  assumes d: "pc_data M loops n s" and w: "wakes wp" "wakes wc" and t: "t \<le> n"
    and step: "(case ppos s t of PNext k \<Rightarrow> pc_producer wp M loops n c k s | CNext \<Rightarrow> pc_consumer wc M n c t s
      | _ \<Rightarrow> None) = Some u"
  shows "pc_data M loops n u"
proof (cases "ppos s t")
  case (PNext k)
  have "t = 0" using pc_dataD(5) [OF d, of t] PNext t by (cases t) auto
  then show ?thesis using step PNext producer_data [OF d w(1)] by auto
next
  case CNext
  then show ?thesis using step t consumer_data [OF d w(2) CNext] by auto
qed (use step in auto)

lemma pc_data_step: "pc_data M loops n s \<Longrightarrow> pc_step M loops n l s = Some u \<Longrightarrow> pc_data M loops n u"
  by (cases l) (auto split: if_splits cpos.splits intro: turn_data [OF _ wakes_cvs(2,1)] wake_data)

lemma pc1_data_step: "pc_data M loops n s \<Longrightarrow> pc1_step M loops n l s = Some u \<Longrightarrow> pc_data M loops n u"
proof (cases l)
  case (WakeUp t)
  assume d: "pc_data M loops n s" and step: "pc1_step M loops n l s = Some u"
  then obtain q where q: "t \<le> n" "cv (ppos s t) = Some q" "u = pc_at t q s" using WakeUp by (auto split: if_splits)
  then show ?thesis using wake_data [OF d, of t q] wakes_cvs(3) by (auto simp: wakes_def)
qed (auto split: if_splits intro: turn_data [OF _ wakes_cvs(3,3)])

section \<open>No lost wake-up with two condition variables\<close>

lemma cvs_iff [simp]:
  "empty_cv p = Some q \<longleftrightarrow> (\<exists>k. p = PSleep k \<and> q = PNext k)" "fill_cv p = Some q \<longleftrightarrow> p = CSleep \<and> q = CNext"
  by (cases p; auto)+

lemma pc_wakesI:
  assumes "num_at (n + 1) CSleep (ppos u) = 0 \<or> int (count (pring u)) \<le> num_at (n + 1) CNext (ppos u)"
    "\<And>k. ppos u 0 = PSleep k \<Longrightarrow> count (pring u) = M"
  shows "pc_wakes M n u"
  using assms by (simp add: pc_wakes_def)

lemma num_sleepers: "sleeping m fill_cv f = num_at m CSleep f"
proof -
  have "(\<lambda>p. fill_cv p \<noteq> None) = (\<lambda>p. p = CSleep)" by (rule ext) (case_tac p, auto)
  then show ?thesis by simp
qed

lemma producer_wakes:
  assumes w: "pc_wakes M n s" and at: "ppos s 0 = PNext k" and step: "pc_producer fill_cv M loops n c k s = Some u"
  shows "pc_wakes M n u"
  using step
proof (cases rule: pc_producer_cases)
  case (fill f)
  have c: "count (put M v r) = count r + 1" for v r by (simp add: put_def)
  from fill(3) show ?thesis
  proof (cases rule: notify_one_cases)
    case nobody
    then have "num_at (n + 1) CSleep (ppos s) = 0" unfolding num_sleepers by simp
    with fill at nobody show ?thesis by (intro pc_wakesI) (simp_all add: cnt_simps)
  next
    case (somebody i p)
    then have i: "ppos s i = CSleep" "p = CNext" "i \<noteq> 0" using at by (auto intro: ccontr)
    then have "0 < num_at (n + 1) CSleep (ppos s)" using somebody(2) cnt_pos [of i "n + 1" "\<lambda>y. y = CSleep" "ppos s"] by simp
    then have "int (count (pring s)) \<le> num_at (n + 1) CNext (ppos s)" using w by (simp add: pc_wakes_def)
    with fill at somebody i show ?thesis by (intro pc_wakesI) (simp_all add: cnt_simps c)
  qed
qed (use w at in \<open>auto simp: pc_wakes_def cnt_simps\<close>)

lemma consumer_wakes:
  assumes w: "pc_wakes M n s" and d: "pc_data M loops n s" and at: "ppos s t = CNext" "t \<le> n" "t \<noteq> 0"
    and step: "pc_consumer empty_cv M n c t s = Some u"
  shows "pc_wakes M n u"
  using step
proof (cases rule: pc_consumer_cases)
  case none
  have "1 \<le> num_at (n + 1) CNext (ppos s)" using cnt_pos [of t "n + 1"] at by simp
  moreover have "0 \<noteq> t" using at(3) by simp
  ultimately show ?thesis using none w at by (auto simp: pc_wakes_def cnt_simps)
next
  case (take f v r)
  have c: "count r = count (pring s) - 1" "0 < count (pring s)" using take(1,2) by (auto simp: get_def)
  have W: "num_at (n + 1) CSleep (ppos s) = 0 \<or> int (count (pring s)) \<le> num_at (n + 1) CNext (ppos s)"
    using w by (simp add: pc_wakes_def)
  have 0: "0 < n + 1" "0 \<noteq> t" using at(3) by simp_all
  from take(3) show ?thesis
  proof (cases rule: notify_one_cases)
    case nobody
    then have "ppos s 0 \<noteq> PSleep k" for k using cnt_zero_at [of "n + 1" "\<lambda>p. empty_cv p \<noteq> None" "ppos s" 0] by auto
    with take at nobody c W 0 show ?thesis by (intro pc_wakesI) (auto simp: cnt_simps)
  next
    case (somebody i p)
    then obtain k where i: "ppos s i = PSleep k" "p = PNext k" by auto
    then have "i \<noteq> t" using at(1) by auto
    have "i = 0" using i(1) somebody(2) pc_dataD(5) [OF d, of i] by (cases i) auto
    with take at somebody i c W 0 \<open>i \<noteq> t\<close> show ?thesis by (intro pc_wakesI) (auto simp: cnt_simps)
  qed
qed

lemma pc_wakes_step:
  assumes w: "pc_wakes M n s" and d: "pc_data M loops n s" and step: "pc_step M loops n l s = Some u"
  shows "pc_wakes M n u"
proof (cases l)
  case (Turn t c)
  show ?thesis
  proof (cases "ppos s t")
    case (PNext k)
    then have "t = 0" using step Turn pc_dataD(5) [OF d, of t] by (cases t) (auto split: if_splits)
    then show ?thesis using step Turn PNext producer_wakes [OF w] by (auto split: if_splits)
  next
    case CNext
    then have "t \<noteq> 0" using pc_dataD(4) [OF d] by (cases t) auto
    then show ?thesis using step Turn CNext consumer_wakes [OF w d CNext] by (auto split: if_splits)
  qed (use step Turn in \<open>auto split: if_splits\<close>)
next
  case (WakeUp t)
  have "ppos s t = CSleep \<Longrightarrow> t \<le> n \<Longrightarrow> 1 \<le> num_at (n + 1) CSleep (ppos s)" by (rule cnt_pos) auto
  with WakeUp show ?thesis using step w pc_dataD(4,5) [OF d]
    by (auto split: if_splits cpos.splits simp: pc_wakes_def cnt_simps)
qed

lemma pc_wakes_init: "pc_wakes M n (pc_main M)"
  by (rule pc_wakesI) (simp_all add: pc_main_def cnt_eq_0)

interpretation pc: safe_machine "pc_step M loops n" "pc_main M"
  "\<lambda>s. 0 < M \<longrightarrow> pc_data M loops n s \<and> pc_wakes M n s" for M loops n :: nat
proof (unfold_locales, goal_cases)
  case 1
  show ?case using pc_data_init pc_wakes_init by blast
next
  case (2 s l u)
  then show ?case using pc_data_step [of M loops n s l u] pc_wakes_step [of M n s loops l u] by simp
qed

interpretation pc1: safe_machine "pc1_step M loops n" "pc_main M" "\<lambda>s. 0 < M \<longrightarrow> pc_data M loops n s" for M loops n :: nat
  by unfold_locales (use pc_data_init pc1_data_step in blast)+

text \<open>A state in which only a spurious wake-up could still move a thread.\<close>

lemma pc_stuck_at:
  assumes "\<forall>t c. pc_step M loops n (Turn t c) s = None" "t \<le> n"
  shows "(\<exists>k. ppos s t = PSleep k) \<or> ppos s t = CSleep \<or> ppos s t = PEnd \<or> ppos s t = CEnd"
proof -
  obtain c f where c: "notify_one fill_cv (n + 1) c (ppos s) = Some f" using notify_one_enabled by blast
  obtain d g where d: "notify_one empty_cv (n + 1) d (ppos s) = Some g" using notify_one_enabled by blast
  have no: "pc_step M loops n (Turn t x) s = None" for x using assms(1) by blast
  show ?thesis using no [of c] no [of d] no [of None] c d assms(2)
    by (cases "ppos s t") (auto simp: pc_producer_def pc_consumer_def split: if_splits prod.splits)
qed

lemma all_but_first:
  assumes "\<not> P (f 0)"
  shows "cnt (n + 1) P f = int n \<longleftrightarrow> (\<forall>t. 1 \<le> t \<and> t \<le> n \<longrightarrow> P (f t))"
proof
  assume n: "cnt (n + 1) P f = int n"
  have "cnt (n + 1) (\<lambda>y. \<not> P y) f \<le> 1" using n cnt_compl [of "n + 1" P f] by simp
  then show "\<forall>t. 1 \<le> t \<and> t \<le> n \<longrightarrow> P (f t)"
    using cnt_two [of 0 "n + 1" _ "\<lambda>y. \<not> P y" f] assms by fastforce
next
  assume "\<forall>t. 1 \<le> t \<and> t \<le> n \<longrightarrow> P (f t)"
  then show "cnt (n + 1) P f = int n" using assms by (induction n) (simp_all add: cnt_Suc)
qed

lemma markers_last: "0 < n \<Longrightarrow> items loops (loops + n) = xs @ ys \<Longrightarrow> markers ys = 0 \<Longrightarrow> ys = []"
  by (cases n; cases ys rule: rev_cases) (auto simp: items_Suc item_def)

lemma pc_stuck_ended:
  assumes d: "pc_data M loops n s" and w: "pc_wakes M n s" and M: "0 < M" "0 < n"
    and stuck: "\<forall>t c. pc_step M loops n (Turn t c) s = None"
  shows "ppos s 0 = PEnd" "1 \<le> t \<and> t \<le> n \<Longrightarrow> ppos s t = CEnd" "got_h s = items loops (loops + n)"
proof -
  note D = pc_dataD [OF d]
  note at = pc_stuck_at [OF stuck]
  have "ppos s t \<noteq> CNext" if "t \<le> n" for t using at [OF that] by auto
  then have no: "num_at (n + 1) CNext (ppos s) = 0" by (simp add: cnt_eq_0)
  have w': "num_at (n + 1) CSleep (ppos s) = 0 \<or> count (pring s) = 0" "ppos s 0 = PSleep k \<Longrightarrow> count (pring s) = M" for k
    using w no by (auto simp: pc_wakes_def)
  have c0: "ppos s 0 \<noteq> CSleep" "ppos s 0 \<noteq> CEnd" using D(4) by auto
  have all: "num_at (n + 1) CEnd (ppos s) = int n" if z: "num_at (n + 1) CSleep (ppos s) = 0"
  proof -
    have "ppos s t = CEnd" if "1 \<le> t" "t \<le> n" for t
      using D(5) [OF that] at [OF that(2)] cnt_zero_at [OF z, of t] that by auto
    then show ?thesis using all_but_first [of "\<lambda>p. p = CEnd" "ppos s", OF c0(2)] by blast
  qed
  have m: "length (put_h s) - loops = markers (got_h s) + markers (contents M (pring s))"
    using D(2,3) markers_items [of loops "length (put_h s)"] by (metis markers_simps(3))
  show p: "ppos s 0 = PEnd"
  proof (rule ccontr)
    assume "ppos s 0 \<noteq> PEnd"
    then obtain k where k: "ppos s 0 = PSleep k" using at [of 0] c0 by auto
    then have "num_at (n + 1) CSleep (ppos s) = 0" using w' M by auto
    then have "markers (got_h s) = n" using all D(6) by simp
    moreover have "length (put_h s) - loops < n" using D(4) k M by auto
    ultimately show False using m by simp
  qed
  then have len: "length (put_h s) = loops + n" using D(4) by simp
  have got: "markers (got_h s) = n"
    using w'(1)
  proof
    assume "count (pring s) = 0"
    then have "contents M (pring s) = []" using contents_length [of M "pring s"] by simp
    then show ?thesis using m len by simp
  qed (use all D(6) in simp)
  then show "1 \<le> t \<and> t \<le> n \<Longrightarrow> ppos s t = CEnd" using D(6) all_but_first [of "\<lambda>p. p = CEnd" "ppos s", OF c0(2)] by metis
  have "contents M (pring s) = []" using m len got D(2,3) by (intro markers_last [OF M(2), of loops "got_h s"]) auto
  then show "got_h s = items loops (loops + n)" using D(2,3) len by simp
qed

section \<open>Properties\<close>

text \<open>C30: pc.c, for every buffer with room for at least one item, and every number of items and of consumers: at any time the
  values put so far are an initial piece of \<open>0, ..., loops - 1, -1, ..., -1\<close> and are the values got followed by the contents of the
  buffer. With at least one consumer, when no thread can run its turn, all have ended and the consumers have got every item and
  all the end markers: no wake-up is lost. (Without a consumer, or with a buffer of size 0, a producer that fills the buffer
  waits for ever; that is not claimed to end.)\<close>

theorem pc_correct:
  assumes "reach (pc_step M loops n) (pc_main M) s" "0 < M"
  shows "put_h s = items loops (length (put_h s)) \<and> put_h s = got_h s @ contents M (pring s) \<and>
    (0 < n \<and> (\<forall>t c. pc_step M loops n (Turn t c) s = None) \<longrightarrow>
      ppos s 0 = PEnd \<and> (\<forall>t. 1 \<le> t \<and> t \<le> n \<longrightarrow> ppos s t = CEnd) \<and>
      got_h s = map int [0..<loops] @ replicate n (- 1))"
proof -
  have i: "pc_data M loops n s" "pc_wakes M n s" using pc.reach_inv [OF assms(1)] assms(2) by blast+
  show ?thesis using pc_dataD(2,3) [OF i(1)] pc_stuck_ended [OF i assms(2)] items_all by metis
qed

lemma ex_less_2: "(\<exists>i < Suc (Suc 0). P i) \<longleftrightarrow> P 0 \<or> P 1" "(\<exists>i < (2::nat). P i) \<longleftrightarrow> P 0 \<or> P 1"
  by (auto simp: less_Suc_eq numeral_2_eq_2)

definition pc_schedule :: "pc_label list" where
  "pc_schedule = [Turn 1 None, Turn 0 (Some 1), Turn 0 None, Turn 1 (Some 0), Turn 0 None, Turn 1 None, Turn 0 None]"

theorem pc_correct_witness:
  "\<exists>s. exec (pc_step 1 1 1) pc_schedule (pc_main 1) = Some s \<and> ppos s 0 = PEnd \<and> got_h s = [0, - 1] \<and>
     put_h s = items 1 (length (put_h s))"
proof -
  obtain s where s: "exec (pc_step 1 1 1) pc_schedule (pc_main 1) = Some s" "ppos s 0 = PEnd" "got_h s = [0, - 1]"
    by (simp add: pc_schedule_def pc_main_def ring_init_def pc_producer_def pc_consumer_def put_def get_def
        notify_one_def pc_at_def item_def ex_less_2)
  with pc_correct [OF reachI [OF s(1)]] show ?thesis by (metis zero_less_one)
qed

text \<open>Pc_single_cv.c keeps the data right in every interleaving, but with a buffer of one slot and two consumers it
  can put all three threads to sleep with the buffer empty, at the second item or later: the signal that is meant
  for the producer wakes the other consumer.\<close>

theorem pc_single_cv_deadlock:
  assumes "0 < loops"
  shows "(\<exists>s. reach (pc1_step 1 loops 2) (pc_main 1) s \<and> (\<forall>t c. pc1_step 1 loops 2 (Turn t c) s = None) \<and>
      ppos s 0 = PSleep 1 \<and> ppos s 1 = CSleep \<and> ppos s 2 = CSleep \<and> count (pring s) = 0) \<and>
    (0 < M \<and> reach (pc1_step M loops n) (pc_main M) u \<longrightarrow>
      put_h u = items loops (length (put_h u)) \<and> put_h u = got_h u @ contents M (pring u))"
proof -
  let ?ls = "[Turn 1 None, Turn 2 None, Turn 0 (Some 1), Turn 0 None, Turn 1 (Some 2), Turn 1 None, Turn 2 None]"
  obtain s where s: "exec (pc1_step 1 loops 2) ?ls (pc_main 1) = Some s"
    "ppos s 0 = PSleep 1 \<and> ppos s 1 = CSleep \<and> ppos s 2 = CSleep \<and> count (pring s) = 0"
    using assms by (simp add: pc_main_def ring_init_def pc_producer_def pc_consumer_def put_def get_def
        notify_one_def pc_at_def item_def numeral_2_eq_2 numeral_3_eq_3 Ex_less_Suc)
  have "pc1_step 1 loops 2 (Turn t c) s = None" for t c
  proof (cases "t \<le> 2")
    case True
    then have "t = 0 \<or> t = 1 \<or> t = 2" by auto
    then show ?thesis using s(2) by auto
  qed simp
  then show ?thesis using s reachI [OF s(1)] pc1.reach_inv [of M loops n u] pc_dataD(2,3) by blast
qed

theorem pc_single_cv_deadlock_witness:
  "\<exists>s. reach (pc1_step 1 5 2) (pc_main 1) s \<and> (\<forall>t c. pc1_step 1 5 2 (Turn t c) s = None)"
  using pc_single_cv_deadlock [of 5] by (metis zero_less_numeral)

end
