(* ===== verification/Sema_Buffer.thy ===== *)
theory Sema_Buffer
  imports End_Markers Semaphores
begin

text \<open>
  \<open>threads-sema/producer_consumer_works.c\<close>: the bounded buffer with semaphores, with one producer (thread 0) and
  the consumers \<open>1, ..., n\<close>, ended by markers as in \<open>End_Markers\<close>.

  A step is one semaphore operation, or \<open>do_fill\<close> or \<open>do_get\<close> (which run between the operations on \<open>mutex\<close>: that
  two threads are never there at a time is part of the invariant). The test of a loop belongs to the step
  before it. \<open>put_seq\<close> and \<open>got_seq\<close> are history variables.
\<close>

record cells =
  cbuf :: "int list"
  cuse :: nat
  cfill :: nat

definition do_fill :: "nat \<Rightarrow> int \<Rightarrow> cells \<Rightarrow> cells" where
  "do_fill M v b = b\<lparr>cbuf := (cbuf b)[cfill b := v], cfill := (if cfill b + 1 = M then 0 else cfill b + 1)\<rparr>"

definition do_get :: "nat \<Rightarrow> cells \<Rightarrow> int \<times> cells" where
  "do_get M b = (cbuf b ! cuse b, b\<lparr>cuse := (if cuse b + 1 = M then 0 else cuse b + 1)\<rparr>)"

datatype spos = PEmpty nat | PMutex nat | PFill nat | PPostM nat | PPostF nat | PRet
  | CFull | CMutex | CGet | CPostM int | CPostE int | CRet

record sbuf =
  cells :: cells
  sempty :: sem
  sfull :: sem
  smutex :: sem
  spos :: "tid \<Rightarrow> spos"
  put_seq :: "int list"
  got_seq :: "int list"

text \<open>The positions at the tests of the loops.\<close>

definition produce_next :: "nat \<Rightarrow> nat \<Rightarrow> nat \<Rightarrow> spos" where
  "produce_next loops n k = (if k < loops + n then PEmpty k else PRet)"

definition consume_next :: "int \<Rightarrow> spos" where
  "consume_next tmp = (if tmp \<noteq> - 1 then CFull else CRet)"

definition sbuf_main :: "nat \<Rightarrow> nat \<Rightarrow> nat \<Rightarrow> sbuf" where
  "sbuf_main M loops n =
     \<lparr>cells = \<lparr>cbuf = replicate M 0, cuse = 0, cfill = 0\<rparr>, sempty = sem_init M, sfull = sem_init 0,
      smutex = sem_init 1, spos = (\<lambda>t. if t = 0 then produce_next loops n 0 else consume_next 0),
      put_seq = [], got_seq = []\<rparr>"

definition sb_at :: "tid \<Rightarrow> spos \<Rightarrow> sbuf \<Rightarrow> sbuf" where
  "sb_at t p s = s\<lparr>spos := (spos s)(t := p)\<rparr>"

definition sproducer :: "nat \<Rightarrow> nat \<Rightarrow> nat \<Rightarrow> tid \<Rightarrow> sbuf \<Rightarrow> sbuf option" where
  "sproducer M loops n t s =
     (case spos s t of
        PEmpty k \<Rightarrow> map_option (\<lambda>v. sb_at t (PMutex k) (s\<lparr>sempty := v\<rparr>)) (sem_wait (sempty s))
      | PMutex k \<Rightarrow> map_option (\<lambda>v. sb_at t (PFill k) (s\<lparr>smutex := v\<rparr>)) (sem_wait (smutex s))
      | PFill k \<Rightarrow> Some (sb_at t (PPostM k) (s\<lparr>cells := do_fill M (item loops k) (cells s),
          put_seq := put_seq s @ [item loops k]\<rparr>))
      | PPostM k \<Rightarrow> Some (sb_at t (PPostF k) (s\<lparr>smutex := sem_post (smutex s)\<rparr>))
      | PPostF k \<Rightarrow> Some (sb_at t (produce_next loops n (k + 1)) (s\<lparr>sfull := sem_post (sfull s)\<rparr>))
      | _ \<Rightarrow> None)"

definition sconsumer :: "nat \<Rightarrow> tid \<Rightarrow> sbuf \<Rightarrow> sbuf option" where
  "sconsumer M t s =
     (case spos s t of
        CFull \<Rightarrow> map_option (\<lambda>v. sb_at t CMutex (s\<lparr>sfull := v\<rparr>)) (sem_wait (sfull s))
      | CMutex \<Rightarrow> map_option (\<lambda>v. sb_at t CGet (s\<lparr>smutex := v\<rparr>)) (sem_wait (smutex s))
      | CGet \<Rightarrow> (case do_get M (cells s) of (tmp, b) \<Rightarrow>
          Some (sb_at t (CPostM tmp) (s\<lparr>cells := b, got_seq := got_seq s @ [tmp]\<rparr>)))
      | CPostM tmp \<Rightarrow> Some (sb_at t (CPostE tmp) (s\<lparr>smutex := sem_post (smutex s)\<rparr>))
      | CPostE tmp \<Rightarrow> Some (sb_at t (consume_next tmp) (s\<lparr>sempty := sem_post (sempty s)\<rparr>))
      | _ \<Rightarrow> None)"

definition sbuf_step :: "nat \<Rightarrow> nat \<Rightarrow> nat \<Rightarrow> tid \<Rightarrow> sbuf \<Rightarrow> sbuf option" where
  "sbuf_step M loops n t s =
     (if t = 0 then sproducer M loops n t s else if t \<le> n then sconsumer M t s else None)"

section \<open>The buffer\<close>

text \<open>The cells are the ring of \<open>Bounded_Buffer\<close> without its counter; wrapping with a test is wrapping with \<open>mod\<close>.\<close>

definition as_ring :: "nat \<Rightarrow> cells \<Rightarrow> ring" where
  "as_ring c b = \<lparr>buffer = cbuf b, fill_ptr = cfill b, use_ptr = cuse b, count = c\<rparr>"

lemma wrap_mod: "k < M \<Longrightarrow> (if k + 1 = M then 0 else k + 1) = (k + 1) mod (M::nat)"
  by auto

lemma fill_put: "ring_ok M (as_ring c b) \<Longrightarrow> as_ring (c + 1) (do_fill M v b) = put M v (as_ring c b)"
  using wrap_mod [of "cfill b" M] by (simp add: as_ring_def do_fill_def put_def ring_ok_def)

lemma get_get: "ring_ok M (as_ring c b) \<Longrightarrow> do_get M b = (v, b') \<Longrightarrow> get M (as_ring c b) = (v, as_ring (c - 1) b')"
  using wrap_mod [of "cuse b" M] by (auto simp: as_ring_def do_get_def get_def ring_ok_def)

lemma count_as_ring [simp]: "count (as_ring c b) = c"
  by (simp add: as_ring_def)

section \<open>Invariant\<close>

fun in_mutex :: "spos \<Rightarrow> bool" where
  "in_mutex (PFill k) = True"
| "in_mutex (PPostM k) = True"
| "in_mutex CGet = True"
| "in_mutex (CPostM v) = True"
| "in_mutex p = False"

text \<open>Slots that a thread has taken from \<open>empty\<close> and not given to \<open>full\<close> or back, apart from the items put and not
  got; items posted to \<open>full\<close> or not yet.\<close>

fun has_slot :: "spos \<Rightarrow> bool" where
  "has_slot (PMutex k) = True"
| "has_slot (PFill k) = True"
| "has_slot (CPostM v) = True"
| "has_slot (CPostE v) = True"
| "has_slot p = False"

fun has_item :: "spos \<Rightarrow> bool" where
  "has_item (PPostM k) = True"
| "has_item (PPostF k) = True"
| "has_item CMutex = True"
| "has_item CGet = True"
| "has_item p = False"

fun saw_marker :: "spos \<Rightarrow> bool" where
  "saw_marker CRet = True"
| "saw_marker (CPostM v) = (v = - 1)"
| "saw_marker (CPostE v) = (v = - 1)"
| "saw_marker p = False"

text \<open>The producer when \<open>k\<close> items have been put out of \<open>T\<close>.\<close>

fun sproducer_ok :: "nat \<Rightarrow> nat \<Rightarrow> spos \<Rightarrow> bool" where
  "sproducer_ok T k (PEmpty j) = (j = k \<and> k < T)"
| "sproducer_ok T k (PMutex j) = (j = k \<and> k < T)"
| "sproducer_ok T k (PFill j) = (j = k \<and> k < T)"
| "sproducer_ok T k (PPostM j) = (j + 1 = k \<and> k \<le> T)"
| "sproducer_ok T k (PPostF j) = (j + 1 = k \<and> k \<le> T)"
| "sproducer_ok T k PRet = (k = T)"
| "sproducer_ok T k p = False"

fun is_consumer :: "spos \<Rightarrow> bool" where
  "is_consumer CFull = True"
| "is_consumer CMutex = True"
| "is_consumer CGet = True"
| "is_consumer (CPostM v) = True"
| "is_consumer (CPostE v) = True"
| "is_consumer CRet = True"
| "is_consumer p = False"

definition in_ring :: "sbuf \<Rightarrow> nat" where
  "in_ring s = length (put_seq s) - length (got_seq s)"

definition sb_sems :: "nat \<Rightarrow> nat \<Rightarrow> sbuf \<Rightarrow> bool" where
  "sb_sems M n s \<longleftrightarrow> int (smutex s) + cnt (n + 1) in_mutex (spos s) = 1 \<and>
     int (sempty s) + cnt (n + 1) has_slot (spos s) + int (in_ring s) = int M \<and>
     int (in_ring s) = int (sfull s) + cnt (n + 1) has_item (spos s) \<and>
     int (markers (got_seq s)) = cnt (n + 1) saw_marker (spos s)"

definition sb_ring :: "nat \<Rightarrow> nat \<Rightarrow> sbuf \<Rightarrow> bool" where
  "sb_ring M loops s \<longleftrightarrow> ring_ok M (as_ring (in_ring s) (cells s)) \<and>
     put_seq s = got_seq s @ contents M (as_ring (in_ring s) (cells s)) \<and>
     put_seq s = items loops (length (put_seq s))"

definition sb_inv :: "nat \<Rightarrow> nat \<Rightarrow> nat \<Rightarrow> sbuf \<Rightarrow> bool" where
  "sb_inv M loops n s \<longleftrightarrow> sb_ring M loops s \<and> sb_sems M n s \<and>
     sproducer_ok (loops + n) (length (put_seq s)) (spos s 0) \<and> (\<forall>t. 1 \<le> t \<and> t \<le> n \<longrightarrow> is_consumer (spos s t))"

lemma sb_at_simps [simp]:
  "cells (sb_at t p s) = cells s" "sempty (sb_at t p s) = sempty s" "sfull (sb_at t p s) = sfull s"
  "smutex (sb_at t p s) = smutex s" "put_seq (sb_at t p s) = put_seq s" "got_seq (sb_at t p s) = got_seq s"
  "spos (sb_at t p s) = (spos s)(t := p)" "in_ring (sb_at t p s) = in_ring s"
  by (simp_all add: sb_at_def in_ring_def)

lemma sb_inv_init: "0 < M \<Longrightarrow> sb_inv M loops n (sbuf_main M loops n)"
proof -
  assume M: "0 < M"
  let ?f = "\<lambda>t. if t = 0 then produce_next loops n 0 else consume_next 0"
  have z: "cnt (n + 1) in_mutex ?f = 0" "cnt (n + 1) has_slot ?f = 0" "cnt (n + 1) has_item ?f = 0"
    "cnt (n + 1) saw_marker ?f = 0"
    unfolding cnt_eq_0 by (simp_all add: produce_next_def consume_next_def)
  have "as_ring 0 \<lparr>cbuf = replicate M 0, cuse = 0, cfill = 0\<rparr> = ring_init M"
    by (simp add: as_ring_def ring_init_def)
  with M z show ?thesis
    by (simp add: sb_inv_def sb_ring_def sb_sems_def sbuf_main_def in_ring_def ring_ok_init sem_init_def
        produce_next_def consume_next_def)
qed

lemma sb_invD:
  assumes "sb_inv M loops n s"
  shows "sb_ring M loops s" "sb_sems M n s" "sproducer_ok (loops + n) (length (put_seq s)) (spos s 0)"
    "\<And>t. 1 \<le> t \<Longrightarrow> t \<le> n \<Longrightarrow> is_consumer (spos s t)"
  using assms by (auto simp: sb_inv_def)

lemma sb_ringD:
  assumes "sb_ring M loops s"
  shows "ring_ok M (as_ring (in_ring s) (cells s))" "put_seq s = got_seq s @ contents M (as_ring (in_ring s) (cells s))"
    "put_seq s = items loops (length (put_seq s))"
    "length (put_seq s) = length (got_seq s) + in_ring s"
proof -
  show a: "ring_ok M (as_ring (in_ring s) (cells s))" "put_seq s = got_seq s @ contents M (as_ring (in_ring s) (cells s))"
    "put_seq s = items loops (length (put_seq s))" using assms unfolding sb_ring_def by blast+
  show "length (put_seq s) = length (got_seq s) + in_ring s"
    using arg_cong [OF a(2), of length] by (simp add: contents_length)
qed

lemma sb_ringI:
  assumes "ring_ok M (as_ring c (cells u))" "in_ring u = c" "put_seq u = got_seq u @ contents M (as_ring c (cells u))"
    "put_seq u = items loops (length (put_seq u))"
  shows "sb_ring M loops u"
  unfolding sb_ring_def assms(2) using assms(1,3,4) by blast

lemma sb_ring_same:
  "sb_ring M loops s \<Longrightarrow> cells u = cells s \<Longrightarrow> put_seq u = put_seq s \<Longrightarrow> got_seq u = got_seq s \<Longrightarrow> sb_ring M loops u"
  by (simp add: sb_ring_def in_ring_def)

lemma sb_inv_same:
  assumes inv: "sb_inv M loops n s" and u: "cells u = cells s" "put_seq u = put_seq s" "got_seq u = got_seq s"
      "spos u = (spos s)(t := p)" "sb_sems M n u"
    and p: "t = 0 \<Longrightarrow> sproducer_ok (loops + n) (length (put_seq s)) p" "t \<noteq> 0 \<Longrightarrow> is_consumer p"
  shows "sb_inv M loops n u"
proof -
  note I = sb_invD [OF inv]
  have "sproducer_ok (loops + n) (length (put_seq u)) (spos u 0)" using I(3) p(1) u(2,4) by (cases "t = 0") auto
  moreover have "is_consumer (spos u v)" if "1 \<le> v" "v \<le> n" for v
    using I(4) [OF that] p(2) u(4) that by (cases "v = t") auto
  ultimately show ?thesis using sb_ring_same [OF I(1) u(1,2,3)] u(5) by (simp add: sb_inv_def)
qed

lemma sb_room:
  assumes "sb_sems M n s" "has_slot (spos s t)" "t \<le> n"
  shows "in_ring s < M"
proof -
  have "1 \<le> cnt (n + 1) has_slot (spos s)" using cnt_pos [of t "n + 1"] assms(2,3) by simp
  then show ?thesis using assms(1) by (simp add: sb_sems_def)
qed

lemma sb_some:
  assumes "sb_sems M n s" "has_item (spos s t)" "t \<le> n"
  shows "0 < in_ring s"
proof -
  have "1 \<le> cnt (n + 1) has_item (spos s)" using cnt_pos [of t "n + 1"] assms(2,3) by simp
  then show ?thesis using assms(1) by (simp add: sb_sems_def)
qed

lemma sproducer_fill:
  assumes inv: "sb_inv M loops n s" and at: "spos s 0 = PFill k"
    and u: "u = sb_at 0 (PPostM k) (s\<lparr>cells := do_fill M (item loops k) (cells s), put_seq := put_seq s @ [item loops k]\<rparr>)"
  shows "sb_inv M loops n u"
proof -
  note I = sb_invD [OF inv]
  note R = sb_ringD [OF I(1)]
  let ?b = "do_fill M (item loops k) (cells s)"
  have k: "length (put_seq s) = k" "k < loops + n" using I(3) at by auto
  have "in_ring s < M" using sb_room [OF I(2), of 0] at by simp
  then have p: "ring_ok M (as_ring (in_ring s + 1) ?b)"
      "contents M (as_ring (in_ring s + 1) ?b) = contents M (as_ring (in_ring s) (cells s)) @ [item loops k]"
    using put_ok [OF R(1)] fill_put [OF R(1)] by simp_all
  have i: "in_ring u = in_ring s + 1" using R(4) by (simp add: u in_ring_def)
  have a: "put_seq u = items loops (length (put_seq u))" using R(3) k(1) by (simp add: u items_Suc)
  have b: "put_seq u = got_seq u @ contents M (as_ring (in_ring s + 1) (cells u))" using R(2) p(2) by (simp add: u)
  have "sb_ring M loops u" by (rule sb_ringI [OF _ i b a]) (use p(1) u in simp)
  moreover have "sb_sems M n u" using I(2) at i unfolding sb_sems_def by (simp add: u cnt_simps)
  ultimately show ?thesis using I(4) k by (simp add: sb_inv_def u)
qed

lemma sproducer_other:
  assumes I: "sb_sems M n s" "sproducer_ok (loops + n) (length (put_seq s)) (spos s 0)"
    and at: "\<nexists>k. spos s 0 = PFill k" and step: "sproducer M loops n 0 s = Some u"
  shows "cells u = cells s \<and> put_seq u = put_seq s \<and> got_seq u = got_seq s \<and> spos u = (spos s)(0 := spos u 0) \<and>
    sb_sems M n u \<and> sproducer_ok (loops + n) (length (put_seq s)) (spos u 0)"
  using assms
  by (cases "spos s 0")
    (auto simp: sproducer_def sb_sems_def sem_wait_def sem_post_def produce_next_def cnt_simps in_ring_def split: if_splits)

lemma sproducer_inv:
  assumes inv: "sb_inv M loops n s" and step: "sproducer M loops n 0 s = Some u"
  shows "sb_inv M loops n u"
proof (cases "\<exists>k. spos s 0 = PFill k")
  case True
  then show ?thesis using step sproducer_fill [OF inv] by (auto simp: sproducer_def)
next
  case False
  show ?thesis using sproducer_other [OF sb_invD(2,3) [OF inv] False step]
    by (intro sb_inv_same [OF inv, of u 0 "spos u 0"]) simp_all
qed

lemma sconsumer_get:
  assumes inv: "sb_inv M loops n s" and t: "t \<le> n" "t \<noteq> 0" and at: "spos s t = CGet"
    and g: "do_get M (cells s) = (v, b)"
    and u: "u = sb_at t (CPostM v) (s\<lparr>cells := b, got_seq := got_seq s @ [v]\<rparr>)"
  shows "sb_inv M loops n u"
proof -
  note I = sb_invD [OF inv]
  note R = sb_ringD [OF I(1)]
  have c: "0 < in_ring s" using sb_some [OF I(2), of t] at t(1) by simp
  then have p: "ring_ok M (as_ring (in_ring s - 1) b)"
      "contents M (as_ring (in_ring s) (cells s)) = v # contents M (as_ring (in_ring s - 1) b)"
    using get_ok [OF R(1) _ get_get [OF R(1) g]] by simp_all
  have i: "in_ring u = in_ring s - 1" using R(4) by (simp add: u in_ring_def)
  have a: "put_seq u = items loops (length (put_seq u))" unfolding u using R(3) by simp
  have b: "put_seq u = got_seq u @ contents M (as_ring (in_ring s - 1) (cells u))" using R(2) p(2) by (simp add: u)
  have "sb_ring M loops u" by (rule sb_ringI [OF _ i b a]) (use p(1) u in simp)
  moreover have "sb_sems M n u" using I(2) at i c t unfolding sb_sems_def by (simp add: u cnt_simps)
  ultimately show ?thesis using I(3,4) t by (simp add: sb_inv_def u)
qed

lemma sconsumer_other:
  assumes I: "sb_sems M n s" and t: "t \<le> n" and at: "spos s t \<noteq> CGet" and step: "sconsumer M t s = Some u"
  shows "cells u = cells s \<and> put_seq u = put_seq s \<and> got_seq u = got_seq s \<and> spos u = (spos s)(t := spos u t) \<and>
    sb_sems M n u \<and> is_consumer (spos u t)"
  using assms
  by (cases "spos s t")
    (auto simp: sconsumer_def sb_sems_def sem_wait_def sem_post_def consume_next_def cnt_simps in_ring_def split: if_splits)

lemma sconsumer_inv:
  assumes inv: "sb_inv M loops n s" and t: "t \<le> n" "t \<noteq> 0" and step: "sconsumer M t s = Some u"
  shows "sb_inv M loops n u"
proof (cases "spos s t = CGet")
  case True
  then show ?thesis using step sconsumer_get [OF inv t True] by (auto simp: sconsumer_def split: prod.splits)
next
  case False
  show ?thesis using sconsumer_other [OF sb_invD(2) [OF inv] t(1) False step] t
    by (intro sb_inv_same [OF inv, of u t "spos u t"]) simp_all
qed

lemma sb_inv_step: "sb_inv M loops n s \<Longrightarrow> sbuf_step M loops n t s = Some u \<Longrightarrow> sb_inv M loops n u"
  using sproducer_inv [of M loops n s u] sconsumer_inv [of M loops n s t u]
  by (cases "t = 0"; cases "t \<le> n") (simp_all add: sbuf_step_def)

section \<open>Every run ends\<close>

fun spos_rank :: "nat \<Rightarrow> spos \<Rightarrow> nat" where
  "spos_rank T (PEmpty k) = 11 * (T - k) + 1"
| "spos_rank T (PMutex k) = 11 * (T - k)"
| "spos_rank T (PFill k) = 11 * (T - k) - 1"
| "spos_rank T (PPostM k) = 11 * (T - k) - 2"
| "spos_rank T (PPostF k) = 11 * (T - k) - 3"
| "spos_rank T CMutex = 5"
| "spos_rank T CGet = 4"
| "spos_rank T (CPostM v) = 3"
| "spos_rank T (CPostE v) = 2"
| "spos_rank T p = 0"

definition sb_rank :: "nat \<Rightarrow> nat \<Rightarrow> sbuf \<Rightarrow> nat" where
  "sb_rank loops n s = 6 * sfull s + (\<Sum>t<n + 1. spos_rank (loops + n) (spos s t))"

lemma sb_rank_move:
  assumes "t \<le> n" "spos u = (spos s)(t := p)"
    "6 * sfull u + spos_rank (loops + n) p < 6 * sfull s + spos_rank (loops + n) (spos s t)"
  shows "sb_rank loops n u < sb_rank loops n s"
proof -
  have "(\<Sum>i<n + 1. spos_rank (loops + n) (spos u i)) + spos_rank (loops + n) (spos s t) =
      (\<Sum>i<n + 1. spos_rank (loops + n) (spos s i)) + spos_rank (loops + n) p"
    using sum_change [of t "n + 1" "\<lambda>i. spos_rank (loops + n) (spos u i)" "\<lambda>i. spos_rank (loops + n) (spos s i)"]
      assms(1,2) by simp
  with assms(3) show ?thesis by (simp add: sb_rank_def)
qed

lemma sb_rank_step:
  assumes inv: "sb_inv M loops n s" and step: "sbuf_step M loops n t s = Some u"
  shows "sb_rank loops n u < sb_rank loops n s"
proof -
  note I = sb_invD [OF inv]
  show ?thesis
  proof (cases "t = 0")
    case True
    then show ?thesis using step I(3)
      by (cases "spos s 0"; intro sb_rank_move [of 0 n u s "spos u 0"])
        (auto simp: sbuf_step_def sproducer_def sem_wait_def sem_post_def produce_next_def split: if_splits)
  next
    case False
    then have "t \<le> n" using step by (simp add: sbuf_step_def split: if_splits)
    with False show ?thesis using step
      by (cases "spos s t"; intro sb_rank_move [of t n u s "spos u t"])
        (auto simp: sbuf_step_def sconsumer_def sem_wait_def sem_post_def consume_next_def split: if_splits prod.splits)
  qed
qed

section \<open>No deadlock\<close>

definition sb_ended :: "nat \<Rightarrow> sbuf \<Rightarrow> bool" where
  "sb_ended n s \<longleftrightarrow> spos s 0 = PRet \<and> (\<forall>t. 1 \<le> t \<and> t \<le> n \<longrightarrow> spos s t = CRet)"

lemma sb_waits:
  assumes "sbuf_step M loops n t s = None" "t \<le> n" "sb_inv M loops n s"
  shows "(\<exists>k. spos s t = PEmpty k \<and> sempty s = 0) \<or> (\<exists>k. spos s t = PMutex k \<and> smutex s = 0) \<or> spos s t = PRet \<or>
    (spos s t = CFull \<and> sfull s = 0) \<or> (spos s t = CMutex \<and> smutex s = 0) \<or> spos s t = CRet"
  using assms(1,2) sb_invD(3) [OF assms(3)] sb_invD(4) [OF assms(3), of t]
  by (cases "t = 0"; cases "spos s t")
    (auto simp: sbuf_step_def sproducer_def sconsumer_def sem_wait_def split: if_splits prod.splits)

lemma sb_none_left:
  assumes inv: "sb_inv M loops n s" and stuck: "\<And>t. sbuf_step M loops n t s = None" and t: "t \<le> n"
  shows "\<not> in_mutex (spos s t) \<and> \<not> has_slot (spos s t) \<and> \<not> has_item (spos s t)"
proof -
  note w = sb_waits [OF stuck _ inv]
  have "\<not> in_mutex (spos s v)" if "v \<le> n" for v using w [OF that] by auto
  then have "cnt (n + 1) in_mutex (spos s) = 0" by (simp add: cnt_eq_0)
  then have "smutex s = 1" using sb_invD(2) [OF inv] by (simp add: sb_sems_def)
  then show ?thesis using w [OF t] by auto
qed

lemma sb_progress:
  assumes inv: "sb_inv M loops n s" and M: "0 < M" "0 < n" and no: "\<not> sb_ended n s"
  shows "\<exists>t u. sbuf_step M loops n t s = Some u"
proof (rule ccontr)
  assume "\<not> ?thesis"
  then have stuck: "sbuf_step M loops n t s = None" for t by fastforce
  note I = sb_invD [OF inv]
  note R = sb_ringD [OF I(1)]
  note w = sb_waits [OF stuck _ inv]
  have z: "cnt (n + 1) has_slot (spos s) = 0" "cnt (n + 1) has_item (spos s) = 0"
    using sb_none_left [OF inv stuck] by (simp_all add: cnt_eq_0)
  then have c: "sempty s + in_ring s = M" "in_ring s = sfull s" using I(2) by (simp_all add: sb_sems_def)
  have p0: "\<not> saw_marker (spos s 0)" using I(3) by (cases "spos s 0") auto
  have one: "length (put_seq s) - loops = markers (got_seq s) + markers (contents M (as_ring (in_ring s) (cells s)))"
    using R(2,3) markers_items [of loops "length (put_seq s)"] by (metis markers_simps(3))
  have at: "spos s t = CRet \<longleftrightarrow> saw_marker (spos s t)" if "1 \<le> t" "t \<le> n" for t
    using w [OF that(2)] I(4) [OF that] by auto
  note sum = all_but_first [of saw_marker "spos s" n, OF p0]
  have done_all: "spos s t = CRet" if "markers (got_seq s) = n" "1 \<le> t" "t \<le> n" for t
    using sum at [OF that(2,3)] that I(2) by (simp add: sb_sems_def)
  show False
  proof (cases "\<exists>t. 1 \<le> t \<and> t \<le> n \<and> spos s t = CFull")
    case True
    then obtain t where t: "1 \<le> t" "t \<le> n" "spos s t = CFull" by blast
    then have e: "in_ring s = 0" "sempty s \<noteq> 0" using w [OF t(2)] c M by auto
    then have "spos s 0 = PRet" using w [of 0] sb_none_left [OF inv stuck, of 0] I(3) by auto
    then have "length (put_seq s) = loops + n" using I(3) by simp
    moreover have "contents M (as_ring (in_ring s) (cells s)) = []"
      using e(1) contents_length [of M "as_ring (in_ring s) (cells s)"] by simp
    ultimately have "markers (got_seq s) = n" using one by simp
    from done_all [OF this t(1,2)] t(3) show False by simp
  next
    case False
    then have all: "spos s t = CRet" if "1 \<le> t" "t \<le> n" for t
      using w [OF that(2)] sb_none_left [OF inv stuck that(2)] I(4) [OF that] that by auto
    then have "n \<le> markers (got_seq s)" using sum at I(2) by (simp add: sb_sems_def)
    then have "loops + n \<le> length (put_seq s)" using one M by linarith
    then have "spos s 0 = PRet" using I(3) w [of 0] sb_none_left [OF inv stuck, of 0] by auto
    with all no show False by (simp add: sb_ended_def)
  qed
qed

interpretation sb: finite_machine "sbuf_step (Suc M) loops (Suc n)" "sbuf_main (Suc M) loops (Suc n)"
  "sb_inv (Suc M) loops (Suc n)" "sb_ended (Suc n)" "sb_rank loops (Suc n)" for M loops n :: nat
proof (unfold_locales, goal_cases)
  case 1
  show ?case by (rule sb_inv_init) simp
next
  case (2 s t u)
  then show ?case by (rule sb_inv_step)
next
  case (3 s)
  then show ?case by (intro sb_progress) simp_all
next
  case (4 s t u)
  then show ?case by (rule sb_rank_step)
qed

lemma sb_ended_got:
  assumes inv: "sb_inv M loops n s" and e: "sb_ended n s" and n: "0 < n"
  shows "got_seq s = items loops (loops + n)"
proof -
  note I = sb_invD [OF inv]
  note R = sb_ringD [OF I(1)]
  have len: "length (put_seq s) = loops + n" using I(3) e by (simp add: sb_ended_def)
  have "\<not> saw_marker (spos s 0)" using e by (simp add: sb_ended_def)
  then have "cnt (n + 1) saw_marker (spos s) = int n"
    using all_but_first [of saw_marker "spos s" n] e by (simp add: sb_ended_def)
  then have m: "markers (got_seq s) = n" using I(2) by (simp add: sb_sems_def)
  have p: "items loops (loops + n) = got_seq s @ contents M (as_ring (in_ring s) (cells s))" using R(2,3) len by simp
  then have "loops + n - loops = markers (got_seq s) + markers (contents M (as_ring (in_ring s) (cells s)))"
    using markers_items [of loops "loops + n"] by simp
  with m have "contents M (as_ring (in_ring s) (cells s)) = []" by (intro markers_last [OF n p]) simp
  with p show ?thesis by simp
qed

lemma sb_exclusive:
  assumes "sb_inv M loops n s" "t \<le> n" "v \<le> n" "in_mutex (spos s t)" "in_mutex (spos s v)"
  shows "t = v"
proof -
  have "cnt (n + 1) in_mutex (spos s) \<le> 1" using sb_invD(2) [OF assms(1)] by (simp add: sb_sems_def)
  then show ?thesis using cnt_le_1_unique [of "n + 1" in_mutex "spos s" t v] assms(2-5) by simp
qed

section \<open>Properties\<close>

text \<open>Producer_consumer_works.c works: for every size of the buffer, number of items and of consumers, every
  interleaving is finite; a thread is alone between the operations on \<open>mutex\<close>; what has been put is an initial piece
  of \<open>0, ..., loops - 1, -1, ..., -1\<close>, in which what has been got comes first; and when no thread can go on, all have
  returned and the consumers have got everything.\<close>

theorem sema_buffer_correct:
  assumes "exec (sbuf_step M loops n) ls (sbuf_main M loops n) = Some s" "0 < M" "0 < n"
  shows "length ls \<le> sb_rank loops n (sbuf_main M loops n) \<and>
    (t \<le> n \<and> v \<le> n \<and> in_mutex (spos s t) \<and> in_mutex (spos s v) \<longrightarrow> t = v) \<and>
    put_seq s = items loops (length (put_seq s)) \<and> (\<exists>xs. put_seq s = got_seq s @ xs) \<and>
    ((\<forall>t. sbuf_step M loops n t s = None) \<longrightarrow>
      sb_ended n s \<and> got_seq s = map int [0..<loops] @ replicate n (- 1))"
proof -
  obtain M' n' where M: "M = Suc M'" "n = Suc n'" using assms(2,3) by (cases M; cases n) auto
  have r: "reach (sbuf_step M loops n) (sbuf_main M loops n) s" using assms(1) by (rule reachI)
  have inv: "sb_inv M loops n s" using sb.reach_inv [of M' loops n'] r unfolding M by blast
  have "length ls \<le> sb_rank loops n (sbuf_main M loops n)" using sb.run_bound assms(1) unfolding M by blast
  moreover have "\<forall>t. sbuf_step M loops n t s = None \<Longrightarrow> sb_ended n s" using sb.stuck_final r unfolding M by blast
  ultimately show ?thesis
    using sb_exclusive [OF inv, of t v] sb_ringD(2,3) [OF sb_invD(1) [OF inv]] sb_ended_got [OF inv _ assms(3)] items_all
    by metis
qed

theorem sema_buffer_correct_witness:
  "\<exists>s. exec (sbuf_step 1 1 1) [0, 0, 0, 0, 0, 1, 1, 1, 1, 1, 0, 0, 0, 0, 0, 1, 1, 1, 1, 1] (sbuf_main 1 1 1) = Some s \<and>
     sb_ended 1 s \<and> got_seq s = [0, - 1] \<and> (\<exists>xs. put_seq s = got_seq s @ xs)"
proof -
  obtain s where s: "exec (sbuf_step 1 1 1) [0, 0, 0, 0, 0, 1, 1, 1, 1, 1, 0, 0, 0, 0, 0, 1, 1, 1, 1, 1]
      (sbuf_main 1 1 1) = Some s" "sb_ended 1 s" "got_seq s = [0, - 1]"
    by (simp add: sbuf_main_def sbuf_step_def sproducer_def sconsumer_def do_fill_def do_get_def sb_at_def
        produce_next_def consume_next_def sem_defs item_def sb_ended_def)
  with sema_buffer_correct [OF s(1)] show ?thesis by (metis zero_less_one)
qed

section \<open>Three buffers\<close>

text \<open>Sequences of operations: what the getters receive from the cells, from the ring with its counter and from a list that
  never holds more than \<open>M\<close> values. The list is defined only where no operation overfills or underruns it, which is what the
  semaphores and the condition variables are there for.\<close>

datatype buf_op = PutItem int | GetItem

fun list_run :: "nat \<Rightarrow> buf_op list \<Rightarrow> int list \<Rightarrow> (int list \<times> int list) option" where
  "list_run M [] xs = Some ([], xs)"
| "list_run M (PutItem v # ops) xs = (if length xs < M then list_run M ops (xs @ [v]) else None)"
| "list_run M (GetItem # ops) xs =
     (case xs of [] \<Rightarrow> None | v # ys \<Rightarrow> map_option (\<lambda>(out, zs). (v # out, zs)) (list_run M ops ys))"

fun cells_run :: "nat \<Rightarrow> buf_op list \<Rightarrow> cells \<Rightarrow> int list \<times> cells" where
  "cells_run M [] b = ([], b)"
| "cells_run M (PutItem v # ops) b = cells_run M ops (do_fill M v b)"
| "cells_run M (GetItem # ops) b = (case do_get M b of (v, b') \<Rightarrow> case cells_run M ops b' of (out, c) \<Rightarrow> (v # out, c))"

fun ring_run :: "nat \<Rightarrow> buf_op list \<Rightarrow> ring \<Rightarrow> int list \<times> ring" where
  "ring_run M [] r = ([], r)"
| "ring_run M (PutItem v # ops) r = ring_run M ops (put M v r)"
| "ring_run M (GetItem # ops) r = (case get M r of (v, r') \<Rightarrow> case ring_run M ops r' of (out, c) \<Rightarrow> (v # out, c))"

lemma runs_agree:
  assumes "ring_ok M (as_ring c b)" "list_run M ops (contents M (as_ring c b)) = Some (out, xs)"
  shows "\<exists>b' c'. cells_run M ops b = (out, b') \<and> ring_run M ops (as_ring c b) = (out, as_ring c' b') \<and>
    contents M (as_ring c' b') = xs \<and> ring_ok M (as_ring c' b')"
  using assms
proof (induction ops arbitrary: b c out)
  case Nil
  then show ?case by auto
next
  case (Cons op ops)
  show ?case
  proof (cases op)
    case (PutItem v)
    then have room: "c < M" using Cons.prems(2) by (simp add: contents_length split: if_splits)
    note p = put_ok [OF Cons.prems(1), unfolded count_as_ring, OF room, of v, folded fill_put [OF Cons.prems(1), of v]]
    from Cons.IH [OF p(1)] Cons.prems(2) PutItem room p(2) fill_put [OF Cons.prems(1), of v]
    show ?thesis by (simp add: contents_length)
  next
    case GetItem
    then have "contents M (as_ring c b) \<noteq> []" using Cons.prems(2) by (cases "contents M (as_ring c b)") simp_all
    then have pos: "0 < count (as_ring c b)" using contents_length [of M "as_ring c b"] by (cases c) simp_all
    obtain v b' where g: "do_get M b = (v, b')" by fastforce
    note gr = get_get [OF Cons.prems(1) g]
    note q = get_ok [OF Cons.prems(1) pos gr]
    obtain out' where o: "out = v # out'" "list_run M ops (contents M (as_ring (c - 1) b')) = Some (out', xs)"
      using Cons.prems(2) GetItem q(2) by auto
    from Cons.IH [OF q(1) o(2)] o(1) GetItem g gr show ?thesis by auto
  qed
qed

text \<open>C25: the buffer of producer_consumer_works.c, two indices wrapped with a test and no counter, is the one of the programs
  with condition variables, indices wrapped with \<open>mod\<close> and a counter, and both are a queue: for every buffer with room
  for at least one value and every sequence of puts and gets, from the empty buffers on, that never overfills nor underruns a
  queue of that many places, the getters receive from both exactly what they receive from the queue, value for value, both
  end with the same cells and indices, and what is left in them is what is left in the queue. This is what lets the semaphores
  stand in for the counter.\<close>

theorem buffers_equivalent:
  assumes "0 < M" "list_run M ops [] = Some (out, xs)"
  shows "fst (cells_run M ops (cells (sbuf_main M loops n))) = out \<and> fst (ring_run M ops (ring_init M)) = out \<and>
    snd (ring_run M ops (ring_init M)) = as_ring (length xs) (snd (cells_run M ops (cells (sbuf_main M loops n)))) \<and>
    contents M (snd (ring_run M ops (ring_init M))) = xs"
proof -
  let ?b = "cells (sbuf_main M loops n)"
  have e: "as_ring 0 ?b = ring_init M" by (simp add: as_ring_def sbuf_main_def ring_init_def)
  have "ring_ok M (as_ring 0 ?b)" "list_run M ops (contents M (as_ring 0 ?b)) = Some (out, xs)"
    unfolding e using assms by (simp_all add: ring_ok_init)
  from runs_agree [OF this] obtain b' c' where r: "cells_run M ops ?b = (out, b')" "ring_run M ops (ring_init M) = (out, as_ring c' b')"
      "contents M (as_ring c' b') = xs" unfolding e by blast
  then have "c' = length xs" using contents_length [of M "as_ring c' b'"] by simp
  with r show ?thesis by simp
qed

theorem buffers_equivalent_witness:
  "fst (cells_run 2 [PutItem 4, PutItem 5, GetItem, PutItem 6, GetItem] (cells (sbuf_main 2 0 0))) = [4, 5] \<and>
   contents 2 (snd (ring_run 2 [PutItem 4, PutItem 5, GetItem, PutItem 6, GetItem] (ring_init 2))) = [6]"
proof -
  have "list_run 2 [PutItem 4, PutItem 5, GetItem, PutItem 6, GetItem] [] = Some ([4, 5], [6])" by simp
  moreover have "0 < (2 :: nat)" by simp
  ultimately show ?thesis using buffers_equivalent by blast
qed

end
