(* ===== verification/Zemaphore.thy ===== *)
theory Zemaphore
  imports Monitors Semaphores
begin

text \<open>
  \<open>threads-sema/zemaphore.h\<close>: a semaphore made of a mutex, a condition variable and a counter, which the programs use
  in place of a POSIX semaphore where there is none.

  Any number of threads call \<open>Zem_wait\<close> and \<open>Zem_post\<close>; the critical sections are atomic (see \<open>Monitors\<close>). \<open>ops\<close> is a
  history variable: the calls that took effect, in order. The specification is the semaphore of the theory
  \<open>Semaphores\<close>, of which \<open>sem_run\<close> runs a list of operations. The value is an \<open>int\<close> without bounds.
\<close>

datatype zpc = ZOut | ZTest | ZSleep

datatype sem_op = Wait | Post

record Zem_t =
  zvalue :: int
  zpcs :: "tid \<Rightarrow> zpc"
  ops :: "sem_op list"

definition Zem_init :: "int \<Rightarrow> Zem_t" where
  "Zem_init v = \<lparr>zvalue = v, zpcs = (\<lambda>_. ZOut), ops = []\<rparr>"

fun zcond :: "zpc \<Rightarrow> zpc option" where
  "zcond ZSleep = Some ZTest"
| "zcond p = None"

definition zem_at :: "tid \<Rightarrow> zpc \<Rightarrow> Zem_t \<Rightarrow> Zem_t" where
  "zem_at t p z = z\<lparr>zpcs := (zpcs z)(t := p)\<rparr>"

text \<open>\<open>Zem_wait\<close> from the lock to the end, or to the sleep in \<open>Cond_wait\<close>.\<close>

definition Zem_wait :: "tid \<Rightarrow> Zem_t \<Rightarrow> Zem_t" where
  "Zem_wait t z =
     (if zvalue z \<le> 0 then zem_at t ZSleep z
      else zem_at t ZOut (z\<lparr>zvalue := zvalue z - 1, ops := ops z @ [Wait]\<rparr>))"

definition Zem_post :: "nat \<Rightarrow> tid option \<Rightarrow> Zem_t \<Rightarrow> Zem_t option" where
  "Zem_post n c z =
     map_option (\<lambda>f. z\<lparr>zvalue := zvalue z + 1, zpcs := f, ops := ops z @ [Post]\<rparr>) (notify_one zcond n c (zpcs z))"

datatype zem_label = CallWait tid | RunWait tid | CallPost tid "tid option" | Spurious tid

fun zem_step :: "nat \<Rightarrow> zem_label \<Rightarrow> Zem_t \<Rightarrow> Zem_t option" where
  "zem_step n (CallWait t) z = (if t < n \<and> zpcs z t = ZOut then Some (zem_at t ZTest z) else None)"
| "zem_step n (RunWait t) z = (if t < n \<and> zpcs z t = ZTest then Some (Zem_wait t z) else None)"
| "zem_step n (CallPost t c) z = (if t < n \<and> zpcs z t = ZOut then Zem_post n c z else None)"
| "zem_step n (Spurious t) z = (if t < n \<and> zpcs z t = ZSleep then Some (zem_at t ZTest z) else None)"

section \<open>Specification\<close>

fun sem_run :: "sem_op list \<Rightarrow> sem \<Rightarrow> sem option" where
  "sem_run [] v = Some v"
| "sem_run (Wait # xs) v = (case sem_wait v of None \<Rightarrow> None | Some w \<Rightarrow> sem_run xs w)"
| "sem_run (Post # xs) v = sem_run xs (sem_post v)"

lemma sem_run_append: "sem_run (xs @ ys) v = (case sem_run xs v of None \<Rightarrow> None | Some w \<Rightarrow> sem_run ys w)"
  by (induction xs v rule: sem_run.induct) (auto split: option.splits)

definition posts_waits :: "sem_op list \<Rightarrow> int" where
  "posts_waits xs = int (length (filter (\<lambda>x. x = Post) xs)) - int (length (filter (\<lambda>x. x = Wait) xs))"

lemma posts_waits_simps [simp]:
  "posts_waits [] = 0" "posts_waits (xs @ [Post]) = posts_waits xs + 1" "posts_waits (xs @ [Wait]) = posts_waits xs - 1"
  by (simp_all add: posts_waits_def)

section \<open>Invariant\<close>

text \<open>A sleeper is there only while the value does not exceed the number of threads about to test it.\<close>

definition zem_inv :: "int \<Rightarrow> nat \<Rightarrow> Zem_t \<Rightarrow> bool" where
  "zem_inv v n z \<longleftrightarrow> zvalue z = v + posts_waits (ops z) \<and>
     (0 \<le> v \<longrightarrow> 0 \<le> zvalue z \<and> sem_run (ops z) (nat v) = Some (nat (zvalue z))) \<and>
     (num_at n ZSleep (zpcs z) = 0 \<or> zvalue z \<le> num_at n ZTest (zpcs z))"

lemma zem_inv_init: "zem_inv v n (Zem_init v)"
  by (simp add: zem_inv_def Zem_init_def cnt_eq_0)

lemma zem_sleepers: "sleeping n zcond f = num_at n ZSleep f"
proof -
  have "(\<lambda>p. zcond p \<noteq> None) = (\<lambda>p. p = ZSleep)" by (rule ext) (case_tac p, auto)
  then show ?thesis by simp
qed

lemma zem_pos: "t < n \<Longrightarrow> f t = x \<Longrightarrow> 1 \<le> num_at n x f"
  by (rule cnt_pos) auto

lemma zem_wait_inv:
  assumes inv: "zem_inv v n z" and t: "t < n" "zpcs z t = ZTest"
  shows "zem_inv v n (Zem_wait t z)"
proof (cases "zvalue z \<le> 0")
  case True
  then have "zvalue z \<le> num_at n ZTest (zpcs z) - 1" using zem_pos [of t n "zpcs z" ZTest] t by simp
  with True inv t show ?thesis by (auto simp: zem_inv_def Zem_wait_def zem_at_def cnt_simps)
next
  case False
  then have "nat (zvalue z) \<noteq> 0" "nat (zvalue z) - 1 = nat (zvalue z - 1)" by simp_all
  with False inv t show ?thesis
    by (auto simp: zem_inv_def Zem_wait_def zem_at_def cnt_simps sem_run_append sem_wait_def)
qed

lemma zem_post_inv:
  assumes inv: "zem_inv v n z" and step: "Zem_post n c z = Some u"
  shows "zem_inv v n u"
proof -
  obtain f where f: "notify_one zcond n c (zpcs z) = Some f"
    and u: "u = z\<lparr>zvalue := zvalue z + 1, zpcs := f, ops := ops z @ [Post]\<rparr>"
    using step by (auto simp: Zem_post_def)
  have w: "num_at n ZSleep f = 0 \<or> zvalue z + 1 \<le> num_at n ZTest f"
    using f
  proof (cases rule: notify_one_cases)
    case nobody
    then show ?thesis unfolding zem_sleepers by simp
  next
    case (somebody i p)
    then have i: "zpcs z i = ZSleep" "p = ZTest" by (cases "zpcs z i"; simp)+
    then show ?thesis using inv somebody zem_pos [of i n "zpcs z" ZSleep] by (auto simp: zem_inv_def cnt_simps)
  qed
  have "0 \<le> zvalue z \<Longrightarrow> sem_post (nat (zvalue z)) = nat (zvalue z + 1)" by (simp add: sem_post_def nat_add_distrib)
  with w inv show ?thesis by (auto simp: zem_inv_def u sem_run_append)
qed

lemma zem_inv_step:
  assumes inv: "zem_inv v n z" and step: "zem_step n l z = Some u"
  shows "zem_inv v n u"
proof (cases l)
  case (Spurious t)
  then show ?thesis using inv step zem_pos [of t n "zpcs z" ZSleep]
    by (auto simp: zem_inv_def zem_at_def cnt_simps split: if_splits)
next
  case (CallWait t)
  then show ?thesis using inv step by (auto simp: zem_inv_def zem_at_def cnt_simps split: if_splits)
next
  case (RunWait t)
  then show ?thesis using step zem_wait_inv [OF inv] by (auto split: if_splits)
next
  case (CallPost t c)
  then show ?thesis using step zem_post_inv [OF inv] by (auto split: if_splits)
qed

interpretation zem: safe_machine "zem_step n" "Zem_init v" "zem_inv v n" for v :: int and n :: nat
  by unfold_locales (use zem_inv_init zem_inv_step in blast)+

section \<open>Properties\<close>

text \<open>C23: a zemaphore that starts at \<open>v \<ge> 0\<close> refines a semaphore: in any interleaving of any number of threads the calls
  that returned, in the order in which they took effect, are a run of the semaphore from \<open>v\<close> to the current value; and
  no wake-up is lost: when no caller of \<open>Zem_wait\<close> can run and one sleeps, the value of that semaphore is 0.\<close>

theorem zemaphore_refines:
  assumes "reach (zem_step n) (Zem_init v) z" "0 \<le> v"
  shows "sem_run (ops z) (nat v) = Some (nat (zvalue z)) \<and>
    ((\<forall>t. zem_step n (RunWait t) z = None) \<and> t < n \<and> zpcs z t = ZSleep \<longrightarrow> sem_wait (nat (zvalue z)) = None)"
proof -
  have inv: "zem_inv v n z" by (rule zem.reach_inv [OF assms(1)])
  have "zvalue z \<le> 0" if no: "\<forall>t. zem_step n (RunWait t) z = None" and t: "t < n" "zpcs z t = ZSleep"
  proof -
    have "num_at n ZTest (zpcs z) = 0" unfolding cnt_eq_0 using no by (metis option.distinct(1) zem_step.simps(2))
    then show ?thesis using inv zem_pos [of t n "zpcs z" ZSleep] t by (simp add: zem_inv_def)
  qed
  with inv assms(2) show ?thesis by (auto simp: zem_inv_def sem_wait_def)
qed

definition zem_demo :: "zem_label list" where
  "zem_demo = [CallWait 0, RunWait 0, CallPost 1 (Some 0), RunWait 0, CallWait 1, RunWait 1]"

theorem zemaphore_refines_witness:
  "\<exists>z. exec (zem_step 2) zem_demo (Zem_init 0) = Some z \<and> zpcs z 1 = ZSleep \<and> sem_run [Post, Wait] 0 = Some 0 \<and>
     sem_wait (nat (zvalue z)) = None"
proof -
  obtain z where z: "exec (zem_step 2) zem_demo (Zem_init 0) = Some z" "zpcs z 1 = ZSleep" "zpcs z 0 = ZOut"
      "ops z = [Post, Wait]" "zvalue z = 0"
    by (simp add: zem_demo_def Zem_init_def zem_at_def Zem_wait_def Zem_post_def notify_one_def)
  have "zpcs z t \<noteq> ZTest" if "t < 2" for t using that z(2,3) unfolding less_2_cases_iff by auto
  then have "\<forall>t. zem_step 2 (RunWait t) z = None" by simp
  with zemaphore_refines [OF reachI [OF z(1)], of 1] z show ?thesis by simp
qed

end
