(* ===== verification/Barriers.thy ===== *)
theory Barriers
  imports Semaphores Monitors
begin

text \<open>
  \<open>threads-sema/barrier.c\<close>: \<open>n\<close> threads that meet at a barrier made of two semaphores and two counters. A step is one
  semaphore operation or one statement on the counters, which \<open>sem1\<close> protects. A thread prints its first message
  before \<open>BWait1\<close> and its second one after \<open>BDone\<close>. The barrier is used once.
\<close>

datatype bpos = BWait1 | BInc | BTest | BPost1 | BWait2 | BAgain1 | BTest2 | BDec | BLeave1 | BLeave2 | BDone

record barrier_t =
  sem1 :: sem
  sem2 :: sem
  bcount :: int
  thread_count :: int
  bposs :: "tid \<Rightarrow> bpos"

definition barrier_init :: "nat \<Rightarrow> barrier_t" where
  "barrier_init n = \<lparr>sem1 = sem_init 1, sem2 = sem_init 0, bcount = 0, thread_count = int n, bposs = (\<lambda>_. BWait1)\<rparr>"

definition b_at :: "tid \<Rightarrow> bpos \<Rightarrow> barrier_t \<Rightarrow> barrier_t" where
  "b_at t p b = b\<lparr>bposs := (bposs b)(t := p)\<rparr>"

definition barrier :: "tid \<Rightarrow> barrier_t \<Rightarrow> barrier_t option" where
  "barrier t b =
     (case bposs b t of
        BWait1 \<Rightarrow> map_option (\<lambda>v. b_at t BInc (b\<lparr>sem1 := v\<rparr>)) (sem_wait (sem1 b))
      | BInc \<Rightarrow> Some (b_at t BTest (b\<lparr>bcount := bcount b + 1\<rparr>))
      | BTest \<Rightarrow> Some (b_at t (if bcount b < thread_count b then BPost1 else BTest2) b)
      | BPost1 \<Rightarrow> Some (b_at t BWait2 (b\<lparr>sem1 := sem_post (sem1 b)\<rparr>))
      | BWait2 \<Rightarrow> map_option (\<lambda>v. b_at t BAgain1 (b\<lparr>sem2 := v\<rparr>)) (sem_wait (sem2 b))
      | BAgain1 \<Rightarrow> map_option (\<lambda>v. b_at t BTest2 (b\<lparr>sem1 := v\<rparr>)) (sem_wait (sem1 b))
      | BTest2 \<Rightarrow> Some (b_at t (if thread_count b = bcount b then BDec else BDone) b)
      | BDec \<Rightarrow> Some (b_at t BLeave1 (b\<lparr>thread_count := thread_count b - 1, bcount := bcount b - 1\<rparr>))
      | BLeave1 \<Rightarrow> Some (b_at t BLeave2 (b\<lparr>sem1 := sem_post (sem1 b)\<rparr>))
      | BLeave2 \<Rightarrow> Some (b_at t BDone (b\<lparr>sem2 := sem_post (sem2 b)\<rparr>))
      | BDone \<Rightarrow> None)"

definition barrier_step :: "nat \<Rightarrow> tid \<Rightarrow> barrier_t \<Rightarrow> barrier_t option" where
  "barrier_step n t b = (if t < n then barrier t b else None)"

section \<open>Invariant\<close>

definition holds1 :: "bpos \<Rightarrow> bool" where
  "holds1 p \<longleftrightarrow> p \<in> {BInc, BTest, BPost1, BTest2, BDec, BLeave1}"

definition arrived :: "bpos \<Rightarrow> bool" where
  "arrived p \<longleftrightarrow> p \<notin> {BWait1, BInc}"

definition gone :: "bpos \<Rightarrow> bool" where
  "gone p \<longleftrightarrow> p \<in> {BLeave1, BLeave2, BDone}"

definition token :: "bpos \<Rightarrow> bool" where
  "token p \<longleftrightarrow> p \<in> {BAgain1, BTest2, BDec, BLeave1, BLeave2}"

definition early :: "bpos \<Rightarrow> bool" where
  "early p \<longleftrightarrow> p \<in> {BTest, BPost1}"

text \<open>The barrier is closed until all have arrived and the last of them has passed its test; from then on there is one
  token, in \<open>sem2\<close> or with the thread it lets out.\<close>

definition barrier_inv :: "nat \<Rightarrow> barrier_t \<Rightarrow> bool" where
  "barrier_inv n b \<longleftrightarrow>
     int (sem1 b) + cnt n holds1 (bposs b) = 1 \<and>
     bcount b = cnt n arrived (bposs b) - cnt n gone (bposs b) \<and>
     thread_count b = int n - cnt n gone (bposs b) \<and>
     (if cnt n arrived (bposs b) = int n \<and> cnt n early (bposs b) = 0
      then int (sem2 b) + cnt n token (bposs b) = 1
      else int (sem2 b) + cnt n token (bposs b) = 0 \<and> cnt n gone (bposs b) = 0) \<and>
     (0 < num_at n BPost1 (bposs b) \<longrightarrow> cnt n arrived (bposs b) < int n)"

lemma barrier_inv_init: "0 < n \<Longrightarrow> barrier_inv n (barrier_init n)"
  by (simp add: barrier_inv_def barrier_init_def cnt_const holds1_def arrived_def gone_def token_def early_def sem_defs)

lemmas b_kinds = holds1_def arrived_def gone_def token_def early_def

text \<open>What the counts say about a thread.\<close>

lemma b_counts:
  assumes "t < n"
  shows "holds1 (bposs b t) \<Longrightarrow> 1 \<le> cnt n holds1 (bposs b)" "\<not> arrived (bposs b t) \<Longrightarrow> cnt n arrived (bposs b) < int n"
    "early (bposs b t) \<Longrightarrow> 1 \<le> cnt n early (bposs b)" "token (bposs b t) \<Longrightarrow> 1 \<le> cnt n token (bposs b)"
    "gone (bposs b t) \<Longrightarrow> 1 \<le> cnt n gone (bposs b)" "bposs b t = BPost1 \<Longrightarrow> 1 \<le> num_at n BPost1 (bposs b)"
proof -
  show "cnt n arrived (bposs b) < int n" if "\<not> arrived (bposs b t)"
    using cnt_upd [OF assms, of arrived "bposs b" BDone] that cnt_le [of n arrived "(bposs b)(t := BDone)"]
    by (auto simp: arrived_def)
  show "holds1 (bposs b t) \<Longrightarrow> 1 \<le> cnt n holds1 (bposs b)" "early (bposs b t) \<Longrightarrow> 1 \<le> cnt n early (bposs b)"
    "token (bposs b t) \<Longrightarrow> 1 \<le> cnt n token (bposs b)" "gone (bposs b t) \<Longrightarrow> 1 \<le> cnt n gone (bposs b)"
    using cnt_pos [OF assms, of _ "bposs b"] by blast+
  show "bposs b t = BPost1 \<Longrightarrow> 1 \<le> num_at n BPost1 (bposs b)" by (rule cnt_pos [OF assms])
qed

lemma cnt_plus_1: "cnt n P f + 1 \<noteq> 0"
  using cnt_nonneg [of n P f] by linarith

lemma cnt_early_holds: "cnt n early f \<le> cnt n holds1 f"
  by (rule cnt_mono) (auto simp: early_def holds1_def)

lemma cnt_post1_early: "num_at n BPost1 f \<le> cnt n early f"
  by (rule cnt_mono) (auto simp: early_def)

lemma cnt_early_holds_inc:
  assumes "t < n" "f t = BInc"
  shows "cnt n early f + 1 \<le> cnt n holds1 f"
proof -
  have "cnt n early (f(t := BTest)) = cnt n early f + 1" "cnt n holds1 (f(t := BTest)) = cnt n holds1 f"
    using assms by (simp_all add: cnt_upd early_def holds1_def)
  then show ?thesis using cnt_early_holds [of n "f(t := BTest)"] by simp
qed

lemma barrier_inv_step:
  assumes inv: "barrier_inv n b" and step: "barrier_step n t b = Some u"
  shows "barrier_inv n u"
proof -
  have t: "t < n" "barrier t b = Some u" using step by (auto simp: barrier_step_def split: if_splits)
  note c = b_counts [OF t(1), of b] cnt_early_holds [of n "bposs b"] cnt_post1_early [of n "bposs b"]
    cnt_early_holds_inc [OF t(1), of "bposs b"] cnt_le [of n arrived "bposs b"] cnt_plus_1 [of n early "bposs b"]
  show ?thesis
    using inv t c
    by (cases "bposs b t")
      (auto simp: barrier_def barrier_inv_def b_at_def sem_wait_def sem_post_def cnt_simps b_kinds split: if_splits)
qed

section \<open>Everybody passes\<close>

fun bpos_rank :: "bpos \<Rightarrow> nat" where
  "bpos_rank BWait1 = 10"
| "bpos_rank BInc = 9"
| "bpos_rank BTest = 8"
| "bpos_rank BPost1 = 7"
| "bpos_rank BWait2 = 6"
| "bpos_rank BAgain1 = 5"
| "bpos_rank BTest2 = 4"
| "bpos_rank BDec = 3"
| "bpos_rank BLeave1 = 2"
| "bpos_rank BLeave2 = 1"
| "bpos_rank BDone = 0"

definition barrier_rank :: "nat \<Rightarrow> barrier_t \<Rightarrow> nat" where
  "barrier_rank n b = (\<Sum>t<n. bpos_rank (bposs b t))"

definition all_passed :: "nat \<Rightarrow> barrier_t \<Rightarrow> bool" where
  "all_passed n b \<longleftrightarrow> (\<forall>t<n. bposs b t = BDone)"

lemma barrier_rank_step:
  assumes "barrier_step n t b = Some u"
  shows "barrier_rank n u < barrier_rank n b"
proof -
  have t: "t < n" "barrier t b = Some u" using assms by (auto simp: barrier_step_def split: if_splits)
  have "bpos_rank (bposs u t) < bpos_rank (bposs b t) \<and> (\<forall>v. v \<noteq> t \<longrightarrow> bposs u v = bposs b v)"
    using t(2) by (cases "bposs b t") (auto simp: barrier_def b_at_def)
  then show ?thesis unfolding barrier_rank_def by (intro sum_decreases [OF t(1)]) auto
qed

lemma barrier_waits:
  assumes "barrier_step n t b = None" "t < n"
  shows "(bposs b t = BWait1 \<or> bposs b t = BAgain1) \<and> sem1 b = 0 \<or> bposs b t = BWait2 \<and> sem2 b = 0 \<or> bposs b t = BDone"
  using assms by (cases "bposs b t") (auto simp: barrier_step_def barrier_def sem_wait_def split: if_splits)

lemma barrier_progress:
  assumes inv: "barrier_inv n b" and "\<not> all_passed n b"
  shows "\<exists>t u. barrier_step n t b = Some u"
proof (rule ccontr)
  assume "\<not> ?thesis"
  then have stuck: "barrier_step n t b = None" for t by fastforce
  note w = barrier_waits [OF stuck]
  have h: "cnt n holds1 (bposs b) = 0" unfolding cnt_eq_0 using w by (fastforce simp: holds1_def)
  then have "sem1 b = 1" using inv by (simp add: barrier_inv_def)
  then have at: "bposs b t = BWait2 \<and> sem2 b = 0 \<or> bposs b t = BDone" if "t < n" for t using w [OF that] by auto
  have "cnt n token (bposs b) = 0" "cnt n early (bposs b) = 0"
    unfolding cnt_eq_0 using at by (fastforce simp: token_def early_def)+
  moreover have "cnt n (\<lambda>p. \<not> arrived p) (bposs b) = 0" unfolding cnt_eq_0 using at by (fastforce simp: arrived_def)
  then have "cnt n arrived (bposs b) = int n" using cnt_compl [of n arrived "bposs b"] by simp
  ultimately have "sem2 b = 1" using inv by (simp add: barrier_inv_def)
  then have "all_passed n b" using at by (auto simp: all_passed_def)
  with assms(2) show False ..
qed

interpretation barrier: finite_machine "barrier_step (Suc n)" "barrier_init (Suc n)" "barrier_inv (Suc n)"
  "all_passed (Suc n)" "barrier_rank (Suc n)" for n :: nat
  by unfold_locales (use barrier_inv_init barrier_inv_step barrier_progress barrier_rank_step in blast)+

lemma barrier_open:
  assumes inv: "barrier_inv n b" and t: "t < n" "token (bposs b t) \<or> gone (bposs b t)" and v: "v < n"
  shows "arrived (bposs b v)"
proof (rule ccontr)
  assume "\<not> arrived (bposs b v)"
  then have "cnt n token (bposs b) = 0 \<and> cnt n gone (bposs b) = 0"
    using inv b_counts(2) [OF v, of b] cnt_nonneg [of n token "bposs b"]
    by (simp add: barrier_inv_def add_nonneg_eq_0_iff del: cnt_nonneg)
  then show False using b_counts(4,5) [OF t(1), of b] t(2) by fastforce
qed

section \<open>Property\<close>

text \<open>C31: with any number of threads the barrier holds everybody back until all have come, and then lets everybody
  through: a thread that is past its wait for the others finds that all have counted themselves; every interleaving
  ends after at most ten steps per thread, and one that cannot go on has all threads behind the barrier.\<close>

theorem barrier_correct:
  assumes "exec (barrier_step n) ls (barrier_init n) = Some b" "0 < n"
  shows "length ls \<le> 10 * n \<and> ((\<forall>t. barrier_step n t b = None) \<longrightarrow> all_passed n b) \<and>
    (t < n \<and> v < n \<and> bposs b t = BDone \<longrightarrow> arrived (bposs b v))"
proof -
  obtain m where m: "n = Suc m" using assms(2) by (cases n) auto
  have "barrier_rank n (barrier_init n) = 10 * n" by (simp add: barrier_rank_def barrier_init_def)
  then show ?thesis
    using barrier.run_bound [of m ls b] barrier.stuck_final [of m b] barrier.reach_inv [of m b] reachI [OF assms(1)]
      assms(1) barrier_open [of n b t v] unfolding m by (auto simp: gone_def)
qed

definition barrier_demo :: "tid list" where
  "barrier_demo = [0, 0, 0, 0, 1, 1, 1, 1, 1, 1, 1, 0, 0, 0, 0, 0, 0]"

theorem barrier_correct_witness:
  "\<exists>b. exec (barrier_step 2) barrier_demo (barrier_init 2) = Some b \<and> all_passed 2 b \<and> bposs b 1 = BDone \<and>
     arrived (bposs b 0) \<and> length barrier_demo \<le> 20"
proof -
  obtain b where b: "exec (barrier_step 2) barrier_demo (barrier_init 2) = Some b" "bposs b 0 = BDone" "bposs b 1 = BDone"
    by (simp add: barrier_demo_def barrier_step_def barrier_def barrier_init_def b_at_def sem_defs)
  then have "all_passed 2 b" by (auto simp: all_passed_def less_2_cases_iff)
  with b barrier_correct [OF b(1), of 1 0] show ?thesis by simp
qed

end
