(* ===== verification/No_Starve_Mutex.thy ===== *)
theory No_Starve_Mutex
  imports Semaphores Monitors
begin

text \<open>
  \<open>threads-sema/no-starve-mutex.c\<close>: a mutex of three semaphores and two room counters (Morris's algorithm). Threads
  acquire and release it for ever; a step is one semaphore operation, one change or one test of a counter. Changes
  of \<open>room1\<close> are made with \<open>mutex\<close> held. Those of \<open>room2\<close> are made with a turnstile passed: with one turnstile open they exclude
  each other, and with two, where they could meet half way, neither the pair of threads in the critical section nor the bound
  of two depends on the value. \<open>entries\<close> counts how often a thread has come out of \<open>ns_mutex_acquire\<close>; it is a history
  variable.

  The source initialises \<open>t2\<close> with 1 (\<open>ns_mutex_init\<close>), and so the mutex does not exclude: up to two threads are in the
  critical section together. The explanation at the end of the source has \<open>t2\<close> locked at the start. \<open>ns_mutex_repaired\<close>,
  which is not in the source, is the same state with \<open>t2\<close> locked: from there the code of the two operations excludes,
  does not deadlock and lets no thread be overtaken more than twice by another.
\<close>

datatype npos = NIdle | NIn1 | NOut1 | NT1 | NRoom2 | NMutex | NRoom1 | NTest | NPostM bool | NPostT bool | NT2
  | NLeave2 | NCrit | NRel bool

record ns_mutex_t =
  room1 :: int
  room2 :: int
  nmutex :: sem
  t1 :: sem
  t2 :: sem
  npos :: "tid \<Rightarrow> npos"
  entries :: "tid \<Rightarrow> nat"

definition ns_mutex_init :: ns_mutex_t where
  "ns_mutex_init = \<lparr>room1 = 0, room2 = 0, nmutex = sem_init 1, t1 = sem_init 1, t2 = sem_init 1,
     npos = (\<lambda>_. NIdle), entries = (\<lambda>_. 0)\<rparr>"

definition ns_mutex_repaired :: ns_mutex_t where
  "ns_mutex_repaired = ns_mutex_init\<lparr>t2 := sem_init 0\<rparr>"

definition n_at :: "tid \<Rightarrow> npos \<Rightarrow> ns_mutex_t \<Rightarrow> ns_mutex_t" where
  "n_at t p m = m\<lparr>npos := (npos m)(t := p)\<rparr>"

definition ns_mutex_acquire :: "tid \<Rightarrow> ns_mutex_t \<Rightarrow> ns_mutex_t option" where
  "ns_mutex_acquire t m =
     (case npos m t of
        NIdle \<Rightarrow> map_option (\<lambda>v. n_at t NIn1 (m\<lparr>nmutex := v\<rparr>)) (sem_wait (nmutex m))
      | NIn1 \<Rightarrow> Some (n_at t NOut1 (m\<lparr>room1 := room1 m + 1\<rparr>))
      | NOut1 \<Rightarrow> Some (n_at t NT1 (m\<lparr>nmutex := sem_post (nmutex m)\<rparr>))
      | NT1 \<Rightarrow> map_option (\<lambda>v. n_at t NRoom2 (m\<lparr>t1 := v\<rparr>)) (sem_wait (t1 m))
      | NRoom2 \<Rightarrow> Some (n_at t NMutex (m\<lparr>room2 := room2 m + 1\<rparr>))
      | NMutex \<Rightarrow> map_option (\<lambda>v. n_at t NRoom1 (m\<lparr>nmutex := v\<rparr>)) (sem_wait (nmutex m))
      | NRoom1 \<Rightarrow> Some (n_at t NTest (m\<lparr>room1 := room1 m - 1\<rparr>))
      | NTest \<Rightarrow> Some (n_at t (NPostM (room1 m = 0)) m)
      | NPostM b \<Rightarrow> Some (n_at t (NPostT b) (m\<lparr>nmutex := sem_post (nmutex m)\<rparr>))
      | NPostT b \<Rightarrow> Some (n_at t NT2 (if b then m\<lparr>t2 := sem_post (t2 m)\<rparr> else m\<lparr>t1 := sem_post (t1 m)\<rparr>))
      | NT2 \<Rightarrow> map_option (\<lambda>v. n_at t NLeave2 (m\<lparr>t2 := v\<rparr>)) (sem_wait (t2 m))
      | NLeave2 \<Rightarrow> Some (n_at t NCrit (m\<lparr>room2 := room2 m - 1, entries := (entries m)(t := entries m t + 1)\<rparr>))
      | _ \<Rightarrow> None)"

definition ns_mutex_release :: "tid \<Rightarrow> ns_mutex_t \<Rightarrow> ns_mutex_t option" where
  "ns_mutex_release t m =
     (case npos m t of
        NCrit \<Rightarrow> Some (n_at t (NRel (room2 m = 0)) m)
      | NRel b \<Rightarrow> Some (n_at t NIdle (if b then m\<lparr>t1 := sem_post (t1 m)\<rparr> else m\<lparr>t2 := sem_post (t2 m)\<rparr>))
      | _ \<Rightarrow> None)"

definition ns_step :: "nat \<Rightarrow> tid \<Rightarrow> ns_mutex_t \<Rightarrow> ns_mutex_t option" where
  "ns_step n t m =
     (if t < n then (case npos m t of NCrit \<Rightarrow> ns_mutex_release t m | NRel b \<Rightarrow> ns_mutex_release t m
        | _ \<Rightarrow> ns_mutex_acquire t m) else None)"

section \<open>Invariant with \<open>t2\<close> locked at the start\<close>

fun in_mutex :: "npos \<Rightarrow> bool" where
  "in_mutex NIn1 = True"
| "in_mutex NOut1 = True"
| "in_mutex NRoom1 = True"
| "in_mutex NTest = True"
| "in_mutex (NPostM b) = True"
| "in_mutex p = False"

text \<open>The two turnstiles share one token. A thread that carries it fills the second room or empties it.\<close>

fun filling :: "npos \<Rightarrow> bool" where
  "filling NRoom2 = True"
| "filling NMutex = True"
| "filling NRoom1 = True"
| "filling NTest = True"
| "filling (NPostM b) = (\<not> b)"
| "filling (NPostT b) = (\<not> b)"
| "filling p = False"

fun emptying :: "npos \<Rightarrow> bool" where
  "emptying (NPostM b) = b"
| "emptying (NPostT b) = b"
| "emptying NLeave2 = True"
| "emptying NCrit = True"
| "emptying (NRel b) = True"
| "emptying p = False"

fun in_room1 :: "npos \<Rightarrow> bool" where
  "in_room1 NOut1 = True"
| "in_room1 NT1 = True"
| "in_room1 NRoom2 = True"
| "in_room1 NMutex = True"
| "in_room1 NRoom1 = True"
| "in_room1 p = False"

fun in_room2 :: "npos \<Rightarrow> bool" where
  "in_room2 NMutex = True"
| "in_room2 NRoom1 = True"
| "in_room2 NTest = True"
| "in_room2 (NPostM b) = True"
| "in_room2 (NPostT b) = True"
| "in_room2 NT2 = True"
| "in_room2 NLeave2 = True"
| "in_room2 p = False"

definition emptying_now :: "nat \<Rightarrow> ns_mutex_t \<Rightarrow> bool" where
  "emptying_now n m \<longleftrightarrow> 0 < int (t2 m) + cnt n emptying (npos m)"

definition ns_sems :: "nat \<Rightarrow> ns_mutex_t \<Rightarrow> bool" where
  "ns_sems n m \<longleftrightarrow> int (nmutex m) + cnt n in_mutex (npos m) = 1 \<and>
     int (t1 m) + int (t2 m) + cnt n filling (npos m) + cnt n emptying (npos m) = 1 \<and>
     room1 m = cnt n in_room1 (npos m) \<and> room2 m = cnt n in_room2 (npos m)"

text \<open>Whoever is about to open a turnstile still finds what it tested.\<close>

fun test_holds :: "int \<Rightarrow> int \<Rightarrow> npos \<Rightarrow> bool" where
  "test_holds r1 r2 (NPostM b) = (b \<or> 0 < r1)"
| "test_holds r1 r2 (NPostT b) = (b \<or> 0 < r1)"
| "test_holds r1 r2 (NRel b) = (if b then r2 = 0 else 0 < r2)"
| "test_holds r1 r2 p = True"

definition ns_inv :: "nat \<Rightarrow> ns_mutex_t \<Rightarrow> bool" where
  "ns_inv n m \<longleftrightarrow> ns_sems n m \<and> (0 < t1 m \<longrightarrow> room2 m = 0 \<or> 0 < room1 m) \<and> (0 < t2 m \<longrightarrow> 0 < room2 m) \<and>
     (\<forall>t<n. test_holds (room1 m) (room2 m) (npos m t))"

lemma ns_inv_init: "ns_inv n ns_mutex_repaired"
  by (simp add: ns_inv_def ns_sems_def ns_mutex_repaired_def ns_mutex_init_def cnt_const sem_defs)

lemma ns_counts:
  assumes "t < n"
  shows "in_mutex (f t) \<Longrightarrow> 1 \<le> cnt n in_mutex f" "filling (f t) \<Longrightarrow> 1 \<le> cnt n filling f"
    "emptying (f t) \<Longrightarrow> 1 \<le> cnt n emptying f" "in_room1 (f t) \<Longrightarrow> 1 \<le> cnt n in_room1 f"
    "in_room2 (f t) \<Longrightarrow> 1 \<le> cnt n in_room2 f"
  using assms cnt_pos [of t n in_mutex f] cnt_pos [of t n filling f] cnt_pos [of t n emptying f]
    cnt_pos [of t n in_room1 f] cnt_pos [of t n in_room2 f] by simp_all

lemmas ns_step_defs = ns_step_def ns_mutex_acquire_def ns_mutex_release_def n_at_def sem_wait_def sem_post_def

lemma ns_sems_step:
  assumes "ns_sems n m" "ns_step n t m = Some u"
  shows "ns_sems n u"
proof -
  have "t < n" using assms(2) by (auto simp: ns_step_def split: if_splits)
  then show ?thesis
    using assms by (cases "npos m t") (auto simp: ns_step_defs ns_sems_def cnt_simps split: if_splits)
qed

text \<open>The number of tokens at the two turnstiles never changes. As the source initialises them there are two.\<close>

definition ns_tokens :: "nat \<Rightarrow> ns_mutex_t \<Rightarrow> int" where
  "ns_tokens n m = int (t1 m) + int (t2 m) + cnt n filling (npos m) + cnt n emptying (npos m)"

lemma ns_tokens_step:
  assumes "ns_step n t m = Some u"
  shows "ns_tokens n u = ns_tokens n m"
proof -
  have "t < n" using assms by (auto simp: ns_step_def split: if_splits)
  then show ?thesis
    using assms by (cases "npos m t") (auto simp: ns_step_defs ns_tokens_def cnt_simps split: if_splits)
qed

lemma ns_tokens_two: "reach (ns_step n) ns_mutex_init m \<Longrightarrow> ns_tokens n m = 2"
proof (induction rule: reach.induct)
  case reach_init
  show ?case by (simp add: ns_tokens_def ns_mutex_init_def cnt_const sem_defs)
next
  case (reach_step m t u)
  then show ?case using ns_tokens_step by simp
qed

lemma ns_two_inside:
  assumes "ns_tokens n m = 2"
  shows "card {t. t < n \<and> npos m t = NCrit} \<le> 2"
proof -
  have "int (card {t. t < n \<and> npos m t = NCrit}) \<le> cnt n emptying (npos m)"
  proof (induction n)
    case (Suc n)
    have eq: "{t. t < Suc n \<and> npos m t = NCrit} =
        (if npos m n = NCrit then insert n {t. t < n \<and> npos m t = NCrit} else {t. t < n \<and> npos m t = NCrit})"
      by (auto simp: less_Suc_eq)
    show ?case using Suc unfolding eq by (auto simp: cnt_Suc)
  qed (simp add: cnt_const)
  then show ?thesis using assms cnt_nonneg [of n filling "npos m"] unfolding ns_tokens_def by linarith
qed

text \<open>The token has one holder, and only the holder changes what the tests depend on.\<close>

lemma one_holder:
  assumes "ns_sems n m" "t < n" "v < n" "filling (npos m t) \<or> emptying (npos m t)"
    "filling (npos m v) \<or> emptying (npos m v)"
  shows "t = v"
proof (rule ccontr)
  assume "t \<noteq> v"
  have sum: "cnt n filling (npos m) + cnt n emptying (npos m) = cnt n (\<lambda>p. filling p \<or> emptying p) (npos m)"
  proof -
    have "\<not> (filling p \<and> emptying p)" for p by (cases p) auto
    then show ?thesis by (induction n) (auto simp: cnt_Suc)
  qed
  have "2 \<le> cnt n (\<lambda>p. filling p \<or> emptying p) (npos m)" 
    using cnt_two [of t n v "\<lambda>p. filling p \<or> emptying p" "npos m"] assms(2-5) \<open>t \<noteq> v\<close> by simp
  then show False using sum assms(1) by (simp add: ns_sems_def)
qed

lemma ns_inv_step:
  assumes inv: "ns_inv n m" and step: "ns_step n t m = Some u"
  shows "ns_inv n u"
proof -
  have t: "t < n" using step by (auto simp: ns_step_def split: if_splits)
  have S: "ns_sems n m" using inv by (simp add: ns_inv_def)
  note c = ns_counts [OF t, of "npos m"]
  have T: "test_holds (room1 m) (room2 m) (npos m v)" if "v < n" for v using inv that by (simp add: ns_inv_def)
  have nn: "0 \<le> room1 m" "0 \<le> room2 m" using S by (simp_all add: ns_sems_def)
  have "test_holds (room1 u) (room2 u) (npos u t) \<and>
      (room1 u = room1 m \<and> room2 u = room2 m \<or> filling (npos m t) \<or> emptying (npos m t) \<or> room1 u = room1 m + 1 \<and> room2 u = room2 m)
      \<and> (\<forall>v. v \<noteq> t \<longrightarrow> npos u v = npos m v)"
    using step t nn T [OF t] by (cases "npos m t") (auto simp: ns_step_defs split: if_splits)
  then have m: "test_holds (room1 u) (room2 u) (npos u t)" "v \<noteq> t \<Longrightarrow> npos u v = npos m v"
      "room1 u = room1 m \<and> room2 u = room2 m \<or> filling (npos m t) \<or> emptying (npos m t) \<or>
        room1 u = room1 m + 1 \<and> room2 u = room2 m" for v by blast+
  have "test_holds (room1 u) (room2 u) (npos u v)" if v: "v < n" for v
  proof (cases "v = t")
    case False
    have triv: "\<not> filling p \<Longrightarrow> \<not> emptying p \<Longrightarrow> test_holds x y p" and
      mono: "test_holds x y p \<Longrightarrow> test_holds (x + 1) y p" for x y p by (cases p; auto)+
    from m(3) consider "room1 u = room1 m \<and> room2 u = room2 m" | "\<not> filling (npos m v) \<and> \<not> emptying (npos m v)" |
        "room1 u = room1 m + 1 \<and> room2 u = room2 m"
      using one_holder [OF S t v] False by blast
    then show ?thesis using T [OF v] triv mono m(2) [OF False] by cases simp_all
  qed (use m(1) in simp)
  moreover have "(0 < t1 u \<longrightarrow> room2 u = 0 \<or> 0 < room1 u) \<and> (0 < t2 u \<longrightarrow> 0 < room2 u)"
  proof -
    have "filling (npos m t) \<or> emptying (npos m t) \<Longrightarrow> t1 m = 0 \<and> t2 m = 0"
      using S c cnt_nonneg [of n filling "npos m"] cnt_nonneg [of n emptying "npos m"]
      unfolding ns_sems_def by linarith
    moreover have "t1 m + t2 m \<le> 1"
      using S cnt_nonneg [of n filling "npos m"] cnt_nonneg [of n emptying "npos m"] unfolding ns_sems_def by linarith
    moreover have "in_room2 (npos m t) \<Longrightarrow> 0 < room2 m" using S c by (simp add: ns_sems_def)
    moreover have "0 < t1 m \<longrightarrow> room2 m = 0 \<or> 0 < room1 m" "0 < t2 m \<longrightarrow> 0 < room2 m" using inv by (simp_all add: ns_inv_def)
    ultimately show ?thesis using step t T [OF t] nn
      by (cases "npos m t") (auto simp: ns_step_defs split: if_splits)
  qed
  ultimately show ?thesis using ns_sems_step [OF S step] by (simp add: ns_inv_def)
qed

section \<open>No deadlock\<close>

lemma ns_waits:
  assumes "ns_step n t m = None" "t < n"
  shows "(npos m t = NIdle \<or> npos m t = NMutex) \<and> nmutex m = 0 \<or> npos m t = NT1 \<and> t1 m = 0 \<or>
    npos m t = NT2 \<and> t2 m = 0"
  using assms by (cases "npos m t") (auto simp: ns_step_defs split: if_splits)

lemma ns_progress:
  assumes inv: "ns_inv n m" and n: "0 < n"
  shows "\<exists>t u. ns_step n t m = Some u"
proof (rule ccontr)
  assume "\<not> ?thesis"
  then have stuck: "ns_step n t m = None" for t by fastforce
  note w = ns_waits [OF stuck]
  have S: "ns_sems n m" using inv by (simp add: ns_inv_def)
  have "cnt n in_mutex (npos m) = 0" unfolding cnt_eq_0 using w by fastforce
  then have at: "npos m t = NT1 \<and> t1 m = 0 \<or> npos m t = NT2 \<and> t2 m = 0" if "t < n" for t
    using w [OF that] S by (auto simp: ns_sems_def)
  then have "cnt n filling (npos m) = 0" "cnt n emptying (npos m) = 0" unfolding cnt_eq_0 by fastforce+
  then have one: "t1 m + t2 m = 1" using S by (simp add: ns_sems_def)
  have r: "room1 m = cnt n in_room1 (npos m)" "room2 m = cnt n in_room2 (npos m)" using S by (simp_all add: ns_sems_def)
  have i: "0 < t1 m \<longrightarrow> room2 m = 0 \<or> 0 < room1 m" "0 < t2 m \<longrightarrow> 0 < room2 m" using inv by (simp_all add: ns_inv_def)
  show False
  proof (cases "t1 m = 0")
    case True
    then have "t2 m = 1" using one by simp
    then have "npos m t = NT1" if "t < n" for t using at [OF that] by simp
    then have "cnt n in_room2 (npos m) = 0" unfolding cnt_eq_0 by simp
    then show False using r i \<open>t2 m = 1\<close> by simp
  next
    case False
    then have all: "npos m t = NT2" if "t < n" for t using at [OF that] by simp
    then have "cnt n in_room1 (npos m) = 0" unfolding cnt_eq_0 by simp
    moreover have "1 \<le> cnt n in_room2 (npos m)" using ns_counts(5) [OF n, of "npos m"] all [OF n] by simp
    ultimately show False using r i False by simp
  qed
qed

interpretation ns: live_machine "ns_step (Suc n)" ns_mutex_repaired "ns_inv (Suc n)" "\<lambda>_. False" for n :: nat
  by unfold_locales (use ns_inv_init ns_inv_step ns_progress in blast)+

section \<open>Bounded overtaking\<close>

text \<open>A thread waits from the moment it has counted itself in the first room. \<open>may_enter\<close> bounds how often thread \<open>i\<close>
  can still come in before thread \<open>w\<close>, which waits: while the second room is being emptied, once if it is in that
  room, and once more if \<open>w\<close> is still in the first room; otherwise once.\<close>

definition waiting :: "npos \<Rightarrow> bool" where
  "waiting p \<longleftrightarrow> in_room1 p \<or> in_room2 p"

definition at_t1 :: "npos \<Rightarrow> bool" where
  "at_t1 p \<longleftrightarrow> p = NOut1 \<or> p = NT1"

definition to_leave :: "npos \<Rightarrow> bool" where
  "to_leave p \<longleftrightarrow> p \<in> {NPostM True, NPostT True, NT2, NLeave2}"

definition may_enter :: "nat \<Rightarrow> tid \<Rightarrow> ns_mutex_t \<Rightarrow> tid \<Rightarrow> nat" where
  "may_enter n w m i =
     (if emptying_now n m then of_bool (at_t1 (npos m w)) + of_bool (to_leave (npos m i)) else 1)"

lemma emptying_iff:
  assumes S: "ns_sems n m" and t: "t < n"
  shows "filling (npos m t) \<Longrightarrow> \<not> emptying_now n m" "emptying (npos m t) \<Longrightarrow> emptying_now n m"
    "0 < t1 m \<Longrightarrow> \<not> emptying_now n m" "0 < t2 m \<Longrightarrow> emptying_now n m"
proof -
  have "int (t1 m) + int (t2 m) + cnt n filling (npos m) + cnt n emptying (npos m) = 1" using S by (simp add: ns_sems_def)
  then show "filling (npos m t) \<Longrightarrow> \<not> emptying_now n m" "emptying (npos m t) \<Longrightarrow> emptying_now n m"
    "0 < t1 m \<Longrightarrow> \<not> emptying_now n m" "0 < t2 m \<Longrightarrow> emptying_now n m"
    using ns_counts(2,3) [OF t, of "npos m"] cnt_nonneg [of n filling "npos m"] cnt_nonneg [of n emptying "npos m"]
    unfolding emptying_now_def by linarith+
qed

lemma emptying_step:
  assumes S: "ns_sems n m" and step: "ns_step n t m = Some u"
  shows "emptying_now n u = (if npos m t = NTest then room1 m = 0 else if npos m t = NRel True then False
    else emptying_now n m)"
proof -
  have t: "t < n" using step by (auto simp: ns_step_def split: if_splits)
  have sum: "int (t1 m) + int (t2 m) + cnt n filling (npos m) + cnt n emptying (npos m) = 1"
    using S by (simp add: ns_sems_def)
  show ?thesis
    using step t sum ns_counts(2,3) [OF t, of "npos m"] cnt_nonneg [of n filling "npos m"] cnt_nonneg [of n emptying "npos m"]
    by (cases "npos m t"; cases "room1 m = 0") (auto simp: ns_step_defs emptying_now_def cnt_upd simp del: cnt_nonneg split: if_splits)
qed

lemma may_enter_step:
  assumes inv: "ns_inv n m" and w: "w < n" "waiting (npos m w)" and i: "i < n" "i \<noteq> w" and step: "ns_step n t m = Some u"
  shows "entries u i + may_enter n w u i \<le> entries m i + may_enter n w m i"
proof -
  have t: "t < n" using step by (auto simp: ns_step_def split: if_splits)
  have S: "ns_sems n m" using inv by (simp add: ns_inv_def)
  note e = emptying_iff [OF S t] emptying_step [OF S step]
  have r1: "at_t1 (npos m w) \<Longrightarrow> room1 m \<noteq> 0"
    using S ns_counts(4) [OF w(1), of "npos m"] by (auto simp: ns_sems_def at_t1_def)
  have r2: "room2 m = 0 \<Longrightarrow> \<not> in_room2 (npos m v)" if "v < n" for v
    using S ns_counts(5) [OF that, of "npos m"] by (auto simp: ns_sems_def)
  show ?thesis
  proof (cases "npos m t = NRel True")
    case True
    then have z: "room2 m = 0" using inv t by (fastforce simp: ns_inv_def)
    then have "\<not> to_leave (npos m i)" using r2 [OF i(1)] by (auto simp: to_leave_def)
    moreover have "\<not> filling (npos m w)" using emptying_iff(1) [OF S w(1)] e(2) True by auto
    then have "at_t1 (npos m w)" using w(2) r2 [OF w(1) z] by (cases "npos m w") (auto simp: waiting_def at_t1_def)
    ultimately show ?thesis using True step t e by (auto simp: may_enter_def ns_step_defs split: if_splits)
  next
    case False
    have eu: "emptying_now n u = (if npos m t = NTest then room1 m = 0 else emptying_now n m)" using e(5) False by simp
    have i': "emptying_now n m \<Longrightarrow> entries u i + of_bool (to_leave (npos u i)) \<le> entries m i + of_bool (to_leave (npos m i))"
      "\<not> emptying_now n m \<Longrightarrow> entries u i = entries m i"
    proof -
      have "entries u i + of_bool (to_leave (npos u i)) \<le> entries m i + of_bool (to_leave (npos m i)) \<or>
          t = i \<and> filling (npos m t)"
      proof (cases "t = i")
        case True
        then show ?thesis using step t
          by (cases "npos m t") (auto simp: ns_step_defs to_leave_def simp del: of_bool_eq_iff split: if_split_asm)
      next
        case False
        then have "npos u i = npos m i \<and> entries u i = entries m i"
          using step by (cases "npos m t") (auto simp: ns_step_defs split: if_splits)
        then show ?thesis by simp
      qed
      then show "emptying_now n m \<Longrightarrow> entries u i + of_bool (to_leave (npos u i)) \<le> entries m i + of_bool (to_leave (npos m i))"
        using e(1) by blast
      have "entries u i = entries m i \<or> emptying (npos m t)"
        using step by (cases "npos m t") (auto simp: ns_step_defs split: if_splits)
      then show "\<not> emptying_now n m \<Longrightarrow> entries u i = entries m i" using e(2) by blast
    qed
    have w': "at_t1 (npos u w) \<Longrightarrow> at_t1 (npos m w)"
      using step w(2) by (cases "t = w"; cases "npos m t") (auto simp: ns_step_defs at_t1_def waiting_def split: if_splits)
    show ?thesis
    proof (cases "npos m t = NTest")
      case True
      then have "\<not> emptying_now n m" "emptying_now n u \<longleftrightarrow> room1 m = 0" using e(1) eu by simp_all
      then show ?thesis using i'(2) r1 w' by (auto simp: may_enter_def)
    next
      case False
      then show ?thesis using eu i' w' by (cases "emptying_now n m") (auto simp: may_enter_def)
    qed
  qed
qed

lemma may_enter_le: "may_enter n w m i \<le> 2"
  by (simp add: may_enter_def)

lemma ns_overtaking:
  assumes inv: "ns_inv n m" and w: "w < n" "i < n" "i \<noteq> w"
    and run: "exec_while (\<lambda>x. waiting (npos x w)) (ns_step n) ls m = Some u"
  shows "entries u i \<le> entries m i + 2"
proof -
  have "entries u i + may_enter n w u i \<le> entries m i + may_enter n w m i"
    by (rule exec_while_rel [where J = "ns_inv n" and P = "\<lambda>x. waiting (npos x w)" and
          R = "\<lambda>x y. entries y i + may_enter n w y i \<le> entries x i + may_enter n w x i", OF _ _ _ inv run])
      (use ns_inv_step may_enter_step [OF _ w(1) _ w(2,3)] in auto)
  then show ?thesis using may_enter_le [of n w m i] by linarith
qed

lemma ns_exclusive:
  assumes "ns_inv n m" "t < n" "v < n" "npos m t = NCrit" "npos m v = NCrit"
  shows "t = v"
  using one_holder [of n m t v] assms by (simp add: ns_inv_def)

section \<open>Properties\<close>

lemma ns_repaired_live:
  assumes "reach (ns_step n) ns_mutex_repaired m" "0 < n"
  shows "\<exists>t u. ns_step n t m = Some u"
proof -
  obtain k where "n = Suc k" using assms(2) by (cases n) auto
  then show ?thesis using ns.reach_inv [of k m] assms ns_progress by blast
qed

theorem ns_repaired_correct:
  assumes "reach (ns_step n) ns_mutex_repaired m" "w < n" "i < n" "i \<noteq> w"
  shows "(npos m w = NCrit \<longrightarrow> npos m i \<noteq> NCrit) \<and>
    (exec_while (\<lambda>x. waiting (npos x w)) (ns_step n) ls m = Some u \<longrightarrow> entries u i \<le> entries m i + 2)"
proof -
  obtain k where k: "n = Suc k" using assms(2) by (cases n) auto
  have inv: "ns_inv n m" using ns.reach_inv [of k m] assms(1) unfolding k by blast
  show ?thesis using ns_exclusive [OF inv assms(2,3)] ns_overtaking [OF inv assms(2-4)] assms(2,4)
    by fastforce
qed

lemma ns_both_inside: "\<exists>m. reach (ns_step 2) ns_mutex_init m \<and> npos m 0 = NCrit \<and> npos m 1 = NCrit"
proof -
  have "map_option (\<lambda>m. (npos m 0, npos m 1))
      (exec (ns_step 2) [0, 0, 0, 1, 1, 1, 0, 0, 0, 0, 0, 0, 0, 0, 0, 1, 1, 1, 1, 1, 1, 1, 1, 1] ns_mutex_init) =
      Some (NCrit, NCrit)"
    by code_simp
  then show ?thesis using reachI by fastforce
qed

text \<open>C11: as the source initialises it, with \<open>t2\<close> open, the mutex does not exclude: two threads can be in the critical
  section together, though never three, however many threads there are. The initial value of \<open>t2\<close> is the whole fault: from the
  same state with \<open>t2\<close> locked, the code of acquire and release keeps any two threads from being in the
  critical section together, some thread, if there is one at all, can always go on, and while a thread waits, from its increment of \<open>room1\<close> on, every
  other thread comes in at most twice.\<close>

theorem no_starve_mutex_fault:
  assumes "reach (ns_step n) ns_mutex_init s"
  shows "card {t. t < n \<and> npos s t = NCrit} \<le> 2 \<and>
    (\<exists>m. reach (ns_step 2) ns_mutex_init m \<and> npos m 0 = NCrit \<and> npos m 1 = NCrit) \<and>
    (reach (ns_step n) (ns_mutex_init\<lparr>t2 := sem_init 0\<rparr>) m \<and> 0 < n \<longrightarrow> (\<exists>t u. ns_step n t m = Some u)) \<and>
    (reach (ns_step n) (ns_mutex_init\<lparr>t2 := sem_init 0\<rparr>) m \<and> w < n \<and> i < n \<and> i \<noteq> w \<longrightarrow>
      (npos m w = NCrit \<longrightarrow> npos m i \<noteq> NCrit) \<and>
      (exec_while (\<lambda>x. waiting (npos x w)) (ns_step n) ls m = Some u \<longrightarrow> entries u i \<le> entries m i + 2))"
  using ns_two_inside [OF ns_tokens_two [OF assms]] ns_both_inside
    ns_repaired_correct [unfolded ns_mutex_repaired_def, of n m w i ls u]
    ns_repaired_live [unfolded ns_mutex_repaired_def, of n m] by blast

definition ns_alone :: "tid list" where
  "ns_alone = replicate 12 0"

theorem no_starve_mutex_fault_witness:
  "\<exists>s m. exec (ns_step 2) ns_alone ns_mutex_init = Some s \<and> card {t. t < 2 \<and> npos s t = NCrit} \<le> 2 \<and>
     exec (ns_step 2) ns_alone (ns_mutex_init\<lparr>t2 := sem_init 0\<rparr>) = Some m \<and> npos m 0 = NCrit \<and> npos m 1 \<noteq> NCrit \<and>
     (\<exists>t u. ns_step 2 t m = Some u)"
proof -
  obtain s where s: "exec (ns_step 2) ns_alone ns_mutex_init = Some s"
    by (simp add: ns_alone_def numeral_eq_Suc ns_mutex_init_def ns_step_defs sem_init_def)
  obtain m where m: "exec (ns_step 2) ns_alone (ns_mutex_init\<lparr>t2 := sem_init 0\<rparr>) = Some m" "npos m 0 = NCrit"
    by (simp add: ns_alone_def numeral_eq_Suc ns_mutex_init_def ns_step_defs sem_init_def)
  from no_starve_mutex_fault [OF reachI [OF s], of m 0 1] reachI [OF m(1)] s m show ?thesis by auto
qed

end
