(* ===== verification/Exploration.thy ===== *)
theory Exploration
  imports Sync_Prelude
begin

text \<open>
  Machines with few states: the reachable states are computed, and what is decidable of them is evaluated. \<open>explore\<close>
  collects states until nothing new turns up; \<open>explored\<close> checks that what it returns contains the initial state and is
  closed under every step, so nothing depends on how the states were found or on the fuel.
\<close>

definition succs :: "('l \<Rightarrow> 's \<Rightarrow> 's option) \<Rightarrow> 'l list \<Rightarrow> 's \<Rightarrow> 's list" where
  "succs step ls s = List.map_filter (\<lambda>l. step l s) ls"

fun explore :: "nat \<Rightarrow> ('s \<Rightarrow> 's list) \<Rightarrow> 's list \<Rightarrow> 's list \<Rightarrow> 's list" where
  "explore 0 nxt seen todo = seen"
| "explore (Suc n) nxt seen [] = seen"
| "explore (Suc n) nxt seen (s # todo) =
     (if s \<in> set seen then explore n nxt seen todo else explore n nxt (s # seen) (nxt s @ todo))"

definition explored :: "('l \<Rightarrow> 's \<Rightarrow> 's option) \<Rightarrow> 'l list \<Rightarrow> 's \<Rightarrow> 's list \<Rightarrow> bool" where
  "explored step ls s0 R \<longleftrightarrow> s0 \<in> set R \<and> list_all (\<lambda>s. list_all (\<lambda>t. t \<in> set R) (succs step ls s)) R"

text \<open>A machine all of whose labels are in a list.\<close>

locale small_machine =
  fixes step :: "'l \<Rightarrow> 's \<Rightarrow> 's option"
    and init :: 's
    and labels :: "'l list"
  assumes all_labels: "step l s \<noteq> None \<Longrightarrow> l \<in> set labels"
begin

lemma succs_iff: "t \<in> set (succs step labels s) \<longleftrightarrow> (\<exists>l. step l s = Some t)"
proof -
  have "t \<in> set (succs step labels s) \<longleftrightarrow> (\<exists>l\<in>set labels. step l s = Some t)"
    by (force simp: succs_def List.map_filter_def)
  moreover have "step l s = Some t \<Longrightarrow> l \<in> set labels" for l using all_labels [of l s] by simp
  ultimately show ?thesis by blast
qed

lemma no_succs: "succs step labels s = [] \<longleftrightarrow> (\<forall>l. step l s = None)"
proof -
  have "succs step labels s = [] \<longleftrightarrow> (\<forall>t. t \<notin> set (succs step labels s))" by (cases "succs step labels s") auto
  then show ?thesis unfolding succs_iff using not_None_eq by metis
qed

lemma reach_explored:
  assumes "explored step labels init R" "reach step init s"
  shows "s \<in> set R"
  using assms(2)
proof (induction rule: reach.induct)
  case reach_init
  show ?case using assms(1) by (simp add: explored_def)
next
  case (reach_step s l t)
  then have "t \<in> set (succs step labels s)" using succs_iff by blast
  with reach_step.IH assms(1) show ?case by (auto simp: explored_def list_all_iff)
qed

lemma reach_all: "explored step labels init R \<Longrightarrow> list_all P R \<Longrightarrow> reach step init s \<Longrightarrow> P s"
  using reach_explored by (auto simp: list_all_iff)

text \<open>A rank that every step from a reachable state decreases bounds the runs.\<close>

lemma exec_rank:
  assumes ex: "explored step labels init R" and dec: "list_all (\<lambda>s. list_all (\<lambda>t. rank t < (rank s :: nat)) (succs step labels s)) R"
  shows "reach step init s \<Longrightarrow> exec step ls s = Some t \<Longrightarrow> length ls + rank t \<le> rank s"
proof (induction ls arbitrary: s)
  case Nil
  then show ?case by simp
next
  case (Cons l ls)
  then obtain u where u: "step l s = Some u" "exec step ls u = Some t" by (auto split: option.splits)
  have "s \<in> set R" by (rule reach_explored [OF ex Cons.prems(1)])
  moreover have "u \<in> set (succs step labels s)" using succs_iff u(1) by blast
  ultimately have "rank u < rank s" using dec by (auto simp: list_all_iff)
  moreover have "length ls + rank t \<le> rank u" using Cons.IH [OF reach_step [OF Cons.prems(1) u(1)] u(2)] .
  ultimately show ?case by simp
qed

end

end
