(* ===== verification/Fork_Join.thy ===== *)
theory Fork_Join
  imports Exploration Semaphores
begin

text \<open>
  The programs in which a parent waits for its child to be done, right and wrong:
  \<open>threads-cv/join.c\<close>, \<open>join_modular.c\<close>, \<open>join_spin.c\<close> and \<open>threads-sema/join.c\<close> are right, \<open>threads-cv/join_no_lock.c\<close> and
  \<open>join_no_state_var.c\<close> show what goes wrong. (\<open>threads-sema/zemaphore.c\<close> is \<open>threads-sema/join.c\<close> with the
  semaphore of \<open>Zemaphore\<close>, which refines the one used here.)

  Every operation on the mutex \<open>m\<close>, the condition variable \<open>c\<close>, the variable \<open>done\<close> or the semaphore is a step.
  \<open>Cond_wait\<close> releases the mutex and sleeps in one step; after a wake-up it takes the mutex again. Of the output only
  the message at the begin and the end of the parent and the first one of the child are kept.
\<close>

datatype ppos = PBegin | PLock | PTest | PWait | PAsleep | PRelock | PReset | PUnlock | PPrint | PEnd

datatype cpos = CNone | CBegin | CLock | CSet | CSignal | CUnlock | CPost | CEnd

datatype msg = ParentBegin | ChildMsg | ParentEnd

record fj =
  is_done :: int
  owner :: "tid option"
  semaphore :: sem
  parent :: ppos
  child :: cpos
  printed :: "msg list"

definition fj_main :: fj where
  "fj_main = \<lparr>is_done = 0, owner = None, semaphore = sem_init 0, parent = PBegin, child = CNone, printed = []\<rparr>"

definition lock :: "tid \<Rightarrow> fj \<Rightarrow> fj option" where
  "lock t s = (if owner s = None then Some (s\<lparr>owner := Some t\<rparr>) else None)"

definition unlock :: "fj \<Rightarrow> fj" where
  "unlock s = s\<lparr>owner := None\<rparr>"

definition cond_wait :: "fj \<Rightarrow> fj" where
  "cond_wait s = (unlock s)\<lparr>parent := PAsleep\<rparr>"

definition cond_signal :: "fj \<Rightarrow> fj" where
  "cond_signal s = (if parent s = PAsleep then s\<lparr>parent := PRelock\<rparr> else s)"

definition p_at :: "ppos \<Rightarrow> fj \<Rightarrow> fj" where
  "p_at p s = s\<lparr>parent := p\<rparr>"

definition c_at :: "cpos \<Rightarrow> fj \<Rightarrow> fj" where
  "c_at p s = s\<lparr>child := p\<rparr>"

definition say :: "msg \<Rightarrow> fj \<Rightarrow> fj" where
  "say x s = s\<lparr>printed := printed s @ [x]\<rparr>"

text \<open>The first statement of every parent: print, create the child.\<close>

definition create :: "ppos \<Rightarrow> fj \<Rightarrow> fj option" where
  "create p s = Some (p_at p (c_at CBegin (say ParentBegin s)))"

section \<open>The right programs\<close>

text \<open>\<open>join.c\<close>.\<close>

definition join_parent :: "fj \<Rightarrow> fj option" where
  "join_parent s =
     (case parent s of
        PBegin \<Rightarrow> create PLock s
      | PLock \<Rightarrow> map_option (p_at PTest) (lock 0 s)
      | PTest \<Rightarrow> Some (p_at (if is_done s = 0 then PWait else PUnlock) s)
      | PWait \<Rightarrow> Some (cond_wait s)
      | PRelock \<Rightarrow> map_option (p_at PTest) (lock 0 s)
      | PUnlock \<Rightarrow> Some (p_at PPrint (unlock s))
      | PPrint \<Rightarrow> Some (p_at PEnd (say ParentEnd s))
      | _ \<Rightarrow> None)"

definition join_child :: "fj \<Rightarrow> fj option" where
  "join_child s =
     (case child s of
        CBegin \<Rightarrow> Some (c_at CLock (say ChildMsg s))
      | CLock \<Rightarrow> map_option (c_at CSet) (lock 1 s)
      | CSet \<Rightarrow> Some (c_at CSignal (s\<lparr>is_done := 1\<rparr>))
      | CSignal \<Rightarrow> Some (c_at CUnlock (cond_signal s))
      | CUnlock \<Rightarrow> Some (c_at CEnd (unlock s))
      | _ \<Rightarrow> None)"

text \<open>\<open>join_modular.c\<close>: \<open>sync_wait\<close> resets the flag; \<open>sync_signal\<close> is what the child of \<open>join.c\<close> does.\<close>

definition sync_wait :: "fj \<Rightarrow> fj option" where
  "sync_wait s =
     (case parent s of
        PLock \<Rightarrow> map_option (p_at PTest) (lock 0 s)
      | PTest \<Rightarrow> Some (p_at (if is_done s = 0 then PWait else PReset) s)
      | PWait \<Rightarrow> Some (cond_wait s)
      | PRelock \<Rightarrow> map_option (p_at PTest) (lock 0 s)
      | PReset \<Rightarrow> Some (p_at PUnlock (s\<lparr>is_done := 0\<rparr>))
      | PUnlock \<Rightarrow> Some (p_at PPrint (unlock s))
      | _ \<Rightarrow> None)"

definition sync_signal :: "fj \<Rightarrow> fj option" where
  "sync_signal s =
     (case child s of
        CLock \<Rightarrow> map_option (c_at CSet) (lock 1 s)
      | CSet \<Rightarrow> Some (c_at CSignal (s\<lparr>is_done := 1\<rparr>))
      | CSignal \<Rightarrow> Some (c_at CUnlock (cond_signal s))
      | CUnlock \<Rightarrow> Some (c_at CEnd (unlock s))
      | _ \<Rightarrow> None)"

definition modular_parent :: "fj \<Rightarrow> fj option" where
  "modular_parent s =
     (case parent s of PBegin \<Rightarrow> create PLock (s\<lparr>is_done := 0\<rparr>) | PPrint \<Rightarrow> Some (p_at PEnd (say ParentEnd s)) | _ \<Rightarrow> sync_wait s)"

definition modular_child :: "fj \<Rightarrow> fj option" where
  "modular_child s = (case child s of CBegin \<Rightarrow> Some (c_at CLock (say ChildMsg s)) | _ \<Rightarrow> sync_signal s)"

text \<open>\<open>join_spin.c\<close>.\<close>

definition spin_parent :: "fj \<Rightarrow> fj option" where
  "spin_parent s =
     (case parent s of
        PBegin \<Rightarrow> create PTest s
      | PTest \<Rightarrow> Some (p_at (if is_done s = 0 then PTest else PPrint) s)
      | PPrint \<Rightarrow> Some (p_at PEnd (say ParentEnd s))
      | _ \<Rightarrow> None)"

definition spin_child :: "fj \<Rightarrow> fj option" where
  "spin_child s =
     (case child s of
        CBegin \<Rightarrow> Some (c_at CSet (say ChildMsg s))
      | CSet \<Rightarrow> Some (c_at CEnd (s\<lparr>is_done := 1\<rparr>))
      | _ \<Rightarrow> None)"

text \<open>\<open>threads-sema/join.c\<close>.\<close>

definition sema_parent :: "fj \<Rightarrow> fj option" where
  "sema_parent s =
     (case parent s of
        PBegin \<Rightarrow> create PWait s
      | PWait \<Rightarrow> map_option (\<lambda>v. p_at PPrint (s\<lparr>semaphore := v\<rparr>)) (sem_wait (semaphore s))
      | PPrint \<Rightarrow> Some (p_at PEnd (say ParentEnd s))
      | _ \<Rightarrow> None)"

definition sema_child :: "fj \<Rightarrow> fj option" where
  "sema_child s =
     (case child s of
        CBegin \<Rightarrow> Some (c_at CPost (say ChildMsg s))
      | CPost \<Rightarrow> Some (c_at CEnd (s\<lparr>semaphore := sem_post (semaphore s)\<rparr>))
      | _ \<Rightarrow> None)"

section \<open>The wrong programs\<close>

text \<open>\<open>join_no_lock.c\<close>: the parent is that of \<open>join.c\<close> with more messages; the child does not take the mutex.\<close>

definition no_lock_parent :: "fj \<Rightarrow> fj option" where
  "no_lock_parent = join_parent"

definition no_lock_child :: "fj \<Rightarrow> fj option" where
  "no_lock_child s =
     (case child s of
        CBegin \<Rightarrow> Some (c_at CSet (say ChildMsg s))
      | CSet \<Rightarrow> Some (c_at CSignal (s\<lparr>is_done := 1\<rparr>))
      | CSignal \<Rightarrow> Some (c_at CEnd (cond_signal s))
      | _ \<Rightarrow> None)"

text \<open>\<open>join_no_state_var.c\<close>.\<close>

definition no_state_parent :: "fj \<Rightarrow> fj option" where
  "no_state_parent s =
     (case parent s of
        PBegin \<Rightarrow> create PLock s
      | PLock \<Rightarrow> map_option (p_at PWait) (lock 0 s)
      | PWait \<Rightarrow> Some (cond_wait s)
      | PRelock \<Rightarrow> map_option (p_at PUnlock) (lock 0 s)
      | PUnlock \<Rightarrow> Some (p_at PPrint (unlock s))
      | PPrint \<Rightarrow> Some (p_at PEnd (say ParentEnd s))
      | _ \<Rightarrow> None)"

definition no_state_child :: "fj \<Rightarrow> fj option" where
  "no_state_child s =
     (case child s of
        CBegin \<Rightarrow> Some (c_at CLock (say ChildMsg s))
      | CLock \<Rightarrow> map_option (c_at CSignal) (lock 1 s)
      | CSignal \<Rightarrow> Some (c_at CUnlock (cond_signal s))
      | CUnlock \<Rightarrow> Some (c_at CEnd (unlock s))
      | _ \<Rightarrow> None)"

section \<open>Runs\<close>

datatype fj_label = Parent | Child | SpuriousWake

type_synonym fj_prog = "(fj \<Rightarrow> fj option) \<times> (fj \<Rightarrow> fj option)"

fun fj_step :: "fj_prog \<Rightarrow> fj_label \<Rightarrow> fj \<Rightarrow> fj option" where
  "fj_step p Parent s = fst p s"
| "fj_step p Child s = snd p s"
| "fj_step p SpuriousWake s = (if parent s = PAsleep then Some (p_at PRelock s) else None)"

definition fj_labels :: "fj_label list" where
  "fj_labels = [Parent, Child, SpuriousWake]"

interpretation fj: small_machine "fj_step p" fj_main fj_labels for p :: fj_prog
proof (unfold_locales, goal_cases)
  case (1 l s)
  show ?case by (cases l) (simp_all add: fj_labels_def)
qed

definition fj_states :: "fj_prog \<Rightarrow> fj list" where
  "fj_states p = explore 400 (succs (fj_step p) fj_labels) [] [fj_main]"

definition fj_right :: "fj_prog list" where
  "fj_right = [(join_parent, join_child), (modular_parent, modular_child), (spin_parent, spin_child), (sema_parent, sema_child)]"

definition fj_stuck :: "fj_prog \<Rightarrow> fj \<Rightarrow> bool" where
  "fj_stuck p s \<longleftrightarrow> fst p s = None \<and> snd p s = None"

definition fj_ok :: "fj_prog \<Rightarrow> fj \<Rightarrow> bool" where
  "fj_ok p s \<longleftrightarrow> printed s \<in> {[], [ParentBegin], [ParentBegin, ChildMsg], [ParentBegin, ChildMsg, ParentEnd]} \<and>
     (fj_stuck p s \<longrightarrow> parent s = PEnd \<and> child s = CEnd)"

text \<open>The reachable states of the four right programs, and of \<open>join_no_lock.c\<close>.\<close>

definition fj_checked :: "fj_prog \<Rightarrow> bool" where
  "fj_checked p \<longleftrightarrow> explored (fj_step p) fj_labels fj_main (fj_states p) \<and> list_all (fj_ok p) (fj_states p)"

lemma fj_right_checked:
  "fj_checked (join_parent, join_child)" "fj_checked (modular_parent, modular_child)"
  "fj_checked (spin_parent, spin_child)" "fj_checked (sema_parent, sema_child)"
  by code_simp+

lemma fj_right_ok: "p \<in> set fj_right \<Longrightarrow> reach (fj_step p) fj_main s \<Longrightarrow> fj_ok p s"
proof -
  assume "p \<in> set fj_right" "reach (fj_step p) fj_main s"
  moreover from this(1) have "fj_checked p" using fj_right_checked by (auto simp: fj_right_def)
  ultimately show ?thesis unfolding fj_checked_def using fj.reach_all by blast
qed

lemma no_lock_order:
  "explored (fj_step (no_lock_parent, no_lock_child)) fj_labels fj_main (fj_states (no_lock_parent, no_lock_child)) \<and>
   list_all (\<lambda>s. ParentEnd \<in> set (printed s) \<longrightarrow> printed s = [ParentBegin, ChildMsg, ParentEnd])
     (fj_states (no_lock_parent, no_lock_child))"
  by code_simp

section \<open>Properties\<close>

text \<open>The four right programs: in every interleaving, spurious wake-ups included, the messages come in the order
  parent begins, child, parent ends; and when neither thread can go on, both have ended.\<close>

theorem fork_join_correct:
  assumes "p \<in> set fj_right" "reach (fj_step p) fj_main s"
  shows "printed s \<in> {[], [ParentBegin], [ParentBegin, ChildMsg], [ParentBegin, ChildMsg, ParentEnd]} \<and>
    (fj_stuck p s \<longrightarrow> parent s = PEnd \<and> child s = CEnd)"
  using fj_right_ok [OF assms] by (simp add: fj_ok_def)

theorem fork_join_correct_witness:
  "\<exists>s. exec (fj_step (join_parent, join_child)) [Parent, Parent, Parent, Parent, Child, Child, Child, Child, Child,
     Parent, Parent, Parent, Parent] fj_main = Some s \<and> parent s = PEnd \<and> child s = CEnd \<and>
     printed s = [ParentBegin, ChildMsg, ParentEnd]"
proof -
  obtain s where s: "exec (fj_step (join_parent, join_child)) [Parent, Parent, Parent, Parent, Child, Child, Child, Child,
      Child, Parent, Parent, Parent, Parent] fj_main = Some s" "fj_stuck (join_parent, join_child) s" "length (printed s) = 3"
    by (simp add: fj_main_def create_def join_parent_def join_child_def lock_def unlock_def cond_wait_def cond_signal_def
        p_at_def c_at_def say_def fj_stuck_def)
  moreover have "(join_parent, join_child) \<in> set fj_right" by (simp add: fj_right_def)
  ultimately show ?thesis using fork_join_correct [OF _ reachI [OF s(1)]] by fastforce
qed

text \<open>Without the lock the signal can fall between the parent's test and its sleep, and without a state variable it
  can come before the parent waits: the parent then sleeps for ever (but for a spurious wake-up) although the child
  has ended. Without a state variable a spurious wake-up even lets the parent end before the child begins.\<close>

theorem fork_join_broken:
  "(\<exists>s. reach (fj_step (no_lock_parent, no_lock_child)) fj_main s \<and> fj_stuck (no_lock_parent, no_lock_child) s \<and>
      parent s = PAsleep \<and> child s = CEnd) \<and>
   (\<exists>s. reach (fj_step (no_state_parent, no_state_child)) fj_main s \<and> fj_stuck (no_state_parent, no_state_child) s \<and>
      parent s = PAsleep \<and> child s = CEnd) \<and>
   (\<exists>s. reach (fj_step (no_state_parent, no_state_child)) fj_main s \<and> printed s = [ParentBegin, ParentEnd])"
proof (intro conjI)
  note defs = fj_main_def create_def join_parent_def no_lock_parent_def no_lock_child_def no_state_parent_def no_state_child_def lock_def
    unlock_def cond_wait_def cond_signal_def p_at_def c_at_def say_def fj_stuck_def
  have "\<exists>s. exec (fj_step (no_lock_parent, no_lock_child)) [Parent, Parent, Parent, Child, Child, Child, Parent] fj_main = Some s \<and>
      fj_stuck (no_lock_parent, no_lock_child) s \<and> parent s = PAsleep \<and> child s = CEnd"
    by (simp add: defs)
  then show "\<exists>s. reach (fj_step (no_lock_parent, no_lock_child)) fj_main s \<and> fj_stuck (no_lock_parent, no_lock_child) s \<and>
      parent s = PAsleep \<and> child s = CEnd" by (rule reach_exI)
  have "\<exists>s. exec (fj_step (no_state_parent, no_state_child)) [Parent, Child, Child, Child, Child, Parent, Parent] fj_main = Some s \<and>
      fj_stuck (no_state_parent, no_state_child) s \<and> parent s = PAsleep \<and> child s = CEnd"
    by (simp add: defs)
  then show "\<exists>s. reach (fj_step (no_state_parent, no_state_child)) fj_main s \<and> fj_stuck (no_state_parent, no_state_child) s \<and>
      parent s = PAsleep \<and> child s = CEnd" by (rule reach_exI)
  have "\<exists>s. exec (fj_step (no_state_parent, no_state_child)) [Parent, Parent, Parent, SpuriousWake, Parent, Parent, Parent]
      fj_main = Some s \<and> printed s = [ParentBegin, ParentEnd]"
    by (simp add: defs)
  then show "\<exists>s. reach (fj_step (no_state_parent, no_state_child)) fj_main s \<and> printed s = [ParentBegin, ParentEnd]"
    by (rule reach_exI)
qed

end
