(* ===== verification/Concurrency_Bugs.thy ===== *)
theory Concurrency_Bugs
  imports Exploration
begin

text \<open>
  The programs of \<open>threads-bugs\<close>: an atomicity violation (\<open>atomicity.c\<close>, \<open>atomicity_fixed.c\<close>), an order violation
  (\<open>ordering.c\<close>, \<open>ordering_fixed.c\<close>) and a deadlock (\<open>deadlock.c\<close>). Every access of a shared variable, every lock
  operation and every call that blocks is a step; dereferencing a null pointer sets \<open>fault\<close>, after which no thread takes
  a step. Output other than the values read is left out. All states are explored.
\<close>

definition locked :: "tid option \<Rightarrow> tid \<Rightarrow> (tid option \<Rightarrow> 's) \<Rightarrow> 's option" where
  "locked m t k = (if m = None then Some (k (Some t)) else None)"

section \<open>Atomicity\<close>

text \<open>\<open>proc_info\<close> is the pid behind the pointer \<open>thd->proc_info\<close>, or \<open>None\<close> for \<open>NULL\<close>. The parameter \<open>fixed\<close> says whether
  the threads take \<open>proc_info_lock\<close>.\<close>

datatype apos = ALock | ACheck | AUse | ASet | AUnlock | AEnd

record atomicity =
  proc_info :: "int option"
  info_lock :: "tid option"
  athread1 :: apos
  athread2 :: apos
  shown :: "int option"
  afault :: bool

definition atomicity_main :: "bool \<Rightarrow> atomicity" where
  "atomicity_main fixed = \<lparr>proc_info = Some 100, info_lock = None, athread1 = (if fixed then ALock else ACheck),
     athread2 = (if fixed then ALock else ASet), shown = None, afault = False\<rparr>"

definition athread1_step :: "bool \<Rightarrow> atomicity \<Rightarrow> atomicity option" where
  "athread1_step fixed s =
     (case athread1 s of
        ALock \<Rightarrow> locked (info_lock s) 1 (\<lambda>v. s\<lparr>info_lock := v, athread1 := ACheck\<rparr>)
      | ACheck \<Rightarrow> Some (s\<lparr>athread1 := (if proc_info s \<noteq> None then AUse else if fixed then AUnlock else AEnd)\<rparr>)
      | AUse \<Rightarrow> (case proc_info s of
          None \<Rightarrow> Some (s\<lparr>afault := True\<rparr>)
        | Some pid \<Rightarrow> Some (s\<lparr>shown := Some pid, athread1 := (if fixed then AUnlock else AEnd)\<rparr>))
      | AUnlock \<Rightarrow> Some (s\<lparr>info_lock := None, athread1 := AEnd\<rparr>)
      | _ \<Rightarrow> None)"

definition athread2_step :: "bool \<Rightarrow> atomicity \<Rightarrow> atomicity option" where
  "athread2_step fixed s =
     (case athread2 s of
        ALock \<Rightarrow> locked (info_lock s) 2 (\<lambda>v. s\<lparr>info_lock := v, athread2 := ASet\<rparr>)
      | ASet \<Rightarrow> Some (s\<lparr>proc_info := None, athread2 := (if fixed then AUnlock else AEnd)\<rparr>)
      | AUnlock \<Rightarrow> Some (s\<lparr>info_lock := None, athread2 := AEnd\<rparr>)
      | _ \<Rightarrow> None)"

datatype who = T1 | T2

definition atomicity_step :: "bool \<Rightarrow> who \<Rightarrow> atomicity \<Rightarrow> atomicity option" where
  "atomicity_step fixed w s =
     (if afault s then None else case w of T1 \<Rightarrow> athread1_step fixed s | T2 \<Rightarrow> athread2_step fixed s)"

interpretation atomicity: small_machine "atomicity_step fixed" "atomicity_main fixed" "[T1, T2]" for fixed :: bool
proof (unfold_locales, goal_cases)
  case (1 w s)
  show ?case by (cases w) simp_all
qed

definition atomicity_states :: "bool \<Rightarrow> atomicity list" where
  "atomicity_states fixed = explore 200 (succs (atomicity_step fixed) [T1, T2]) [] [atomicity_main fixed]"

definition atomicity_ok :: "atomicity \<Rightarrow> bool" where
  "atomicity_ok s \<longleftrightarrow> \<not> afault s \<and> shown s \<in> {None, Some 100} \<and>
     (athread1_step True s = None \<and> athread2_step True s = None \<longrightarrow> athread1 s = AEnd \<and> athread2 s = AEnd)"

lemma atomicity_fixed_ok:
  "explored (atomicity_step True) [T1, T2] (atomicity_main True) (atomicity_states True) \<and>
   list_all atomicity_ok (atomicity_states True)"
  by code_simp

section \<open>Deadlock\<close>

datatype lpos = First | Second | Unlock1 | Unlock2 | LEnd

record two_locks =
  L1 :: "tid option"
  L2 :: "tid option"
  lthread1 :: lpos
  lthread2 :: lpos

definition deadlock_main :: two_locks where
  "deadlock_main = \<lparr>L1 = None, L2 = None, lthread1 = First, lthread2 = First\<rparr>"

definition lthread1_step :: "two_locks \<Rightarrow> two_locks option" where
  "lthread1_step s =
     (case lthread1 s of
        First \<Rightarrow> locked (L1 s) 1 (\<lambda>v. s\<lparr>L1 := v, lthread1 := Second\<rparr>)
      | Second \<Rightarrow> locked (L2 s) 1 (\<lambda>v. s\<lparr>L2 := v, lthread1 := Unlock1\<rparr>)
      | Unlock1 \<Rightarrow> Some (s\<lparr>L1 := None, lthread1 := Unlock2\<rparr>)
      | Unlock2 \<Rightarrow> Some (s\<lparr>L2 := None, lthread1 := LEnd\<rparr>)
      | LEnd \<Rightarrow> None)"

definition lthread2_step :: "two_locks \<Rightarrow> two_locks option" where
  "lthread2_step s =
     (case lthread2 s of
        First \<Rightarrow> locked (L2 s) 2 (\<lambda>v. s\<lparr>L2 := v, lthread2 := Second\<rparr>)
      | Second \<Rightarrow> locked (L1 s) 2 (\<lambda>v. s\<lparr>L1 := v, lthread2 := Unlock1\<rparr>)
      | Unlock1 \<Rightarrow> Some (s\<lparr>L1 := None, lthread2 := Unlock2\<rparr>)
      | Unlock2 \<Rightarrow> Some (s\<lparr>L2 := None, lthread2 := LEnd\<rparr>)
      | LEnd \<Rightarrow> None)"

fun deadlock_step :: "who \<Rightarrow> two_locks \<Rightarrow> two_locks option" where
  "deadlock_step T1 s = lthread1_step s"
| "deadlock_step T2 s = lthread2_step s"

interpretation deadlock: small_machine deadlock_step deadlock_main "[T1, T2]"
proof (unfold_locales, goal_cases)
  case (1 w s)
  show ?case by (cases w) simp_all
qed

definition deadlock_states :: "two_locks list" where
  "deadlock_states = explore 200 (succs deadlock_step [T1, T2]) [] [deadlock_main]"

text \<open>The only state that is stuck before the end is the one in which each holds one lock and waits for the other.\<close>

definition deadlock_ok :: "two_locks \<Rightarrow> bool" where
  "deadlock_ok s \<longleftrightarrow> (lthread1_step s = None \<and> lthread2_step s = None \<longrightarrow>
     (lthread1 s = LEnd \<and> lthread2 s = LEnd) \<or>
     s = \<lparr>L1 = Some 1, L2 = Some 2, lthread1 = Second, lthread2 = Second\<rparr>)"

lemma deadlock_states_ok:
  "explored deadlock_step [T1, T2] deadlock_main deadlock_states \<and> list_all deadlock_ok deadlock_states"
  by code_simp

section \<open>Order\<close>

text \<open>\<open>mThread\<close> is \<open>None\<close> while the pointer is null, otherwise the field \<open>State\<close>. \<open>created\<close> is what \<open>PR_CreateThread\<close> is about to
  return: \<open>None\<close> when \<open>malloc\<close> failed (the label \<open>MallocFails\<close>). In \<open>ordering_fixed.c\<close> the new thread waits on
  \<open>mtCond\<close> until \<open>mtInit\<close> is set.\<close>

datatype opos = OMalloc | OCreate | OAssign | OLock | OInit | OSignal | OUnlock | OJoin | OEnd

datatype rpos = RNone | RLock | RTest | RWait | RAsleep | RRelock | RUnlock | RRead | REnd

record order_prog =
  mThread :: "int option"
  created :: "int option"
  mtInit :: int
  mtLock :: "tid option"
  omain :: opos
  rmain :: rpos
  mState :: "int option"
  ofault :: bool

definition ordering_main :: order_prog where
  "ordering_main = \<lparr>mThread = None, created = None, mtInit = 0, mtLock = None, omain = OMalloc, rmain = RNone,
     mState = None, ofault = False\<rparr>"

definition PR_CreateThread :: "bool \<Rightarrow> bool \<Rightarrow> order_prog \<Rightarrow> order_prog option" where
  "PR_CreateThread fixed fails s =
     (case omain s of
        OMalloc \<Rightarrow> Some (if fails then s\<lparr>omain := OAssign\<rparr> else s\<lparr>created := Some 0, omain := OCreate\<rparr>)
      | OCreate \<Rightarrow> (if fails then None else Some (s\<lparr>rmain := (if fixed then RLock else RRead), omain := OAssign\<rparr>))
      | _ \<Rightarrow> None)"

definition omain_step :: "bool \<Rightarrow> bool \<Rightarrow> order_prog \<Rightarrow> order_prog option" where
  "omain_step fixed fails s =
     (case omain s of
        OMalloc \<Rightarrow> PR_CreateThread fixed fails s
      | OCreate \<Rightarrow> PR_CreateThread fixed fails s
      | p \<Rightarrow> if fails then None else (case p of
          OAssign \<Rightarrow> Some (s\<lparr>mThread := created s, omain := (if fixed then OLock else OJoin)\<rparr>)
        | OLock \<Rightarrow> locked (mtLock s) 0 (\<lambda>v. s\<lparr>mtLock := v, omain := OInit\<rparr>)
        | OInit \<Rightarrow> Some (s\<lparr>mtInit := 1, omain := OSignal\<rparr>)
        | OSignal \<Rightarrow> Some (s\<lparr>rmain := (if rmain s = RAsleep then RRelock else rmain s), omain := OUnlock\<rparr>)
        | OUnlock \<Rightarrow> Some (s\<lparr>mtLock := None, omain := OJoin\<rparr>)
        | OJoin \<Rightarrow> (if mThread s = None then Some (s\<lparr>ofault := True\<rparr>)
            else if rmain s = REnd then Some (s\<lparr>omain := OEnd\<rparr>) else None)
        | _ \<Rightarrow> None))"

definition mMain :: "order_prog \<Rightarrow> order_prog option" where
  "mMain s =
     (case rmain s of
        RLock \<Rightarrow> locked (mtLock s) 1 (\<lambda>v. s\<lparr>mtLock := v, rmain := RTest\<rparr>)
      | RTest \<Rightarrow> Some (s\<lparr>rmain := (if mtInit s = 0 then RWait else RUnlock)\<rparr>)
      | RWait \<Rightarrow> Some (s\<lparr>mtLock := None, rmain := RAsleep\<rparr>)
      | RRelock \<Rightarrow> locked (mtLock s) 1 (\<lambda>v. s\<lparr>mtLock := v, rmain := RTest\<rparr>)
      | RUnlock \<Rightarrow> Some (s\<lparr>mtLock := None, rmain := RRead\<rparr>)
      | RRead \<Rightarrow> (case mThread s of None \<Rightarrow> Some (s\<lparr>ofault := True\<rparr>)
          | Some st \<Rightarrow> Some (s\<lparr>mState := Some st, rmain := REnd\<rparr>))
      | _ \<Rightarrow> None)"

datatype order_label = Main | MallocFails | NewThread | SpuriousWake

definition order_step :: "bool \<Rightarrow> order_label \<Rightarrow> order_prog \<Rightarrow> order_prog option" where
  "order_step fixed l s =
     (if ofault s then None else case l of
        Main \<Rightarrow> omain_step fixed False s
      | MallocFails \<Rightarrow> omain_step fixed True s
      | NewThread \<Rightarrow> mMain s
      | SpuriousWake \<Rightarrow> (if rmain s = RAsleep then Some (s\<lparr>rmain := RRelock\<rparr>) else None))"

definition order_labels :: "order_label list" where
  "order_labels = [Main, MallocFails, NewThread, SpuriousWake]"

interpretation order_bug: small_machine "order_step fixed" ordering_main order_labels for fixed :: bool
proof (unfold_locales, goal_cases)
  case (1 l s)
  show ?case by (cases l) (simp_all add: order_labels_def)
qed

definition order_states :: "bool \<Rightarrow> order_prog list" where
  "order_states fixed = explore 400 (succs (order_step fixed) order_labels) [] [ordering_main]"

definition order_ok :: "order_prog \<Rightarrow> bool" where
  "order_ok s \<longleftrightarrow> (ofault s \<longrightarrow> created s = None) \<and> mState s \<in> {None, Some 0} \<and>
     (\<not> ofault s \<and> omain_step True False s = None \<and> mMain s = None \<longrightarrow> omain s = OEnd \<and> mState s = Some 0)"

lemma order_fixed_ok:
  "explored (order_step True) order_labels ordering_main (order_states True) \<and> list_all order_ok (order_states True)"
  by code_simp

section \<open>Properties\<close>

text \<open>The repaired programs: with the lock the first thread never dereferences a null pointer and shows the right pid,
  and both threads end; with the condition variable the new thread never reads the null \<open>mThread\<close> and reads the
  initial state, and a run that is stuck has ended, unless \<open>malloc\<close> failed, which nobody checks.\<close>

theorem bugs_fixed:
  assumes "reach (atomicity_step True) (atomicity_main True) s" "reach (order_step True) ordering_main u"
  shows "\<not> afault s \<and> shown s \<in> {None, Some 100} \<and>
    ((\<forall>w. atomicity_step True w s = None) \<longrightarrow> athread1 s = AEnd \<and> athread2 s = AEnd) \<and>
    (ofault u \<longrightarrow> created u = None) \<and> mState u \<in> {None, Some 0} \<and>
    (\<not> ofault u \<and> order_step True Main u = None \<and> order_step True NewThread u = None \<longrightarrow>
      omain u = OEnd \<and> mState u = Some 0)"
proof -
  have "atomicity_ok s" using atomicity.reach_all atomicity_fixed_ok assms(1) by blast
  moreover have "order_ok u" using order_bug.reach_all order_fixed_ok assms(2) by blast
  moreover have "(\<forall>w. atomicity_step True w s = None) \<Longrightarrow> \<not> afault s \<Longrightarrow> athread1_step True s = None \<and> athread2_step True s = None"
    unfolding atomicity_step_def by (metis who.simps(3,4))
  ultimately show ?thesis by (simp add: atomicity_ok_def order_ok_def order_step_def)
qed

theorem bugs_fixed_witness:
  "\<exists>s u. exec (atomicity_step True) [T1, T1, T1, T1, T2, T2, T2] (atomicity_main True) = Some s \<and> shown s = Some 100 \<and>
     \<not> afault s \<and> exec (order_step True) [Main, Main, NewThread, NewThread, NewThread, Main, Main, Main, Main, Main, NewThread,
       NewThread, NewThread, NewThread, Main] ordering_main = Some u \<and> mState u = Some 0 \<and> omain u = OEnd"
proof -
  obtain s where s: "exec (atomicity_step True) [T1, T1, T1, T1, T2, T2, T2] (atomicity_main True) = Some s"
      "shown s = Some 100"
    by (simp add: atomicity_main_def atomicity_step_def athread1_step_def athread2_step_def locked_def)
  obtain u where u: "exec (order_step True) [Main, Main, NewThread, NewThread, NewThread, Main, Main, Main, Main, Main, NewThread,
       NewThread, NewThread, NewThread, Main] ordering_main = Some u" "mState u = Some 0" "omain u = OEnd"
    by (simp add: ordering_main_def order_step_def omain_step_def PR_CreateThread_def mMain_def locked_def)
  show ?thesis using bugs_fixed [OF reachI [OF s(1)] reachI [OF u(1)]] s u by blast
qed

text \<open>The bugs: without the lock the first thread can use the pointer after the second has set it to null; without
  the condition variable the new thread can read \<open>mThread\<close> before the assignment; and the two threads of
  \<open>deadlock.c\<close> can each hold a lock and wait for the other's.\<close>

theorem bugs_shown:
  "(\<exists>s. reach (atomicity_step False) (atomicity_main False) s \<and> afault s) \<and>
   (\<exists>u. reach (order_step False) ordering_main u \<and> ofault u \<and> created u = Some 0) \<and>
   (\<exists>d. reach deadlock_step deadlock_main d \<and> L1 d = Some 1 \<and> L2 d = Some 2 \<and> (\<forall>w. deadlock_step w d = None))"
proof (intro conjI)
  have "\<exists>s. exec (atomicity_step False) [T1, T2, T1] (atomicity_main False) = Some s \<and> afault s"
    by (simp add: atomicity_main_def atomicity_step_def athread1_step_def athread2_step_def)
  then show "\<exists>s. reach (atomicity_step False) (atomicity_main False) s \<and> afault s" by (rule reach_exI)
  have "\<exists>u. exec (order_step False) [Main, Main, NewThread] ordering_main = Some u \<and> ofault u \<and> created u = Some 0"
    by (simp add: ordering_main_def order_step_def omain_step_def PR_CreateThread_def mMain_def)
  then show "\<exists>u. reach (order_step False) ordering_main u \<and> ofault u \<and> created u = Some 0" by (rule reach_exI)
  have w: "(\<forall>w. deadlock_step w d = None) \<longleftrightarrow> lthread1_step d = None \<and> lthread2_step d = None" for d
    by (metis deadlock_step.simps who.exhaust)
  have "\<exists>d. exec deadlock_step [T1, T2] deadlock_main = Some d \<and> L1 d = Some 1 \<and> L2 d = Some 2 \<and> (\<forall>w. deadlock_step w d = None)"
    unfolding w by (simp add: deadlock_main_def lthread1_step_def lthread2_step_def locked_def)
  then show "\<exists>d. reach deadlock_step deadlock_main d \<and> L1 d = Some 1 \<and> L2 d = Some 2 \<and> (\<forall>w. deadlock_step w d = None)"
    by (rule reach_exI)
qed

end
