(* ===== verification/Sema_Clients.thy ===== *)
theory Sema_Clients
  imports Exploration Semaphores
begin

text \<open>
  Three small programs with semaphores: \<open>threads-sema/binary.c\<close> (a semaphore as a lock), \<open>throttle.c\<close> (a semaphore that
  bounds how many threads are in a section) and \<open>rendezvous.c\<close> (two threads wait for each other). The numbers of
  threads and of iterations are parameters; the counter of \<open>binary.c\<close> is unbounded.
\<close>

section \<open>binary.c\<close>

text \<open>\<open>counter++\<close> is a read and a write.\<close>

datatype bipos = BLoop nat | BRead nat | BWrite nat int | BPost nat | BRet

record binary =
  bmutex :: sem
  bcounter :: int
  bpos :: "tid \<Rightarrow> bipos"

definition binary_main :: binary where
  "binary_main = \<lparr>bmutex = sem_init 1, bcounter = 0, bpos = (\<lambda>_. BLoop 0)\<rparr>"

definition bi_at :: "tid \<Rightarrow> bipos \<Rightarrow> binary \<Rightarrow> binary" where
  "bi_at t p s = s\<lparr>bpos := (bpos s)(t := p)\<rparr>"

definition binary_child :: "nat \<Rightarrow> tid \<Rightarrow> binary \<Rightarrow> binary option" where
  "binary_child L t s =
     (case bpos s t of
        BLoop i \<Rightarrow> (if i < L then map_option (\<lambda>v. bi_at t (BRead i) (s\<lparr>bmutex := v\<rparr>)) (sem_wait (bmutex s))
          else Some (bi_at t BRet s))
      | BRead i \<Rightarrow> Some (bi_at t (BWrite i (bcounter s + 1)) s)
      | BWrite i v \<Rightarrow> Some (bi_at t (BPost i) (s\<lparr>bcounter := v\<rparr>))
      | BPost i \<Rightarrow> Some (bi_at t (BLoop (i + 1)) (s\<lparr>bmutex := sem_post (bmutex s)\<rparr>))
      | BRet \<Rightarrow> None)"

definition binary_step :: "nat \<Rightarrow> nat \<Rightarrow> tid \<Rightarrow> binary \<Rightarrow> binary option" where
  "binary_step n L t s = (if t < n then binary_child L t s else None)"

fun bi_inside :: "bipos \<Rightarrow> bool" where
  "bi_inside (BLoop i) = False"
| "bi_inside BRet = False"
| "bi_inside p = True"

text \<open>The increments of a thread so far.\<close>

fun increments :: "nat \<Rightarrow> bipos \<Rightarrow> nat" where
  "increments L (BLoop i) = i"
| "increments L (BRead i) = i"
| "increments L (BWrite i v) = i"
| "increments L (BPost i) = i + 1"
| "increments L BRet = L"

fun bi_ok :: "nat \<Rightarrow> int \<Rightarrow> bipos \<Rightarrow> bool" where
  "bi_ok L c (BLoop i) = (i \<le> L)"
| "bi_ok L c (BRead i) = (i < L)"
| "bi_ok L c (BWrite i v) = (i < L \<and> v = c + 1)"
| "bi_ok L c (BPost i) = (i < L)"
| "bi_ok L c BRet = True"

definition binary_inv :: "nat \<Rightarrow> nat \<Rightarrow> binary \<Rightarrow> bool" where
  "binary_inv n L s \<longleftrightarrow> int (bmutex s) + cnt n bi_inside (bpos s) = 1 \<and>
     bcounter s = int (\<Sum>t<n. increments L (bpos s t)) \<and> (\<forall>t<n. bi_ok L (bcounter s) (bpos s t))"

lemma binary_inv_init: "binary_inv n L binary_main"
  by (simp add: binary_inv_def binary_main_def cnt_const sem_defs)

lemma increments_move:
  fixes t n :: nat
  shows "t < n \<Longrightarrow> (\<Sum>i<n. increments L ((f(t := p)) i)) + increments L (f t) = (\<Sum>i<n. increments L (f i)) + increments L p"
  using sum_change [of t n "\<lambda>i. increments L ((f(t := p)) i)" "\<lambda>i. increments L (f i)"] by simp

lemma bi_ok_outside: "bi_ok L c p \<Longrightarrow> \<not> bi_inside p \<Longrightarrow> bi_ok L d p"
  by (cases p) auto

lemma binary_inv_step:
  assumes inv: "binary_inv n L s" and step: "binary_step n L t s = Some u"
  shows "binary_inv n L u"
proof -
  have t: "t < n" "binary_child L t s = Some u" using step by (auto simp: binary_step_def split: if_splits)
  have I: "int (bmutex s) + cnt n bi_inside (bpos s) = 1" "bcounter s = int (\<Sum>t<n. increments L (bpos s t))"
    "\<And>v. v < n \<Longrightarrow> bi_ok L (bcounter s) (bpos s v)" using inv unfolding binary_inv_def by blast+
  have u: "bpos u = (bpos s)(t := bpos u t)" using t(2)
    by (cases "bpos s t") (auto simp: binary_child_def bi_at_def split: if_splits)
  have m: "int (bmutex u) + cnt n bi_inside (bpos u) = 1"
    using t I(1) by (cases "bpos s t") (auto simp: binary_child_def bi_at_def cnt_simps sem_wait_def sem_post_def split: if_splits)
  have d: "bcounter u = bcounter s + int (increments L (bpos u t)) - int (increments L (bpos s t))"
      "bi_ok L (bcounter u) (bpos u t)" "bcounter u \<noteq> bcounter s \<Longrightarrow> bi_inside (bpos s t)"
    using t(2) I(3) [OF t(1)] by (cases "bpos s t"; auto simp: binary_child_def bi_at_def split: if_splits)+
  have c: "bcounter u = int (\<Sum>i<n. increments L (bpos u i))"
    using increments_move [OF t(1), of L "bpos s" "bpos u t"] d(1) I(2) unfolding u [symmetric] by linarith
  have "bi_ok L (bcounter u) (bpos u v)" if "v < n" for v
  proof (cases "v = t \<or> bcounter u = bcounter s")
    case True
    then show ?thesis using d(2) u I(3) [OF that] by (metis fun_upd_other)
  next
    case False
    then have "bi_inside (bpos s t)" "v \<noteq> t" using d(3) by blast+
    moreover have "cnt n bi_inside (bpos s) \<le> 1" using I(1) by simp
    ultimately have "\<not> bi_inside (bpos s v)" using cnt_le_1_unique [of n bi_inside "bpos s" v t] that t(1) by blast
    then have "bi_ok L (bcounter u) (bpos s v)" using bi_ok_outside I(3) [OF that] by blast
    then show ?thesis using u \<open>v \<noteq> t\<close> by (metis fun_upd_other)
  qed
  with m c show ?thesis by (simp add: binary_inv_def)
qed

fun bi_rank :: "nat \<Rightarrow> bipos \<Rightarrow> nat" where
  "bi_rank L (BLoop i) = 4 * (L - i) + 1"
| "bi_rank L (BRead i) = 4 * (L - i)"
| "bi_rank L (BWrite i v) = 4 * (L - i) - 1"
| "bi_rank L (BPost i) = 4 * (L - i) - 2"
| "bi_rank L BRet = 0"

definition binary_rank :: "nat \<Rightarrow> nat \<Rightarrow> binary \<Rightarrow> nat" where
  "binary_rank n L s = (\<Sum>t<n. bi_rank L (bpos s t))"

definition binary_ended :: "nat \<Rightarrow> binary \<Rightarrow> bool" where
  "binary_ended n s \<longleftrightarrow> (\<forall>t<n. bpos s t = BRet)"

lemma binary_rank_step:
  assumes inv: "binary_inv n L s" and step: "binary_step n L t s = Some u"
  shows "binary_rank n L u < binary_rank n L s"
proof -
  have t: "t < n" "binary_child L t s = Some u" using step by (auto simp: binary_step_def split: if_splits)
  then have ok: "bi_ok L (bcounter s) (bpos s t)" using inv unfolding binary_inv_def by blast
  have "bi_rank L (bpos u t) < bi_rank L (bpos s t) \<and> (\<forall>v. v \<noteq> t \<longrightarrow> bpos u v = bpos s v)"
    using t(2) ok by (cases "bpos s t") (auto simp: binary_child_def bi_at_def split: if_splits)
  then show ?thesis unfolding binary_rank_def by (intro sum_decreases [OF t(1)]) auto
qed

lemma binary_progress:
  assumes inv: "binary_inv n L s" and "\<not> binary_ended n s"
  shows "\<exists>t u. binary_step n L t s = Some u"
proof (rule ccontr)
  assume "\<not> ?thesis"
  then have "binary_step n L t s = None" for t by fastforce
  then have at: "(\<exists>i. bpos s t = BLoop i) \<and> bmutex s = 0 \<or> bpos s t = BRet" if "t < n" for t
    using that by (cases "bpos s t") (force simp: binary_step_def binary_child_def sem_wait_def split: if_splits)+
  then have "cnt n bi_inside (bpos s) = 0" unfolding cnt_eq_0 by fastforce
  then have "bmutex s = 1" using inv by (simp add: binary_inv_def)
  with at assms(2) show False by (auto simp: binary_ended_def)
qed

interpretation binary: finite_machine "binary_step n L" binary_main "binary_inv n L" "binary_ended n" "binary_rank n L"
  for n L :: nat
  by unfold_locales (use binary_inv_init binary_inv_step binary_progress binary_rank_step in blast)+

section \<open>throttle.c\<close>

datatype trpos = TWait | TIn | TEnd

record throttle =
  tsem :: sem
  trpos :: "tid \<Rightarrow> trpos"

definition throttle_main :: "nat \<Rightarrow> throttle" where
  "throttle_main v = \<lparr>tsem = sem_init v, trpos = (\<lambda>_. TWait)\<rparr>"

definition throttle_step :: "nat \<Rightarrow> tid \<Rightarrow> throttle \<Rightarrow> throttle option" where
  "throttle_step n t s =
     (if t < n then (case trpos s t of
        TWait \<Rightarrow> map_option (\<lambda>v. s\<lparr>tsem := v, trpos := (trpos s)(t := TIn)\<rparr>) (sem_wait (tsem s))
      | TIn \<Rightarrow> Some (s\<lparr>tsem := sem_post (tsem s), trpos := (trpos s)(t := TEnd)\<rparr>)
      | TEnd \<Rightarrow> None) else None)"

definition throttle_inv :: "nat \<Rightarrow> nat \<Rightarrow> throttle \<Rightarrow> bool" where
  "throttle_inv n v s \<longleftrightarrow> int (tsem s) + num_at n TIn (trpos s) = int v"

lemma throttle_inv_step: "throttle_inv n v s \<Longrightarrow> throttle_step n t s = Some u \<Longrightarrow> throttle_inv n v u"
  by (auto simp: throttle_step_def throttle_inv_def sem_wait_def sem_post_def cnt_simps split: if_splits trpos.splits)

interpretation throttle: safe_machine "throttle_step n" "throttle_main v" "throttle_inv n v" for n v :: nat
  by unfold_locales (simp add: throttle_inv_def throttle_main_def cnt_const sem_init_def, rule throttle_inv_step)

lemma throttle_stuck:
  assumes inv: "throttle_inv n v s" and stuck: "\<forall>t. throttle_step n t s = None" and v: "0 < v" and t: "t < n"
  shows "trpos s t = TEnd"
proof -
  have at: "trpos s i = TWait \<and> tsem s = 0 \<or> trpos s i = TEnd" if "i < n" for i
    using spec [OF stuck, of i] that by (cases "trpos s i") (auto simp: throttle_step_def sem_wait_def split: if_splits)
  then have "num_at n TIn (trpos s) = 0" unfolding cnt_eq_0 by fastforce
  then have "tsem s = v" using inv by (simp add: throttle_inv_def)
  with at [OF t] v show ?thesis by simp
qed

section \<open>rendezvous.c\<close>

datatype rvpos = RBefore | RPost | RWait | RAfter | REnd

datatype rvmsg = Before1 | Before2 | After1 | After2

record rendezvous =
  s1 :: sem
  s2 :: sem
  child1 :: rvpos
  child2 :: rvpos
  said :: "rvmsg list"

definition rendezvous_main :: rendezvous where
  "rendezvous_main = \<lparr>s1 = sem_init 0, s2 = sem_init 0, child1 = RBefore, child2 = RBefore, said = []\<rparr>"

definition child_1 :: "rendezvous \<Rightarrow> rendezvous option" where
  "child_1 s =
     (case child1 s of
        RBefore \<Rightarrow> Some (s\<lparr>said := said s @ [Before1], child1 := RPost\<rparr>)
      | RPost \<Rightarrow> Some (s\<lparr>s1 := sem_post (s1 s), child1 := RWait\<rparr>)
      | RWait \<Rightarrow> map_option (\<lambda>v. s\<lparr>s2 := v, child1 := RAfter\<rparr>) (sem_wait (s2 s))
      | RAfter \<Rightarrow> Some (s\<lparr>said := said s @ [After1], child1 := REnd\<rparr>)
      | REnd \<Rightarrow> None)"

definition child_2 :: "rendezvous \<Rightarrow> rendezvous option" where
  "child_2 s =
     (case child2 s of
        RBefore \<Rightarrow> Some (s\<lparr>said := said s @ [Before2], child2 := RPost\<rparr>)
      | RPost \<Rightarrow> Some (s\<lparr>s2 := sem_post (s2 s), child2 := RWait\<rparr>)
      | RWait \<Rightarrow> map_option (\<lambda>v. s\<lparr>s1 := v, child2 := RAfter\<rparr>) (sem_wait (s1 s))
      | RAfter \<Rightarrow> Some (s\<lparr>said := said s @ [After2], child2 := REnd\<rparr>)
      | REnd \<Rightarrow> None)"

fun rendezvous_step :: "bool \<Rightarrow> rendezvous \<Rightarrow> rendezvous option" where
  "rendezvous_step True s = child_1 s"
| "rendezvous_step False s = child_2 s"

interpretation rendezvous: small_machine rendezvous_step rendezvous_main "[True, False]"
  by unfold_locales auto

definition rendezvous_ok :: "rendezvous \<Rightarrow> bool" where
  "rendezvous_ok s \<longleftrightarrow> set (take 2 (said s)) \<subseteq> {Before1, Before2} \<and> distinct (said s) \<and>
     (child_1 s = None \<and> child_2 s = None \<longrightarrow> length (said s) = 4)"

definition rendezvous_states :: "rendezvous list" where
  "rendezvous_states = explore 200 (succs rendezvous_step [True, False]) [] [rendezvous_main]"

lemma rendezvous_explored:
  "explored rendezvous_step [True, False] rendezvous_main rendezvous_states \<and> list_all rendezvous_ok rendezvous_states"
  by code_simp

section \<open>Properties\<close>

text \<open>The three programs: the threads of binary.c lose no increment, every interleaving of them ends and the result
  is the number of threads times the number of iterations; throttle.c never has more threads in the section than the initial value
  of its semaphore, and if that is positive all get through; in rendezvous.c both messages before come before both
  messages after, and it does not get stuck before all four are there.\<close>

theorem sema_clients_correct:
  assumes "exec (binary_step n L) ls binary_main = Some b" "reach (throttle_step m) (throttle_main v) h"
    "reach rendezvous_step rendezvous_main r"
  shows "length ls \<le> n * (4 * L + 1) \<and>
    ((\<forall>t. binary_step n L t b = None) \<longrightarrow> binary_ended n b \<and> bcounter b = int (n * L)) \<and>
    num_at m TIn (trpos h) \<le> int v \<and>
    ((\<forall>t. throttle_step m t h = None) \<and> 0 < v \<longrightarrow> (\<forall>t<m. trpos h t = TEnd)) \<and>
    set (take 2 (said r)) \<subseteq> {Before1, Before2} \<and> (child_1 r = None \<and> child_2 r = None \<longrightarrow> length (said r) = 4)"
proof -
  have "binary_rank n L binary_main = n * (4 * L + 1)" by (simp add: binary_rank_def binary_main_def)
  then have 1: "length ls \<le> n * (4 * L + 1)" using binary.run_bound [OF assms(1)] by simp
  have inv: "binary_inv n L b" by (rule binary.reach_inv [OF reachI [OF assms(1)]])
  have 2: "bcounter b = int (n * L)" if e: "binary_ended n b"
  proof -
    have "(\<Sum>t<n. increments L (bpos b t)) = (\<Sum>t<n. L)" using e by (intro sum.cong) (auto simp: binary_ended_def)
    then show ?thesis using inv unfolding binary_inv_def by simp
  qed
  have h: "throttle_inv m v h" by (rule throttle.reach_inv [OF assms(2)])
  have "rendezvous_ok r" using rendezvous.reach_all rendezvous_explored assms(3) by blast
  with 1 2 binary.stuck_final [OF reachI [OF assms(1)]] h throttle_stuck [OF h] show ?thesis
    by (auto simp: throttle_inv_def rendezvous_ok_def)
qed

theorem sema_clients_correct_witness:
  "\<exists>b h r. exec (binary_step 2 1) [0, 0, 0, 0, 0, 1, 1, 1, 1, 1] binary_main = Some b \<and> bcounter b = 2 \<and>
     exec (throttle_step 2) [0, 0, 1, 1] (throttle_main 1) = Some h \<and> num_at 2 TIn (trpos h) \<le> 1 \<and>
     exec rendezvous_step [True, True, False, False, False, False, True, True] rendezvous_main = Some r \<and>
     said r = [Before1, Before2, After2, After1] \<and> set (take 2 (said r)) \<subseteq> {Before1, Before2}"
proof -
  obtain b where b: "exec (binary_step 2 1) [0, 0, 0, 0, 0, 1, 1, 1, 1, 1] binary_main = Some b" "bpos b 0 = BRet" "bpos b 1 = BRet"
    by (simp add: binary_main_def binary_step_def binary_child_def bi_at_def sem_defs)
  obtain h where h: "exec (throttle_step 2) [0, 0, 1, 1] (throttle_main 1) = Some h"
    by (simp add: throttle_main_def throttle_step_def sem_defs)
  obtain r where r: "exec rendezvous_step [True, True, False, False, False, False, True, True] rendezvous_main = Some r"
      "said r = [Before1, Before2, After2, After1]"
    by (simp add: rendezvous_main_def child_1_def child_2_def sem_defs)
  have "binary_step 2 1 t b = None" for t
    using b(2,3) by (cases "t < 2") (auto simp: binary_step_def binary_child_def less_2_cases_iff)
  then show ?thesis using sema_clients_correct [OF b(1) reachI [OF h] reachI [OF r(1)]] b(1) h r by fastforce
qed

end
