(* ===== verification/Persistent_Stack.thy ===== *)
theory Persistent_Stack
  imports "HOL-Library.Word"
begin

text \<open>
  \<open>file-intro/pstack.c\<close>: a stack in a memory-mapped file. \<open>pn\<close> is the count in the first eight bytes of the file, a
  \<open>size_t\<close>; \<open>pitems\<close> are the integers in the rest of it, \<open>file_size\<close> its size. An access outside the mapping is the error
  \<open>OutOfBounds\<close>. The file is what the last run left, so the state a run starts from is an argument.

  \<open>strcmp\<close> with \<open>''pop''\<close> is equality of strings; \<open>atoi\<close> of the C library is the parameter \<open>atoi\<close>. Whether \<open>open\<close>, \<open>fstat\<close>
  and \<open>mmap\<close> succeed are arguments of \<open>pstack_c\<close>.
\<close>

record pstack_t =
  pn :: "64 word"
  pitems :: "32 word list"

datatype pstack_error = OutOfBounds | AssertionFailed

type_synonym 'a result = "pstack_error + 'a"

definition sizeof_pstack :: "64 word" where
  "sizeof_pstack = 8"

text \<open>\<open>printf("%d\<newline>", p->stack[--p->n])\<close> when the stack is not empty.\<close>

definition pop :: "pstack_t \<Rightarrow> (pstack_t \<times> 32 word list) result" where
  "pop p =
     (if 0 < pn p
      then (let n = pn p - 1 in
        if unat n < length (pitems p) then Inr (p\<lparr>pn := n\<rparr>, [pitems p ! unat n]) else Inl OutOfBounds)
      else Inr (p, []))"

definition push :: "64 word \<Rightarrow> 32 word \<Rightarrow> pstack_t \<Rightarrow> (pstack_t \<times> 32 word list) result" where
  "push file_size v p =
     (if sizeof_pstack + (1 + pn p) * 4 \<le> file_size
      then (if unat (pn p) < length (pitems p)
        then Inr (p\<lparr>pitems := (pitems p)[unat (pn p) := v], pn := pn p + 1\<rparr>, []) else Inl OutOfBounds)
      else Inr (p, []))"

fun run_args :: "(string \<Rightarrow> 32 word) \<Rightarrow> 64 word \<Rightarrow> string list \<Rightarrow> pstack_t \<Rightarrow> (pstack_t \<times> 32 word list) result" where
  "run_args atoi fs [] p = Inr (p, [])"
| "run_args atoi fs (a # as) p =
     (case (if a = ''pop'' then pop p else push fs (atoi a) p) of
        Inl e \<Rightarrow> Inl e
      | Inr (q, out) \<Rightarrow> (case run_args atoi fs as q of Inl e \<Rightarrow> Inl e | Inr (r, out') \<Rightarrow> Inr (r, out @ out')))"

definition pstack_main ::
  "(string \<Rightarrow> 32 word) \<Rightarrow> 64 word \<Rightarrow> string list \<Rightarrow> pstack_t \<Rightarrow> (pstack_t \<times> 32 word list) result" where
  "pstack_main atoi fs args p =
     (if sizeof_pstack \<le> fs \<and> fs mod 4 = 0 then run_args atoi fs args p else Inl AssertionFailed)"

text \<open>The program from its start: \<open>img\<close> is the file \<open>ps.img\<close> and its size, if it is there and can be opened. Nothing is written
  before the assertions hold.\<close>

definition pstack_c ::
  "bool \<Rightarrow> bool \<Rightarrow> (string \<Rightarrow> 32 word) \<Rightarrow> string list \<Rightarrow> (64 word \<times> pstack_t) option \<Rightarrow> (pstack_t \<times> 32 word list) result" where
  "pstack_c fstat_ok mmap_ok atoi argv img =
     (case img of
        None \<Rightarrow> Inl AssertionFailed
      | Some (file_size, p) \<Rightarrow>
          if \<not> fstat_ok then Inl AssertionFailed
          else if \<not> (sizeof_pstack \<le> file_size \<and> file_size mod 4 = 0) then Inl AssertionFailed
          else if \<not> mmap_ok then Inl AssertionFailed
          else run_args atoi file_size (tl argv) p)"

section \<open>Specification\<close>

text \<open>A bounded stack, as a list with the top first.\<close>

fun spec_run :: "(string \<Rightarrow> 32 word) \<Rightarrow> nat \<Rightarrow> string list \<Rightarrow> 32 word list \<Rightarrow> 32 word list \<times> 32 word list" where
  "spec_run atoi cap [] st = (st, [])"
| "spec_run atoi cap (a # as) st =
     (if a = ''pop''
      then (case st of [] \<Rightarrow> spec_run atoi cap as []
        | v # st' \<Rightarrow> (case spec_run atoi cap as st' of (r, out) \<Rightarrow> (r, v # out)))
      else spec_run atoi cap as (if length st < cap then atoi a # st else st))"

definition capacity :: "64 word \<Rightarrow> nat" where
  "capacity fs = (unat fs - 8) div 4"

definition stack_of :: "pstack_t \<Rightarrow> 32 word list" where
  "stack_of p = rev (take (unat (pn p)) (pitems p))"

text \<open>A file of the right size (an \<open>off_t\<close> is signed) whose count does not exceed what it holds.\<close>

definition well_formed :: "64 word \<Rightarrow> pstack_t \<Rightarrow> bool" where
  "well_formed fs p \<longleftrightarrow> sizeof_pstack \<le> fs \<and> unat fs < 2 ^ 63 \<and> fs mod 4 = 0 \<and>
     length (pitems p) = capacity fs \<and> unat (pn p) \<le> capacity fs"

lemma unat_small: "k < 2 ^ 64 \<Longrightarrow> unat (word_of_nat k :: 64 word) = k"
  by (simp add: unsigned_of_nat take_bit_nat_eq_self)

lemma room_iff:
  assumes "well_formed fs p"
  shows "sizeof_pstack + (1 + pn p) * 4 \<le> fs \<longleftrightarrow> unat (pn p) < capacity fs"
proof -
  have w: "8 \<le> unat fs" "unat fs < 2 ^ 63" "unat (pn p) \<le> capacity fs" "fs mod 4 = 0"
    using assms by (auto simp: well_formed_def sizeof_pstack_def word_le_nat_alt)
  have "unat (fs mod 4) = unat fs mod 4" by (simp add: unat_mod)
  then have m: "unat fs = 8 + 4 * capacity fs" using w(1,4) by (simp add: capacity_def) presburger
  have "sizeof_pstack + (1 + pn p) * 4 = word_of_nat (8 + (1 + unat (pn p)) * 4)"
    by (simp add: sizeof_pstack_def)
  then have "unat (sizeof_pstack + (1 + pn p) * 4) = unat (word_of_nat (8 + (1 + unat (pn p)) * 4) :: 64 word)"
    by (rule arg_cong)
  also have "\<dots> = 8 + (1 + unat (pn p)) * 4"
    by (rule unat_small) (use w m in simp)
  finally show ?thesis unfolding word_le_nat_alt using m by auto
qed

lemma stack_length: "well_formed fs p \<Longrightarrow> length (stack_of p) = unat (pn p)"
  by (simp add: stack_of_def well_formed_def)

lemma unat_less_size: "well_formed fs p \<Longrightarrow> unat (pn p) + 1 < 2 ^ 64"
proof -
  assume "well_formed fs p"
  then have "unat (pn p) \<le> capacity fs" "unat fs < 2 ^ 63" by (auto simp: well_formed_def)
  then show ?thesis by (simp add: capacity_def)
qed

lemma pop_empty: "pn p = 0 \<Longrightarrow> pop p = Inr (p, []) \<and> stack_of p = []"
  by (simp add: pop_def stack_of_def)

lemma pop_full:
  assumes wf: "well_formed fs p" and n: "pn p \<noteq> 0"
  shows "\<exists>q. pop p = Inr (q, [hd (stack_of p)]) \<and> well_formed fs q \<and> stack_of q = tl (stack_of p) \<and> stack_of p \<noteq> []"
proof -
  have k: "unat (pn p - 1) = unat (pn p) - 1" "0 < unat (pn p)" using n by (simp_all add: unat_minus_one unat_gt_0)
  then have lt: "unat (pn p - 1) < length (pitems p)" using wf unfolding well_formed_def by linarith
  have "take (unat (pn p)) (pitems p) = take (unat (pn p - 1)) (pitems p) @ [pitems p ! unat (pn p - 1)]"
    using k lt by (metis Suc_pred' take_Suc_conv_app_nth)
  then have "stack_of p = pitems p ! unat (pn p - 1) # stack_of (p\<lparr>pn := pn p - 1\<rparr>)" by (simp add: stack_of_def)
  moreover have "0 < pn p" using n by (simp add: word_neq_0_conv)
  moreover have "well_formed fs (p\<lparr>pn := pn p - 1\<rparr>)" 
    using wf k le_trans [OF diff_le_self, of "unat (pn p)" "capacity fs" 1] by (simp add: well_formed_def)
  ultimately show ?thesis using lt by (auto simp: pop_def Let_def)
qed

lemma push_ok:
  assumes wf: "well_formed fs p"
  shows "\<exists>q. push fs v p = Inr (q, []) \<and> well_formed fs q \<and>
    stack_of q = (if length (stack_of p) < capacity fs then v # stack_of p else stack_of p)"
proof (cases "unat (pn p) < capacity fs")
  case True
  let ?q = "p\<lparr>pitems := (pitems p)[unat (pn p) := v], pn := pn p + 1\<rparr>"
  have n: "unat (pn p + 1) = unat (pn p) + 1" using unat_less_size [OF wf] by (simp add: unat_plus_if')
  have l: "unat (pn p) < length (pitems p)" using True wf by (simp add: well_formed_def)
  then have "stack_of ?q = v # stack_of p" by (simp add: stack_of_def n take_Suc_conv_app_nth)
  moreover have "well_formed fs ?q" using wf True n by (simp add: well_formed_def)
  ultimately show ?thesis using True l room_iff [OF wf] stack_length [OF wf] by (simp add: push_def)
next
  case False
  then show ?thesis using wf room_iff [OF wf] stack_length [OF wf] by (simp add: push_def)
qed

lemma run_refines:
  "well_formed fs p \<Longrightarrow> \<exists>q out. run_args atoi fs as p = Inr (q, out) \<and> well_formed fs q \<and>
     spec_run atoi (capacity fs) as (stack_of p) = (stack_of q, out)"
proof (induction as arbitrary: p)
  case Nil
  then show ?case by simp
next
  case (Cons a as)
  show ?case
  proof (cases "a = ''pop''")
    case True
    show ?thesis
    proof (cases "pn p = 0")
      case True
      then show ?thesis using \<open>a = ''pop''\<close> pop_empty [OF True] Cons.IH [OF Cons.prems] by auto
    next
      case False
      then obtain q where q: "pop p = Inr (q, [hd (stack_of p)])" "well_formed fs q" "stack_of q = tl (stack_of p)"
          "stack_of p \<noteq> []" using pop_full [OF Cons.prems] by blast
      then obtain v st where "stack_of p = v # st" by (cases "stack_of p") auto
      with q Cons.IH [OF q(2)] show ?thesis using \<open>a = ''pop''\<close> by auto
    qed
  next
    case False
    obtain q where q: "push fs (atoi a) p = Inr (q, [])" "well_formed fs q"
        "stack_of q = (if length (stack_of p) < capacity fs then atoi a # stack_of p else stack_of p)"
      using push_ok [OF Cons.prems] by blast
    with Cons.IH [OF q(2)] False show ?thesis by auto
  qed
qed

lemma run_append:
  "run_args atoi fs (as @ bs) p = (case run_args atoi fs as p of Inl e \<Rightarrow> Inl e
     | Inr (q, out) \<Rightarrow> (case run_args atoi fs bs q of Inl e \<Rightarrow> Inl e | Inr (r, out') \<Rightarrow> Inr (r, out @ out')))"
  by (induction as arbitrary: p) (auto split: sum.splits)

section \<open>Properties\<close>

text \<open>C36: on a well-formed file the program is a bounded stack: whatever the arguments, it never leaves the mapping, prints
  what the abstract stack pops, and leaves a well-formed file that holds the abstract stack; a push on a full stack
  and a pop of an empty one do nothing.\<close>

theorem pstack_refines:
  assumes "well_formed fs p"
  shows "\<exists>q out. pstack_main atoi fs args p = Inr (q, out) \<and> well_formed fs q \<and>
    spec_run atoi (capacity fs) args (stack_of p) = (stack_of q, out)"
  using run_refines [OF assms] assms by (simp add: pstack_main_def well_formed_def)

theorem pstack_refines_witness:
  "\<exists>q out. pstack_main (\<lambda>a. if a = ''7'' then 7 else 13) 16 [''7'', ''13'', ''7'', ''pop''] \<lparr>pn = 0, pitems = [0, 0]\<rparr> = Inr (q, out) \<and>
     spec_run (\<lambda>a. if a = ''7'' then 7 else 13) 2 [''7'', ''13'', ''7'', ''pop''] [] = (stack_of q, out)"
proof -
  have "well_formed 16 \<lparr>pn = 0, pitems = [0, 0]\<rparr>" by (simp add: well_formed_def capacity_def sizeof_pstack_def)
  moreover have "capacity 16 = 2" "stack_of \<lparr>pn = 0, pitems = [0, 0]\<rparr> = []" by (simp_all add: stack_of_def capacity_def)
  ultimately show ?thesis
    using pstack_refines [of 16 "\<lparr>pn = 0, pitems = [0, 0]\<rparr>" "\<lambda>a. if a = ''7'' then 7 else 13" "[''7'', ''13'', ''7'', ''pop'']"]
    by auto
qed

text \<open>The program from its start aborts exactly when a call fails, the file is missing or it has a wrong size; a well-formed
  file of that size is never accessed out of bounds.\<close>

theorem pstack_c_errors:
  assumes "img = None \<or> (\<exists>fs p. img = Some (fs, p) \<and> (well_formed fs p \<or> \<not> sizeof_pstack \<le> fs \<or> fs mod 4 \<noteq> 0))"
  shows "(pstack_c fstat_ok mmap_ok atoi argv img = Inl AssertionFailed \<longleftrightarrow>
      \<not> fstat_ok \<or> \<not> mmap_ok \<or> (\<forall>fs p. img = Some (fs, p) \<longrightarrow> \<not> sizeof_pstack \<le> fs \<or> fs mod 4 \<noteq> 0)) \<and>
    pstack_c fstat_ok mmap_ok atoi argv img \<noteq> Inl OutOfBounds"
proof (cases img)
  case None
  then show ?thesis by (simp add: pstack_c_def)
next
  case (Some x)
  obtain fs p where x: "x = (fs, p)" by (cases x)
  show ?thesis
  proof (cases "well_formed fs p")
    case True
    then show ?thesis using run_refines [OF True, of atoi "tl argv"] Some x by (auto simp: pstack_c_def well_formed_def)
  next
    case False
    then show ?thesis using assms Some x by (auto simp: pstack_c_def)
  qed
qed

text \<open>The stack persists: running the program with some arguments and then again, on the file it left, with others is
  running it once with all of them, output included.\<close>

theorem pstack_persistent:
  assumes "pstack_main atoi fs as p = Inr (q, out)" "pstack_main atoi fs bs q = Inr (r, out')"
  shows "pstack_main atoi fs (as @ bs) p = Inr (r, out @ out')"
  using assms by (auto simp: pstack_main_def run_append split: if_splits)

theorem pstack_persistent_witness:
  "\<exists>r. pstack_main (\<lambda>a. 7) 16 ([''7''] @ [''pop'']) \<lparr>pn = 0, pitems = [0, 0]\<rparr> = Inr (r, [] @ [7])"
proof -
  have 1: "pstack_main (\<lambda>a. 7) 16 [''7''] \<lparr>pn = 0, pitems = [0, 0]\<rparr> = Inr (\<lparr>pn = 1, pitems = [7, 0]\<rparr>, [])"
    by (simp add: pstack_main_def sizeof_pstack_def push_def)
  have 2: "pstack_main (\<lambda>a. 7) 16 [''pop''] \<lparr>pn = 1, pitems = [7, 0]\<rparr> = Inr (\<lparr>pn = 0, pitems = [7, 0]\<rparr>, [7])"
    by (simp add: pstack_main_def sizeof_pstack_def pop_def)
  from pstack_persistent [OF 1 2] show ?thesis by blast
qed

text \<open>C37: what one run pushes the next run pops: if the stack is not full, pushing a number and then, in another run on
  the file left, popping prints that number and leaves the stack as it was.\<close>

theorem pstack_roundtrip:
  assumes "well_formed fs p" "length (stack_of p) < capacity fs" "a \<noteq> ''pop''"
  shows "\<exists>q r. pstack_main atoi fs [a] p = Inr (q, []) \<and> pstack_main atoi fs [''pop''] q = Inr (r, [atoi a]) \<and>
    well_formed fs r \<and> stack_of r = stack_of p"
proof -
  obtain q where q: "pstack_main atoi fs [a] p = Inr (q, [])" "well_formed fs q" "stack_of q = atoi a # stack_of p"
    using run_refines [OF assms(1), of atoi "[a]"] assms by (auto simp: pstack_main_def well_formed_def)
  obtain r where "pstack_main atoi fs [''pop''] q = Inr (r, [atoi a])" "well_formed fs r" "stack_of r = stack_of p"
    using run_refines [OF q(2), of atoi "[''pop'']"] q(2,3) by (auto simp: pstack_main_def well_formed_def)
  with q(1) show ?thesis by blast
qed

theorem pstack_roundtrip_witness:
  "\<exists>q r. pstack_main (\<lambda>a. 7) 16 [''7''] \<lparr>pn = 1, pitems = [5, 0]\<rparr> = Inr (q, []) \<and>
     pstack_main (\<lambda>a. 7) 16 [''pop''] q = Inr (r, [7]) \<and> stack_of r = [5]"
proof -
  have "well_formed 16 \<lparr>pn = 1, pitems = [5, 0]\<rparr>" "stack_of \<lparr>pn = 1, pitems = [5, 0]\<rparr> = [5]" "capacity 16 = 2"
    by (simp_all add: well_formed_def capacity_def sizeof_pstack_def stack_of_def)
  with pstack_roundtrip [of 16 "\<lparr>pn = 1, pitems = [5, 0]\<rparr>" "''7''" "\<lambda>a. 7"] show ?thesis by fastforce
qed

text \<open>The program trusts the count in the file: with the count at its maximum the computation of the room needed wraps
  to the size of the header, so a push leaves the mapping, and a pop leaves it for every count above the capacity.\<close>

theorem pstack_corrupt_file:
  assumes "sizeof_pstack \<le> fs" "length xs = capacity fs" "capacity fs < unat n"
  shows "pop \<lparr>pn = n, pitems = xs\<rparr> = Inl OutOfBounds \<and> push fs v \<lparr>pn = - 1, pitems = xs\<rparr> = Inl OutOfBounds"
proof -
  have n: "n \<noteq> 0" using assms(3) by auto
  then have "unat (n - 1) = unat n - 1" by (simp add: unat_minus_one)
  then have "\<not> unat (n - 1) < length xs" using assms(2,3) by simp
  moreover have "0 < n" using n by (simp add: word_neq_0_conv)
  moreover have "n \<le> - 1" by simp
  then have "unat n \<le> unat (- 1 :: 64 word)" unfolding word_le_nat_alt .
  ultimately show ?thesis using assms by (simp add: pop_def push_def Let_def)
qed

theorem pstack_corrupt_file_witness:
  "pop \<lparr>pn = 3, pitems = [1, 2]\<rparr> = Inl OutOfBounds \<and> push 16 9 \<lparr>pn = - 1, pitems = [1, 2]\<rparr> = Inl OutOfBounds"
  by (rule pstack_corrupt_file) (simp_all add: sizeof_pstack_def capacity_def)

end
