(* ===== verification/Processes.thy ===== *)
theory Processes
  imports Sync_Prelude
begin

text \<open>
  Processes: a component with threads together with the \<open>main\<close> that creates and joins them, and the arguments of the
  command line.

  \<open>proc_step\<close> interleaves the steps of a component's machine with those of \<open>main\<close>, a list of operations. A thread takes
  part only after it has been created, a join waits until the thread has ended, and nothing moves after the process has
  exited. With \<open>checked\<close> the source checks the result of the creation (the macros \<open>Pthread_create\<close> of
  \<open>include/common_threads.h\<close> assert it, a \<open>std::thread\<close> throws): a creation that fails ends the process. Without,
  a creation that fails leaves no thread, and \<open>main\<close> goes on; the join of that thread reads a \<open>pthread_t\<close> that was never
  written, which is undefined (status \<open>Undef\<close>).

  The locale \<open>process\<close> carries a machine's theorems over to the process: \<open>main\<close> adds no deadlock once every thread it asked
  for was created, it returns only after every thread has ended, and the run of the process is bounded when that of the
  machine is.
\<close>

section \<open>Arguments\<close>

definition is_digit :: "char \<Rightarrow> bool" where
  "is_digit c \<longleftrightarrow> of_char c \<in> {48..57 :: nat}"

definition is_space :: "char \<Rightarrow> bool" where
  "is_space c \<longleftrightarrow> of_char c \<in> insert 32 {9..13 :: nat}"

text \<open>\<open>strtol\<close> in base 10: white space, a sign, digits; 0 when there are none, and a value out of the range of a 64-bit
  \<open>long\<close> gives the nearest bound. \<open>atoi\<close> returns it as a 32-bit \<open>int\<close>, the way the C library does,
  \<open>(int) strtol(s, NULL, 10)\<close>; the C standard leaves a value that does not fit undefined.\<close>

fun digits_value :: "nat \<Rightarrow> string \<Rightarrow> nat" where
  "digits_value v [] = v"
| "digits_value v (c # cs) = (if is_digit c then digits_value (10 * v + (of_char c - 48)) cs else v)"

definition decimal :: "string \<Rightarrow> int" where
  "decimal cs =
     (case dropWhile is_space cs of
        [] \<Rightarrow> 0
      | c # ds \<Rightarrow> if c = CHR ''-'' then - int (digits_value 0 ds)
          else if c = CHR ''+'' then int (digits_value 0 ds) else int (digits_value 0 (c # ds)))"

definition strtol :: "string \<Rightarrow> int" where
  "strtol cs = max (- (2 ^ 63)) (min (2 ^ 63 - 1) (decimal cs))"

definition to_int :: "int \<Rightarrow> int" where
  "to_int v = (v + 2 ^ 31) mod 2 ^ 32 - 2 ^ 31"

definition atoi :: "string \<Rightarrow> int" where
  "atoi cs = to_int (strtol cs)"

lemma atoi_int: "- (2 ^ 31) \<le> atoi cs \<and> atoi cs < 2 ^ 31"
  unfolding atoi_def to_int_def using pos_mod_bound [of "2 ^ 32 :: int"] pos_mod_sign [of "2 ^ 32 :: int"] by auto

lemma atoi_decimal: "- (2 ^ 31) \<le> decimal cs \<Longrightarrow> decimal cs < 2 ^ 31 \<Longrightarrow> atoi cs = decimal cs"
  by (simp add: atoi_def strtol_def to_int_def)

lemmas atoi_eval = atoi_def strtol_def to_int_def decimal_def is_space_def is_digit_def

lemma atoi_examples: "atoi ''12'' = 12" "atoi '' -7x'' = - 7" "atoi ''x'' = 0"
    "atoi ''4294967297'' = 1" "atoi ''3000000000'' = - 1294967296" "atoi ''99999999999999999999'' = - 1"
  by (simp_all add: atoi_eval)

section \<open>Processes\<close>

datatype main_op = Create tid | Join tid

datatype status = Live | Exited int | Aborted | Undef

record 's process =
  comp :: 's
  started :: "tid \<Rightarrow> bool"
  todo :: "main_op list"
  status :: status

datatype 'l proc_label = Thread 'l | MainThread bool

definition new_process :: "'s \<Rightarrow> main_op list \<Rightarrow> 's process" where
  "new_process s ops = \<lparr>comp = s, started = (\<lambda>_. False), todo = ops, status = Live\<rparr>"

text \<open>A \<open>main\<close> that ends before it creates a thread.\<close>

definition no_process :: "'s \<Rightarrow> status \<Rightarrow> 's process" where
  "no_process s st = \<lparr>comp = s, started = (\<lambda>_. False), todo = [], status = st\<rparr>"

definition create_join :: "nat \<Rightarrow> main_op list" where
  "create_join n = map Create [0..<n] @ map Join [0..<n]"

fun main_step :: "bool \<Rightarrow> (tid \<Rightarrow> 's \<Rightarrow> bool) \<Rightarrow> bool \<Rightarrow> 's process \<Rightarrow> 's process option" where
  "main_step checked ended ok p =
     (case todo p of
        [] \<Rightarrow> Some (p\<lparr>status := Exited 0\<rparr>)
      | Create t # ops \<Rightarrow> (if ok then Some (p\<lparr>started := (started p)(t := True), todo := ops\<rparr>)
          else if checked then Some (p\<lparr>status := Aborted\<rparr>) else Some (p\<lparr>todo := ops\<rparr>))
      | Join t # ops \<Rightarrow> (if \<not> started p t then Some (p\<lparr>status := Undef\<rparr>)
          else if ended t (comp p) then Some (p\<lparr>todo := ops\<rparr>) else None))"

fun proc_step :: "bool \<Rightarrow> (tid \<Rightarrow> 's \<Rightarrow> bool) \<Rightarrow> ('l \<Rightarrow> tid) \<Rightarrow> ('l \<Rightarrow> 's \<Rightarrow> 's option) \<Rightarrow>
    'l proc_label \<Rightarrow> 's process \<Rightarrow> 's process option" where
  "proc_step checked ended who step (Thread l) p =
     (if status p = Live \<and> started p (who l) then map_option (\<lambda>s. p\<lparr>comp := s\<rparr>) (step l (comp p)) else None)"
| "proc_step checked ended who step (MainThread ok) p = (if status p = Live then main_step checked ended ok p else None)"

text \<open>A \<open>main\<close> that asks for no thread returns at once.\<close>

lemma no_threads:
  assumes "exec (proc_step checked ended who step) ls (new_process s []) = Some p"
  shows "length ls \<le> 1 \<and> (ls \<noteq> [] \<longrightarrow> status p = Exited 0)"
proof (cases ls)
  case (Cons l ks)
  then obtain ok where l: "l = MainThread ok" using assms by (cases l) (simp_all add: new_process_def)
  have "ks = []" using assms Cons l by (cases ks; cases "hd ks") (simp_all add: new_process_def)
  with assms Cons l show ?thesis by (auto simp: new_process_def)
qed simp

text \<open>Where \<open>main\<close> is: it has creations left, or it has joined the threads up to some point. When no creation has
  failed, every thread asked for so far was started.\<close>

definition main_at :: "nat \<Rightarrow> (tid \<Rightarrow> 's \<Rightarrow> bool) \<Rightarrow> 's process \<Rightarrow> bool" where
  "main_at n ended p \<longleftrightarrow>
     (\<exists>k\<le>n. todo p = map Create [k..<n] @ map Join [0..<n]) \<or>
     (\<exists>k\<le>n. todo p = map Join [k..<n] \<and> (\<forall>t<k. ended t (comp p)))"

definition all_created :: "nat \<Rightarrow> 's process \<Rightarrow> bool" where
  "all_created n p \<longleftrightarrow> (\<forall>t<n. Create t \<in> set (todo p) \<or> started p t)"

lemma main_at_new: "main_at n ended (new_process s (create_join n))"
  unfolding main_at_def new_process_def create_join_def by (rule disjI1, rule exI [of _ 0]) simp

lemma all_created_new: "all_created n (new_process s (create_join n))"
  by (simp add: all_created_def new_process_def create_join_def)

lemma main_at_end: "main_at n ended p \<Longrightarrow> todo p = [] \<Longrightarrow> \<forall>t<n. ended t (comp p)"
  unfolding main_at_def by auto

lemma upt_cases: "k < (n::nat) \<Longrightarrow> [k..<n] = k # [Suc k..<n]"
  by (rule upt_conv_Cons)

lemma main_at_cases:
  assumes "main_at n ended p"
  obtains (creating) k where "k < n" "todo p = map Create [k..<n] @ map Join [0..<n]"
    | (joining) k where "k < n" "todo p = map Join [k..<n]" "\<forall>t<k. ended t (comp p)"
    | (over) "todo p = []" "\<forall>t<n. ended t (comp p)"
proof -
  have J: thesis if "k \<le> n" "todo p = map Join [k..<n]" "\<forall>t<k. ended t (comp p)" for k
    using that joining [of k] over by (cases "k = n") auto
  from assms consider (c) k where "k \<le> n" "todo p = map Create [k..<n] @ map Join [0..<n]"
    | (j) k where "k \<le> n" "todo p = map Join [k..<n]" "\<forall>t<k. ended t (comp p)"
    unfolding main_at_def by blast
  then show thesis
  proof cases
    case (c k)
    then show thesis using creating [of k] J [of 0] by (cases "k = n") auto
  next
    case (j k)
    then show thesis by (rule J)
  qed
qed

text \<open>A join comes only after the last creation.\<close>

lemma main_at_join:
  assumes at: "main_at n ended p" and j: "todo p = Join t # ops"
  shows "t < n" "\<forall>u. Create u \<notin> set (todo p)"
proof -
  from at show "t < n" using j by (cases rule: main_at_cases) (auto simp: upt_cases)
  from at show "\<forall>u. Create u \<notin> set (todo p)" using j by (cases rule: main_at_cases) (auto simp: upt_cases)
qed

lemma main_at_step:
  assumes at: "main_at n ended p" and step: "main_step checked ended ok p = Some q"
  shows "main_at n ended q"
proof -
  from at show ?thesis
  proof (cases rule: main_at_cases)
    case (creating k)
    then have "todo p = Create k # (map Create [Suc k..<n] @ map Join [0..<n])" by (simp add: upt_cases)
    then have "todo q = todo p \<and> comp q = comp p \<or> todo q = map Create [Suc k..<n] @ map Join [0..<n]"
      using step by (auto split: if_splits)
    then show ?thesis using creating at unfolding main_at_def by (metis Suc_leI)
  next
    case (joining k)
    then have "todo p = Join k # map Join [Suc k..<n]" by (simp add: upt_cases)
    then have "comp q = comp p \<and> (todo q = todo p \<or> todo q = map Join [Suc k..<n] \<and> ended k (comp p))"
      using step by (auto split: if_splits)
    then show ?thesis using joining at unfolding main_at_def by (metis Suc_leI less_Suc_eq)
  next
    case over
    then have "todo q = []" "comp q = comp p" using step by auto
    then show ?thesis using over unfolding main_at_def by (intro disjI2 exI [of _ n]) simp
  qed
qed

lemma all_created_step:
  "all_created n p \<Longrightarrow> main_step checked ended ok p = Some q \<Longrightarrow> checked \<or> ok \<Longrightarrow> all_created n q"
  by (auto simp: all_created_def split: list.splits main_op.splits if_splits)

section \<open>What a process inherits\<close>

text \<open>\<open>real\<close> tells the steps that will come from those that may not (spurious wake-ups).\<close>

locale process = safe_machine step init inv
  for step :: "'l \<Rightarrow> 's \<Rightarrow> 's option" and init :: 's and inv :: "'s \<Rightarrow> bool" +
  fixes n :: nat and who :: "'l \<Rightarrow> tid" and ended :: "tid \<Rightarrow> 's \<Rightarrow> bool" and real :: "'l \<Rightarrow> bool" and checked :: bool
  assumes step_who: "inv s \<Longrightarrow> step l s = Some u \<Longrightarrow> who l < n"
    and ended_stays: "inv s \<Longrightarrow> step l s = Some u \<Longrightarrow> ended t s \<Longrightarrow> ended t u"
    and some_step: "inv s \<Longrightarrow> t < n \<Longrightarrow> \<not> ended t s \<Longrightarrow> \<exists>l u. real l \<and> step l s = Some u"
begin

definition proc_inv :: "'s process \<Rightarrow> bool" where
  "proc_inv p \<longleftrightarrow> inv (comp p) \<and> main_at n ended p \<and> (\<forall>c. status p = Exited c \<longrightarrow> c = 0 \<and> todo p = []) \<and>
     (checked \<longrightarrow> all_created n p) \<and> (status p = Undef \<longrightarrow> \<not> all_created n p)"

lemma main_at_comp: "main_at n ended p \<Longrightarrow> inv (comp p) \<Longrightarrow> step l (comp p) = Some s \<Longrightarrow> main_at n ended (p\<lparr>comp := s\<rparr>)"
  unfolding main_at_def by simp (metis ended_stays)

lemma proc_inv_step:
  assumes inv: "proc_inv p" and step: "proc_step checked ended who step l p = Some q"
  shows "proc_inv q"
proof (cases l)
  case (Thread a)
  then obtain s where s: "step a (comp p) = Some s" "q = p\<lparr>comp := s\<rparr>" using step by (auto split: if_splits)
  then show ?thesis using inv main_at_comp inv_step [of "comp p" a s] by (simp add: proc_inv_def all_created_def)
next
  case (MainThread ok)
  then have m: "main_step checked ended ok p = Some q" "status p = Live" using step by (auto split: if_splits)
  have "comp q = comp p" "\<forall>c. status q = Exited c \<longrightarrow> c = 0 \<and> todo q = []"
    using m by (auto split: list.splits main_op.splits if_splits)
  moreover have "\<not> all_created n q" if undef: "status q = Undef"
  proof -
    obtain t ops where t: "todo p = Join t # ops" "\<not> started p t" "q = p\<lparr>status := Undef\<rparr>"
      using m undef by (auto split: list.splits main_op.splits if_splits)
    then show ?thesis using main_at_join [of n ended p t ops] inv by (auto simp: proc_inv_def all_created_def)
  qed
  moreover have "checked \<longrightarrow> all_created n q" using all_created_step [OF _ m(1)] inv by (simp add: proc_inv_def)
  ultimately show ?thesis using inv main_at_step [OF _ m(1)] by (simp add: proc_inv_def)
qed

lemma proc_inv_new: "proc_inv (new_process init (create_join n))"
  unfolding proc_inv_def using main_at_new [of n ended init] all_created_new [of n init] inv_init
  by (simp add: new_process_def)

lemma proc_reach:
  "reach (proc_step checked ended who step) (new_process init (create_join n)) p \<Longrightarrow> proc_inv p \<and> reach step init (comp p)"
proof (induction rule: reach.induct)
  case reach_init
  show ?case using proc_inv_new reach.reach_init [of step init] by (simp add: new_process_def)
next
  case (reach_step p l q)
  then have "comp q = comp p \<or> (\<exists>a. step a (comp p) = Some (comp q))"
    by (cases l) (auto split: if_splits list.splits main_op.splits)
  with reach_step proc_inv_step show ?case using reach.reach_step by metis
qed

text \<open>\<open>main\<close> returns only after every thread has ended.\<close>

lemma proc_exited:
  assumes "reach (proc_step checked ended who step) (new_process init (create_join n)) p" "status p = Exited c"
  shows "c = 0 \<and> (\<forall>t<n. ended t (comp p))"
  using proc_reach [OF assms(1)] assms(2) main_at_end [of n ended p] by (simp add: proc_inv_def)

text \<open>Only a checked creation aborts, and only the join of a thread whose creation failed is undefined.\<close>

lemma proc_unchecked:
  "reach (proc_step checked ended who step) (new_process init (create_join n)) p \<Longrightarrow> \<not> checked \<Longrightarrow> status p \<noteq> Aborted"
proof (induction rule: reach.induct)
  case reach_init
  show ?case by (simp add: new_process_def)
next
  case (reach_step p l q)
  then show ?case by (cases l) (auto split: if_splits list.splits main_op.splits)
qed

lemma proc_defined:
  "reach (proc_step checked ended who step) (new_process init (create_join n)) p \<Longrightarrow> all_created n p \<Longrightarrow> status p \<noteq> Undef"
  using proc_reach [of p] by (auto simp: proc_inv_def)

lemma proc_checked:
  "reach (proc_step checked ended who step) (new_process init (create_join n)) p \<Longrightarrow> checked \<Longrightarrow> all_created n p"
  using proc_reach [of p] unfolding proc_inv_def by blast

text \<open>A process all of whose threads could be created is never stuck while it lives.\<close>

fun real_label :: "'l proc_label \<Rightarrow> bool" where
  "real_label (Thread l) = real l"
| "real_label (MainThread ok) = True"

lemma proc_alive:
  assumes inv: "proc_inv p" and live: "status p = Live" and all: "all_created n p"
  shows "\<exists>l q. real_label l \<and> proc_step checked ended who step l p = Some q"
proof (cases "main_step checked ended True p")
  case (Some q)
  then have "proc_step checked ended who step (MainThread True) p = Some q" using live by simp
  moreover have "real_label (MainThread True)" by simp
  ultimately show ?thesis by blast
next
  case None
  then obtain t ops where t: "todo p = Join t # ops" "\<not> ended t (comp p)"
    by (auto split: list.splits main_op.splits if_splits)
  have at: "main_at n ended p" "inv (comp p)" using inv by (simp_all add: proc_inv_def)
  have tn: "t < n" "\<forall>t<n. started p t"
    using main_at_join [OF at(1) t(1)] all by (auto simp: all_created_def)
  obtain l u where l: "real l" "step l (comp p) = Some u" using some_step [OF at(2) tn(1) t(2)] by blast
  then have "started p (who l)" using step_who [OF at(2) l(2)] tn(2) by blast
  with l live have "proc_step checked ended who step (Thread l) p = Some (p\<lparr>comp := u\<rparr>)" by simp
  moreover have "real_label (Thread l)" using l(1) by simp
  ultimately show ?thesis by blast
qed

lemma proc_stuck_created:
  assumes "reach (proc_step checked ended who step) (new_process init (create_join n)) p" "all_created n p"
    "\<And>l. real_label l \<Longrightarrow> proc_step checked ended who step l p = None"
  shows "status p \<noteq> Live \<and> status p \<noteq> Undef"
  using proc_alive [of p] proc_reach [OF assms(1)] proc_defined [OF assms(1,2)] assms(2,3) by fastforce

lemma proc_stuck:
  assumes "reach (proc_step checked ended who step) (new_process init (create_join n)) p" checked
    "\<And>l. real_label l \<Longrightarrow> proc_step checked ended who step l p = None"
  shows "status p \<noteq> Live \<and> status p \<noteq> Undef"
  by (rule proc_stuck_created [OF assms(1) proc_checked [OF assms(1,2)] assms(3)])

end

text \<open>With a machine all of whose runs are bounded, the process ends.\<close>

locale finite_process = process step init inv n who ended real checked + finite_machine step init inv final mu
  for step :: "'l \<Rightarrow> 's \<Rightarrow> 's option" and init :: 's and inv :: "'s \<Rightarrow> bool" and n :: nat and who :: "'l \<Rightarrow> tid"
    and ended :: "tid \<Rightarrow> 's \<Rightarrow> bool" and real :: "'l \<Rightarrow> bool" and checked :: bool and final :: "'s \<Rightarrow> bool" and mu :: "'s \<Rightarrow> nat" +
  assumes all_ended: "inv s \<Longrightarrow> final s \<longleftrightarrow> (\<forall>t<n. ended t s)"
begin

definition proc_mu :: "'s process \<Rightarrow> nat" where
  "proc_mu p = mu (comp p) + length (todo p) + of_bool (status p = Live)"

lemma proc_mu_step:
  assumes inv: "proc_inv p" and step: "proc_step checked ended who step l p = Some q"
  shows "proc_mu q < proc_mu p"
proof (cases l)
  case (Thread a)
  then obtain s where s: "step a (comp p) = Some s" "q = p\<lparr>comp := s\<rparr>" using step by (auto split: if_splits)
  then show ?thesis using mu_step [OF _ s(1)] inv by (simp add: proc_mu_def proc_inv_def)
next
  case (MainThread ok)
  then show ?thesis using step by (auto simp: proc_mu_def split: if_splits list.splits main_op.splits)
qed

lemma proc_bound_from: "proc_inv p \<Longrightarrow> exec (proc_step checked ended who step) ls p = Some q \<Longrightarrow> length ls + proc_mu q \<le> proc_mu p"
proof (induction ls arbitrary: p)
  case Nil
  then show ?case by simp
next
  case (Cons l ls)
  then obtain r where r: "proc_step checked ended who step l p = Some r" "exec (proc_step checked ended who step) ls r = Some q"
    by (auto split: option.splits)
  from Cons.IH [OF proc_inv_step [OF Cons.prems(1) r(1)] r(2)] proc_mu_step [OF Cons.prems(1) r(1)] show ?case by simp
qed

lemma proc_bound:
  assumes "exec (proc_step checked ended who step) ls (new_process init (create_join n)) = Some p"
  shows "length ls \<le> mu init + 2 * n + 1"
  using proc_bound_from [OF proc_inv_new assms] by (simp add: proc_mu_def new_process_def create_join_def)

lemma proc_result:
  assumes "exec (proc_step checked ended who step) ls (new_process init (create_join n)) = Some p" "status p = Exited c"
  shows "c = 0 \<and> inv (comp p) \<and> final (comp p)"
proof -
  note r = reachI [OF assms(1)]
  have "inv (comp p)" using proc_reach [OF r] by (simp add: proc_inv_def)
  then show ?thesis using proc_exited [OF r assms(2)] all_ended by blast
qed

end

section \<open>The cost of a run\<close>

text \<open>A live process that no step can move but a spurious wake-up.\<close>

definition hung :: "('l \<Rightarrow> bool) \<Rightarrow> ('l proc_label \<Rightarrow> 's process \<Rightarrow> 's process option) \<Rightarrow> 's process \<Rightarrow> bool" where
  "hung real step p \<longleftrightarrow> status p = Live \<and> (\<forall>l. real l \<longrightarrow> step (Thread l) p = None) \<and> (\<forall>ok. step (MainThread ok) p = None)"

fun unreal :: "('l \<Rightarrow> bool) \<Rightarrow> 'l proc_label \<Rightarrow> bool" where
  "unreal real (Thread l) = (\<not> real l)"
| "unreal real (MainThread ok) = False"

text \<open>Every step costs something, but what the environment pays for a spurious wake-up. Nothing is assumed about progress:
  there may be threads that never end.\<close>

locale costed_process = safe_machine step init inv
  for step :: "'l \<Rightarrow> 's \<Rightarrow> 's option" and init :: 's and inv :: "'s \<Rightarrow> bool" +
  fixes who :: "'l \<Rightarrow> tid" and ended :: "tid \<Rightarrow> 's \<Rightarrow> bool" and real :: "'l \<Rightarrow> bool" and checked :: bool and mu :: "'s \<Rightarrow> nat"
  assumes cost: "inv s \<Longrightarrow> step l s = Some u \<Longrightarrow> mu u < mu s + (if real l then 0 else 2)"
begin

definition cost_mu :: "'s process \<Rightarrow> nat" where
  "cost_mu p = mu (comp p) + length (todo p) + of_bool (status p = Live)"

lemma cost_step:
  assumes inv: "inv (comp p)" and step: "proc_step checked ended who step l p = Some q"
  shows "inv (comp q)" "cost_mu q < cost_mu p + (if unreal real l then 2 else 0)"
proof -
  have "inv (comp q) \<and> cost_mu q < cost_mu p + (if unreal real l then 2 else 0)"
  proof (cases l)
    case (Thread a)
    then obtain s where s: "step a (comp p) = Some s" "q = p\<lparr>comp := s\<rparr>" using step by (auto split: if_splits)
    then show ?thesis using cost [OF inv s(1)] inv_step [OF inv s(1)] Thread by (simp add: cost_mu_def split: if_splits)
  next
    case (MainThread ok)
    then show ?thesis using step inv by (auto simp: cost_mu_def split: if_splits list.splits main_op.splits)
  qed
  then show "inv (comp q)" "cost_mu q < cost_mu p + (if unreal real l then 2 else 0)" by blast+
qed

lemma cost_exec:
  "inv (comp p) \<Longrightarrow> exec (proc_step checked ended who step) ls p = Some q \<Longrightarrow>
    length ls + cost_mu q \<le> cost_mu p + 2 * length (filter (unreal real) ls)"
proof (induction ls arbitrary: p)
  case Nil
  then show ?case by simp
next
  case (Cons l ls)
  then obtain r where r: "proc_step checked ended who step l p = Some r" "exec (proc_step checked ended who step) ls r = Some q"
    by (auto split: option.splits)
  from Cons.IH [OF _ r(2)] cost_step [OF Cons.prems(1) r(1)] show ?case by (auto split: if_splits)
qed

lemma cost_run:
  assumes "exec (proc_step checked ended who step) ls (new_process init (create_join n)) = Some p"
  shows "length ls \<le> mu init + 2 * n + 1 + 2 * length (filter (unreal real) ls)"
  using cost_exec [OF _ assms] inv_init by (simp add: cost_mu_def new_process_def create_join_def)

end

section \<open>What a process can do\<close>

text \<open>When the threads have been created, the process can do whatever the machine can, and hangs where the machine is
  stuck and the first thread has not ended.\<close>

lemma proc_creates:
  "k \<le> n \<Longrightarrow> exec (proc_step checked ended who step) (replicate k (MainThread True)) (new_process s (create_join n)) =
    Some \<lparr>comp = s, started = (\<lambda>t. t < k), todo = map Create [k..<n] @ map Join [0..<n], status = Live\<rparr>"
proof (induction k)
  case 0
  show ?case by (simp add: new_process_def create_join_def)
next
  case (Suc k)
  have eq: "replicate (Suc k) (MainThread True) = replicate k (MainThread True) @ [MainThread True]" by (simp add: replicate_append_same)
  have up: "(\<lambda>t. t < k)(k := True) = (\<lambda>t. t < Suc k)" by (auto simp: fun_eq_iff)
  show ?case unfolding eq exec_append using Suc by (simp add: upt_cases up)
qed

lemma proc_threads:
  "status p = Live \<Longrightarrow> \<forall>l\<in>set ls. started p (who l) \<Longrightarrow> exec step ls (comp p) = Some s \<Longrightarrow>
    exec (proc_step checked ended who step) (map Thread ls) p = Some (p\<lparr>comp := s\<rparr>)"
proof (induction ls arbitrary: p)
  case Nil
  then show ?case by simp
next
  case (Cons l ls)
  then obtain u where "step l (comp p) = Some u" "exec step ls u = Some s" by (auto split: option.splits)
  with Cons.IH [of "p\<lparr>comp := u\<rparr>"] Cons.prems show ?case by simp
qed

lemma exec_labels:
  "exec step ls s = Some t \<Longrightarrow> (\<And>l s u. step l s = Some u \<Longrightarrow> who l < n) \<Longrightarrow> \<forall>l\<in>set ls. who l < n"
  by (induction ls arbitrary: s) (auto split: option.splits)

lemma proc_hangs:
  assumes run: "reach step s0 s" "\<forall>l s u. step l s = Some u \<longrightarrow> who l < n"
    and stuck: "\<forall>l. real l \<longrightarrow> step l s = None" and n: "0 < n" "\<not> ended 0 s"
  shows "\<exists>p. reach (proc_step checked ended who step) (new_process s0 (create_join n)) p \<and> comp p = s \<and> status p = Live \<and>
    todo p = map Join [0..<n] \<and>
    (\<forall>l. real l \<longrightarrow> proc_step checked ended who step (Thread l) p = None) \<and>
    (\<forall>ok. proc_step checked ended who step (MainThread ok) p = None)"
proof -
  obtain ls where ls: "exec step ls s0 = Some s" using run(1) reach_iff_exec by metis
  have lt: "\<forall>l\<in>set ls. who l < n" by (rule exec_labels [OF ls]) (use run(2) in blast)
  let ?p = "\<lparr>comp = s0, started = (\<lambda>t. t < n), todo = map Join [0..<n], status = Live\<rparr>"
  have "exec (proc_step checked ended who step) (replicate n (MainThread True) @ map Thread ls) (new_process s0 (create_join n)) =
      Some (?p\<lparr>comp := s\<rparr>)"
    using proc_creates [of n n checked ended who step s0] proc_threads [of ?p ls who step s checked ended] ls lt
    by (simp add: exec_append)
  then have "reach (proc_step checked ended who step) (new_process s0 (create_join n)) (?p\<lparr>comp := s\<rparr>)" by (rule reachI)
  moreover have "\<forall>l. real l \<longrightarrow> proc_step checked ended who step (Thread l) (?p\<lparr>comp := s\<rparr>) = None" using stuck by simp
  moreover have "\<forall>ok. proc_step checked ended who step (MainThread ok) (?p\<lparr>comp := s\<rparr>) = None" using n by (simp add: upt_cases)
  ultimately show ?thesis by (intro exI [of _ "?p\<lparr>comp := s\<rparr>"]) simp
qed

text \<open>The component moves as in its own machine.\<close>

lemma proc_comp_reach: "reach (proc_step checked ended who step) p q \<Longrightarrow> reach step (comp p) (comp q)"
proof (induction rule: reach.induct)
  case reach_init
  show ?case by (rule reach.reach_init)
next
  case (reach_step a l b)
  then have "comp b = comp a \<or> (\<exists>x. step x (comp a) = Some (comp b))"
    by (cases l) (auto split: if_splits list.splits main_op.splits)
  with reach_step.IH reach.reach_step show ?case by metis
qed

text \<open>A join of a thread that never ends: \<open>main\<close> does not return.\<close>

lemma proc_waits:
  assumes "reach (proc_step checked ended who step) p0 p"
    and "Join t \<in> set (todo p0)" "\<forall>c. status p0 \<noteq> Exited c"
    and never: "\<And>s. reach step (comp p0) s \<Longrightarrow> \<not> ended t s"
  shows "Join t \<in> set (todo p) \<and> (\<forall>c. status p \<noteq> Exited c) \<and> reach step (comp p0) (comp p)"
  using assms(1)
proof (induction rule: reach.induct)
  case reach_init
  show ?case using assms(2,3) reach.reach_init by auto
next
  case (reach_step p l q)
  show ?case
  proof (cases l)
    case (Thread a)
    then obtain s where s: "step a (comp p) = Some s" "q = p\<lparr>comp := s\<rparr>" using reach_step.hyps by (auto split: if_splits)
    with reach_step.IH reach.reach_step [of step "comp p0" "comp p" a s] show ?thesis by simp
  next
    case (MainThread ok)
    then have m: "main_step checked ended ok p = Some q" using reach_step.hyps by (auto split: if_splits)
    have "\<not> ended t (comp p)" using never reach_step.IH by blast
    then show ?thesis using m reach_step.IH by (auto split: list.splits main_op.splits if_splits)
  qed
qed

end
