(* ===== verification/Lottery.thy ===== *)
theory Lottery
  imports Processes
begin

text \<open>
  \<open>cpu-sched-lottery/lottery.c\<close>: lottery scheduling. The list of jobs is the list of their tickets, from \<open>head\<close> on. The
  numbers \<open>random\<close> returns are an argument, as many as there are rounds. \<open>int\<close>s are unbounded here: the sums stay below 175 in the
  program. Dereferencing the null \<open>current\<close> and dividing by zero are errors; a failing \<open>malloc\<close>, which the assertion
  ends, is not modelled.
\<close>

record lottery =
  jobs :: "int list"
  gtickets :: int

definition lottery_init :: lottery where
  "lottery_init = \<lparr>jobs = [], gtickets = 0\<rparr>"

definition insert_job :: "int \<Rightarrow> lottery \<Rightarrow> lottery" where
  "insert_job tickets s = s\<lparr>jobs := tickets # jobs s, gtickets := gtickets s + tickets\<rparr>"

text \<open>The inner loop; \<open>None\<close> when it runs off the list. The result is the position of the winner.\<close>

fun find_winner :: "int \<Rightarrow> int \<Rightarrow> nat \<Rightarrow> int list \<Rightarrow> nat option" where
  "find_winner winner counter i [] = None"
| "find_winner winner counter i (t # ts) =
     (if counter + t > winner then Some i else find_winner winner (counter + t) (i + 1) ts)"

datatype lottery_error = NullDereference | DivisionByZero

text \<open>A round: the winning number and the tickets of the winner, which are printed.\<close>

definition round :: "lottery \<Rightarrow> int \<Rightarrow> lottery_error + int \<times> int" where
  "round s r =
     (if gtickets s = 0 then Inl DivisionByZero
      else (let winner = r mod gtickets s in
        case find_winner winner 0 0 (jobs s) of None \<Rightarrow> Inl NullDereference | Some i \<Rightarrow> Inr (winner, jobs s ! i)))"

fun rounds :: "lottery \<Rightarrow> int list \<Rightarrow> lottery_error + (int \<times> int) list" where
  "rounds s [] = Inr []"
| "rounds s (r # rs) =
     (case round s r of Inl e \<Rightarrow> Inl e
      | Inr x \<Rightarrow> (case rounds s rs of Inl e \<Rightarrow> Inl e | Inr xs \<Rightarrow> Inr (x # xs)))"

definition lottery_main :: "int list \<Rightarrow> lottery_error + (int \<times> int) list" where
  "lottery_main rs = rounds (insert_job 25 (insert_job 100 (insert_job 50 lottery_init))) rs"

text \<open>\<open>print_list\<close>: the numbers it prints.\<close>

fun print_jobs :: "int list \<Rightarrow> int list" where
  "print_jobs [] = []"
| "print_jobs (t # ts) = t # print_jobs ts"

definition print_list :: "lottery \<Rightarrow> int list" where
  "print_list s = print_jobs (jobs s)"

text \<open>The program from its arguments: \<open>random seed i\<close> is the number that call \<open>i\<close> of \<open>random\<close> returns after \<open>srandom(seed)\<close>. The
  result is the exit code, what is printed before the rounds, and for each round the list and the winner.\<close>

definition lottery_c :: "(int \<Rightarrow> nat \<Rightarrow> int) \<Rightarrow> string list \<Rightarrow> int \<times> int list \<times> (lottery_error + (int list \<times> int \<times> int) list)" where
  "lottery_c random argv =
     (if length argv \<noteq> 3 then (1, [], Inr [])
      else let seed = atoi (argv ! 1); loops = atoi (argv ! 2);
               s = insert_job 25 (insert_job 100 (insert_job 50 lottery_init)) in
        (0, print_list s, map_sum id (map (Pair (print_list s))) (rounds s (map (random seed) [0..<nat loops]))))"

section \<open>Lemmas\<close>

definition lottery_ok :: "lottery \<Rightarrow> bool" where
  "lottery_ok s \<longleftrightarrow> gtickets s = sum_list (jobs s) \<and> (\<forall>t\<in>set (jobs s). 0 \<le> t)"

lemma lottery_ok_init: "lottery_ok lottery_init"
  by (simp add: lottery_ok_def lottery_init_def)

lemma lottery_ok_insert: "lottery_ok s \<Longrightarrow> 0 \<le> t \<Longrightarrow> lottery_ok (insert_job t s)"
  by (auto simp: lottery_ok_def insert_job_def)

text \<open>The winner is the job in whose interval of tickets the number falls.\<close>

lemma find_winner_interval:
  "\<forall>t\<in>set ts. 0 \<le> t \<Longrightarrow> c \<le> w \<Longrightarrow> find_winner w c k ts = Some i \<longleftrightarrow>
     (\<exists>j<length ts. i = k + j \<and> c + sum_list (take j ts) \<le> w \<and> w < c + sum_list (take (j + 1) ts))"
proof (induction ts arbitrary: c k)
  case Nil
  then show ?case by simp
next
  case (Cons t ts)
  have nn: "0 \<le> sum_list (take j ts)" for j
    using Cons.prems(1) by (intro sum_list_nonneg) (auto dest: in_set_takeD)
  show ?case
  proof (cases "c + t > w")
    case True
    then have "\<not> c + (t + sum_list (take j ts)) \<le> w" for j using nn [of j] by linarith
    with True Cons.prems show ?thesis by (auto simp: less_Suc_eq_0_disj)
  next
    case False
    then show ?thesis using Cons.IH [of "c + t" "k + 1"] Cons.prems by (auto simp: less_Suc_eq_0_disj add.assoc)
  qed
qed

lemma find_winner_some: "\<forall>t\<in>set ts. 0 \<le> t \<Longrightarrow> c \<le> w \<Longrightarrow> w < c + sum_list ts \<Longrightarrow> \<exists>i. find_winner w c k ts = Some i"
  by (induction ts arbitrary: c k) auto

lemma winner_numbers:
  assumes ok: "\<forall>t\<in>set ts. 0 \<le> t" and i: "i < length ts"
  shows "{w. 0 \<le> w \<and> w < sum_list ts \<and> find_winner w 0 0 ts = Some i} = {sum_list (take i ts)..<sum_list (take (i + 1) ts)}"
proof -
  have nn: "0 \<le> sum_list (take j ts)" for j using ok by (intro sum_list_nonneg) (auto dest: in_set_takeD)
  have "sum_list (take (i + 1) ts) + sum_list (drop (i + 1) ts) = sum_list ts" by (metis append_take_drop_id sum_list_append)
  moreover have "0 \<le> sum_list (drop (i + 1) ts)" using ok by (intro sum_list_nonneg) (auto dest: in_set_dropD)
  ultimately show ?thesis using find_winner_interval [OF ok, of 0 _ 0 i] nn [of i] i by fastforce
qed

section \<open>Properties\<close>

text \<open>The lottery is fair: with any jobs with non-negative tickets, of the \<open>gtickets\<close> possible winning numbers exactly
  as many make a job win as it has tickets, and every number makes some job of the list win, so that \<open>current\<close> is never
  null.\<close>

theorem lottery_fair:
  assumes "lottery_ok s" "i < length (jobs s)"
  shows "card {w. 0 \<le> w \<and> w < gtickets s \<and> find_winner w 0 0 (jobs s) = Some i} = nat (jobs s ! i) \<and>
    (0 < gtickets s \<longrightarrow> (\<exists>w j. round s r = Inr (w, jobs s ! j) \<and> j < length (jobs s) \<and> w = r mod gtickets s \<and>
       find_winner w 0 0 (jobs s) = Some j))"
proof
  have ok: "\<forall>t\<in>set (jobs s). 0 \<le> t" "gtickets s = sum_list (jobs s)" using assms(1) by (simp_all add: lottery_ok_def)
  have "sum_list (take (i + 1) (jobs s)) = sum_list (take i (jobs s)) + jobs s ! i"
    using assms(2) by (simp add: take_Suc_conv_app_nth)
  then show "card {w. 0 \<le> w \<and> w < gtickets s \<and> find_winner w 0 0 (jobs s) = Some i} = nat (jobs s ! i)"
    using winner_numbers [OF ok(1) assms(2)] ok(2) by simp
  show "0 < gtickets s \<longrightarrow> (\<exists>w j. round s r = Inr (w, jobs s ! j) \<and> j < length (jobs s) \<and> w = r mod gtickets s \<and>
       find_winner w 0 0 (jobs s) = Some j)"
  proof
    assume g: "0 < gtickets s"
    then obtain j where j: "find_winner (r mod gtickets s) 0 0 (jobs s) = Some j"
      using find_winner_some [OF ok(1), of 0 "r mod gtickets s" 0] ok(2) by auto
    then have "j < length (jobs s)" using find_winner_interval [OF ok(1), of 0 "r mod gtickets s" 0 j] g by auto
    with g j show "\<exists>w j. round s r = Inr (w, jobs s ! j) \<and> j < length (jobs s) \<and> w = r mod gtickets s \<and>
       find_winner w 0 0 (jobs s) = Some j" by (auto simp: round_def Let_def)
  qed
qed

theorem lottery_fair_witness:
  "card {w. 0 \<le> w \<and> w < 175 \<and> find_winner w 0 0 [25, 100, 50] = Some 1} = 100"
proof -
  let ?s = "insert_job 25 (insert_job 100 (insert_job 50 lottery_init))"
  have "lottery_ok ?s" by (simp add: lottery_ok_insert lottery_ok_init)
  moreover have "jobs ?s = [25, 100, 50]" "gtickets ?s = 175" by (simp_all add: insert_job_def lottery_init_def)
  ultimately show ?thesis using lottery_fair [of ?s 1] by simp
qed

text \<open>The program, with any seed: a round for each loop, and in each the list 25, 100, 50 and the job whose interval the
  number falls into.\<close>

definition scheduled :: "int \<Rightarrow> int" where
  "scheduled w = (if w < 25 then 25 else if w < 125 then 100 else 50)"

lemma three_jobs_round:
  "round (insert_job 25 (insert_job 100 (insert_job 50 lottery_init))) r = Inr (r mod 175, scheduled (r mod 175))"
proof -
  have "r mod 175 < 175" by simp
  then show ?thesis by (simp add: round_def insert_job_def lottery_init_def scheduled_def Let_def del: pos_mod_bound)
qed

theorem lottery_c_correct:
  assumes "length argv = 3"
  shows "lottery_c random argv = (0, [25, 100, 50], Inr (map (\<lambda>i. ([25, 100, 50],
    random (atoi (argv ! 1)) i mod 175, scheduled (random (atoi (argv ! 1)) i mod 175))) [0..<nat (atoi (argv ! 2))]))"
proof -
  let ?s = "insert_job 25 (insert_job 100 (insert_job 50 lottery_init))"
  have "rounds ?s rs = Inr (map (\<lambda>r. (r mod 175, scheduled (r mod 175))) rs)" for rs
    by (induction rs) (simp_all add: three_jobs_round)
  moreover have "print_list ?s = [25, 100, 50]" by (simp add: print_list_def insert_job_def lottery_init_def)
  ultimately show ?thesis using assms by (simp add: lottery_c_def Let_def o_def)
qed

lemma lottery_c_usage: "length argv \<noteq> 3 \<Longrightarrow> lottery_c random argv = (1, [], Inr [])"
  by (simp add: lottery_c_def)

end
