(* ===== verification/Racy_Counter.thy ===== *)
theory Racy_Counter
  imports Sync_Prelude
begin

text \<open>
  \<open>threads-intro/t1.c\<close> and \<open>intro/threads.c\<close>: two threads increment a shared variable \<open>L\<close> times each without a lock.
  An increment is a read and a write. The variable is an \<open>int\<close> without bounds.
\<close>

datatype racy_pos = RLoop nat | RWrite nat int | RDone

record racy =
  shared :: int
  racy_pos :: "tid \<Rightarrow> racy_pos"

definition racy_main :: racy where
  "racy_main = \<lparr>shared = 0, racy_pos = (\<lambda>_. RLoop 0)\<rparr>"

definition mythread :: "nat \<Rightarrow> tid \<Rightarrow> racy \<Rightarrow> racy option" where
  "mythread L t s =
     (case racy_pos s t of
        RLoop i \<Rightarrow> Some (s\<lparr>racy_pos := (racy_pos s)(t := (if i < L then RWrite i (shared s) else RDone))\<rparr>)
      | RWrite i v \<Rightarrow> Some (s\<lparr>shared := v + 1, racy_pos := (racy_pos s)(t := RLoop (i + 1))\<rparr>)
      | RDone \<Rightarrow> None)"

definition racy_step :: "nat \<Rightarrow> tid \<Rightarrow> racy \<Rightarrow> racy option" where
  "racy_step L t s = (if t < 2 then mythread L t s else None)"

definition racy_ended :: "racy \<Rightarrow> bool" where
  "racy_ended s \<longleftrightarrow> racy_pos s 0 = RDone \<and> racy_pos s 1 = RDone"

section \<open>Upper bound\<close>

fun writes :: "nat \<Rightarrow> racy_pos \<Rightarrow> nat" where
  "writes L (RLoop i) = i"
| "writes L (RWrite i v) = i"
| "writes L RDone = L"

fun racy_pos_ok :: "nat \<Rightarrow> int \<Rightarrow> racy_pos \<Rightarrow> bool" where
  "racy_pos_ok L w (RLoop i) = (i \<le> L)"
| "racy_pos_ok L w (RWrite i v) = (i < L \<and> 0 \<le> v \<and> v \<le> w)"
| "racy_pos_ok L w RDone = True"

definition total :: "nat \<Rightarrow> racy \<Rightarrow> int" where
  "total L s = int (writes L (racy_pos s 0)) + int (writes L (racy_pos s 1))"

definition racy_inv :: "nat \<Rightarrow> racy \<Rightarrow> bool" where
  "racy_inv L s \<longleftrightarrow> 0 \<le> shared s \<and> shared s \<le> total L s \<and> racy_pos_ok L (total L s) (racy_pos s 0) \<and>
     racy_pos_ok L (total L s) (racy_pos s 1)"

lemma racy_pos_ok_mono: "racy_pos_ok L w p \<Longrightarrow> w \<le> x \<Longrightarrow> racy_pos_ok L x p"
  by (cases p) auto

lemma racy_inv_step:
  assumes inv: "racy_inv L s" and step: "racy_step L t s = Some u"
  shows "racy_inv L u"
proof -
  have t: "t = 0 \<or> t = 1" "mythread L t s = Some u" using step by (auto simp: racy_step_def split: if_splits)
  have ok: "racy_pos_ok L (total L s) (racy_pos s t)" using inv t(1) by (auto simp: racy_inv_def)
  have mono: "total L s \<le> total L u"
    using t ok by (cases "racy_pos s t") (auto simp: mythread_def total_def split: if_splits)
  have "0 \<le> shared u \<and> shared u \<le> total L u \<and> racy_pos_ok L (total L u) (racy_pos u t)"
    using t ok mono inv by (cases "racy_pos s t") (auto simp: mythread_def total_def racy_inv_def split: if_splits)
  moreover have "racy_pos_ok L (total L u) (racy_pos u v)" if "v = 0 \<or> v = 1" "v \<noteq> t" for v
  proof -
    have "racy_pos u v = racy_pos s v" using t(2) that(2) by (cases "racy_pos s t") (auto simp: mythread_def)
    then show ?thesis using inv that(1) racy_pos_ok_mono [OF _ mono] by (auto simp: racy_inv_def)
  qed
  ultimately show ?thesis using t(1) unfolding racy_inv_def by (metis zero_neq_one)
qed

interpretation racy: safe_machine "racy_step L" racy_main "racy_inv L" for L :: nat
  by unfold_locales (simp add: racy_inv_def racy_main_def total_def, rule racy_inv_step)

section \<open>Lost updates\<close>

text \<open>A thread that runs alone for \<open>k\<close> iterations adds \<open>k\<close>.\<close>

lemma solo:
  "t < 2 \<Longrightarrow> racy_pos s t = RLoop i \<Longrightarrow> i + k \<le> L \<Longrightarrow>
   exec (racy_step L) (replicate (2 * k) t) s =
     Some (s\<lparr>shared := shared s + int k, racy_pos := (racy_pos s)(t := RLoop (i + k))\<rparr>)"
proof (induction k arbitrary: s i)
  case 0
  then have "(racy_pos s)(t := RLoop i) = racy_pos s" by (metis fun_upd_triv)
  then show ?case by simp
next
  case (Suc k)
  let ?s = "s\<lparr>shared := shared s + 1, racy_pos := (racy_pos s)(t := RLoop (i + 1))\<rparr>"
  have "exec (racy_step L) [t, t] s = Some ?s" using Suc.prems by (simp add: racy_step_def mythread_def)
  moreover have "exec (racy_step L) (replicate (2 * k) t) ?s =
      Some (s\<lparr>shared := shared s + int (Suc k), racy_pos := (racy_pos s)(t := RLoop (i + Suc k))\<rparr>)"
    using Suc.IH [of ?s "i + 1"] Suc.prems
    by (simp add: ac_simps fun_upd_same del: fun_upd_apply)
  moreover have "replicate (2 * Suc k) t = [t, t] @ replicate (2 * k) t" by simp
  ultimately show ?case by (simp only: exec_append option.case)
qed

definition lossy :: "nat \<Rightarrow> tid list" where
  "lossy k = [0] @ replicate (2 * k) 1 @ [0, 1] @ replicate (2 * k) 0 @ [0, 1, 1]"

lemma lossy_run:
  assumes "0 < k"
  shows "\<exists>s. exec (racy_step (k + 1)) (lossy k) racy_main = Some s \<and> racy_ended s \<and> shared s = 2"
proof -
  let ?st = "racy_step (k + 1)"
  define a where "a = \<lparr>shared = 0, racy_pos = (\<lambda>t. RLoop 0)(0 := RWrite 0 0)\<rparr>"
  define b where "b = a\<lparr>shared := int k, racy_pos := (racy_pos a)(1 := RLoop k)\<rparr>"
  define c where "c = b\<lparr>shared := 1, racy_pos := (racy_pos b)(0 := RLoop 1, 1 := RWrite k 1)\<rparr>"
  define d where "d = c\<lparr>shared := 1 + int k, racy_pos := (racy_pos c)(0 := RLoop (1 + k))\<rparr>"
  have "exec ?st [0] racy_main = Some a" by (simp add: racy_main_def racy_step_def mythread_def a_def)
  moreover have "exec ?st (replicate (2 * k) 1) a = Some b"
    using solo [of 1 a 0 k "k + 1"] by (simp add: a_def b_def)
  moreover have "exec ?st [0, 1] b = Some c"
    by (simp add: b_def c_def a_def racy_step_def mythread_def)
  moreover have "exec ?st (replicate (2 * k) 0) c = Some d" using solo [of 0 c 1 k "k + 1"] by (simp add: c_def d_def)
  moreover obtain e where "exec ?st [0, 1, 1] d = Some e" "racy_ended e" "shared e = 2"
    by (simp add: d_def c_def b_def a_def racy_step_def mythread_def racy_ended_def)
  ultimately show ?thesis unfolding lossy_def exec_append by simp
qed

section \<open>Property\<close>

text \<open>Without a lock the counter can end anywhere below its due value and never above it: when both threads have ended
  it is at most \<open>2 * L\<close>, and with two or more iterations each, some interleaving ends with 2, however large \<open>L\<close> is.\<close>

theorem racy_counter:
  assumes "reach (racy_step L) racy_main s" "1 < K"
  shows "(racy_ended s \<longrightarrow> 0 \<le> shared s \<and> shared s \<le> 2 * int L) \<and>
    (\<exists>u. reach (racy_step K) racy_main u \<and> racy_ended u \<and> shared u = 2)"
proof -
  have "racy_ended s \<longrightarrow> 0 \<le> shared s \<and> shared s \<le> 2 * int L"
    using racy.reach_inv [OF assms(1)] by (auto simp: racy_inv_def racy_ended_def total_def)
  moreover obtain k where "K = k + 1" "0 < k" using assms(2) by (cases K) auto
  then have "\<exists>u. reach (racy_step K) racy_main u \<and> racy_ended u \<and> shared u = 2"
    using lossy_run [of k] reachI by metis
  ultimately show ?thesis by blast
qed

theorem racy_counter_witness:
  "\<exists>s u. exec (racy_step 1) [0, 1, 0, 1, 0, 1] racy_main = Some s \<and> racy_ended s \<and> shared s \<le> 2 \<and>
     reach (racy_step 1000) racy_main u \<and> racy_ended u \<and> shared u = 2"
proof -
  obtain s where s: "exec (racy_step 1) [0, 1, 0, 1, 0, 1] racy_main = Some s" "racy_ended s"
    by (simp add: racy_main_def racy_step_def mythread_def racy_ended_def)
  with racy_counter [OF reachI [OF s(1)], of 1000] show ?thesis by fastforce
qed

end
