(* ===== verification/Zemaphore_Clients.thy ===== *)
theory Zemaphore_Clients
  imports Zemaphore
begin

text \<open>
  Programs with semaphores run over zemaphores: where there is no POSIX semaphore, \<open>threads-sema/zemaphore.h\<close> makes
  \<open>sem_t\<close>, \<open>Sem_wait\<close> and \<open>Sem_post\<close> of the programs that include it a \<open>Zem_t\<close>, \<open>Zem_wait\<close> and \<open>Zem_post\<close>.

  A program is given by what each thread does next, with its semaphores left out of the state: \<open>act\<close>. \<open>sem_step\<close> runs it
  over semaphores (a function from their names to their values), \<open>zem_run\<close> over zemaphores, with every step of
  \<open>zem_step\<close> a step of the program. The locale \<open>sem_client\<close> says that a machine \<open>step\<close> is such a program over
  semaphores; it then has every theorem of \<open>step\<close> about safety and deadlock over zemaphores too, and in
  \<open>finite_client\<close> its termination, apart from the spurious wake-ups.
\<close>

datatype ('k, 's) act = Halt | Internal 's | Acquire 'k 's | Release 'k 's

fun waits_on :: "('k, 's) act \<Rightarrow> 'k option" where
  "waits_on (Acquire k x) = Some k"
| "waits_on a = None"

fun after :: "('k, 's) act \<Rightarrow> 's option" where
  "after Halt = None"
| "after (Internal x) = Some x"
| "after (Acquire k x) = Some x"
| "after (Release k x) = Some x"

section \<open>Over semaphores\<close>

fun sem_step :: "('k, 's) act \<Rightarrow> ('k \<Rightarrow> sem) \<Rightarrow> (('k \<Rightarrow> sem) \<times> 's) option" where
  "sem_step Halt m = None"
| "sem_step (Internal x) m = Some (m, x)"
| "sem_step (Acquire k x) m = map_option (\<lambda>v. (m(k := v), x)) (sem_wait (m k))"
| "sem_step (Release k x) m = Some (m(k := sem_post (m k)), x)"

section \<open>Over zemaphores\<close>

record ('k, 's) zem_prog =
  zems :: "'k \<Rightarrow> Zem_t"
  rest :: 's

datatype zrun_label = ZRun tid "tid option" | ZWake tid

definition zem_main :: "('k \<Rightarrow> nat) \<Rightarrow> 's \<Rightarrow> ('k, 's) zem_prog" where
  "zem_main v x = \<lparr>zems = (\<lambda>k. Zem_init (int (v k))), rest = x\<rparr>"

definition put_zem :: "'k \<Rightarrow> 's \<Rightarrow> ('k, 's) zem_prog \<Rightarrow> Zem_t \<Rightarrow> ('k, 's) zem_prog" where
  "put_zem k x c z = \<lparr>zems = (zems c)(k := z), rest = x\<rparr>"

fun zem_run :: "nat \<Rightarrow> (tid \<Rightarrow> 's \<Rightarrow> ('k, 's) act) \<Rightarrow> zrun_label \<Rightarrow> ('k, 's) zem_prog \<Rightarrow> ('k, 's) zem_prog option" where
  "zem_run n prog (ZRun t w) c =
     (if t < n then
        (case prog t (rest c) of
           Halt \<Rightarrow> None
         | Internal x \<Rightarrow> Some (c\<lparr>rest := x\<rparr>)
         | Acquire k x \<Rightarrow>
             (if zpcs (zems c k) t = ZOut
              then map_option (put_zem k (rest c) c) (zem_step n (CallWait t) (zems c k))
              else map_option (\<lambda>z. put_zem k (if zpcs z t = ZOut then x else rest c) c z) (zem_step n (RunWait t) (zems c k)))
         | Release k x \<Rightarrow> map_option (put_zem k x c) (zem_step n (CallPost t w) (zems c k)))
      else None)"
| "zem_run n prog (ZWake t) c =
     (case prog t (rest c) of
        Acquire k x \<Rightarrow> map_option (put_zem k (rest c) c) (zem_step n (Spurious t) (zems c k))
      | _ \<Rightarrow> None)"

text \<open>The position of a thread in \<open>Zem_wait\<close>.\<close>

definition zpos_of :: "(tid \<Rightarrow> 's \<Rightarrow> ('k, 's) act) \<Rightarrow> ('k, 's) zem_prog \<Rightarrow> tid \<Rightarrow> zpc" where
  "zpos_of prog c t = (case waits_on (prog t (rest c)) of None \<Rightarrow> ZOut | Some k \<Rightarrow> zpcs (zems c k) t)"

definition zrun_inv :: "('k \<Rightarrow> nat) \<Rightarrow> nat \<Rightarrow> (tid \<Rightarrow> 's \<Rightarrow> ('k, 's) act) \<Rightarrow> ('k, 's) zem_prog \<Rightarrow> bool" where
  "zrun_inv v n prog c \<longleftrightarrow> (\<forall>k. zem_inv (int (v k)) n (zems c k)) \<and>
     (\<forall>t<n. \<forall>k. zpcs (zems c k) t \<noteq> ZOut \<longrightarrow> waits_on (prog t (rest c)) = Some k)"

definition zval :: "('k, 's) zem_prog \<Rightarrow> 'k \<Rightarrow> sem" where
  "zval c k = nat (zvalue (zems c k))"

fun zweight :: "zpc \<Rightarrow> nat" where
  "zweight ZSleep = 0"
| "zweight ZTest = 1"
| "zweight ZOut = 2"

definition zweights :: "nat \<Rightarrow> (tid \<Rightarrow> 's \<Rightarrow> ('k, 's) act) \<Rightarrow> ('k, 's) zem_prog \<Rightarrow> nat" where
  "zweights n prog c = (\<Sum>t<n. zweight (zpos_of prog c t))"

fun is_wake :: "zrun_label \<Rightarrow> bool" where
  "is_wake (ZWake t) = True"
| "is_wake (ZRun t w) = False"

lemma zweights_upd:
  assumes "t < n" "zpos_of prog d = (zpos_of prog c)(t := p)"
  shows "zweights n prog d + zweight (zpos_of prog c t) = zweights n prog c + zweight p"
  using sum_change [of t n "\<lambda>i. zweight (zpos_of prog d i)" "\<lambda>i. zweight (zpos_of prog c i)"] assms
  by (simp add: zweights_def)

lemma zem_inv_nonneg: "zem_inv (int v) n z \<Longrightarrow> 0 \<le> zvalue z"
  by (metis of_nat_0_le_iff zem_inv_def)

lemma zvalue_nonneg: "zrun_inv v n prog c \<Longrightarrow> 0 \<le> zvalue (zems c k)"
  unfolding zrun_inv_def using zem_inv_nonneg by blast

text \<open>What a call does to the zemaphore.\<close>

lemma zem_step_wait:
  assumes "zem_step n (RunWait t) z = Some y" "0 \<le> zvalue z"
  shows "zpcs y = (zpcs z)(t := if sem_wait (nat (zvalue z)) = None then ZSleep else ZOut)"
    and "sem_wait (nat (zvalue z)) = (if zpcs y t = ZOut then Some (nat (zvalue y)) else None)"
    and "zpcs y t \<noteq> ZOut \<Longrightarrow> zvalue y = zvalue z"
  using assms by (auto simp: Zem_wait_def zem_at_def sem_wait_def split: if_splits)

lemma zem_step_post:
  assumes "zem_step n (CallPost t w) z = Some y"
  obtains (nobody) "zpcs y = zpcs z" "zvalue y = zvalue z + 1"
    | (woken) i where "i < n" "zpcs z i = ZSleep" "zpcs y = (zpcs z)(i := ZTest)" "zvalue y = zvalue z + 1"
proof -
  have p: "Zem_post n w z = Some y" using assms by (auto split: if_splits)
  then obtain f where f: "notify_one zcond n w (zpcs z) = Some f" "zpcs y = f" "zvalue y = zvalue z + 1"
    by (auto simp: Zem_post_def)
  from f(1) show thesis
  proof (cases rule: notify_one_cases)
    case nobody
    with f that(1) show thesis by simp
  next
    case (somebody i p)
    then have "zpcs z i = ZSleep" "p = ZTest" by (cases "zpcs z i"; simp)+
    with f somebody that(2) show thesis by simp
  qed
qed

section \<open>Simulation\<close>

text \<open>\<open>step\<close> is the program over semaphores, looked at through \<open>view\<close>; only a thread itself changes what it waits for.\<close>

locale sem_client =
  fixes n :: nat and prog :: "tid \<Rightarrow> 's \<Rightarrow> ('k, 's) act" and view :: "('k \<Rightarrow> sem) \<Rightarrow> 's \<Rightarrow> 'a"
    and step :: "tid \<Rightarrow> 'a \<Rightarrow> 'a option"
  assumes step_view: "step t (view m x) = (if t < n then map_option (\<lambda>(m', x'). view m' x') (sem_step (prog t x) m) else None)"
    and waits_stable: "t \<noteq> u \<Longrightarrow> after (prog t x) = Some y \<Longrightarrow> waits_on (prog u y) = waits_on (prog u x)"
begin

definition zabs :: "('k, 's) zem_prog \<Rightarrow> 'a" where
  "zabs c = view (zval c) (rest c)"

text \<open>A step in which a thread only moves inside \<open>Zem_wait\<close>.\<close>

lemma move_inside:
  assumes inv: "zrun_inv v n prog c" and t: "t < n" "waits_on (prog t (rest c)) = Some k"
    and z: "zem_inv (int (v k)) n z" "zpcs z = (zpcs (zems c k))(t := p)" "zvalue z = zvalue (zems c k)"
  shows "zrun_inv v n prog (put_zem k (rest c) c z)" "zval (put_zem k (rest c) c z) = zval c"
    "zpos_of prog (put_zem k (rest c) c z) = (zpos_of prog c)(t := p)"
proof -
  show "zrun_inv v n prog (put_zem k (rest c) c z)" using inv t z by (auto simp: zrun_inv_def put_zem_def)
  show "zval (put_zem k (rest c) c z) = zval c" using z(3) by (auto simp: zval_def put_zem_def)
  show "zpos_of prog (put_zem k (rest c) c z) = (zpos_of prog c)(t := p)"
    using t(2) z(2) by (auto simp: zpos_of_def put_zem_def split: option.splits)
qed

text \<open>A step after which the thread has done its action.\<close>

lemma advance:
  assumes inv: "zrun_inv v n prog c" and t: "t < n" "after (prog t (rest c)) = Some x"
    and Z: "\<And>k. zem_inv (int (v k)) n (Z k)" "\<And>k. zpcs (Z k) t = ZOut"
      "\<And>k u. u < n \<Longrightarrow> zpcs (Z k) u \<noteq> ZOut \<Longrightarrow> zpcs (zems c k) u \<noteq> ZOut"
  shows "zrun_inv v n prog \<lparr>zems = Z, rest = x\<rparr>"
    and "zpos_of prog \<lparr>zems = Z, rest = x\<rparr> u =
      (if u = t then ZOut else case waits_on (prog u (rest c)) of None \<Rightarrow> ZOut | Some k \<Rightarrow> zpcs (Z k) u)"
proof -
  have "waits_on (prog i x) = Some k" if "i < n" "zpcs (Z k) i \<noteq> ZOut" for i k
  proof -
    have "i \<noteq> t" using that(2) Z(2) by auto
    then have "waits_on (prog i x) = waits_on (prog i (rest c))" using waits_stable [OF _ t(2), of i] by fastforce
    then show ?thesis using inv Z(3) [OF that] that(1) by (simp add: zrun_inv_def)
  qed
  with Z(1) show "zrun_inv v n prog \<lparr>zems = Z, rest = x\<rparr>" by (simp add: zrun_inv_def)
  show "zpos_of prog \<lparr>zems = Z, rest = x\<rparr> u =
      (if u = t then ZOut else case waits_on (prog u (rest c)) of None \<Rightarrow> ZOut | Some k \<Rightarrow> zpcs (Z k) u)"
    using waits_stable [OF _ t(2), of u] Z(2) by (auto simp: zpos_of_def split: option.splits)
qed

lemma zpos_outside:
  assumes "zrun_inv v n prog c" "t < n" "waits_on (prog t (rest c)) = None"
  shows "zpcs (zems c k) t = ZOut"
  using assms unfolding zrun_inv_def by (metis option.distinct(1))

definition zsim :: "('k \<Rightarrow> nat) \<Rightarrow> nat \<Rightarrow> tid \<Rightarrow> ('k, 's) zem_prog \<Rightarrow> ('k, 's) zem_prog \<Rightarrow> bool" where
  "zsim v w t c d \<longleftrightarrow> zrun_inv v n prog d \<and>
     (zval d = zval c \<and> rest d = rest c \<and> zweights n prog d < zweights n prog c + w \<or>
      t < n \<and> sem_step (prog t (rest c)) (zval c) = Some (zval d, rest d) \<and> zweights n prog d \<le> zweights n prog c + 1)"

lemma sim_internal:
  assumes inv: "zrun_inv v n prog c" and t: "t < n" and p: "prog t (rest c) = Internal x"
  shows "zsim v 0 t c (c\<lparr>rest := x\<rparr>)"
proof -
  have o: "zpcs (zems c k) t = ZOut" for k using zpos_outside [OF inv t] p by simp
  have d: "c\<lparr>rest := x\<rparr> = \<lparr>zems = zems c, rest = x\<rparr>" by simp
  have zi: "zem_inv (int (v k)) n (zems c k)" for k using inv by (simp add: zrun_inv_def)
  have "after (prog t (rest c)) = Some x" by (simp add: p)
  note A = advance [OF inv t this, of "zems c"]
  have "zrun_inv v n prog (c\<lparr>rest := x\<rparr>)" unfolding d by (rule A(1)) (use o zi in auto)
  moreover have "zpos_of prog (c\<lparr>rest := x\<rparr>) u = zpos_of prog c u" for u
    unfolding d by (subst A(2)) (use o zi p in \<open>auto simp: zpos_of_def\<close>)
  then have "zweights n prog (c\<lparr>rest := x\<rparr>) = zweights n prog c" by (simp add: zweights_def)
  ultimately show ?thesis using p t by (simp add: zsim_def zval_def fun_eq_iff)
qed

lemma zem_inv_of: "zrun_inv v n prog c \<Longrightarrow> zem_step n l (zems c k) = Some z \<Longrightarrow> zem_inv (int (v k)) n z"
  unfolding zrun_inv_def using zem_inv_step by blast

lemma sim_acquire:
  assumes inv: "zrun_inv v n prog c" and t: "t < n" and p: "prog t (rest c) = Acquire k x"
    and z: "zem_step n (RunWait t) (zems c k) = Some z"
  shows "zsim v 0 t c (put_zem k (if zpcs z t = ZOut then x else rest c) c z)"
proof -
  have at: "zpos_of prog c t = ZTest" using z p by (auto simp: zpos_of_def split: if_splits)
  have wt: "waits_on (prog t (rest c)) = Some k" by (simp add: p)
  note zi = zem_inv_of [OF inv z] and w = zem_step_wait [OF z zvalue_nonneg [OF inv]]
  show ?thesis
  proof (cases "zpcs z t = ZOut")
    case False
    then have "sem_wait (nat (zvalue (zems c k))) = None" using w(2) by simp
    then have q: "zpcs z = (zpcs (zems c k))(t := ZSleep)" using w(1) by simp
    note M = move_inside [OF inv t wt zi q w(3) [OF False]]
    from zweights_upd [OF t M(3)] at have "zweights n prog (put_zem k (rest c) c z) < zweights n prog c" by simp
    with False M show ?thesis by (simp add: zsim_def put_zem_def)
  next
    case True
    let ?Z = "(zems c)(k := z)"
    have sw: "sem_wait (nat (zvalue (zems c k))) = Some (nat (zvalue z))" using w(2) True by simp
    then have q: "zpcs z = (zpcs (zems c k))(t := ZOut)" using w(1) by simp
    have z': "zem_inv (int (v j)) n (?Z j)" for j using zi inv by (simp add: zrun_inv_def)
    have "j = k" if "zpcs (zems c j) t \<noteq> ZOut" for j using inv t wt that by (simp add: zrun_inv_def)
    then have o: "zpcs (?Z j) t = ZOut" for j using True by fastforce
    have "after (prog t (rest c)) = Some x" by (simp add: p)
    note A = advance [OF inv t this, of ?Z, OF z' o]
    have zn: "zpcs (?Z j) u \<noteq> ZOut \<Longrightarrow> zpcs (zems c j) u \<noteq> ZOut" for j u using q by (auto split: if_splits)
    have "zpos_of prog \<lparr>zems = ?Z, rest = x\<rparr> = (zpos_of prog c)(t := ZOut)"
      by (rule ext, subst A(2) [OF zn]) (auto simp: zpos_of_def q split: option.splits)
    from zweights_upd [OF t this] at have "zweights n prog \<lparr>zems = ?Z, rest = x\<rparr> = zweights n prog c + 1" by simp
    moreover have "sem_step (prog t (rest c)) (zval c) = Some (zval \<lparr>zems = ?Z, rest = x\<rparr>, x)"
      using sw p by (auto simp: zval_def fun_eq_iff)
    ultimately show ?thesis using A(1) [OF zn] True t by (simp add: zsim_def put_zem_def)
  qed
qed

lemma sim_release:
  assumes inv: "zrun_inv v n prog c" and t: "t < n" and p: "prog t (rest c) = Release k x"
    and z: "zem_step n (CallPost t w) (zems c k) = Some z"
  shows "zsim v 0 t c (put_zem k x c z)"
proof -
  let ?Z = "(zems c)(k := z)" and ?d = "\<lparr>zems = (zems c)(k := z), rest = x\<rparr>"
  have out: "zpcs (zems c j) t = ZOut" for j using zpos_outside [OF inv t] p by simp
  have z': "zem_inv (int (v j)) n (?Z j)" for j using zem_inv_of [OF inv z] inv by (simp add: zrun_inv_def)
  have af: "after (prog t (rest c)) = Some x" by (simp add: p)
  have val: "zvalue z = zvalue (zems c k) + 1" and o: "zpcs z t = ZOut"
    and up: "\<And>u. zpcs z u \<noteq> ZOut \<Longrightarrow> zpcs (zems c k) u \<noteq> ZOut"
    using z by (cases rule: zem_step_post; use out [of k] in \<open>auto split: if_splits\<close>)+
  have A: "zrun_inv v n prog ?d" "zpos_of prog ?d u =
      (if u = t then ZOut else case waits_on (prog u (rest c)) of None \<Rightarrow> ZOut | Some k \<Rightarrow> zpcs (?Z k) u)" for u
    using o out up by (intro advance [OF inv t af z']; fastforce split: if_splits)+
  have pt: "zpos_of prog c t = ZOut" using p by (simp add: zpos_of_def)
  have "zweights n prog ?d \<le> zweights n prog c + 1"
    using z
  proof (cases rule: zem_step_post)
    case nobody
    have "zpos_of prog ?d u = zpos_of prog c u" for u
      using A(2) [of u] pt nobody(1) by (auto simp: zpos_of_def split: option.splits)
    then show ?thesis by (simp add: zweights_def)
  next
    case (woken i)
    then have wi: "waits_on (prog i (rest c)) = Some k" using inv by (simp add: zrun_inv_def)
    have pi: "zpos_of prog c i = ZSleep" using wi woken by (simp add: zpos_of_def)
    have "zpos_of prog ?d u = ((zpos_of prog c)(i := ZTest)) u" for u
      using A(2) [of u] pt wi woken p pi by (auto simp: zpos_of_def split: option.splits)
    then have "zpos_of prog ?d = (zpos_of prog c)(i := ZTest)" by blast
    from zweights_upd [OF woken(1) this] pi show ?thesis by simp
  qed
  moreover have "sem_step (prog t (rest c)) (zval c) = Some (zval ?d, x)"
    using val zvalue_nonneg [OF inv, of k] p by (auto simp: zval_def fun_eq_iff sem_post_def nat_add_distrib)
  ultimately show ?thesis using A(1) t by (simp add: zsim_def put_zem_def)
qed

lemma sim_call:
  assumes inv: "zrun_inv v n prog c" and t: "t < n" and p: "waits_on (prog t (rest c)) = Some k"
    and z: "zem_step n l (zems c k) = Some z" and l: "l = CallWait t \<or> l = Spurious t"
  shows "zsim v (if l = CallWait t then 0 else 2) t c (put_zem k (rest c) c z)"
proof -
  have q: "zpcs z = (zpcs (zems c k))(t := ZTest)" "zvalue z = zvalue (zems c k)"
    using z l by (auto simp: zem_at_def split: if_splits)
  note M = move_inside [OF inv t p zem_inv_of [OF inv z] q]
  have "zpos_of prog c t = (if l = CallWait t then ZOut else ZSleep)"
    using z l p by (auto simp: zpos_of_def split: if_splits)
  with zweights_upd [OF t M(3)] M l show ?thesis by (auto simp: zsim_def put_zem_def split: if_splits)
qed

text \<open>Every step is a step of the program over semaphores, or moves a thread inside \<open>Zem_wait\<close>, which can happen only
  finitely often in a row without spurious wake-ups.\<close>

lemma zem_run_sim:
  assumes inv: "zrun_inv v n prog c" and step: "zem_run n prog l c = Some d"
  shows "\<exists>t. zsim v (if is_wake l then 2 else 0) t c d"
proof (cases l)
  case (ZRun t w)
  then have t: "t < n" using step by (auto split: if_splits)
  show ?thesis
  proof (cases "prog t (rest c)")
    case Halt
    then show ?thesis using step ZRun by (simp split: if_splits)
  next
    case (Internal x)
    then show ?thesis using step ZRun t sim_internal [OF inv t Internal] by auto
  next
    case (Acquire k x)
    then show ?thesis using step ZRun t sim_acquire [OF inv t Acquire] sim_call [OF inv t, of k "CallWait t"]
      by (auto split: if_splits)
  next
    case (Release k x)
    then show ?thesis using step ZRun t sim_release [OF inv t Release] by auto
  qed
next
  case (ZWake t)
  then obtain k x z where a: "prog t (rest c) = Acquire k x" "zem_step n (Spurious t) (zems c k) = Some z"
      "d = put_zem k (rest c) c z" using step by (auto split: act.splits)
  then have "t < n" by (auto split: if_splits)
  with sim_call [OF inv this, of k "Spurious t" z] a ZWake show ?thesis by auto
qed

lemma zrun_inv_main: "zrun_inv v n prog (zem_main v x)"
  using zem_inv_init by (auto simp: zrun_inv_def zem_main_def Zem_init_def)

lemma zabs_main: "zabs (zem_main v x) = view v x"
proof -
  have "zval (zem_main v x) = v" by (rule ext) (simp add: zval_def zem_main_def Zem_init_def)
  then show ?thesis by (simp add: zabs_def zem_main_def)
qed

lemma zsim_abs:
  assumes "zsim v w t c d"
  shows "zrun_inv v n prog d \<and> (zabs d = zabs c \<and> zweights n prog d < zweights n prog c + w \<or>
    step t (zabs c) = Some (zabs d) \<and> zweights n prog d \<le> zweights n prog c + 1)"
  using assms step_view [of t "zval c" "rest c"] by (auto simp: zsim_def zabs_def)

text \<open>Safety: what is reached over zemaphores is reached over semaphores.\<close>

lemma zem_reach: "reach (zem_run n prog) (zem_main v x) c \<Longrightarrow> zrun_inv v n prog c \<and> reach step (view v x) (zabs c)"
proof (induction rule: reach.induct)
  case reach_init
  then show ?case using zrun_inv_main zabs_main reach.reach_init by metis
next
  case (reach_step c l d)
  then obtain t where "zsim v (if is_wake l then 2 else 0) t c d" using zem_run_sim by blast
  from zsim_abs [OF this] reach_step.IH show ?case using reach.reach_step by metis
qed

text \<open>No new deadlock: where nobody can go on over zemaphores, but for spurious wake-ups, nobody can over semaphores.\<close>

lemma zem_stuck:
  assumes inv: "zrun_inv v n prog c" and stuck: "\<And>t w. zem_run n prog (ZRun t w) c = None"
  shows "step t (zabs c) = None"
proof (cases "t < n")
  case False
  then show ?thesis by (simp add: zabs_def step_view)
next
  case t: True
  have out: "zpcs (zems c k) i = ZOut" if "i < n" "waits_on (prog i (rest c)) \<noteq> Some k" for i k
    using inv that unfolding zrun_inv_def by metis
  show ?thesis
  proof (cases "prog t (rest c)")
    case Halt
    then show ?thesis by (simp add: zabs_def step_view)
  next
    case (Internal x)
    then show ?thesis using stuck [of t None] t by simp
  next
    case (Release k x)
    obtain w f where "notify_one zcond n w (zpcs (zems c k)) = Some f" using notify_one_enabled by blast
    then have "zem_run n prog (ZRun t w) c \<noteq> None" using t Release out [OF t, of k] by (simp add: Zem_post_def)
    with stuck [of t w] show ?thesis by simp
  next
    case (Acquire k x)
    have no_test: "zpcs (zems c k) i \<noteq> ZTest" if "i < n" for i
    proof
      assume a: "zpcs (zems c k) i = ZTest"
      then have "waits_on (prog i (rest c)) = Some k" using out [OF that, of k] by auto
      then obtain y where "prog i (rest c) = Acquire k y" by (cases "prog i (rest c)") auto
      then show False using stuck [of i None] a that by simp
    qed
    have "zpcs (zems c k) t = ZSleep"
      using stuck [of t None] t Acquire no_test [OF t] by (cases "zpcs (zems c k) t") auto
    then have "num_at n ZSleep (zpcs (zems c k)) \<noteq> 0" using zem_pos [OF t, of "zpcs (zems c k)" ZSleep] by simp
    moreover have "zem_inv (int (v k)) n (zems c k)" using inv by (simp add: zrun_inv_def)
    ultimately have "zvalue (zems c k) \<le> num_at n ZTest (zpcs (zems c k))" by (simp add: zem_inv_def)
    moreover have "num_at n ZTest (zpcs (zems c k)) = 0" using no_test by (simp add: cnt_eq_0)
    ultimately have "zval c k = 0" by (simp add: zval_def)
    then show ?thesis using Acquire by (simp add: zabs_def step_view sem_wait_def)
  qed
qed

end

text \<open>Termination: a program that ends over semaphores ends over zemaphores, but for spurious wake-ups.\<close>

definition spurious_wakes :: "zrun_label list \<Rightarrow> nat" where
  "spurious_wakes ls = length (filter is_wake ls)"

locale finite_client = sem_client n prog view step + finite_machine step init inv final mu
  for n :: nat and prog :: "tid \<Rightarrow> 's \<Rightarrow> ('k, 's) act" and view :: "('k \<Rightarrow> sem) \<Rightarrow> 's \<Rightarrow> 'a"
    and step :: "tid \<Rightarrow> 'a \<Rightarrow> 'a option" and init :: 'a and inv :: "'a \<Rightarrow> bool" and final :: "'a \<Rightarrow> bool" and mu :: "'a \<Rightarrow> nat" +
  fixes v :: "'k \<Rightarrow> nat" and x :: 's
  assumes view_main: "view v x = init"
begin

lemma zem_exec_bound:
  "zrun_inv v n prog c \<Longrightarrow> inv (zabs c) \<Longrightarrow> exec (zem_run n prog) ls c = Some d \<Longrightarrow>
    length ls + 2 * mu (zabs d) + zweights n prog d \<le> 2 * mu (zabs c) + zweights n prog c + 2 * spurious_wakes ls"
proof (induction ls arbitrary: c)
  case Nil
  then show ?case by (simp add: spurious_wakes_def)
next
  case (Cons l ls)
  from Cons.prems(3) obtain e where e: "zem_run n prog l c = Some e" "exec (zem_run n prog) ls e = Some d"
    by (auto split: option.splits)
  then obtain t where "zsim v (if is_wake l then 2 else 0) t c e" using zem_run_sim [OF Cons.prems(1)] by blast
  note sim = zsim_abs [OF this]
  have ie: "inv (zabs e)" using sim Cons.prems(2) inv_step by metis
  have "1 + 2 * mu (zabs e) + zweights n prog e \<le> 2 * mu (zabs c) + zweights n prog c + (if is_wake l then 2 else 0)"
    using sim mu_step [OF Cons.prems(2)] by fastforce
  moreover have "length ls + 2 * mu (zabs d) + zweights n prog d \<le> 2 * mu (zabs e) + zweights n prog e + 2 * spurious_wakes ls"
    using Cons.IH [OF _ ie e(2)] sim by blast
  ultimately show ?case by (auto simp: spurious_wakes_def)
qed

lemma zweights_le: "zweights n prog c \<le> 2 * n"
proof -
  have "zweight p \<le> 2" for p by (cases p) auto
  then have "zweights n prog c \<le> (\<Sum>t<n. 2)" unfolding zweights_def by (intro sum_mono) auto
  then show ?thesis by simp
qed

lemma zem_bound: "exec (zem_run n prog) ls (zem_main v x) = Some c \<Longrightarrow> length ls \<le> 2 * mu init + 2 * n + 2 * spurious_wakes ls"
  using zem_exec_bound [OF zrun_inv_main, of x ls c] zweights_le [of "zem_main v x"] inv_init by (simp add: zabs_main view_main)

lemma zem_final:
  assumes "reach (zem_run n prog) (zem_main v x) c" "\<And>t w. zem_run n prog (ZRun t w) c = None"
  shows "final (zabs c)"
proof -
  note r = zem_reach [OF assms(1)]
  then have "\<forall>t. step t (zabs c) = None" using zem_stuck [OF _ assms(2)] by blast
  then show ?thesis using stuck_final r by (simp add: view_main)
qed

lemma zem_reach_main: "reach (zem_run n prog) (zem_main v x) c \<Longrightarrow> reach step init (zabs c)"
  using zem_reach [of v x c] by (simp add: view_main)

end

end
