(* ===== verification/Zemaphore_Programs.thy ===== *)
theory Zemaphore_Programs
  imports Zemaphore_Clients Sema_Clients Dining_Philosophers Sema_Buffer Fork_Join
begin

text \<open>
  The programs that include \<open>threads-sema/zemaphore.h\<close>, over zemaphores: \<open>dining_philosophers_no_deadlock.c\<close>,
  \<open>producer_consumer_works.c\<close>, \<open>binary.c\<close>, \<open>throttle.c\<close>, and \<open>zemaphore.c\<close> itself, which is \<open>join.c\<close> with a zemaphore.

  Each \<open>*_prog\<close> says what a thread does next; the fields of its state that hold the semaphores over semaphores are not
  used. The interpretations of \<open>sem_client\<close> and \<open>finite_client\<close> show that over semaphores it is the program of the
  earlier theories.
\<close>

section \<open>dining_philosophers_no_deadlock.c\<close>

definition at_table_to :: "nat \<Rightarrow> dpos \<Rightarrow> dining \<Rightarrow> dining" where
  "at_table_to p q s = s\<lparr>at_table := (at_table s)(p := q)\<rparr>"

definition dining_prog :: "fork_order \<Rightarrow> nat \<Rightarrow> nat \<Rightarrow> dining \<Rightarrow> (nat, dining) act" where
  "dining_prog g L p s =
     (case at_table s p of
        Loop i \<Rightarrow> Internal (at_table_to p (if i < L then First i else Dining_Philosophers.Returned) s)
      | First i \<Rightarrow> Acquire (fst (g p)) (at_table_to p (Second i) s)
      | Second i \<Rightarrow> Acquire (snd (g p)) (at_table_to p (Eat i) s)
      | Eat i \<Rightarrow> Release (left p) (at_table_to p (PutRight i) s)
      | PutRight i \<Rightarrow> Release (right p) (at_table_to p (Loop (i + 1)) s)
      | Dining_Philosophers.Returned \<Rightarrow> Halt)"

definition dining_view :: "(nat \<Rightarrow> sem) \<Rightarrow> dining \<Rightarrow> dining" where
  "dining_view m s = s\<lparr>forks := m\<rparr>"

lemma dining_step_view:
  "dining_step g L p (dining_view m s) =
    (if p < 5 then map_option (\<lambda>(m', s'). dining_view m' s') (sem_step (dining_prog g L p s) m) else None)"
  by (cases "at_table s p")
    (simp_all add: dining_step_def philosopher_def dining_prog_def dining_view_def set_fork_def at_table_to_def
      sem_wait_def)

lemma dining_waits: "p \<noteq> q \<Longrightarrow> after (dining_prog g L p s) = Some u \<Longrightarrow> waits_on (dining_prog g L q u) = waits_on (dining_prog g L q s)"
  by (cases "at_table s p"; cases "at_table s q") (auto simp: dining_prog_def at_table_to_def)

interpretation zdining: finite_client 5 "dining_prog get_forks_nd L" dining_view "dining_step get_forks_nd L" dining_main
  "dining_inv get_forks_nd L" all_returned "dining_rank L" "\<lambda>_. 1" dining_main for L :: nat
proof (unfold_locales, goal_cases)
  case (1 t m x)
  show ?case by (rule dining_step_view)
next
  case (2 t u x y)
  then show ?case by (rule dining_waits)
next
  case 3
  show ?case by (simp add: dining_view_def dining_main_def sem_init_def)
qed

section \<open>producer_consumer_works.c\<close>

datatype sb_sem = SemEmpty | SemFull | SemMutex

definition sbuf_prog :: "nat \<Rightarrow> nat \<Rightarrow> nat \<Rightarrow> tid \<Rightarrow> sbuf \<Rightarrow> (sb_sem, sbuf) act" where
  "sbuf_prog M loops n t s =
     (if t = 0 then
        (case spos s t of
           PEmpty k \<Rightarrow> Acquire SemEmpty (sb_at t (PMutex k) s)
         | PMutex k \<Rightarrow> Acquire SemMutex (sb_at t (PFill k) s)
         | PFill k \<Rightarrow> Internal (sb_at t (PPostM k) (s\<lparr>cells := do_fill M (item loops k) (cells s),
             put_seq := put_seq s @ [item loops k]\<rparr>))
         | PPostM k \<Rightarrow> Release SemMutex (sb_at t (PPostF k) s)
         | PPostF k \<Rightarrow> Release SemFull (sb_at t (produce_next loops n (k + 1)) s)
         | _ \<Rightarrow> Halt)
      else
        (case spos s t of
           CFull \<Rightarrow> Acquire SemFull (sb_at t CMutex s)
         | CMutex \<Rightarrow> Acquire SemMutex (sb_at t CGet s)
         | CGet \<Rightarrow> (case do_get M (cells s) of (tmp, b) \<Rightarrow>
             Internal (sb_at t (CPostM tmp) (s\<lparr>cells := b, got_seq := got_seq s @ [tmp]\<rparr>)))
         | CPostM tmp \<Rightarrow> Release SemMutex (sb_at t (CPostE tmp) s)
         | CPostE tmp \<Rightarrow> Release SemEmpty (sb_at t (consume_next tmp) s)
         | _ \<Rightarrow> Halt))"

definition sbuf_view :: "(sb_sem \<Rightarrow> sem) \<Rightarrow> sbuf \<Rightarrow> sbuf" where
  "sbuf_view m s = s\<lparr>sempty := m SemEmpty, sfull := m SemFull, smutex := m SemMutex\<rparr>"

fun sb_start :: "nat \<Rightarrow> sb_sem \<Rightarrow> nat" where
  "sb_start M SemEmpty = M"
| "sb_start M SemFull = 0"
| "sb_start M SemMutex = 1"

lemma sbuf_step_view:
  "sbuf_step M loops n t (sbuf_view m s) =
    (if t < n + 1 then map_option (\<lambda>(m', s'). sbuf_view m' s') (sem_step (sbuf_prog M loops n t s) m) else None)"
  by (cases "t = 0"; cases "spos s t")
    (simp_all add: sbuf_step_def sproducer_def sconsumer_def sbuf_prog_def sbuf_view_def sb_at_def
      sem_wait_def split: prod.split)

lemma sbuf_waits:
  "t \<noteq> v \<Longrightarrow> after (sbuf_prog M loops n t s) = Some u \<Longrightarrow> waits_on (sbuf_prog M loops n v u) = waits_on (sbuf_prog M loops n v s)"
proof -
  have d: "waits_on (sbuf_prog M loops n v s) = (if v = 0 then (case spos s v of PEmpty k \<Rightarrow> Some SemEmpty
      | PMutex k \<Rightarrow> Some SemMutex | _ \<Rightarrow> None) else (case spos s v of CFull \<Rightarrow> Some SemFull | CMutex \<Rightarrow> Some SemMutex | _ \<Rightarrow> None))"
    for s by (cases "v = 0"; cases "spos s v") (simp_all add: sbuf_prog_def split: prod.split)
  assume "t \<noteq> v" "after (sbuf_prog M loops n t s) = Some u"
  then have "spos u v = spos s v"
    by (cases "t = 0"; cases "spos s t") (auto simp: sbuf_prog_def sb_at_def split: if_splits prod.splits)
  then show ?thesis by (simp only: d)
qed

interpretation zsbuf: finite_client "Suc n + 1" "sbuf_prog (Suc M) loops (Suc n)" sbuf_view "sbuf_step (Suc M) loops (Suc n)"
  "sbuf_main (Suc M) loops (Suc n)" "sb_inv (Suc M) loops (Suc n)" "sb_ended (Suc n)" "sb_rank loops (Suc n)"
  "sb_start (Suc M)" "sbuf_main (Suc M) loops (Suc n)" for M loops n :: nat
proof (unfold_locales, goal_cases)
  case (1 t m x)
  show ?case by (rule sbuf_step_view)
next
  case (2 t u x y)
  then show ?case by (rule sbuf_waits)
next
  case 3
  show ?case by (simp add: sbuf_view_def sbuf_main_def sem_init_def)
qed

section \<open>binary.c and throttle.c\<close>

definition binary_prog :: "nat \<Rightarrow> tid \<Rightarrow> binary \<Rightarrow> (unit, binary) act" where
  "binary_prog L t s =
     (case bpos s t of
        BLoop i \<Rightarrow> (if i < L then Acquire () (bi_at t (BRead i) s) else Internal (bi_at t BRet s))
      | BRead i \<Rightarrow> Internal (bi_at t (BWrite i (bcounter s + 1)) s)
      | BWrite i v \<Rightarrow> Internal (bi_at t (BPost i) (s\<lparr>bcounter := v\<rparr>))
      | BPost i \<Rightarrow> Release () (bi_at t (BLoop (i + 1)) s)
      | BRet \<Rightarrow> Halt)"

definition binary_view :: "(unit \<Rightarrow> sem) \<Rightarrow> binary \<Rightarrow> binary" where
  "binary_view m s = s\<lparr>bmutex := m ()\<rparr>"

interpretation zbinary: finite_client n "binary_prog L" binary_view "binary_step n L" binary_main "binary_inv n L"
  "binary_ended n" "binary_rank n L" "\<lambda>_. 1" binary_main for n L :: nat
proof (unfold_locales, goal_cases)
  case (1 t m x)
  show ?case by (cases "bpos x t")
    (simp_all add: binary_step_def binary_child_def binary_prog_def binary_view_def bi_at_def sem_wait_def)
next
  case (2 t u x y)
  then show ?case by (cases "bpos x t"; cases "bpos x u") (auto simp: binary_prog_def bi_at_def split: if_splits)
next
  case 3
  show ?case by (simp add: binary_view_def binary_main_def sem_init_def)
qed

definition throttle_prog :: "tid \<Rightarrow> throttle \<Rightarrow> (unit, throttle) act" where
  "throttle_prog t s =
     (case trpos s t of
        TWait \<Rightarrow> Acquire () (s\<lparr>trpos := (trpos s)(t := TIn)\<rparr>)
      | TIn \<Rightarrow> Release () (s\<lparr>trpos := (trpos s)(t := TEnd)\<rparr>)
      | TEnd \<Rightarrow> Halt)"

definition throttle_view :: "(unit \<Rightarrow> sem) \<Rightarrow> throttle \<Rightarrow> throttle" where
  "throttle_view m s = s\<lparr>tsem := m ()\<rparr>"

interpretation zthrottle: sem_client n throttle_prog throttle_view "throttle_step n" for n :: nat
proof (unfold_locales, goal_cases)
  case (1 t m x)
  show ?case by (cases "trpos x t") (simp_all add: throttle_step_def throttle_prog_def throttle_view_def sem_wait_def)
next
  case (2 t u x y)
  then show ?case by (cases "trpos x t"; cases "trpos x u") (auto simp: throttle_prog_def)
qed

lemma binary_over_zemaphores:
  assumes "exec (zem_run n (binary_prog L)) ls (zem_main (\<lambda>_. 1) binary_main) = Some c"
  shows "length ls \<le> 2 * (n * (4 * L + 1)) + 2 * n + 2 * spurious_wakes ls \<and>
    ((\<forall>t w. zem_run n (binary_prog L) (ZRun t w) c = None) \<longrightarrow> bcounter (rest c) = int (n * L))"
proof -
  have "bcounter (rest c) = int (n * L)" if s: "\<forall>t w. zem_run n (binary_prog L) (ZRun t w) c = None"
  proof -
    have "binary_ended n (zbinary.zabs c)" using zbinary.zem_final [OF reachI [OF assms]] s by blast
    then have "(\<Sum>t<n. increments L (bpos (zbinary.zabs c) t)) = (\<Sum>t<n. L)" by (intro sum.cong) (auto simp: binary_ended_def)
    moreover have "binary_inv n L (zbinary.zabs c)"
      by (rule binary.reach_inv [OF zbinary.zem_reach_main [OF reachI [OF assms]]])
    ultimately show ?thesis unfolding binary_inv_def by (simp add: zbinary.zabs_def binary_view_def)
  qed
  moreover have "binary_rank n L binary_main = n * (4 * L + 1)" by (simp add: binary_rank_def binary_main_def)
  ultimately show ?thesis using zbinary.zem_bound [OF assms] by simp
qed

section \<open>zemaphore.c\<close>

definition zemaphore_child :: "fj \<Rightarrow> (unit, fj) act" where
  "zemaphore_child s =
     (case child s of
        CBegin \<Rightarrow> Internal (c_at CPost (say ChildMsg s))
      | CPost \<Rightarrow> Release () (c_at CEnd s)
      | _ \<Rightarrow> Halt)"

definition zemaphore_main :: "fj \<Rightarrow> (unit, fj) act" where
  "zemaphore_main s =
     (case parent s of
        PBegin \<Rightarrow> Internal (p_at Fork_Join.PWait (c_at CBegin (say ParentBegin s)))
      | Fork_Join.PWait \<Rightarrow> Acquire () (p_at PPrint s)
      | PPrint \<Rightarrow> Internal (p_at PEnd (say ParentEnd s))
      | _ \<Rightarrow> Halt)"

definition zemaphore_prog :: "tid \<Rightarrow> fj \<Rightarrow> (unit, fj) act" where
  "zemaphore_prog t s = (if t = 0 then zemaphore_main s else zemaphore_child s)"

definition fj_view :: "(unit \<Rightarrow> sem) \<Rightarrow> fj \<Rightarrow> fj" where
  "fj_view m s = s\<lparr>semaphore := m ()\<rparr>"

definition sema_join_step :: "tid \<Rightarrow> fj \<Rightarrow> fj option" where
  "sema_join_step t s = (if t = 0 then sema_parent s else if t = 1 then sema_child s else None)"

interpretation zjoin: sem_client 2 zemaphore_prog fj_view sema_join_step
proof (unfold_locales, goal_cases)
  case (1 t m x)
  consider "t = 0" | "t = 1" | "2 \<le> t" by linarith
  then show ?case
  proof cases
    case 1
    then show ?thesis by (cases "parent x") (simp_all add: sema_join_step_def sema_parent_def zemaphore_prog_def
      zemaphore_main_def fj_view_def p_at_def c_at_def say_def create_def sem_wait_def)
  next
    case 2
    then show ?thesis by (cases "child x") (simp_all add: sema_join_step_def sema_child_def zemaphore_prog_def
      zemaphore_child_def fj_view_def c_at_def say_def sem_wait_def)
  next
    case 3
    then show ?thesis by (simp add: sema_join_step_def)
  qed
next
  case (2 t u x y)
  have c: "waits_on (zemaphore_child s) = None" for s by (cases "child s") (simp_all add: zemaphore_child_def)
  have "parent y = parent x" if "t \<noteq> 0" using 2(2) that
    by (cases "child x") (auto simp: zemaphore_prog_def zemaphore_child_def c_at_def say_def)
  then have "u = 0 \<Longrightarrow> waits_on (zemaphore_main y) = waits_on (zemaphore_main x)"
    using 2(1) by (cases "parent x") (auto simp: zemaphore_main_def)
  with c show ?case by (simp add: zemaphore_prog_def)
qed

lemma sema_join_reach: "reach sema_join_step fj_main s \<Longrightarrow> reach (fj_step (sema_parent, sema_child)) fj_main s"
proof (induction rule: reach.induct)
  case reach_init
  show ?case by (rule reach.reach_init)
next
  case (reach_step s t u)
  then have "fj_step (sema_parent, sema_child) (if t = 0 then Parent else Child) s = Some u"
    by (auto simp: sema_join_step_def split: if_splits)
  with reach_step.IH show ?case by (rule reach.reach_step)
qed

lemma zemaphore_fj_main: "fj_view (\<lambda>_. 0) fj_main = fj_main"
  by (simp add: fj_view_def fj_main_def sem_init_def)

text \<open>\<open>zemaphore.c\<close>: the child's message is between the two of the parent, and both get to the end.\<close>

lemma zemaphore_c_correct:
  assumes "reach (zem_run 2 zemaphore_prog) (zem_main (\<lambda>_. 0) fj_main) c"
  shows "printed (rest c) \<in> {[], [ParentBegin], [ParentBegin, ChildMsg], [ParentBegin, ChildMsg, ParentEnd]} \<and>
    ((\<forall>t w. zem_run 2 zemaphore_prog (ZRun t w) c = None) \<longrightarrow> parent (rest c) = PEnd \<and> child (rest c) = CEnd)"
proof -
  note r = zjoin.zem_reach [OF assms, unfolded zemaphore_fj_main]
  let ?s = "zjoin.zabs c"
  have ok: "fj_ok (sema_parent, sema_child) ?s"
    using fj_right_ok [OF _ sema_join_reach] r by (auto simp: fj_right_def)
  have "fj_stuck (sema_parent, sema_child) ?s" if "\<forall>t w. zem_run 2 zemaphore_prog (ZRun t w) c = None"
  proof -
    have z: "sema_join_step t ?s = None" for t using zjoin.zem_stuck r that by blast
    show ?thesis using z [of 0] z [of 1] by (simp add: fj_stuck_def sema_join_step_def)
  qed
  with ok show ?thesis by (simp add: fj_ok_def zjoin.zabs_def fj_view_def)
qed

lemma throttle_over_zemaphores:
  assumes "reach (zem_run n throttle_prog) (zem_main (\<lambda>_. v) (throttle_main v)) c"
  shows "num_at n TIn (trpos (rest c)) \<le> int v \<and>
    ((\<forall>t w. zem_run n throttle_prog (ZRun t w) c = None) \<and> 0 < v \<longrightarrow> (\<forall>t<n. trpos (rest c) t = TEnd))"
proof -
  have m: "throttle_view (\<lambda>_. v) (throttle_main v) = throttle_main v"
    by (simp add: throttle_view_def throttle_main_def sem_init_def)
  note r = zthrottle.zem_reach [OF assms, unfolded m]
  then have inv: "throttle_inv n v (zthrottle.zabs c)" using throttle.reach_inv by blast
  have "throttle_step n t (zthrottle.zabs c) = None" if "\<forall>t w. zem_run n throttle_prog (ZRun t w) c = None" for t
    using zthrottle.zem_stuck r that by blast
  then show ?thesis using throttle_stuck [OF inv] inv by (auto simp: throttle_inv_def zthrottle.zabs_def throttle_view_def)
qed

section \<open>Properties\<close>

text \<open>C24: over zemaphores the philosophers of dining_philosophers_no_deadlock.c still all get to the end, and neighbours
  never eat together: a run is bounded up to the number of spurious wake-ups in it, and when no thread can go on but by
  a spurious wake-up, all have returned.\<close>

theorem dining_over_zemaphores:
  assumes "exec (zem_run 5 (dining_prog get_forks_nd L)) ls (zem_main (\<lambda>_. 1) dining_main) = Some c"
  shows "length ls \<le> 2 * dining_rank L dining_main + 10 + 2 * spurious_wakes ls \<and>
    ((\<forall>t w. zem_run 5 (dining_prog get_forks_nd L) (ZRun t w) c = None) \<longrightarrow> all_returned (rest c)) \<and>
    (p < 5 \<and> q < 5 \<and> p \<noteq> q \<and> at_table (rest c) p = Eat i \<and> at_table (rest c) q = Eat j \<longrightarrow>
      {left p, right p} \<inter> {left q, right q} = {})"
proof -
  have r: "reach (zem_run 5 (dining_prog get_forks_nd L)) (zem_main (\<lambda>_. 1) dining_main) c" using assms by (rule reachI)
  have a: "at_table (zdining.zabs c) = at_table (rest c)" by (simp add: zdining.zabs_def dining_view_def)
  show ?thesis
    using zdining.zem_bound [OF assms] zdining.zem_final [OF r]
      eating_exclusive [OF dining_nd.reach_inv [OF zdining.zem_reach_main [OF r]], of p q i j]
    by (simp add: a all_returned_def)
qed

definition zdining_demo :: "zrun_label list" where
  "zdining_demo = map (\<lambda>t. ZRun t None) [4, 4, 4, 4, 0, 0, 0, 4]"

theorem dining_over_zemaphores_witness:
  "\<exists>c. exec (zem_run 5 (dining_prog get_forks_nd 1)) zdining_demo (zem_main (\<lambda>_. 1) dining_main) = Some c \<and>
     at_table (rest c) 4 = Eat 0 \<and> at_table (rest c) 0 = First 0 \<and> length zdining_demo \<le> 70"
proof -
  obtain c where c: "exec (zem_run 5 (dining_prog get_forks_nd 1)) zdining_demo (zem_main (\<lambda>_. 1) dining_main) = Some c"
      "at_table (rest c) 4 = Eat 0" "at_table (rest c) 0 = First 0"
    by (simp add: zdining_demo_def dining_main_def dining_prog_def at_table_to_def get_forks_nd_def left_def right_def
        zem_main_def Zem_init_def zem_at_def Zem_wait_def put_zem_def)
  with dining_over_zemaphores [OF c(1)] show ?thesis
    by (auto simp: zdining_demo_def)
qed

text \<open>Over zemaphores producer_consumer_works.c still works, for every size of the buffer, number of items and of
  consumers: a run is bounded up to its spurious wake-ups, a thread is alone between the operations on \<open>mutex\<close>, what has
  been got is an initial piece of what has been put, and when no thread can go on but by a spurious wake-up, all have
  returned and the consumers have got everything.\<close>

theorem buffer_over_zemaphores:
  assumes "exec (zem_run (n + 1) (sbuf_prog M loops n)) ls (zem_main (sb_start M) (sbuf_main M loops n)) = Some c"
    "0 < M" "0 < n"
  shows "length ls \<le> 2 * sb_rank loops n (sbuf_main M loops n) + 2 * (n + 1) + 2 * spurious_wakes ls \<and>
    (t \<le> n \<and> v \<le> n \<and> in_mutex (spos (rest c) t) \<and> in_mutex (spos (rest c) v) \<longrightarrow> t = v) \<and>
    (\<exists>xs. put_seq (rest c) = got_seq (rest c) @ xs) \<and>
    ((\<forall>t w. zem_run (n + 1) (sbuf_prog M loops n) (ZRun t w) c = None) \<longrightarrow>
      sb_ended n (rest c) \<and> got_seq (rest c) = map int [0..<loops] @ replicate n (- 1))"
proof -
  obtain M' n' where M: "M = Suc M'" "n = Suc n'" using assms(2,3) by (cases M; cases n) auto
  note E = assms(1) [unfolded M]
  let ?s = "zsbuf.zabs c"
  have a: "spos ?s = spos (rest c)" "put_seq ?s = put_seq (rest c)" "got_seq ?s = got_seq (rest c)"
    by (simp_all add: zsbuf.zabs_def sbuf_view_def)
  have inv: "sb_inv M loops n ?s" unfolding M by (rule sb.reach_inv [OF zsbuf.zem_reach_main [OF reachI [OF E]]])
  have "sb_ended n ?s" if "\<forall>t w. zem_run (n + 1) (sbuf_prog M loops n) (ZRun t w) c = None"
    using zsbuf.zem_final [OF reachI [OF E]] that unfolding M by blast
  moreover have "length ls \<le> 2 * sb_rank loops n (sbuf_main M loops n) + 2 * (n + 1) + 2 * spurious_wakes ls"
    using zsbuf.zem_bound [OF E] unfolding M .
  ultimately show ?thesis
    using sb_exclusive [OF inv, of t v] sb_ringD(2,3) [OF sb_invD(1) [OF inv]] sb_ended_got [OF inv _ assms(3)] items_all
    by (metis a sb_ended_def)
qed

definition zsbuf_demo :: "zrun_label list" where
  "zsbuf_demo = [ZRun 1 None, ZRun 1 None] @ replicate 6 (ZRun 0 None) @ [ZRun 0 (Some 1)] @ replicate 7 (ZRun 1 None)"

theorem buffer_over_zemaphores_witness:
  "\<exists>c. exec (zem_run 2 (sbuf_prog 1 1 1)) zsbuf_demo (zem_main (sb_start 1) (sbuf_main 1 1 1)) = Some c \<and>
     got_seq (rest c) = [0] \<and> (\<exists>xs. put_seq (rest c) = got_seq (rest c) @ xs)"
proof -
  obtain c where c: "exec (zem_run 2 (sbuf_prog 1 1 1)) zsbuf_demo (zem_main (sb_start 1) (sbuf_main 1 1 1)) = Some c"
      "got_seq (rest c) = [0]"
    by (simp add: zsbuf_demo_def numeral_eq_Suc sbuf_main_def sbuf_prog_def do_fill_def do_get_def sb_at_def produce_next_def consume_next_def
        zem_main_def Zem_init_def zem_at_def Zem_wait_def Zem_post_def notify_one_def put_zem_def item_def)
  with buffer_over_zemaphores [of 1 1 1 zsbuf_demo c 0 0] show ?thesis by (simp add: numeral_2_eq_2)
qed

end
