(* ===== verification/Udp.thy ===== *)
theory Udp
  imports "HOL-Library.Word"
begin

text \<open>
  \<open>dist-intro/udp.c\<close>, \<open>udp.h\<close> and the programs \<open>client.c\<close> and \<open>server.c\<close> over them.

  The system calls and \<open>gethostbyname\<close> are parameters, the fields of \<open>os\<close>: an answer may depend on everything that has
  happened, the list of events, which every call extends. A buffer is a list of characters; what the stack holds before
  it is written is a parameter, \<open>junk\<close>. \<open>sin_port\<close> is the two bytes in memory. \<open>perror\<close> and \<open>printf\<close> are events
  where the source has them. \<open>posix\<close> collects what the manual pages promise of the calls.
\<close>

section \<open>Addresses and calls\<close>

type_synonym in_addr = "32 word"

datatype family = Unspec | AF_INET

record sockaddr_in =
  sin_family :: family
  sin_port :: "8 word list"
  sin_addr :: in_addr

definition bzero :: sockaddr_in where
  "bzero = \<lparr>sin_family = Unspec, sin_port = [0, 0], sin_addr = 0\<rparr>"

text \<open>The argument of \<open>htons\<close> is converted to 16 bits; the result is stored with the high byte first.\<close>

definition htons :: "int \<Rightarrow> 8 word list" where
  "htons p = [word_of_int (p div 256), word_of_int p]"

definition ntohs :: "8 word list \<Rightarrow> int" where
  "ntohs bs = uint (bs ! 0) * 256 + uint (bs ! 1)"

lemma ntohs_htons: "ntohs (htons p) = p mod 65536"
proof -
  have "p mod (256 * 256) = 256 * (p div 256 mod 256) + p mod 256" by (rule zmod_zmult2_eq) simp
  then show ?thesis by (simp add: htons_def ntohs_def unsigned_of_int take_bit_eq_mod)
qed

datatype event =
    Socket int
  | Bind int sockaddr_in int
  | Close int int
  | Resolve string "in_addr option"
  | SendTo int string sockaddr_in int
  | RecvFrom int nat int string sockaddr_in
  | Perror string
  | Said string
  | Exit int
  | Abort

type_synonym history = "event list"

record os =
  sys_socket :: "history \<Rightarrow> int"
  sys_bind :: "history \<Rightarrow> int \<Rightarrow> sockaddr_in \<Rightarrow> int"
  sys_close :: "history \<Rightarrow> int \<Rightarrow> int"
  gethostbyname :: "history \<Rightarrow> string \<Rightarrow> in_addr option"
  sys_sendto :: "history \<Rightarrow> int \<Rightarrow> string \<Rightarrow> sockaddr_in \<Rightarrow> int"
  sys_recvfrom :: "history \<Rightarrow> int \<Rightarrow> nat \<Rightarrow> int \<times> string \<times> sockaddr_in"

section \<open>udp.c\<close>

definition UDP_Open :: "os \<Rightarrow> int \<Rightarrow> history \<Rightarrow> int \<times> history" where
  "UDP_Open os port h =
     (let fd = sys_socket os h; h1 = h @ [Socket fd] in
      if fd = - 1 then (0, h1 @ [Perror ''socket''])
      else
        let my_addr = bzero\<lparr>sin_family := AF_INET, sin_port := htons port, sin_addr := 0\<rparr>;
            b = sys_bind os h1 fd my_addr;
            h2 = h1 @ [Bind fd my_addr b]
        in if b = - 1
           then let h3 = h2 @ [Perror ''bind''] in (- 1, h3 @ [Close fd (sys_close os h3 fd)])
           else (fd, h2))"

definition UDP_FillSockAddr :: "os \<Rightarrow> string option \<Rightarrow> int \<Rightarrow> history \<Rightarrow> int \<times> sockaddr_in \<times> history" where
  "UDP_FillSockAddr os hostname port h =
     (case hostname of
        None \<Rightarrow> (0, bzero, h)
      | Some name \<Rightarrow>
          let addr = bzero\<lparr>sin_family := AF_INET, sin_port := htons port\<rparr>;
              host = gethostbyname os h name;
              h1 = h @ [Resolve name host]
          in case host of
               None \<Rightarrow> (- 1, addr, h1 @ [Perror ''gethostbyname''])
             | Some a \<Rightarrow> (0, addr\<lparr>sin_addr := a\<rparr>, h1))"

definition UDP_Write :: "os \<Rightarrow> int \<Rightarrow> sockaddr_in \<Rightarrow> string \<Rightarrow> nat \<Rightarrow> history \<Rightarrow> int \<times> history" where
  "UDP_Write os fd addr buffer n h =
     (let rc = sys_sendto os h fd (take n buffer) addr in (rc, h @ [SendTo fd (take n buffer) addr rc]))"

text \<open>The bytes received overwrite the front of the buffer.\<close>

definition UDP_Read :: "os \<Rightarrow> int \<Rightarrow> string \<Rightarrow> nat \<Rightarrow> history \<Rightarrow> int \<times> string \<times> sockaddr_in \<times> history" where
  "UDP_Read os fd buffer n h =
     (case sys_recvfrom os h fd n of (rc, bytes, addr) \<Rightarrow>
        (rc, bytes @ drop (length bytes) buffer, addr, h @ [RecvFrom fd n rc bytes addr]))"

definition UDP_Close :: "os \<Rightarrow> int \<Rightarrow> history \<Rightarrow> int \<times> history" where
  "UDP_Close os fd h = (let r = sys_close os h fd in (r, h @ [Close fd r]))"

section \<open>client.c and server.c\<close>

definition BUFFER_SIZE :: nat where
  "BUFFER_SIZE = 1000"

text \<open>\<open>sprintf\<close> of a constant into a buffer that holds \<open>junk\<close>: the text and its final zero, the rest as before.\<close>

definition sprintf :: "string \<Rightarrow> string \<Rightarrow> string" where
  "sprintf junk msg = (msg @ [CHR 0x00]) @ drop (length msg + 1) junk"

text \<open>What \<open>%s\<close> prints: up to the zero.\<close>

definition c_str :: "string \<Rightarrow> string" where
  "c_str b = takeWhile (\<lambda>c. c \<noteq> CHR 0x00) b"

text \<open>\<open>main\<close> of \<open>client.c\<close>; the first result is its exit code.\<close>

definition client_main :: "os \<Rightarrow> string \<Rightarrow> history \<Rightarrow> int \<times> string \<times> history" where
  "client_main os junk h =
     (case UDP_Open os 20000 h of (sd, h1) \<Rightarrow>
      case UDP_FillSockAddr os (Some ''localhost'') 10000 h1 of (rc, addrSnd, h2) \<Rightarrow>
      let message = sprintf junk ''hello world''; h3 = h2 @ [Said (c_str message)] in
      case UDP_Write os sd addrSnd message BUFFER_SIZE h3 of (rc, h4) \<Rightarrow>
      if rc < 0 then (1, message, h4 @ [Said ''failed to send'', Exit 1])
      else case UDP_Read os sd message BUFFER_SIZE (h4 @ [Said ''wait for reply'']) of (rc, message, addrRcv, h5) \<Rightarrow>
        (0, message, h5 @ [Said (c_str message), Exit 0]))"

text \<open>One pass of the loop of \<open>server.c\<close>. The buffers are in the block of the loop; their contents before are \<open>junk\<close> and
  \<open>junk2\<close>.\<close>

definition server_pass :: "os \<Rightarrow> string \<Rightarrow> string \<Rightarrow> int \<Rightarrow> history \<Rightarrow> history" where
  "server_pass os junk junk2 sd h =
     (case UDP_Read os sd junk BUFFER_SIZE (h @ [Said ''waiting'']) of (rc, message, addr, h1) \<Rightarrow>
      let h2 = h1 @ [Said (c_str message)] in
      if rc > 0 then
        let reply = sprintf junk2 ''goodbye world'' in
        case UDP_Write os sd addr reply BUFFER_SIZE h2 of (rc, h3) \<Rightarrow> h3 @ [Said ''reply'']
      else h2)"

text \<open>The loop does not end: \<open>k\<close> passes of it. \<open>junk k\<close> is the memory that pass \<open>k\<close> finds.\<close>

primrec server_loop :: "os \<Rightarrow> (nat \<Rightarrow> string \<times> string) \<Rightarrow> int \<Rightarrow> nat \<Rightarrow> history \<Rightarrow> history" where
  "server_loop os junk sd 0 h = h"
| "server_loop os junk sd (Suc k) h =
     (let h' = server_loop os junk sd k h in server_pass os (fst (junk k)) (snd (junk k)) sd h')"

definition server_main :: "os \<Rightarrow> (nat \<Rightarrow> string \<times> string) \<Rightarrow> nat \<Rightarrow> history \<Rightarrow> history" where
  "server_main os junk k h =
     (case UDP_Open os 10000 h of (sd, h1) \<Rightarrow> if sd > - 1 then server_loop os junk sd k h1 else h1 @ [Abort])"

section \<open>Descriptors\<close>

text \<open>The descriptors held after a history that began with those of \<open>D\<close>: opened, and no \<open>close\<close> called on them since.
  A \<open>close\<close> can report an error (\<open>EINTR\<close>, \<open>EIO\<close>), and then the manual leaves open whether the descriptor is still in use:
  it is not held any more, whatever \<open>close\<close> returned.\<close>

fun fd_event :: "event \<Rightarrow> int set \<Rightarrow> int set" where
  "fd_event (Socket fd) D = (if fd = - 1 then D else insert fd D)"
| "fd_event (Close fd r) D = D - {fd}"
| "fd_event e D = D"

definition held_fds :: "int set \<Rightarrow> history \<Rightarrow> int set" where
  "held_fds D h = fold fd_event h D"

lemma held_fds_snoc [simp]: "held_fds D (h @ [e]) = fd_event e (held_fds D h)"
  by (simp add: held_fds_def)

text \<open>What the calls promise: a new socket has a descriptor that nobody holds, \<open>bind\<close> and \<open>close\<close> return 0 or \<open>-1\<close>, \<open>recvfrom\<close>
  returns the number of bytes it wrote, at most as many as asked for, or \<open>-1\<close>.\<close>

definition posix :: "os \<Rightarrow> int set \<Rightarrow> bool" where
  "posix os D \<longleftrightarrow>
     (\<forall>h. sys_socket os h = - 1 \<or> 0 \<le> sys_socket os h \<and> sys_socket os h \<notin> held_fds D h) \<and>
     (\<forall>h fd a. sys_bind os h fd a = 0 \<or> sys_bind os h fd a = - 1) \<and>
     (\<forall>h fd. sys_close os h fd = 0 \<or> sys_close os h fd = - 1) \<and>
     (\<forall>h fd n. case sys_recvfrom os h fd n of (rc, bytes, a) \<Rightarrow>
        rc = int (length bytes) \<and> length bytes \<le> n \<or> rc = - 1 \<and> bytes = [])"

lemma posix_socket: "posix os D \<Longrightarrow> sys_socket os h \<noteq> - 1 \<Longrightarrow> 0 \<le> sys_socket os h \<and> sys_socket os h \<notin> held_fds D h"
  unfolding posix_def by blast

lemma posix_bind: "posix os D \<Longrightarrow> sys_bind os h fd a \<noteq> - 1 \<Longrightarrow> sys_bind os h fd a = 0"
  unfolding posix_def by blast

text \<open>The three outcomes of \<open>UDP_Open\<close>.\<close>

lemma UDP_Open_cases:
  assumes "UDP_Open os port h = (r, h')"
  obtains (no_socket) "sys_socket os h = - 1" "r = 0" "h' = h @ [Socket (- 1), Perror ''socket'']"
    | (no_bind) fd a b c where "fd = sys_socket os h" "fd \<noteq> - 1" "b = - 1" "r = - 1"
      "c = sys_close os (h @ [Socket fd, Bind fd a b, Perror ''bind'']) fd"
      "h' = h @ [Socket fd, Bind fd a b, Perror ''bind'', Close fd c]"
    | (bound) a b where "sys_socket os h \<noteq> - 1" "r = sys_socket os h" "b \<noteq> - 1" "b = sys_bind os (h @ [Socket r]) r a"
      "sin_family a = AF_INET" "ntohs (sin_port a) = port mod 65536" "sin_addr a = 0" "h' = h @ [Socket r, Bind r a b]"
proof (cases "sys_socket os h = - 1")
  case True
  with assms no_socket show thesis by (simp add: UDP_Open_def Let_def)
next
  case False
  define a where "a = bzero\<lparr>sin_family := AF_INET, sin_port := htons port, sin_addr := 0\<rparr>"
  define fd where "fd = sys_socket os h"
  define b where "b = sys_bind os (h @ [Socket fd]) fd a"
  show thesis
  proof (cases "b = - 1")
    case True
    with assms False have "r = - 1 \<and> h' = h @ [Socket fd, Bind fd a b, Perror ''bind'',
        Close fd (sys_close os (h @ [Socket fd, Bind fd a b, Perror ''bind'']) fd)]"
      by (auto simp add: UDP_Open_def Let_def a_def [symmetric] fd_def [symmetric] b_def [symmetric])
    with True False show thesis using no_bind [of fd b _ a] by (simp add: fd_def)
  next
    case bd: False
    then have r: "r = fd" "h' = h @ [Socket fd, Bind fd a b]" using assms False
      by (auto simp add: UDP_Open_def Let_def a_def [symmetric] fd_def [symmetric] b_def [symmetric])
    have "sin_family a = AF_INET" "ntohs (sin_port a) = port mod 65536" "sin_addr a = 0"
      by (simp_all add: a_def ntohs_htons)
    with r False bd show thesis by (intro bound [of b a]) (simp_all add: fd_def b_def)
  qed
qed

section \<open>The server\<close>

fun sent :: "event \<Rightarrow> (int \<times> string \<times> sockaddr_in) list" where
  "sent (SendTo fd b a rc) = [(fd, b, a)]"
| "sent e = []"

fun received :: "event \<Rightarrow> (int \<times> sockaddr_in) list" where
  "received (RecvFrom fd n rc b a) = (if rc > 0 then [(fd, a)] else [])"
| "received e = []"

fun reads :: "event \<Rightarrow> int list" where
  "reads (RecvFrom fd n rc b a) = [fd]"
| "reads e = []"

text \<open>What a history sent, received and read from.\<close>

definition sends :: "history \<Rightarrow> (int \<times> string \<times> sockaddr_in) list" where
  "sends h = concat (map sent h)"

definition arrivals :: "history \<Rightarrow> (int \<times> sockaddr_in) list" where
  "arrivals h = concat (map received h)"

definition read_fds :: "history \<Rightarrow> int list" where
  "read_fds h = concat (map reads h)"

named_theorems udp_events "what an event adds to the observations of a history"

lemma sends_simps [udp_events]: "sends [] = []" "sends (h @ g) = sends h @ sends g" "sends (e # g) = sent e @ sends g"
  by (simp_all add: sends_def)

lemma arrivals_simps [udp_events]:
  "arrivals [] = []" "arrivals (h @ g) = arrivals h @ arrivals g" "arrivals (e # g) = received e @ arrivals g"
  by (simp_all add: arrivals_def)

lemma read_fds_simps [udp_events]:
  "read_fds [] = []" "read_fds (h @ g) = read_fds h @ read_fds g" "read_fds (e # g) = reads e @ read_fds g"
  by (simp_all add: read_fds_def)

text \<open>The reply of a pass that finds the memory \<open>junk\<close>: the text, and then the memory as it was.\<close>

definition goodbye :: string where
  "goodbye = ''goodbye world''"

definition reply_of :: "string \<Rightarrow> string" where
  "reply_of junk = take BUFFER_SIZE (sprintf junk goodbye)"

lemma c_str_sprintf: "CHR 0x00 \<notin> set msg \<Longrightarrow> c_str (sprintf junk msg) = msg"
  unfolding c_str_def sprintf_def append_assoc by (subst takeWhile_append2) auto

lemma reply_of_text: "c_str (reply_of junk) = goodbye"
proof -
  have "reply_of junk = sprintf (take BUFFER_SIZE junk) goodbye"
    by (simp add: reply_of_def sprintf_def goodbye_def BUFFER_SIZE_def take_drop)
  then show ?thesis by (simp add: c_str_sprintf goodbye_def)
qed

lemma reply_of_rest:
  assumes "length junk = BUFFER_SIZE"
  shows "length (reply_of junk) = BUFFER_SIZE" "drop 14 (reply_of junk) = drop 14 junk"
  using assms by (simp_all add: reply_of_def sprintf_def goodbye_def BUFFER_SIZE_def numeral_eq_Suc)

lemma server_pass_events:
  obtains evs where "server_pass os junk junk2 sd h = h @ evs" "read_fds evs = [sd]"
    "sends evs = map (\<lambda>(fd, a). (fd, reply_of junk2, a)) (arrivals evs)"
    "\<And>fd b a. (fd, b, a) \<in> set (sends evs) \<Longrightarrow> fd = sd" 
proof -
  obtain rc bytes addr where r: "sys_recvfrom os (h @ [Said ''waiting'']) sd BUFFER_SIZE = (rc, bytes, addr)"
    by (cases "sys_recvfrom os (h @ [Said ''waiting'']) sd BUFFER_SIZE")
  show thesis
  proof (cases "rc > 0")
    case True
    with r that show thesis
      by (fastforce simp: server_pass_def UDP_Read_def UDP_Write_def Let_def udp_events reply_of_def goodbye_def)
  next
    case False
    with r that show thesis by (fastforce simp: server_pass_def UDP_Read_def Let_def udp_events)
  qed
qed

lemma server_loop_events:
  shows "\<exists>evs. server_loop os junk sd k h = h @ evs \<and> read_fds evs = replicate k sd \<and>
    length (sends evs) = length (arrivals evs) \<and>
    (\<forall>i<length (sends evs). \<exists>j<k. sends evs ! i = (sd, reply_of (snd (junk j)), snd (arrivals evs ! i)))"
proof (induction k)
  case 0
  show ?case by (simp add: udp_events)
next
  case (Suc k)
  then obtain evs where e: "server_loop os junk sd k h = h @ evs" "read_fds evs = replicate k sd"
    "length (sends evs) = length (arrivals evs)"
    "\<forall>i<length (sends evs). \<exists>j<k. sends evs ! i = (sd, reply_of (snd (junk j)), snd (arrivals evs ! i))" by blast
  obtain fs where f: "server_pass os (fst (junk k)) (snd (junk k)) sd (h @ evs) = (h @ evs) @ fs" "read_fds fs = [sd]"
    "sends fs = map (\<lambda>(fd, a). (fd, reply_of (snd (junk k)), a)) (arrivals fs)"
    "\<And>fd b a. (fd, b, a) \<in> set (sends fs) \<Longrightarrow> fd = sd" 
    using server_pass_events [of os "fst (junk k)" "snd (junk k)" sd "h @ evs"] by blast
  have l: "length (sends fs) = length (arrivals fs)" using f(3) by simp
  have "\<exists>j<Suc k. sends (evs @ fs) ! i = (sd, reply_of (snd (junk j)), snd (arrivals (evs @ fs) ! i))"
    if i: "i < length (sends (evs @ fs))" for i
  proof (cases "i < length (sends evs)")
    case True
    then obtain j where j: "j < k" "sends evs ! i = (sd, reply_of (snd (junk j)), snd (arrivals evs ! i))" using e(4) by blast
    have "sends (evs @ fs) ! i = sends evs ! i" "arrivals (evs @ fs) ! i = arrivals evs ! i"
      using True e(3) by (simp_all add: udp_events nth_append)
    with j show ?thesis using less_SucI by metis
  next
    case False
    define m where "m = i - length (sends evs)"
    have m: "m < length (sends fs)" using i False by (simp add: m_def udp_events)
    obtain fd a where a: "arrivals fs ! m = (fd, a)" by fastforce
    then have n: "sends fs ! m = (fd, reply_of (snd (junk k)), a)" using f(3) m by simp
    then have "fd = sd" using f(4) nth_mem [OF m] by metis
    with n a False e(3) show ?thesis by (auto simp: udp_events nth_append m_def)
  qed
  with e f l have "server_loop os junk sd (Suc k) h = h @ (evs @ fs) \<and> read_fds (evs @ fs) = replicate (Suc k) sd \<and>
    length (sends (evs @ fs)) = length (arrivals (evs @ fs)) \<and>
    (\<forall>i<length (sends (evs @ fs)). \<exists>j<Suc k. sends (evs @ fs) ! i = (sd, reply_of (snd (junk j)), snd (arrivals (evs @ fs) ! i)))"
    by (simp add: Let_def udp_events replicate_append_same)
  then show ?case by blast
qed

section \<open>Properties\<close>

text \<open>C21: the errors of UDP_Open and UDP_FillSockAddr, for any system whose calls keep to their manual pages, with
  descriptor 0 open: UDP_Open returns 0 exactly when there is no socket, something negative exactly when the port cannot
  be bound, and then it has called close, once, on the descriptor it opened and does not look whether close succeeds: in both
  cases it leaves no descriptor behind on which close was not called. Otherwise it returns a new descriptor, bound to the port
  (its low 16 bits) on every address. UDP_FillSockAddr fails exactly when a name is given that cannot be resolved, and
  otherwise leaves the port and the address of the name, or zeros.\<close>

theorem udp_errors:
  assumes "posix os D" "0 \<in> held_fds D h" "UDP_Open os port h = (r, h')" "UDP_FillSockAddr os name port g = (rc, addr, g')"
  shows "(r = 0 \<longleftrightarrow> sys_socket os h = - 1) \<and>
    (r < 0 \<longleftrightarrow> sys_socket os h \<noteq> - 1 \<and> (\<exists>a. Bind (sys_socket os h) a (- 1) \<in> set (drop (length h) h'))) \<and>
    (r < 0 \<longrightarrow> (\<exists>fd a c. h' = h @ [Socket fd, Bind fd a (- 1), Perror ''bind'', Close fd c] \<and> fd \<notin> held_fds D h)) \<and>
    (r \<le> 0 \<longrightarrow> held_fds D h' = held_fds D h) \<and>
    (0 < r \<longrightarrow> r \<notin> held_fds D h \<and> held_fds D h' = insert r (held_fds D h) \<and>
      (\<exists>a. h' = h @ [Socket r, Bind r a 0] \<and> sin_family a = AF_INET \<and> ntohs (sin_port a) = port mod 65536 \<and> sin_addr a = 0)) \<and>
    (rc = (if \<exists>x. name = Some x \<and> gethostbyname os g x = None then - 1 else 0)) \<and>
    (rc = 0 \<longrightarrow> (case name of None \<Rightarrow> addr = bzero
       | Some x \<Rightarrow> gethostbyname os g x = Some (sin_addr addr) \<and> ntohs (sin_port addr) = port mod 65536))"
proof -
  have fill: "(rc = (if \<exists>x. name = Some x \<and> gethostbyname os g x = None then - 1 else 0)) \<and>
    (rc = 0 \<longrightarrow> (case name of None \<Rightarrow> addr = bzero
       | Some x \<Rightarrow> gethostbyname os g x = Some (sin_addr addr) \<and> ntohs (sin_port addr) = port mod 65536))"
    using assms(4) by (auto simp: UDP_FillSockAddr_def Let_def ntohs_htons split: option.splits)
  from assms(3) show ?thesis
  proof (cases rule: UDP_Open_cases)
    case no_socket
    then have "held_fds D h' = held_fds D h" by (simp add: held_fds_def)
    with no_socket fill show ?thesis by simp
  next
    case (no_bind fd a b c)
    have fd: "0 \<le> fd" "fd \<notin> held_fds D h" using posix_socket [OF assms(1), of h] no_bind by simp_all
    have "held_fds D h' = held_fds D h" using no_bind fd by (simp add: held_fds_def)
    moreover have "\<exists>fd a c. h' = h @ [Socket fd, Bind fd a (- 1), Perror ''bind'', Close fd c] \<and> fd \<notin> held_fds D h"
      using no_bind fd by blast
    ultimately show ?thesis using no_bind fill by auto
  next
    case (bound a b)
    have fd: "0 \<le> r" "r \<notin> held_fds D h" using posix_socket [OF assms(1), of h] bound by simp_all
    then have "0 < r" using assms(2) by (cases "r = 0") auto
    moreover have "b = 0" using posix_bind [OF assms(1)] bound(3,4) by blast
    moreover have "held_fds D h' = insert r (held_fds D h)" using bound by (simp add: held_fds_def)
    ultimately show ?thesis using bound fd fill by auto
  qed
qed

text \<open>A system with one free descriptor, on which only the port 10000 can be bound, where \<open>close\<close> reports an error, that knows
  one name, and from which nothing can be read.\<close>

definition small_os :: os where
  "small_os = \<lparr>sys_socket = (\<lambda>h. if 3 \<in> held_fds {0, 1, 2} h then - 1 else 3),
     sys_bind = (\<lambda>h fd a. if ntohs (sin_port a) = 10000 then 0 else - 1), sys_close = (\<lambda>h fd. - 1),
     gethostbyname = (\<lambda>h x. if x = ''localhost'' then Some 2130706433 else None), sys_sendto = (\<lambda>h fd b a. int (length b)),
     sys_recvfrom = (\<lambda>h fd n. (- 1, [], bzero))\<rparr>"

lemma small_os_posix: "posix small_os {0, 1, 2}"
  by (simp add: posix_def small_os_def)

theorem udp_errors_witness:
  "(\<exists>h. UDP_Open small_os 75536 [] = (3, h) \<and> held_fds {0, 1, 2} h = insert 3 {0, 1, 2}) \<and>
   (\<exists>h. UDP_Open small_os 20000 [] = (- 1, h) \<and> held_fds {0, 1, 2} h = {0, 1, 2}) \<and>
   (\<exists>a g. UDP_FillSockAddr small_os (Some ''nowhere'') 80 [] = (- 1, a, g))"
proof -
  have o: "held_fds D [] = D" for D by (simp add: held_fds_def)
  obtain r h rc a g where 1: "UDP_Open small_os 75536 [] = (r, h)" "UDP_FillSockAddr small_os (Some ''nowhere'') 75536 [] = (rc, a, g)"
    using prod_cases3 prod.exhaust by metis
  obtain r' h' rc' a' g' where 2: "UDP_Open small_os 20000 [] = (r', h')" "UDP_FillSockAddr small_os (Some ''nowhere'') 20000 [] = (rc', a', g')"
    using prod_cases3 prod.exhaust by metis
  obtain a'' g'' where 3: "UDP_FillSockAddr small_os (Some ''nowhere'') 80 [] = (- 1, a'', g'')"
    by (simp add: UDP_FillSockAddr_def small_os_def)
  have "UDP_Open small_os 75536 [] = (3, [Socket 3, Bind 3 (bzero\<lparr>sin_family := AF_INET, sin_port := htons 75536\<rparr>) 0])"
    by (simp add: UDP_Open_def small_os_def Let_def o ntohs_htons bzero_def)
  moreover have "fst (UDP_Open small_os 20000 []) = - 1"
    by (simp add: UDP_Open_def small_os_def Let_def o ntohs_htons)
  ultimately have "r = 3" "r' = - 1" using 1(1) 2(1) by simp_all
  moreover have "0 < r \<longrightarrow> held_fds {0, 1, 2} h = insert r (held_fds {0, 1, 2} [])"
    using udp_errors [OF small_os_posix _ 1] by (simp add: o)
  moreover have "r' \<le> 0 \<longrightarrow> held_fds {0, 1, 2} h' = held_fds {0, 1, 2} []"
    using udp_errors [OF small_os_posix _ 2] by (simp add: o)
  ultimately show ?thesis using 1(1) 2(1) 3 by (simp add: o)
qed

text \<open>C22: the server replies exactly to the senders of what it received, in order, and to nobody else: a run of any number
  of passes reads once in each from its descriptor, sends one reply for each read that brought something, over the same
  descriptor, and every reply reads "goodbye world".\<close>

theorem server_replies:
  assumes "server_main os junk k h = h'" "UDP_Open os 10000 h = (sd, h1)" "0 < sd"
  shows "\<exists>evs. h' = h1 @ evs \<and> read_fds evs = replicate k sd \<and>
    map (\<lambda>(fd, b, a). (fd, c_str b, a)) (sends evs) = map (\<lambda>(fd, a). (sd, goodbye, a)) (arrivals evs)"
proof -
  have "h' = server_loop os junk sd k h1" using assms by (simp add: server_main_def)
  then obtain evs where e: "h' = h1 @ evs" "read_fds evs = replicate k sd" "length (sends evs) = length (arrivals evs)"
    "\<forall>i<length (sends evs). \<exists>j<k. sends evs ! i = (sd, reply_of (snd (junk j)), snd (arrivals evs ! i))"
    using server_loop_events [of os junk sd k h1] by blast
  have "map (\<lambda>(fd, b, a). (fd, c_str b, a)) (sends evs) = map (\<lambda>(fd, a). (sd, goodbye, a)) (arrivals evs)"
  proof (rule nth_equalityI)
    show "length (map (\<lambda>(fd, b, a). (fd, c_str b, a)) (sends evs)) = length (map (\<lambda>(fd, a). (sd, goodbye, a)) (arrivals evs))"
      using e(3) by simp
  next
    fix i
    assume i: "i < length (map (\<lambda>(fd, b, a). (fd, c_str b, a)) (sends evs))"
    then obtain j where "sends evs ! i = (sd, reply_of (snd (junk j)), snd (arrivals evs ! i))" using e(4) by auto
    then show "map (\<lambda>(fd, b, a). (fd, c_str b, a)) (sends evs) ! i = map (\<lambda>(fd, a). (sd, goodbye, a)) (arrivals evs) ! i"
      using i e(3) by (simp add: reply_of_text split_beta)
  qed
  with e show ?thesis by blast
qed

definition echo_os :: os where
  "echo_os = small_os\<lparr>sys_recvfrom := (\<lambda>h fd n. (2, ''hi'', bzero\<lparr>sin_addr := 1\<rparr>))\<rparr>"

theorem server_replies_witness:
  "\<exists>h' h1 evs. server_main echo_os (\<lambda>_. ([], [])) 2 [] = h' \<and> UDP_Open echo_os 10000 [] = (3, h1) \<and> h' = h1 @ evs \<and>
     read_fds evs = [3, 3] \<and> map (\<lambda>(fd, b, a). (fd, c_str b, a)) (sends evs) = map (\<lambda>(fd, a). (3, goodbye, a)) (arrivals evs)"
proof -
  have "held_fds D [] = D" for D by (simp add: held_fds_def)
  then have "fst (UDP_Open echo_os 10000 []) = 3"
    by (simp add: UDP_Open_def small_os_def echo_os_def Let_def ntohs_htons)
  then obtain h1 where o: "UDP_Open echo_os 10000 [] = (3, h1)" by (metis prod.collapse)
  from server_replies [OF refl this, of "\<lambda>_. ([], [])" 2] o show ?thesis by (auto simp: numeral_2_eq_2)
qed

text \<open>The assertion of the server accepts the 0 that \<open>UDP_Open\<close> returns when there is no socket: the server then reads
  its standard input as if it were one.\<close>

theorem server_no_socket:
  assumes "sys_socket os h = - 1"
  shows "\<exists>evs. server_main os junk k h = h @ evs \<and> read_fds evs = replicate k 0"
proof -
  obtain evs where "server_loop os junk 0 k (h @ [Socket (- 1), Perror ''socket'']) = (h @ [Socket (- 1), Perror ''socket'']) @ evs"
      "read_fds evs = replicate k 0" using server_loop_events [of os junk 0 k] by blast
  with assms have "server_main os junk k h = h @ ([Socket (- 1), Perror ''socket''] @ evs) \<and>
      read_fds ([Socket (- 1), Perror ''socket''] @ evs) = replicate k 0"
    by (simp add: server_main_def UDP_Open_def Let_def udp_events)
  then show ?thesis by blast
qed

text \<open>Every reply carries what the stack held behind the text to the client.\<close>

theorem reply_leaks: "length junk = BUFFER_SIZE \<Longrightarrow> drop 14 (reply_of junk) = drop 14 junk"
  by (rule reply_of_rest)

text \<open>The client checks neither \<open>UDP_Open\<close> nor \<open>UDP_FillSockAddr\<close>: with no socket and no address it sends to the address
  0.0.0.0 over its standard input, and ends with code 1 only because the system refuses that.\<close>

theorem client_no_checks:
  assumes "sys_socket os h = - 1" "\<And>h. gethostbyname os h ''localhost'' = None"
    "client_main os junk h = (code, message, h')"
  shows "\<exists>addr rc. sends (drop (length h) h') = [(0, take BUFFER_SIZE (sprintf junk ''hello world''), addr)] \<and> sin_addr addr = 0 \<and>
    (code = 1 \<longleftrightarrow> rc < 0) \<and> SendTo 0 (take BUFFER_SIZE (sprintf junk ''hello world'')) addr rc \<in> set h'"
proof -
  let ?m = "sprintf junk ''hello world''" and ?a = "bzero\<lparr>sin_family := AF_INET, sin_port := htons 10000\<rparr>"
  let ?h = "h @ [Socket (- 1), Perror ''socket'', Resolve ''localhost'' None, Perror ''gethostbyname'', Said (c_str ?m)]"
  define rc where "rc = sys_sendto os ?h 0 (take BUFFER_SIZE ?m) ?a"
  let ?e = "SendTo 0 (take BUFFER_SIZE ?m) ?a rc"
  have "\<exists>evs. h' = ?h @ [?e] @ evs \<and> sends evs = [] \<and> (code = 1 \<longleftrightarrow> rc < 0)"
    using assms by (auto simp: client_main_def UDP_Open_def UDP_FillSockAddr_def UDP_Write_def UDP_Read_def Let_def
        rc_def [symmetric] udp_events split: if_splits prod.splits)
  then obtain evs where e: "h' = ?h @ [?e] @ evs" "sends evs = []" "code = 1 \<longleftrightarrow> rc < 0" by blast
  have "sends (drop (length h) h') = [(0, take BUFFER_SIZE ?m, ?a)]" using e(2) unfolding e(1) by (simp add: udp_events)
  moreover have "sin_addr ?a = 0" by (simp add: bzero_def)
  moreover have "?e \<in> set h'" unfolding e(1) by simp
  ultimately show ?thesis using e(3) by blast
qed

end
