(* ===== verification/Once_Init.thy ===== *)
theory Once_Init
  imports Sync_Prelude
begin

text \<open>
  \<open>threads-locks/Singleton & thread safety\<close>: initialisation that happens once. \<open>Singleton::getInstance\<close> uses
  \<open>std::call_once\<close>, \<open>MeyerSingleton::getInstance\<close> a static variable of a block, \<open>do_once\<close> prints a line.

  \<open>std::call_once\<close> and the initialisation of a static variable of a block follow one protocol, which is the one the
  standard prescribes: the first thread to come runs the initialiser while the others wait; if it ends, nobody runs it
  again; if it throws, its caller gets the exception and the next thread tries. The initialiser is a parameter: with the
  choice \<open>c\<close> (does the allocation succeed) it gives the new data or throws (\<open>None\<close>). The data is touched only by the
  thread that runs the initialiser and by threads for which it has ended, so its run is one step.
\<close>

datatype once_flag = Fresh | Running tid | Over

datatype 'r gpos = GCall | GInit | GAfter | GRet 'r | GThrow

record ('x, 'r) once =
  flag :: once_flag
  data :: 'x
  gpos :: "tid \<Rightarrow> 'r gpos"

definition once_main :: "'x \<Rightarrow> ('x, 'r) once" where
  "once_main x = \<lparr>flag = Fresh, data = x, gpos = (\<lambda>_. GCall)\<rparr>"

definition g_at :: "tid \<Rightarrow> 'r gpos \<Rightarrow> ('x, 'r) once \<Rightarrow> ('x, 'r) once" where
  "g_at t p s = s\<lparr>gpos := (gpos s)(t := p)\<rparr>"

text \<open>A thread at the call, in the initialiser, and after it, where it computes its result from the data.\<close>

definition call_once :: "('c \<Rightarrow> 'x \<Rightarrow> 'x option) \<Rightarrow> ('x \<Rightarrow> 'r) \<Rightarrow> tid \<Rightarrow> 'c \<Rightarrow> ('x, 'r) once \<Rightarrow> ('x, 'r) once option" where
  "call_once init res t c s =
     (case gpos s t of
        GCall \<Rightarrow> (case flag s of
            Fresh \<Rightarrow> Some (g_at t GInit (s\<lparr>flag := Running t\<rparr>))
          | Running u \<Rightarrow> None
          | Over \<Rightarrow> Some (g_at t GAfter s))
      | GInit \<Rightarrow> (case init c (data s) of
            None \<Rightarrow> Some (g_at t GThrow (s\<lparr>flag := Fresh\<rparr>))
          | Some x \<Rightarrow> Some (g_at t GAfter (s\<lparr>flag := Over, data := x\<rparr>)))
      | GAfter \<Rightarrow> Some (g_at t (GRet (res (data s))) s)
      | _ \<Rightarrow> None)"

definition once_step :: "nat \<Rightarrow> ('c \<Rightarrow> 'x \<Rightarrow> 'x option) \<Rightarrow> ('x \<Rightarrow> 'r) \<Rightarrow> tid \<times> 'c \<Rightarrow> ('x, 'r) once \<Rightarrow> ('x, 'r) once option" where
  "once_step n init res l s = (if fst l < n then call_once init res (fst l) (snd l) s else None)"

section \<open>The initialisers\<close>

text \<open>The pointer \<open>instance\<close> and the objects that have been allocated; an address is their number, the null pointer \<open>None\<close>.
  The choice says whether \<open>new\<close> succeeds.\<close>

record singleton =
  instance_ptr :: "nat option"
  allocated :: nat

definition no_singleton :: singleton where
  "no_singleton = \<lparr>instance_ptr = None, allocated = 0\<rparr>"

definition initInstance :: "bool \<Rightarrow> singleton \<Rightarrow> singleton option" where
  "initInstance ok x = (if ok then Some \<lparr>instance_ptr = Some (allocated x), allocated = allocated x + 1\<rparr> else None)"

definition getInstance :: "nat \<Rightarrow> tid \<times> bool \<Rightarrow> (singleton, nat option) once \<Rightarrow> (singleton, nat option) once option" where
  "getInstance n = once_step n initInstance instance_ptr"

definition MeyerSingleton_getInstance ::
  "nat \<Rightarrow> tid \<times> bool \<Rightarrow> (singleton, nat option) once \<Rightarrow> (singleton, nat option) once option" where
  "MeyerSingleton_getInstance n =
     once_step n (\<lambda>ok x. if ok then Some \<lparr>instance_ptr = Some (allocated x), allocated = allocated x + 1\<rparr> else None) instance_ptr"

text \<open>\<open>main\<close> of \<open>Singleton.cpp\<close>: two calls, one after the other, whose results it prints. An exception ends the program.\<close>

definition singleton_main :: "bool \<Rightarrow> (nat option \<times> nat option) option" where
  "singleton_main ok =
     (case exec (MeyerSingleton_getInstance 2) [(0, ok), (0, ok), (0, ok), (1, ok), (1, ok)] (once_main no_singleton) of
        None \<Rightarrow> None
      | Some s \<Rightarrow> (case (gpos s 0, gpos s 1) of (GRet p, GRet q) \<Rightarrow> Some (p, q) | _ \<Rightarrow> None))"

definition print_once :: "unit \<Rightarrow> string list \<Rightarrow> string list option" where
  "print_once c out = Some (out @ [''Only once.''])"

definition do_once :: "nat \<Rightarrow> tid \<times> unit \<Rightarrow> (string list, unit) once \<Rightarrow> (string list, unit) once option" where
  "do_once n = once_step n print_once (\<lambda>_. ())"

section \<open>Invariant\<close>

fun once_ok :: "bool \<Rightarrow> ('x \<Rightarrow> 'r) \<Rightarrow> once_flag \<Rightarrow> 'x \<Rightarrow> tid \<Rightarrow> 'r gpos \<Rightarrow> bool" where
  "once_ok b res f x t GCall = True"
| "once_ok b res f x t GInit = (f = Running t)"
| "once_ok b res f x t GAfter = (f = Over)"
| "once_ok b res f x t (GRet r) = (f = Over \<and> r = res x)"
| "once_ok b res f x t GThrow = b"

definition once_inv :: "nat \<Rightarrow> ('c \<Rightarrow> 'x \<Rightarrow> 'x option) \<Rightarrow> ('x \<Rightarrow> 'r) \<Rightarrow> 'x \<Rightarrow> ('x, 'r) once \<Rightarrow> bool" where
  "once_inv n init res x0 s \<longleftrightarrow>
     (if flag s = Over then \<exists>c. init c x0 = Some (data s) else data s = x0) \<and>
     (\<forall>t. flag s = Running t \<longrightarrow> t < n \<and> gpos s t = GInit) \<and>
     (\<forall>t<n. once_ok (\<exists>c. init c x0 = None) res (flag s) (data s) t (gpos s t))"

lemma once_inv_init: "once_inv n init res x0 (once_main x0)"
  by (simp add: once_inv_def once_main_def)

lemma once_inv_step:
  assumes inv: "once_inv n init res x0 s" and step: "once_step n init res l s = Some u"
  shows "once_inv n init res x0 u"
proof -
  obtain t c where l: "l = (t, c)" by (cases l)
  with step have t: "t < n" "call_once init res t c s = Some u" by (auto simp: once_step_def split: if_splits)
  have ok: "once_ok (\<exists>c. init c x0 = None) res (flag s) (data s) v (gpos s v)" if "v < n" for v using inv that by (simp add: once_inv_def)
  have run: "flag s = Running v \<Longrightarrow> v < n \<and> gpos s v = GInit" for v using inv by (simp add: once_inv_def)
  have dat: "if flag s = Over then \<exists>c. init c x0 = Some (data s) else data s = x0" using inv by (simp add: once_inv_def)
  show ?thesis
  proof (cases "gpos s t")
    case GCall
    then have no: "flag s \<noteq> Running t" using run [of t] by auto
    show ?thesis
    proof (cases "flag s")
      case Fresh
      have "once_ok (\<exists>c. init c x0 = None) res (Running t) (data s) v (gpos s v)" if "v < n" for v
        using ok [OF that] Fresh by (cases "gpos s v") auto
      with Fresh GCall t dat show ?thesis by (auto simp: call_once_def g_at_def once_inv_def)
    next
      case (Running v)
      then show ?thesis using GCall t by (simp add: call_once_def)
    next
      case Over
      with GCall t ok dat show ?thesis by (auto simp: call_once_def g_at_def once_inv_def)
    qed
  next
    case GInit
    then have f: "flag s = Running t" "data s = x0" using ok [OF t(1)] dat by auto
    have pos: "gpos s v = GCall \<or> gpos s v = GThrow \<and> (\<exists>c. init c x0 = None)" if "v < n" "v \<noteq> t" for v
      using ok [OF that(1)] f that(2) by (cases "gpos s v") auto
    have other: "once_ok (\<exists>c. init c x0 = None) res g y v (gpos s v)" if "v < n" "v \<noteq> t" for v g y using pos [OF that] by auto
    show ?thesis
    proof (cases "init c x0")
      case None
      with GInit t f other show ?thesis by (auto simp: call_once_def g_at_def once_inv_def)
    next
      case (Some y)
      with GInit t f other show ?thesis by (auto simp: call_once_def g_at_def once_inv_def)
    qed
  next
    case GAfter
    then have "flag s = Over" using ok [OF t(1)] by simp
    with GAfter t ok dat show ?thesis by (auto simp: call_once_def g_at_def once_inv_def)
  next
    case (GRet r)
    then show ?thesis using t by (simp add: call_once_def)
  next
    case GThrow
    then show ?thesis using t by (simp add: call_once_def)
  qed
qed

fun gpos_rank :: "'r gpos \<Rightarrow> nat" where
  "gpos_rank GCall = 3"
| "gpos_rank GInit = 2"
| "gpos_rank GAfter = 1"
| "gpos_rank p = 0"

definition once_rank :: "nat \<Rightarrow> ('x, 'r) once \<Rightarrow> nat" where
  "once_rank n s = (\<Sum>t<n. gpos_rank (gpos s t))"

fun got_out :: "'r gpos \<Rightarrow> bool" where
  "got_out (GRet r) = True"
| "got_out GThrow = True"
| "got_out p = False"

definition once_ended :: "nat \<Rightarrow> ('x, 'r) once \<Rightarrow> bool" where
  "once_ended n s \<longleftrightarrow> (\<forall>t<n. got_out (gpos s t))"

lemma once_rank_step:
  assumes "once_step n init res l s = Some u"
  shows "once_rank n u < once_rank n s"
proof -
  have t: "fst l < n" "call_once init res (fst l) (snd l) s = Some u" using assms by (auto simp: once_step_def split: if_splits)
  have "gpos_rank (gpos u (fst l)) < gpos_rank (gpos s (fst l)) \<and> (\<forall>v. v \<noteq> fst l \<longrightarrow> gpos u v = gpos s v)"
    using t(2) by (cases "gpos s (fst l)") (auto simp: call_once_def g_at_def split: once_flag.splits option.splits)
  then show ?thesis unfolding once_rank_def by (intro sum_decreases [OF t(1)]) auto
qed

lemma once_progress:
  assumes inv: "once_inv n init res x0 s" and "\<not> once_ended n s"
  shows "\<exists>l u. once_step n init res l s = Some u"
proof -
  obtain t where t: "t < n" "\<not> got_out (gpos s t)" using assms(2) by (auto simp: once_ended_def)
  have init_moves: "\<exists>l u. once_step n init res l s = Some u" if "v < n" "gpos s v = GInit" for v
  proof -
    fix c :: 'a
    have "once_step n init res (v, c) s \<noteq> None" using that by (simp add: once_step_def call_once_def split: option.split)
    then show ?thesis by blast
  qed
  have go: ?thesis if "call_once init res t undefined s \<noteq> None"
    using that t(1) by (intro exI [of _ "(t, undefined)"]) (auto simp: once_step_def)
  show ?thesis
  proof (cases "gpos s t")
    case GCall
    then show ?thesis
    proof (cases "flag s")
      case (Running v)
      then show ?thesis using inv init_moves [of v] by (simp add: once_inv_def)
    qed (use GCall go in \<open>auto simp: call_once_def\<close>)
  next
    case GInit
    with t init_moves show ?thesis by blast
  next
    case GAfter
    then show ?thesis using go by (simp add: call_once_def)
  qed (use t in auto)
qed

interpretation once: finite_machine "once_step n init res" "once_main x0" "once_inv n init res x0" "once_ended n" "once_rank n"
  for n :: nat and init :: "'c \<Rightarrow> 'x \<Rightarrow> 'x option" and res :: "'x \<Rightarrow> 'r" and x0 :: 'x
proof (unfold_locales, goal_cases)
  case 1
  show ?case by (rule once_inv_init)
next
  case (2 s l t)
  then show ?case by (rule once_inv_step)
next
  case (3 s)
  then show ?case by (rule once_progress)
next
  case (4 s l t)
  then show ?case by (intro once_rank_step)
qed

lemma once_results:
  assumes inv: "once_inv n init res x0 s" and t: "t < n" "gpos s t = GRet r"
  shows "\<exists>c. init c x0 = Some (data s) \<and> r = res (data s)"
proof -
  have "once_ok (\<exists>c. init c x0 = None) res (flag s) (data s) t (gpos s t)" using inv t(1) unfolding once_inv_def by blast
  then have "flag s = Over" "r = res (data s)" using t(2) by simp_all
  with inv show ?thesis by (simp add: once_inv_def)
qed

lemma once_data: "once_inv n init res x0 s \<Longrightarrow> data s = x0 \<or> (\<exists>c. init c x0 = Some (data s))"
  by (auto simp: once_inv_def split: if_splits)

lemma initInstance_first: "initInstance c no_singleton = Some x \<Longrightarrow> instance_ptr x = Some 0 \<and> allocated x = 1"
  by (auto simp: initInstance_def no_singleton_def split: if_splits)

lemma Meyer_same: "MeyerSingleton_getInstance n = getInstance n"
  by (simp add: MeyerSingleton_getInstance_def getInstance_def initInstance_def [abs_def])

text \<open>A thread throws only out of its own run of the initialiser.\<close>

lemma once_step_throw:
  assumes "once_step n init res l s = Some u" "gpos u t = GThrow" "gpos s t \<noteq> GThrow"
  shows "\<exists>c. l = (t, c) \<and> gpos s t = GInit \<and> init c (data s) = None"
proof -
  have c: "call_once init res (fst l) (snd l) s = Some u" using assms(1) by (simp add: once_step_def split: if_splits)
  then have t: "fst l = t" using assms(2,3)
    by (auto simp: call_once_def g_at_def split: gpos.splits once_flag.splits option.splits if_splits)
  then have "gpos s t = GInit \<and> init (snd l) (data s) = None" using c assms(2)
    by (auto simp: call_once_def g_at_def split: gpos.splits once_flag.splits option.splits)
  with t show ?thesis by (intro exI [of _ "snd l"]) auto
qed

lemma once_throws:
  assumes "exec (once_step n init res) ls s0 = Some s" "gpos s t = GThrow" "gpos s0 t \<noteq> GThrow"
  shows "\<exists>as c bs q. ls = as @ (t, c) # bs \<and> exec (once_step n init res) as s0 = Some q \<and> gpos q t = GInit \<and> init c (data q) = None"
  using assms
proof (induction ls arbitrary: s0)
  case Nil
  then show ?case by simp
next
  case (Cons l ls)
  then obtain u where u: "once_step n init res l s0 = Some u" "exec (once_step n init res) ls u = Some s"
    by (auto split: option.splits)
  show ?case
  proof (cases "gpos u t = GThrow")
    case True
    then obtain c where "l = (t, c)" "gpos s0 t = GInit" "init c (data s0) = None"
      using once_step_throw [OF u(1)] Cons.prems(3) by blast
    then show ?thesis by (intro exI [of _ "[]"] exI [of _ c] exI [of _ ls] exI [of _ s0]) simp
  next
    case False
    from Cons.IH [OF u(2) Cons.prems(2) False] obtain as c bs q where
      "ls = as @ (t, c) # bs" "exec (once_step n init res) as u = Some q" "gpos q t = GInit" "init c (data q) = None" by blast
    then show ?thesis using u(1) by (intro exI [of _ "l # as"] exI [of _ c] exI [of _ bs] exI [of _ q]) simp
  qed
qed

section \<open>Property\<close>

text \<open>C12: both singletons and do_once, with any number of threads: at most one object is ever allocated, all calls that
  return give the same pointer, which is not null, and a call ends with an exception only when its own thread was running the
  initialiser and its own allocation failed: a thread that waits never gets another one's exception. The line of
  do_once is printed at most once. Every interleaving ends after at most three steps per thread, and then every call has returned
  or thrown, and the line has been printed if there was a thread to do it.\<close>

theorem once_correct:
  assumes "exec g ls (once_main no_singleton) = Some s" "g = getInstance n \<or> g = MeyerSingleton_getInstance n"
    "exec (do_once n) ms (once_main []) = Some d"
  shows "allocated (data s) \<le> 1 \<and> length ls \<le> 3 * n \<and>
    (t < n \<and> u < n \<and> gpos s t = GRet p \<and> gpos s u = GRet q \<longrightarrow> p = q \<and> p \<noteq> None) \<and>
    (gpos s t = GThrow \<longrightarrow>
      (\<exists>as bs v. ls = as @ (t, False) # bs \<and> exec g as (once_main no_singleton) = Some v \<and> gpos v t = GInit)) \<and>
    ((\<forall>l. g l s = None) \<longrightarrow> (\<forall>t<n. got_out (gpos s t))) \<and>
    length ms \<le> 3 * n \<and> (data d = [] \<or> data d = [''Only once.'']) \<and>
    ((\<forall>l. do_once n l d = None) \<and> 0 < n \<longrightarrow> data d = [''Only once.''])"
proof -
  have g: "g = once_step n initInstance instance_ptr" using assms(2) Meyer_same [of n] by (auto simp: getInstance_def)
  note e = assms(1) [unfolded g]
  note rs = reachI [OF e] and rd = reachI [OF assms(3), unfolded do_once_def]
  note si = once.reach_inv [OF rs] and di = once.reach_inv [OF rd]
  have "once_rank n (once_main x) = 3 * n" for x :: 'x by (simp add: once_rank_def once_main_def)
  then have len: "length ls \<le> 3 * n" "length ms \<le> 3 * n"
    using once.run_bound e assms(3) unfolding do_once_def by (metis (no_types))+
  have 1: "allocated (data s) \<le> 1"
    using once_data [OF si] initInstance_first [of _ "data s"] by (auto simp: no_singleton_def)
  have 2: "p = q \<and> p \<noteq> None" if "t < n" "u < n" "gpos s t = GRet p" "gpos s u = GRet q"
    using once_results [OF si that(1,3)] once_results [OF si that(2,4)] initInstance_first [of _ "data s"] by auto
  have 3: "data d = [] \<or> data d = [''Only once.'']" using once_data [OF di] by (auto simp: print_once_def)
  have 4: "data d = [''Only once.'']" if stuck: "\<forall>l. do_once n l d = None" and n: "0 < n"
  proof -
    have "once_ended n d" using once.stuck_final [OF rd] stuck unfolding do_once_def by blast
    moreover have "gpos d 0 \<noteq> GThrow" using di n by (auto simp: once_inv_def print_once_def)
    ultimately obtain r where "gpos d 0 = GRet r" using n by (cases "gpos d 0") (auto simp: once_ended_def)
    from once_results [OF di n this] show ?thesis by (auto simp: print_once_def)
  qed
  have 5: "\<forall>t<n. got_out (gpos s t)" if "\<forall>l. g l s = None"
    using once.stuck_final [OF rs] that unfolding g once_ended_def by blast
  have 6: "\<exists>as bs v. ls = as @ (t, False) # bs \<and> exec g as (once_main no_singleton) = Some v \<and> gpos v t = GInit"
    if thrown: "gpos s t = GThrow"
  proof -
    obtain as c bs v where v: "ls = as @ (t, c) # bs" "exec g as (once_main no_singleton) = Some v" "gpos v t = GInit"
        "initInstance c (data v) = None"
      using once_throws [OF e thrown] unfolding g by (auto simp: once_main_def)
    then have "\<not> c" by (simp add: initInstance_def split: if_splits)
    with v show ?thesis by auto
  qed
  show ?thesis using len 1 2 3 4 5 6 by blast
qed

text \<open>One thread's allocation fails and it gets the exception; the two others share the object.\<close>

theorem once_correct_witness:
  "\<exists>s d. exec (MeyerSingleton_getInstance 3) [(0, True), (0, False), (2, True), (2, True), (1, True), (1, True), (2, True)]
       (once_main no_singleton) = Some s \<and> gpos s 0 = GThrow \<and> gpos s 1 = GRet (Some 0) \<and> gpos s 2 = GRet (Some 0) \<and>
     allocated (data s) \<le> 1 \<and> exec (do_once 1) [(0, ()), (0, ()), (0, ())] (once_main []) = Some d \<and> data d = [''Only once.'']"
proof -
  obtain s where s: "exec (MeyerSingleton_getInstance 3) [(0, True), (0, False), (2, True), (2, True), (1, True), (1, True), (2, True)]
       (once_main no_singleton) = Some s" "gpos s 0 = GThrow" "gpos s 1 = GRet (Some 0)" "gpos s 2 = GRet (Some 0)"
    by (simp add: MeyerSingleton_getInstance_def once_step_def call_once_def once_main_def g_at_def no_singleton_def)
  obtain s' where s': "exec (getInstance 1) [] (once_main no_singleton) = Some s'" by simp
  obtain d where d: "exec (do_once 1) [(0, ()), (0, ()), (0, ())] (once_main []) = Some d" "gpos d 0 = GRet ()"
    by (simp add: do_once_def once_step_def call_once_def once_main_def g_at_def print_once_def)
  obtain d' where d': "exec (do_once 3) [] (once_main []) = Some d'" by simp
  have "do_once 1 l d = None" for l using d(2) by (cases l) (simp add: do_once_def once_step_def call_once_def)
  with once_correct [OF s' disjI1 [OF refl] d(1)] once_correct [OF s(1) disjI2 [OF refl] d'] s d show ?thesis by auto
qed

text \<open>\<open>main\<close> prints the same address twice, unless the allocation fails.\<close>

theorem singleton_main_same: "singleton_main ok = (if ok then Some (Some 0, Some 0) else None)"
  by (simp add: singleton_main_def MeyerSingleton_getInstance_def once_step_def call_once_def once_main_def g_at_def no_singleton_def)

end
