(* ===== verification/Rwlock_Mains.thy ===== *)
theory Rwlock_Mains
  imports Processes Rwlock_Starvation Rwlock_Writer_Progress Rwlock_Writer_Priority
begin

text \<open>
  The \<open>main\<close> of the three files \<open>threads-sema/rwlock*.cpp\<close>: two arguments, the iterations of the reader and of the
  writer; the lock is initialised, a reader (thread 0) and a writer (thread 1) are created and joined. The creations are
  not checked: that \<open>main\<close> returns is said of the runs in which both threads could be created (\<open>all_created\<close>), everything
  else of all runs.
\<close>

definition rw_role :: "tid \<Rightarrow> role" where
  "rw_role t = (if t = 0 then Reader else Writer)"

definition rw_loops :: "int \<Rightarrow> int \<Rightarrow> tid \<Rightarrow> nat" where
  "rw_loops read_loops write_loops t = nat (if t = 0 then read_loops else write_loops)"

text \<open>The three \<open>main\<close>s differ in the lock.\<close>

definition rw_process :: "'k \<Rightarrow> string list \<Rightarrow> ('k, 'p) prog process" where
  "rw_process k argv =
     (if length argv \<noteq> 3 then no_process (prog_init k (\<lambda>_. 0)) (Exited 1)
      else new_process (prog_init k (rw_loops (atoi (argv ! 1)) (atoi (argv ! 2)))) (create_join 2))"

definition ws_process :: "string list \<Rightarrow> (ws_rwlock, ws_pc) prog process" where
  "ws_process argv = rw_process ws_rwlock_init argv"

definition wp_process :: "string list \<Rightarrow> (wp_rwlock, wp_pc) prog process" where
  "wp_process argv = rw_process wp_rwlock_init argv"

definition pr_process :: "string list \<Rightarrow> (pr_rwlock, pr_pc) prog process" where
  "pr_process argv = rw_process pr_rwlock_init argv"

definition rw_ended :: "tid \<Rightarrow> ('k, 'p) prog \<Rightarrow> bool" where
  "rw_ended t s \<longleftrightarrow> pcs s t = Done"

lemma prog_step_who: "prog_step start lstep rl n i s = Some t \<Longrightarrow> i < n"
  by (simp add: prog_step_def split: if_splits)

sublocale rw_program \<subseteq> proc: finite_process "prog_step start lstep rl n" "prog_init k0 loops" "prog_inv linv rl n loops" n
  "\<lambda>i. i" rw_ended "\<lambda>_. True" False "all_done n" "prog_cost start rank n"
proof (unfold_locales, goal_cases)
  case (1 s l u)
  then show ?case by (intro prog_step_who)
next
  case (2 s l u t)
  from 2(2) have "pcs u t = Done"
    using 2(3) unfolding rw_ended_def
    by (cases rule: prog_step_cases) (auto simp: goto_def next_loop_def)
  then show ?case by (simp add: rw_ended_def)
next
  case (3 s t)
  then show ?case using progress [of s] by (auto simp: all_done_def rw_ended_def)
next
  case (4 s)
  then show ?case by (simp add: all_done_def rw_ended_def)
qed

context rw_program
begin

text \<open>The counter never passes the number of the writers' iterations.\<close>

lemma counter_bound:
  assumes "prog_inv linv rl n loops s"
  shows "shared s \<le> (\<Sum>i<n. if rl i = Writer then int (loops i) else 0)"
proof -
  have "writes rl loops s i \<le> (if rl i = Writer then int (loops i) else 0)" if "i < n" for i
    using assms that by (auto simp: prog_inv_def writes_def split: cpc.splits)
  then show ?thesis using assms by (auto simp: prog_inv_def intro!: sum_mono)
qed

lemma main_correct:
  assumes "exec (proc_step False rw_ended (\<lambda>i. i) (prog_step start lstep rl n)) ls
    (new_process (prog_init k0 loops) (create_join n)) = Some p"
  shows "length ls \<le> prog_cost start rank n (prog_init k0 loops :: ('k, 'p) prog) + 2 * n + 1"
    and "shared (comp p) \<le> (\<Sum>i<n. if rl i = Writer then int (loops i) else 0)"
    and "status p = Exited c \<longrightarrow> c = 0 \<and> all_done n (comp p) \<and>
      shared (comp p) = (\<Sum>i<n. if rl i = Writer then int (loops i) else 0)"
    and "all_created n p \<and> (\<forall>l. proc_step False rw_ended (\<lambda>i. i) (prog_step start lstep rl n) l p = None) \<longrightarrow>
      status p = Exited 0"
proof -
  note r = reachI [OF assms]
  show "all_created n p \<and> (\<forall>l. proc_step False rw_ended (\<lambda>i. i) (prog_step start lstep rl n) l p = None) \<longrightarrow>
      status p = Exited 0"
  proof
    assume a: "all_created n p \<and> (\<forall>l. proc_step False rw_ended (\<lambda>i. i) (prog_step start lstep rl n) l p = None)"
    have "status p \<noteq> Live" "status p \<noteq> Undef" "status p \<noteq> Aborted"
      using proc.proc_stuck_created [OF r] a proc.proc_unchecked [OF r] by simp_all
    then obtain c where "status p = Exited c" by (cases "status p") auto
    with proc.proc_exited [OF r this] show "status p = Exited 0" by simp
  qed
  show "shared (comp p) \<le> (\<Sum>i<n. if rl i = Writer then int (loops i) else 0)"
    using counter_bound proc.proc_reach [OF r] unfolding proc.proc_inv_def by blast
qed (use proc.proc_bound [OF assms] proc.proc_result [OF assms, of c] final_counter in blast)+

end

section \<open>The processes\<close>

definition ws_run :: "tid proc_label \<Rightarrow> (ws_rwlock, ws_pc) prog process \<Rightarrow> (ws_rwlock, ws_pc) prog process option" where
  "ws_run = proc_step False rw_ended (\<lambda>i. i) (ws_program rw_role 2)"

definition wp_run :: "tid proc_label \<Rightarrow> (wp_rwlock, wp_pc) prog process \<Rightarrow> (wp_rwlock, wp_pc) prog process option" where
  "wp_run = proc_step False rw_ended (\<lambda>i. i) (wp_program rw_role 2)"

definition pr_run :: "tid proc_label \<Rightarrow> (pr_rwlock, pr_pc) prog process \<Rightarrow> (pr_rwlock, pr_pc) prog process option" where
  "pr_run = proc_step False rw_ended (\<lambda>i. i) (pr_program rw_role 2)"

lemma rw_sum: "(\<Sum>i<2. if rw_role i = Writer then int (rw_loops r w i) else 0) = max 0 w"
  by (simp add: numeral_2_eq_2 rw_role_def rw_loops_def)

lemma rw_args: "length argv = 3 \<Longrightarrow> rw_process k argv =
    new_process (prog_init k (rw_loops (atoi (argv ! 1)) (atoi (argv ! 2)))) (create_join 2)"
  by (simp add: rw_process_def)

text \<open>The reader needs the constant cost of its calls in each iteration, and the writer too.\<close>

theorem ws_process_correct:
  assumes "length argv = 3" "exec ws_run ls (ws_process argv) = Some p"
  shows "length ls \<le> prog_cost ws_start ws_rank 2 (comp (ws_process argv)) + 5 \<and>
    shared (comp p) \<le> max 0 (atoi (argv ! 2)) \<and> atoi (argv ! 2) < 2 ^ 31 \<and>
    (status p = Exited c \<longrightarrow> c = 0 \<and> all_done 2 (comp p) \<and> shared (comp p) = max 0 (atoi (argv ! 2))) \<and>
    (all_created 2 p \<and> (\<forall>l. ws_run l p = None) \<longrightarrow> status p = Exited 0)"
  using wsp.main_correct [of rw_role 2 ls "rw_loops (atoi (argv ! 1)) (atoi (argv ! 2))" p] assms atoi_int [of "argv ! 2"]
  by (simp add: ws_run_def ws_program_def ws_process_def rw_args rw_sum new_process_def)

theorem wp_process_correct:
  assumes "length argv = 3" "exec wp_run ls (wp_process argv) = Some p"
  shows "length ls \<le> prog_cost wp_start wp_rank 2 (comp (wp_process argv)) + 5 \<and>
    shared (comp p) \<le> max 0 (atoi (argv ! 2)) \<and> atoi (argv ! 2) < 2 ^ 31 \<and>
    (status p = Exited c \<longrightarrow> c = 0 \<and> all_done 2 (comp p) \<and> shared (comp p) = max 0 (atoi (argv ! 2))) \<and>
    (all_created 2 p \<and> (\<forall>l. wp_run l p = None) \<longrightarrow> status p = Exited 0)"
  using wpp.main_correct [of rw_role 2 ls "rw_loops (atoi (argv ! 1)) (atoi (argv ! 2))" p] assms atoi_int [of "argv ! 2"]
  by (simp add: wp_run_def wp_program_def wp_process_def rw_args rw_sum new_process_def)

text \<open>C7: rwlock-writer-priority.cpp as a process with its two arguments, read by atoi as 32-bit integers: the length of
  a run is bounded, and the counter never passes the number of iterations of the writer (0 for a negative one), which an int
  holds. If main returns, it does so with code 0, and then both threads have ended and the counter is that number. The
  results of pthread_create are not checked: a thread that could not be created is missing, and joining it is undefined. When
  both could be created, the process is never stuck while it lives, so main returns.\<close>

theorem pr_process_correct:
  assumes "length argv = 3" "exec pr_run ls (pr_process argv) = Some p"
  shows "length ls \<le> prog_cost pr_start pr_rank 2 (comp (pr_process argv)) + 5 \<and>
    shared (comp p) \<le> max 0 (atoi (argv ! 2)) \<and> atoi (argv ! 2) < 2 ^ 31 \<and>
    (status p = Exited c \<longrightarrow> c = 0 \<and> all_done 2 (comp p) \<and> shared (comp p) = max 0 (atoi (argv ! 2))) \<and>
    (all_created 2 p \<and> (\<forall>l. pr_run l p = None) \<longrightarrow> status p = Exited 0)"
  using prp.main_correct [of rw_role 2 ls "rw_loops (atoi (argv ! 1)) (atoi (argv ! 2))" p] assms atoi_int [of "argv ! 2"]
  by (simp add: pr_run_def pr_program_def pr_process_def rw_args rw_sum new_process_def)

definition pr_demo :: "tid proc_label list" where
  "pr_demo = [MainThread True, MainThread True, Thread 0, MainThread True] @ replicate 16 (Thread 1) @ [MainThread True, MainThread True]"

theorem pr_process_correct_witness:
  "\<exists>p. exec pr_run pr_demo (pr_process [''rwlock'', ''0'', ''1'']) = Some p \<and> status p = Exited 0 \<and> shared (comp p) = 1"
proof -
  have a: "atoi ''0'' = 0" "atoi ''1'' = 1" by (simp_all add: atoi_eval)
  obtain p where p: "exec pr_run pr_demo (pr_process [''rwlock'', ''0'', ''1'']) = Some p" "status p = Exited 0"
    by (simp add: a pr_demo_def pr_run_def pr_process_def rw_process_def new_process_def create_join_def numeral_2_eq_2 rw_role_def rw_loops_def
        pr_program_def prog_step_def prog_init_def goto_def next_loop_def rw_ended_def numeral_eq_Suc
        pr_rwlock_init_def LightSwitch_def sem_defs)
  with pr_process_correct [OF _ p(1), of 0] show ?thesis by (simp add: a)
qed

end
