(* ===== verification/Semaphore_Mains.thy ===== *)
theory Semaphore_Mains
  imports Processes Sema_Clients Barriers Dining_Philosophers Sema_Buffer
begin

text \<open>
  The \<open>main\<close> of \<open>binary.c\<close>, \<open>throttle.c\<close>, \<open>rendezvous.c\<close>, \<open>barrier.c\<close>, the four dining programs and
  \<open>producer_consumer_works.c\<close> of \<open>threads-sema\<close>: the arguments and the assertions about them, the initial state, the threads
  created and joined. A negative value for \<open>sem_init\<close> is a huge unsigned one, which \<open>sem_init\<close> refuses; \<open>malloc_ok\<close> says
  whether \<open>malloc\<close> succeeds. An array of threads with a length that is not positive is taken to be empty.
\<close>

section \<open>The programs\<close>

definition binary_c :: "binary process" where
  "binary_c = new_process binary_main (create_join 2)"

definition throttle_c :: "string list \<Rightarrow> throttle process" where
  "throttle_c argv =
     (if length argv \<noteq> 3 then no_process (throttle_main 0) (Exited 1)
      else let num_threads = atoi (argv ! 1); sem_value = atoi (argv ! 2) in
        if sem_value < 0 then no_process (throttle_main 0) Aborted
        else new_process (throttle_main (nat sem_value)) (create_join (nat num_threads)))"

definition rendezvous_c :: "rendezvous process" where
  "rendezvous_c = new_process rendezvous_main (create_join 2)"

definition barrier_c :: "string list \<Rightarrow> barrier_t process" where
  "barrier_c argv =
     (if length argv \<noteq> 2 then no_process (barrier_init 0) Aborted
      else let num_threads = atoi (argv ! 1) in
        if num_threads \<le> 0 then no_process (barrier_init 0) Aborted
        else new_process (barrier_init (nat num_threads)) (create_join (nat num_threads)))"

text \<open>The iterations of the philosophers are the argument of \<open>philosopher\<close>, so the second result.\<close>

definition dining_c :: "string list \<Rightarrow> dining process \<times> nat" where
  "dining_c argv =
     (if length argv \<noteq> 2 then (no_process dining_main (Exited 1), 0)
      else (new_process dining_main (create_join 5), nat (atoi (argv ! 1))))"

definition dining_print_c :: "string list \<Rightarrow> dining_print process \<times> nat" where
  "dining_print_c argv =
     (if length argv \<noteq> 2 then (no_process print_main (Exited 1), 0)
      else (new_process print_main (create_join 5), nat (atoi (argv ! 1))))"

definition CMAX :: int where
  "CMAX = 10"

text \<open>The results after the process are the globals \<open>max\<close>, \<open>loops\<close> and \<open>consumers\<close>.\<close>

definition pcw_c :: "bool \<Rightarrow> string list \<Rightarrow> sbuf process \<times> nat \<times> nat \<times> nat" where
  "pcw_c malloc_ok argv =
     (if length argv \<noteq> 4 then (no_process (sbuf_main 0 0 0) (Exited 1), 0, 0, 0)
      else let max = atoi (argv ! 1); loops = atoi (argv ! 2); consumers = atoi (argv ! 3) in
        if consumers > CMAX \<or> max < 0 \<or> \<not> malloc_ok then (no_process (sbuf_main 0 0 0) Aborted, 0, 0, 0)
        else (new_process (sbuf_main (nat max) (nat loops) (nat consumers)) (create_join (nat consumers + 1)),
              nat max, nat loops, nat consumers))"

definition bi_ended :: "tid \<Rightarrow> binary \<Rightarrow> bool" where
  "bi_ended t s \<longleftrightarrow> bpos s t = BRet"

definition tr_ended :: "tid \<Rightarrow> throttle \<Rightarrow> bool" where
  "tr_ended t s \<longleftrightarrow> trpos s t = TEnd"

definition b_ended :: "tid \<Rightarrow> barrier_t \<Rightarrow> bool" where
  "b_ended t b \<longleftrightarrow> bposs b t = bpos.BDone"

definition d_ended :: "tid \<Rightarrow> dining \<Rightarrow> bool" where
  "d_ended p s \<longleftrightarrow> at_table s p = Returned"

definition s_ended :: "tid \<Rightarrow> sbuf \<Rightarrow> bool" where
  "s_ended t s \<longleftrightarrow> spos s t = (if t = 0 then PRet else CRet)"

definition rv_who :: "bool \<Rightarrow> tid" where
  "rv_who b = (if b then 0 else 1)"

definition rv_ended :: "tid \<Rightarrow> rendezvous \<Rightarrow> bool" where
  "rv_ended t s \<longleftrightarrow> (if t = 0 then child1 s else child2 s) = REnd"

section \<open>What they inherit\<close>

interpretation pbinary: finite_process "binary_step n L" binary_main "binary_inv n L" n "\<lambda>t. t" bi_ended "\<lambda>_. True" True
  "binary_ended n" "binary_rank n L" for n L :: nat
proof (unfold_locales, goal_cases)
  case (1 s l u)
  then show ?case by (simp add: binary_step_def split: if_splits)
next
  case (2 s l u t)
  then show ?case by (cases "bpos s l") (auto simp: bi_ended_def binary_step_def binary_child_def bi_at_def split: if_splits)
next
  case (3 s t)
  then show ?case using binary_progress [OF 3(1)] by (auto simp: binary_ended_def bi_ended_def)
next
  case (4 s)
  show ?case by (simp add: binary_ended_def bi_ended_def)
qed

interpretation pbarrier: finite_process "barrier_step (Suc n)" "barrier_init (Suc n)" "barrier_inv (Suc n)" "Suc n" "\<lambda>t. t"
  b_ended "\<lambda>_. True" False "all_passed (Suc n)" "barrier_rank (Suc n)" for n :: nat
proof (unfold_locales, goal_cases)
  case (1 s l u)
  then show ?case by (simp add: barrier_step_def split: if_splits)
next
  case (2 s l u t)
  then show ?case by (cases "bposs s l") (auto simp: b_ended_def barrier_step_def barrier_def b_at_def split: if_splits)
next
  case (3 s t)
  then show ?case using barrier_progress [OF 3(1)] by (auto simp: all_passed_def b_ended_def)
next
  case (4 s)
  show ?case by (simp add: all_passed_def b_ended_def)
qed

interpretation pdining: finite_process "dining_step get_forks_nd L" dining_main "dining_inv get_forks_nd L" 5 "\<lambda>t. t" d_ended
  "\<lambda>_. True" True all_returned "dining_rank L" for L :: nat
proof (unfold_locales, goal_cases)
  case (1 s l u)
  then show ?case by (simp add: dining_step_def split: if_splits)
next
  case (2 s l u t)
  then show ?case by (cases "at_table s l") (auto simp: d_ended_def dining_step_def philosopher_def set_fork_def split: if_splits)
next
  case (3 s t)
  then show ?case using dining_progress [OF 3(1)] by (auto simp: all_returned_def d_ended_def)
next
  case (4 s)
  show ?case by (simp add: all_returned_def d_ended_def)
qed

lemma sb_ended_all: "sb_ended n s \<longleftrightarrow> (\<forall>t<Suc n. s_ended t s)"
proof
  assume e: "sb_ended n s"
  show "\<forall>t<Suc n. s_ended t s"
  proof (intro allI impI)
    fix t assume "t < Suc n"
    then show "s_ended t s" using e by (cases "t = 0") (auto simp: sb_ended_def s_ended_def)
  qed
next
  assume a: "\<forall>t<Suc n. s_ended t s"
  have "spos s t = CRet" if "1 \<le> t" "t \<le> n" for t using a that by (auto simp: s_ended_def)
  moreover have "spos s 0 = PRet" using a by (auto simp: s_ended_def)
  ultimately show "sb_ended n s" by (simp add: sb_ended_def)
qed

lemma s_ended_stays:
  assumes "sbuf_step M loops n l s = Some u" "s_ended t s"
  shows "s_ended t u"
proof -
  have "t \<noteq> l" using assms by (cases "l = 0") (auto simp: s_ended_def sbuf_step_def sproducer_def sconsumer_def split: if_splits)
  moreover have "spos u t = spos s t" if "t \<noteq> l"
    using assms(1) that
    by (cases "l = 0"; cases "spos s l") (auto simp: sbuf_step_def sproducer_def sconsumer_def sb_at_def split: if_splits prod.splits)
  ultimately show ?thesis using assms(2) by (simp add: s_ended_def)
qed

interpretation psbuf: finite_process "sbuf_step (Suc M) loops (Suc n)" "sbuf_main (Suc M) loops (Suc n)"
  "sb_inv (Suc M) loops (Suc n)" "Suc n + 1" "\<lambda>t. t" s_ended "\<lambda>_. True" False "sb_ended (Suc n)" "sb_rank loops (Suc n)"
  for M loops n :: nat
proof (unfold_locales, goal_cases)
  case (1 s l u)
  then show ?case by (simp add: sbuf_step_def split: if_splits)
next
  case (2 s l u t)
  then show ?case using s_ended_stays by blast
next
  case (3 s t)
  then have "\<not> sb_ended (Suc n) s" unfolding sb_ended_all by auto
  then show ?case using sb_progress [OF 3(1)] by auto
next
  case (4 s)
  show ?case unfolding sb_ended_all by simp
qed

definition throttle_final :: "nat \<Rightarrow> throttle \<Rightarrow> bool" where
  "throttle_final n s \<longleftrightarrow> (\<forall>t<n. trpos s t = TEnd)"

fun tr_rank :: "trpos \<Rightarrow> nat" where
  "tr_rank TWait = 2"
| "tr_rank TIn = 1"
| "tr_rank TEnd = 0"

definition throttle_rank :: "nat \<Rightarrow> throttle \<Rightarrow> nat" where
  "throttle_rank n s = (\<Sum>t<n. tr_rank (trpos s t))"

lemma throttle_rank_step:
  assumes "throttle_step n t s = Some u"
  shows "throttle_rank n u < throttle_rank n s"
proof -
  have t: "t < n" using assms by (simp add: throttle_step_def split: if_splits)
  have "tr_rank (trpos u t) < tr_rank (trpos s t) \<and> (\<forall>v. v \<noteq> t \<longrightarrow> trpos u v = trpos s v)"
    using assms by (cases "trpos s t") (auto simp: throttle_step_def split: if_splits)
  then show ?thesis unfolding throttle_rank_def by (intro sum_decreases [OF t]) auto
qed

lemma throttle_progress:
  assumes "throttle_inv n (Suc v) s" "\<not> throttle_final n s"
  shows "\<exists>t u. throttle_step n t s = Some u"
  using throttle_stuck [OF assms(1)] assms(2) unfolding throttle_final_def by (metis not_None_eq zero_less_Suc)

interpretation pthrottle: finite_process "throttle_step n" "throttle_main (Suc v)" "throttle_inv n (Suc v)" n "\<lambda>t. t" tr_ended
  "\<lambda>_. True" True "throttle_final n" "throttle_rank n" for n v :: nat
proof (unfold_locales, goal_cases)
  case (1 s l u)
  then show ?case by (simp add: throttle_step_def split: if_splits)
next
  case (2 s l u t)
  then show ?case by (cases "trpos s l") (auto simp: tr_ended_def throttle_step_def split: if_splits)
next
  case (3 s t)
  then show ?case using throttle_progress [OF 3(1)] by (auto simp: throttle_final_def tr_ended_def)
next
  case (4 s)
  then show ?case by (rule throttle_progress)
next
  case (5 s l t)
  then show ?case by (intro throttle_rank_step)
next
  case (6 s)
  show ?case by (simp add: throttle_final_def tr_ended_def)
qed

lemma rendezvous_live:
  "list_all (\<lambda>s. child1 s = REnd \<and> child2 s = REnd \<or> child_1 s \<noteq> None \<or> child_2 s \<noteq> None) rendezvous_states"
  by code_simp

interpretation prendezvous: process rendezvous_step rendezvous_main "reach rendezvous_step rendezvous_main" 2 rv_who rv_ended
  "\<lambda>_. True" True
proof (unfold_locales, goal_cases)
  case 1
  show ?case by (rule reach_init)
next
  case (2 s l t)
  then show ?case by (rule reach_step)
next
  case (3 s l u)
  show ?case by (simp add: rv_who_def)
next
  case (4 s l u t)
  then show ?case by (cases l; cases "child1 s"; cases "child2 s") (auto simp: rv_ended_def child_1_def child_2_def split: if_splits)
next
  case (5 s t)
  have "child1 s = REnd \<and> child2 s = REnd \<or> child_1 s \<noteq> None \<or> child_2 s \<noteq> None"
    using rendezvous.reach_all rendezvous_explored rendezvous_live 5(1) by blast
  then consider "child_1 s \<noteq> None" | "child_2 s \<noteq> None" using 5(3) by (auto simp: rv_ended_def split: if_splits)
  then show ?case
  proof cases
    case 1
    then have "rendezvous_step True s \<noteq> None" by simp
    then show ?thesis by blast
  next
    case 2
    then have "rendezvous_step False s \<noteq> None" by simp
    then show ?thesis by blast
  qed
qed

section \<open>The programs as processes\<close>

text \<open>\<open>binary.c\<close> with its ten million iterations prints what it says it should print, unless a creation fails.\<close>

theorem binary_c_correct:
  assumes "exec (proc_step True bi_ended (\<lambda>t. t) (binary_step 2 10000000)) ls binary_c = Some p"
  shows "length ls \<le> 80000007 \<and> (status p = Exited c \<longrightarrow> c = 0 \<and> bcounter (comp p) = 20000000)"
proof -
  note a = assms [unfolded binary_c_def]
  have "binary_rank 2 10000000 binary_main = 80000002" by (simp add: binary_rank_def binary_main_def)
  moreover have "bcounter (comp p) = 20000000" if inv: "binary_inv 2 10000000 (comp p)" and e: "binary_ended 2 (comp p)"
  proof -
    have "(\<Sum>t<2. increments 10000000 (bpos (comp p) t)) = (\<Sum>t<(2::nat). 10000000)" using e by (intro sum.cong) (auto simp: binary_ended_def)
    then show ?thesis using inv unfolding binary_inv_def by simp
  qed
  ultimately show ?thesis using pbinary.proc_bound [OF a] pbinary.proc_result [OF a, of c] by simp
qed

theorem dining_c_correct:
  assumes "length argv = 2" "exec (proc_step True d_ended (\<lambda>p. p) (dining_step get_forks_nd (snd (dining_c argv)))) ls (fst (dining_c argv)) = Some p"
  shows "length ls \<le> dining_rank (snd (dining_c argv)) dining_main + 11 \<and>
    (status p = Exited c \<longrightarrow> c = 0 \<and> all_returned (comp p)) \<and>
    ((\<forall>l. proc_step True d_ended (\<lambda>p. p) (dining_step get_forks_nd (snd (dining_c argv))) l p = None) \<longrightarrow> status p \<noteq> Live)"
proof -
  have e: "exec (proc_step True d_ended (\<lambda>p. p) (dining_step get_forks_nd (snd (dining_c argv)))) ls
      (new_process dining_main (create_join 5)) = Some p" using assms by (simp add: dining_c_def)
  show ?thesis using pdining.proc_bound [OF e] pdining.proc_result [OF e, of c] pdining.proc_stuck [OF reachI [OF e]] by simp
qed

text \<open>\<open>barrier.c\<close> and \<open>throttle.c\<close>, with the checks of their arguments.\<close>

theorem barrier_c_correct:
  assumes "exec (proc_step False b_ended (\<lambda>t. t) (barrier_step (nat (atoi (argv ! 1))))) ls (barrier_c argv) = Some p"
  shows "(length argv \<noteq> 2 \<or> atoi (argv ! 1) \<le> 0 \<longrightarrow> status p = Aborted) \<and>
    (length argv = 2 \<and> 0 < atoi (argv ! 1) \<longrightarrow> length ls \<le> 12 * nat (atoi (argv ! 1)) + 1 \<and>
      (status p = Exited c \<longrightarrow> c = 0 \<and> all_passed (nat (atoi (argv ! 1))) (comp p)) \<and> status p \<noteq> Aborted)"
proof (cases "length argv = 2 \<and> 0 < atoi (argv ! 1)")
  case False
  then have "barrier_c argv = no_process (barrier_init 0) Aborted" by (auto simp: barrier_c_def Let_def)
  with assms have "status p = Aborted" by (cases ls; cases "hd ls") (auto simp: no_process_def)
  with False show ?thesis by auto
next
  case True
  define m where "m = nat (atoi (argv ! 1)) - 1"
  have m: "nat (atoi (argv ! 1)) = Suc m" using True by (simp add: m_def)
  then have e: "exec (proc_step False b_ended (\<lambda>t. t) (barrier_step (Suc m))) ls (new_process (barrier_init (Suc m)) (create_join (Suc m))) = Some p"
    using assms True by (simp add: barrier_c_def Let_def)
  have "barrier_rank (Suc m) (barrier_init (Suc m)) = 10 * Suc m" by (simp add: barrier_rank_def barrier_init_def)
  then show ?thesis
    using True m pbarrier.proc_bound [OF e] pbarrier.proc_result [OF e, of c] pbarrier.proc_unchecked [OF reachI [OF e]] by simp
qed

theorem throttle_c_correct:
  assumes "length argv = 3" "0 < atoi (argv ! 2)"
    "exec (proc_step True tr_ended (\<lambda>t. t) (throttle_step (nat (atoi (argv ! 1))))) ls (throttle_c argv) = Some p"
  shows "length ls \<le> 4 * nat (atoi (argv ! 1)) + 1 \<and> (status p = Exited c \<longrightarrow> c = 0 \<and> throttle_final (nat (atoi (argv ! 1))) (comp p))"
proof -
  define v where "v = nat (atoi (argv ! 2)) - 1"
  define n where "n = nat (atoi (argv ! 1))"
  have "nat (atoi (argv ! 2)) = Suc v" using assms(2) by (simp add: v_def)
  then have e: "exec (proc_step True tr_ended (\<lambda>t. t) (throttle_step n)) ls (new_process (throttle_main (Suc v)) (create_join n)) = Some p"
    using assms by (simp add: throttle_c_def Let_def n_def)
  have "throttle_rank n (throttle_main (Suc v)) = 2 * n" by (simp add: throttle_rank_def throttle_main_def)
  then show ?thesis using pthrottle.proc_bound [OF e] pthrottle.proc_result [OF e, of c] by (simp add: n_def)
qed

theorem rendezvous_c_correct:
  assumes "reach (proc_step True rv_ended rv_who rendezvous_step) rendezvous_c p" "status p = Exited c"
  shows "c = 0 \<and> child1 (comp p) = REnd \<and> child2 (comp p) = REnd \<and> length (said (comp p)) = 4"
proof -
  note r = assms(1) [unfolded rendezvous_c_def]
  have e: "c = 0" "child1 (comp p) = REnd" "child2 (comp p) = REnd"
    using prendezvous.proc_exited [OF r assms(2)] by (auto simp: rv_ended_def numeral_2_eq_2)
  have "reach rendezvous_step rendezvous_main (comp p)" using prendezvous.proc_reach [OF r] by blast
  then have "rendezvous_ok (comp p)" using rendezvous.reach_all rendezvous_explored by blast
  with e show ?thesis by (simp add: rendezvous_ok_def child_1_def child_2_def)
qed

section \<open>Property\<close>

text \<open>C26: producer_consumer_works.c as a process, its arguments read by atoi as 32-bit integers: it exits with 1 when it does
  not get its three arguments and aborts when there are more than ten consumers or no memory (a negative size asks for more than there is); otherwise, with a buffer and a
  consumer, the length of a run is bounded, and if main returns, it does so with code 0, and then all threads have
  ended and the consumers have got every item and one marker each. The results of pthread_create are not checked: a thread
  that could not be created is missing, and joining it is undefined. When all could be created, the process is
  never stuck while it lives, so main returns.\<close>

theorem pcw_c_correct:
  assumes "pcw_c malloc_ok argv = (p0, M, loops, n)" "exec (proc_step False s_ended (\<lambda>t. t) (sbuf_step M loops n)) ls p0 = Some p"
  shows "(length argv \<noteq> 4 \<longrightarrow> ls = [] \<and> status p = Exited 1) \<and>
    (length argv = 4 \<and> (atoi (argv ! 3) > CMAX \<or> atoi (argv ! 1) < 0 \<or> \<not> malloc_ok) \<longrightarrow> ls = [] \<and> status p = Aborted) \<and>
    (length argv = 4 \<and> 0 < atoi (argv ! 3) \<and> atoi (argv ! 3) \<le> CMAX \<and> 0 < atoi (argv ! 1) \<and> malloc_ok \<longrightarrow>
      length ls \<le> sb_rank loops n (sbuf_main M loops n) + 2 * (n + 1) + 1 \<and> status p \<noteq> Aborted \<and>
      (all_created (n + 1) p \<and> (\<forall>l. proc_step False s_ended (\<lambda>t. t) (sbuf_step M loops n) l p = None) \<longrightarrow>
        status p = Exited 0) \<and>
      (status p = Exited c \<longrightarrow> c = 0 \<and> sb_ended n (comp p) \<and>
        got_seq (comp p) = map int [0..<nat (atoi (argv ! 2))] @ replicate (nat (atoi (argv ! 3))) (- 1)))"
proof -
  have dead: "ls = [] \<and> status p = st" if "p0 = no_process s st" "st \<noteq> Live" for s st
  proof (cases ls)
    case (Cons l xs)
    then show ?thesis using assms(2) that by (cases l) (auto simp: no_process_def)
  qed (use assms(2) that in \<open>auto simp: no_process_def\<close>)
  have 1: "ls = [] \<and> status p = Exited 1" if "length argv \<noteq> 4"
    using that assms(1) by (intro dead) (auto simp: pcw_c_def)
  have 2: "ls = [] \<and> status p = Aborted" if "length argv = 4" "atoi (argv ! 3) > CMAX \<or> atoi (argv ! 1) < 0 \<or> \<not> malloc_ok"
    using that assms(1) by (intro dead) (auto simp: pcw_c_def Let_def)
  have 3: "length ls \<le> sb_rank loops n (sbuf_main M loops n) + 2 * (n + 1) + 1 \<and> status p \<noteq> Aborted \<and>
      (all_created (n + 1) p \<and> (\<forall>l. proc_step False s_ended (\<lambda>t. t) (sbuf_step M loops n) l p = None) \<longrightarrow>
        status p = Exited 0) \<and>
      (status p = Exited c \<longrightarrow> c = 0 \<and> sb_ended n (comp p) \<and>
        got_seq (comp p) = map int [0..<nat (atoi (argv ! 2))] @ replicate (nat (atoi (argv ! 3))) (- 1))"
    if a: "length argv = 4" "0 < atoi (argv ! 3)" "atoi (argv ! 3) \<le> CMAX" "0 < atoi (argv ! 1)" malloc_ok
  proof -
    have eq: "p0 = new_process (sbuf_main M loops n) (create_join (n + 1))" "M = nat (atoi (argv ! 1))"
        "loops = nat (atoi (argv ! 2))" "n = nat (atoi (argv ! 3))"
      using a assms(1) by (auto simp: pcw_c_def Let_def)
    define M' n' where "M' = M - 1" and "n' = n - 1"
    have S: "M = Suc M'" "n = Suc n'" using a eq by (simp_all add: M'_def n'_def)
    note e = assms(2) [unfolded eq(1), unfolded S]
    note r = psbuf.proc_result [OF e, of c] and u = psbuf.proc_unchecked [OF reachI [OF e], simplified]
    have "status p = Exited 0"
      if "all_created (n + 1) p" "\<forall>l. proc_step False s_ended (\<lambda>t. t) (sbuf_step M loops n) l p = None"
    proof -
      have "status p \<noteq> Live" "status p \<noteq> Undef" using psbuf.proc_stuck_created [OF reachI [OF e]] that S by simp_all
      then obtain c where "status p = Exited c" using u by (cases "status p") auto
      with psbuf.proc_exited [OF reachI [OF e] this] show ?thesis by simp
    qed
    moreover have "got_seq (comp p) = map int [0..<nat (atoi (argv ! 2))] @ replicate (nat (atoi (argv ! 3))) (- 1)"
      if "status p = Exited c"
    proof -
      have "got_seq (comp p) = items loops (loops + Suc n')"
        using sb_ended_got [of "Suc M'" loops "Suc n'" "comp p"] r that by simp
      then show ?thesis unfolding items_all by (simp add: S(2) [symmetric] eq(3,4))
    qed
    ultimately show ?thesis using psbuf.proc_bound [OF e] r u S by auto
  qed
  show ?thesis using 1 2 3 by blast
qed

text \<open>With one item, one consumer and a buffer of one, from the creation of the producer to the exit.\<close>

definition pcw_demo :: "tid proc_label list" where
  "pcw_demo = [MainThread True, MainThread True] @ map Thread (replicate 5 0 @ replicate 5 1 @ replicate 5 0 @ replicate 5 1) @
     replicate 3 (MainThread True)"

theorem pcw_c_correct_witness:
  "\<exists>p. exec (proc_step False s_ended (\<lambda>t. t) (sbuf_step 1 1 1)) pcw_demo (fst (pcw_c True [''pcw'', ''1'', ''1'', ''1''])) = Some p \<and>
     status p = Exited 0 \<and> got_seq (comp p) = [0, - 1] \<and> sb_ended 1 (comp p)"
proof -
  have a: "atoi ''1'' = 1" by (simp add: atoi_eval)
  have d: "pcw_c True [''pcw'', ''1'', ''1'', ''1''] = (new_process (sbuf_main 1 1 1) (create_join 2), 1, 1, 1)"
    by (simp add: pcw_c_def a CMAX_def Let_def numeral_eq_Suc)
  obtain p where p: "exec (proc_step False s_ended (\<lambda>t. t) (sbuf_step 1 1 1)) pcw_demo (new_process (sbuf_main 1 1 1) (create_join 2)) = Some p"
      "status p = Exited 0"
    by (simp add: pcw_demo_def numeral_eq_Suc new_process_def create_join_def s_ended_def sbuf_main_def sbuf_step_def sproducer_def
        sconsumer_def do_fill_def do_get_def sb_at_def produce_next_def consume_next_def item_def sem_defs)
  with pcw_c_correct [OF d p(1), of 0] show ?thesis by (simp add: a d CMAX_def)
qed

end
