(* ===== verification/Thread_Mains.thy ===== *)
theory Thread_Mains
  imports Processes End_Markers Racy_Counter Once_Init Concurrency_Bugs Dining_Philosophers
begin

text \<open>
  More programs as processes: \<open>threads-intro/t0.c\<close> and \<open>t1.c\<close>, \<open>intro/threads.c\<close>, \<open>threads-cv/pc.c\<close> and
  \<open>pc_single_cv.c\<close>, \<open>threads-bugs/atomicity.c\<close>, \<open>atomicity_fixed.c\<close> and \<open>deadlock.c\<close>, and the \<open>main\<close> of
  \<open>ThreadSafeInitialization.cpp\<close>; and the programs that can hang.
\<close>

section \<open>t0.c\<close>

record t0_state =
  t0_out :: "string list"
  t0_done :: "tid \<Rightarrow> bool"

definition t0_init :: t0_state where
  "t0_init = \<lparr>t0_out = [], t0_done = (\<lambda>_. False)\<rparr>"

definition t0_arg :: "tid \<Rightarrow> string" where
  "t0_arg t = (if t = 0 then ''A'' else ''B'')"

definition t0_mythread :: "tid \<Rightarrow> t0_state \<Rightarrow> t0_state option" where
  "t0_mythread t s =
     (if t < 2 \<and> \<not> t0_done s t then Some \<lparr>t0_out = t0_out s @ [t0_arg t], t0_done = (t0_done s)(t := True)\<rparr> else None)"

definition t0_c :: "string list \<Rightarrow> t0_state process" where
  "t0_c argv = (if length argv \<noteq> 1 then no_process t0_init (Exited 1) else new_process t0_init (create_join 2))"

definition t0_inv :: "t0_state \<Rightarrow> bool" where
  "t0_inv s \<longleftrightarrow> distinct (t0_out s) \<and> set (t0_out s) = t0_arg ` {t. t < 2 \<and> t0_done s t}"

interpretation t0: process t0_mythread t0_init t0_inv 2 "\<lambda>t. t" "\<lambda>t s. t0_done s t" "\<lambda>_. True" True
proof (unfold_locales, goal_cases)
  case 1
  show ?case by (simp add: t0_inv_def t0_init_def)
next
  case (2 s l t)
  then have l: "l = 0 \<or> l = 1" "\<not> t0_done s l" "t = \<lparr>t0_out = t0_out s @ [t0_arg l], t0_done = (t0_done s)(l := True)\<rparr>"
    by (auto simp: t0_mythread_def split: if_splits)
  have "t0_arg l \<notin> t0_arg ` {t. t < 2 \<and> t0_done s t}" using l(1,2) by (auto simp: t0_arg_def less_2_cases_iff split: if_splits)
  moreover have "{t'. t' < 2 \<and> ((t0_done s)(l := True)) t'} = insert l {t. t < 2 \<and> t0_done s t}" using l(1) by auto
  ultimately show ?case using 2(1) l(3) by (simp add: t0_inv_def)
next
  case (3 s l u)
  then show ?case by (simp add: t0_mythread_def split: if_splits)
next
  case (4 s l u t)
  then show ?case by (auto simp: t0_mythread_def split: if_splits)
next
  case (5 s t)
  then have "t0_mythread t s \<noteq> None" by (simp add: t0_mythread_def)
  then show ?case by blast
qed

theorem t0_c_correct:
  assumes "reach (proc_step True (\<lambda>t s. t0_done s t) (\<lambda>t. t) t0_mythread) (new_process t0_init (create_join 2)) p" "status p = Exited c"
  shows "c = 0 \<and> t0_out (comp p) \<in> {[''A'', ''B''], [''B'', ''A'']}"
proof -
  have i: "t0_inv (comp p)" using t0.proc_reach [OF assms(1)] by (simp add: t0.proc_inv_def)
  have e: "c = 0" "\<forall>t<2. t0_done (comp p) t" using t0.proc_exited [OF assms] by simp_all
  have "{t. t < 2 \<and> t0_done (comp p) t} = {0, 1}" using e(2) by auto
  then have s: "set (t0_out (comp p)) = {''B'', ''A''}" "distinct (t0_out (comp p))"
    using i by (simp_all add: t0_inv_def t0_arg_def)
  then have "length (t0_out (comp p)) = 2" using distinct_card by fastforce
  then obtain a b where ab: "t0_out (comp p) = [a, b]" by (auto simp: numeral_2_eq_2 length_Suc_conv)
  then have "{a, b} = {''B'', ''A''}" using s(1) by simp
  then have "a = ''B'' \<and> b = ''A'' \<or> a = ''A'' \<and> b = ''B''" unfolding doubleton_eq_iff .
  with e(1) ab show ?thesis by (elim disjE conjE) simp_all
qed

section \<open>t1.c and threads.c\<close>

text \<open>The second result is the global \<open>max\<close>, or \<open>loops\<close>.\<close>

definition t1_c :: "string list \<Rightarrow> racy process \<times> nat" where
  "t1_c argv =
     (if length argv \<noteq> 2 then (no_process racy_main (Exited 1), 0)
      else (new_process racy_main (create_join 2), nat (atoi (argv ! 1))))"

definition threads_c :: "string list \<Rightarrow> racy process \<times> nat" where
  "threads_c argv =
     (if length argv \<noteq> 2 then (no_process racy_main (Exited 1), 0)
      else (new_process racy_main (create_join 2), nat (atoi (argv ! 1))))"

definition r_ended :: "tid \<Rightarrow> racy \<Rightarrow> bool" where
  "r_ended t s \<longleftrightarrow> racy_pos s t = RDone"

interpretation t1: process "racy_step L" racy_main "racy_inv L" 2 "\<lambda>t. t" r_ended "\<lambda>_. True" True for L :: nat
proof (unfold_locales, goal_cases)
  case (1 s l u)
  then show ?case by (simp add: racy_step_def split: if_splits)
next
  case (2 s l u t)
  then show ?case by (cases "racy_pos s l") (auto simp: r_ended_def racy_step_def mythread_def split: if_splits)
next
  case (3 s t)
  then have "racy_step L t s \<noteq> None" by (cases "racy_pos s t") (auto simp: r_ended_def racy_step_def mythread_def)
  then show ?case by blast
qed

theorem t1_c_correct:
  assumes "t1_c argv = (p0, L)" "reach (proc_step True r_ended (\<lambda>t. t) (racy_step L)) p0 p" "length argv = 2" "status p = Exited c"
  shows "c = 0 \<and> racy_ended (comp p) \<and> 0 \<le> shared (comp p) \<and> shared (comp p) \<le> 2 * max 0 (atoi (argv ! 1))"
proof -
  have L: "p0 = new_process racy_main (create_join 2)" "int L = max 0 (atoi (argv ! 1))" using assms(1,3) by (auto simp: t1_c_def)
  note r = assms(2) [unfolded L(1)]
  have e: "c = 0" "racy_pos (comp p) 0 = RDone" "racy_pos (comp p) 1 = RDone"
    using t1.proc_exited [OF r assms(4)] by (simp_all add: r_ended_def)
  have "racy_inv L (comp p)" using t1.proc_reach [OF r] by (simp add: t1.proc_inv_def)
  then show ?thesis using e L(2) by (simp add: racy_ended_def racy_inv_def total_def)
qed

section \<open>ThreadSafeInitialization.cpp\<close>

definition do_once_main :: "(string list, unit) once process" where
  "do_once_main = new_process (once_main []) (create_join 4)"

definition o_ended :: "tid \<Rightarrow> ('x, 'r) once \<Rightarrow> bool" where
  "o_ended t s \<longleftrightarrow> got_out (gpos s t)"

interpretation ponce: finite_process "once_step n init res" "once_main x0" "once_inv n init res x0" n fst o_ended "\<lambda>_. True" True
  "once_ended n" "once_rank n"
  for n :: nat and init :: "'c \<Rightarrow> 'x \<Rightarrow> 'x option" and res :: "'x \<Rightarrow> 'r" and x0 :: 'x
proof (unfold_locales, goal_cases)
  case (1 s l u)
  then show ?case by (simp add: once_step_def split: if_splits)
next
  case (2 s l u t)
  then show ?case by (cases "gpos s (fst l)")
    (auto simp: o_ended_def once_step_def call_once_def g_at_def split: if_splits once_flag.splits option.splits)
next
  case (3 s t)
  then show ?case using once_progress [OF 3(1)] by (auto simp: once_ended_def o_ended_def)
next
  case (4 s)
  show ?case by (simp add: once_ended_def o_ended_def)
qed

theorem do_once_main_correct:
  assumes "exec (proc_step True o_ended fst (do_once 4)) ls do_once_main = Some p"
  shows "length ls \<le> 21 \<and> (status p = Exited c \<longrightarrow> c = 0 \<and> data (comp p) = [''Only once.''])"
proof -
  note e = assms [unfolded do_once_main_def do_once_def]
  have "once_rank 4 (once_main [] :: (string list, unit) once) = 12" by (simp add: once_rank_def once_main_def)
  moreover have "data (comp p) = [''Only once.'']" if "once_inv 4 print_once (\<lambda>_. ()) [] (comp p)" "once_ended 4 (comp p)"
  proof -
    have "once_ok (\<exists>c. print_once c [] = None) (\<lambda>_. ()) (flag (comp p)) (data (comp p)) 0 (gpos (comp p) 0)"
      using that(1) unfolding once_inv_def by simp
    then have "gpos (comp p) 0 \<noteq> GThrow" by (auto simp: print_once_def)
    moreover have "got_out (gpos (comp p) 0)" using that(2) by (simp add: once_ended_def)
    ultimately have "gpos (comp p) 0 = GRet ()" by (cases "gpos (comp p) 0") auto
    then show ?thesis using once_results [OF that(1), of 0 "()"] by (auto simp: print_once_def)
  qed
  ultimately show ?thesis using ponce.proc_bound [OF e] ponce.proc_result [OF e, of c] by simp
qed

section \<open>pc.c and pc_single_cv.c\<close>

text \<open>The results after the process are the globals \<open>max\<close>, \<open>loops\<close> and \<open>consumers\<close>.\<close>

definition pc_c :: "bool \<Rightarrow> string list \<Rightarrow> pc process \<times> nat \<times> nat \<times> nat" where
  "pc_c malloc_ok argv =
     (if length argv \<noteq> 4 then (no_process (pc_main 0) (Exited 1), 0, 0, 0)
      else let max = atoi (argv ! 1); loops = atoi (argv ! 2); consumers = atoi (argv ! 3) in
        if max < 0 \<or> \<not> malloc_ok then (no_process (pc_main 0) Aborted, 0, 0, 0)
        else (new_process (pc_main (nat max)) (create_join (nat consumers + 1)), nat max, nat loops, nat consumers))"

definition pc_single_cv_c :: "bool \<Rightarrow> string list \<Rightarrow> pc process \<times> nat \<times> nat \<times> nat" where
  "pc_single_cv_c malloc_ok argv =
     (if length argv \<noteq> 4 then (no_process (pc_main 0) (Exited 1), 0, 0, 0)
      else let max = atoi (argv ! 1); loops = atoi (argv ! 2); consumers = atoi (argv ! 3) in
        if max < 0 \<or> \<not> malloc_ok then (no_process (pc_main 0) Aborted, 0, 0, 0)
        else (new_process (pc_main (nat max)) (create_join (nat consumers + 1)), nat max, nat loops, nat consumers))"

fun pc_who :: "pc_label \<Rightarrow> tid" where
  "pc_who (Turn t c) = t"
| "pc_who (WakeUp t) = t"

fun pc_real :: "pc_label \<Rightarrow> bool" where
  "pc_real (Turn t c) = True"
| "pc_real (WakeUp t) = False"

definition pc_ended :: "tid \<Rightarrow> pc \<Rightarrow> bool" where
  "pc_ended t s \<longleftrightarrow> ppos s t = PEnd \<or> ppos s t = CEnd"

lemma notify_ended:
  assumes "wakes wk" "notify_one wk m c f = Some g"
  shows "(g t = PEnd \<or> g t = CEnd) \<longleftrightarrow> (f t = PEnd \<or> f t = CEnd)"
  using assms(2)
proof (cases rule: notify_one_cases)
  case (somebody i p)
  then have "(\<exists>k. f i = PSleep k \<and> p = PNext k) \<or> (f i = CSleep \<and> p = CNext)" using assms(1) by (auto simp: wakes_def)
  with somebody show ?thesis by auto
qed simp

lemma pc_ended_stays:
  assumes d: "pc_data M loops n s" and step: "pc_step M loops n l s = Some u" and e: "pc_ended t s"
  shows "pc_ended t u"
proof (cases l)
  case (WakeUp v)
  then show ?thesis using step e by (cases "ppos s v") (auto simp: pc_ended_def split: if_splits)
next
  case (Turn v c)
  then consider (producer) k where "ppos s v = PNext k" "pc_producer fill_cv M loops n c k s = Some u"
    | (consumer) "ppos s v = CNext" "pc_consumer empty_cv M n c v s = Some u" "v \<le> n"
    using step by (auto split: if_splits cpos.splits)
  then show ?thesis
  proof cases
    case (producer k)
    then have "v = 0" using Turn step pc_dataD(5) [OF d, of v] by (cases "v = 0") (auto split: if_splits)
    then have t: "t \<noteq> 0" using producer(1) e by (cases "t = 0") (auto simp: pc_ended_def)
    show ?thesis using producer(2) t e notify_ended [OF wakes_cvs(2), of "n + 1" c "ppos s" _ t]
      by (auto simp: pc_producer_def pc_ended_def split: if_splits option.splits)
  next
    case consumer
    then have t: "t \<noteq> v" using e by (auto simp: pc_ended_def)
    show ?thesis using consumer(2) t e notify_ended [OF wakes_cvs(1), of "n + 1" c "ppos s" _ t]
      by (auto simp: pc_consumer_def pc_ended_def split: if_splits option.splits prod.splits)
  qed
qed

interpretation ppc: process "pc_step (Suc M) loops (Suc n)" "pc_main (Suc M)"
  "\<lambda>s. pc_data (Suc M) loops (Suc n) s \<and> pc_wakes (Suc M) (Suc n) s" "Suc n + 1" pc_who pc_ended pc_real True
  for M loops n :: nat
proof (unfold_locales, goal_cases)
  case 1
  show ?case using pc.inv_init by blast
next
  case (2 s l t)
  then show ?case using pc.inv_step [of "Suc M" loops "Suc n" s l t] by blast
next
  case (3 s l u)
  then show ?case by (cases l) (auto split: if_splits)
next
  case (4 s l u t)
  then show ?case using pc_ended_stays by blast
next
  case (5 s t)
  show ?case
  proof (rule ccontr)
    assume no: "\<not> ?case"
    have stuck: "\<forall>v c. pc_step (Suc M) loops (Suc n) (Turn v c) s = None"
    proof (intro allI)
      fix v c
      have "pc_real (Turn v c)" by simp
      then show "pc_step (Suc M) loops (Suc n) (Turn v c) s = None" using no by (metis not_None_eq)
    qed
    have "pc_ended t s"
    proof (cases "t = 0")
      case True
      then show ?thesis using pc_stuck_ended(1) [OF _ _ _ _ stuck] 5(1) by (simp add: pc_ended_def)
    next
      case False
      then have "1 \<le> t \<and> t \<le> Suc n" using 5(2) by simp
      from pc_stuck_ended(2) [OF _ _ _ _ stuck this] show ?thesis using 5(1) by (simp add: pc_ended_def)
    qed
    with 5(3) show False ..
  qed
qed

text \<open>\<open>pc.c\<close>: main returns only when everything has been consumed, and a live process always has a step that is no
  spurious wake-up.\<close>

theorem pc_c_correct:
  assumes "pc_c malloc_ok argv = (p0, M, loops, n)" "0 < M" "0 < n"
    "reach (proc_step True pc_ended pc_who (pc_step M loops n)) p0 p"
  shows "(status p = Exited c \<longrightarrow> c = 0 \<and> got_h (comp p) = map int [0..<nat (atoi (argv ! 2))] @ replicate (nat (atoi (argv ! 3))) (- 1)) \<and>
    ((\<forall>t x. proc_step True pc_ended pc_who (pc_step M loops n) (Thread (Turn t x)) p = None) \<and>
     (\<forall>ok. proc_step True pc_ended pc_who (pc_step M loops n) (MainThread ok) p = None) \<longrightarrow> status p \<noteq> Live)"
proof -
  have eq: "p0 = new_process (pc_main M) (create_join (n + 1))" "loops = nat (atoi (argv ! 2))" "n = nat (atoi (argv ! 3))"
    using assms(1-3) by (auto simp: pc_c_def Let_def split: if_splits)
  define M' n' where "M' = M - 1" and "n' = n - 1"
  have S: "M = Suc M'" "n = Suc n'" using assms(2,3) by (simp_all add: M'_def n'_def)
  note r = assms(4) [unfolded eq(1), unfolded S]
  have i: "pc_data M loops n (comp p)" "pc_wakes M n (comp p)" using ppc.proc_reach [OF r] unfolding ppc.proc_inv_def S by blast+
  have got: "got_h (comp p) = items loops (loops + n)" if "status p = Exited c"
  proof -
    have e: "pc_ended t (comp p)" if "t \<le> n" for t
      using ppc.proc_exited [OF r \<open>status p = Exited c\<close>] that S by simp
    have "pc_step M loops n (Turn t x) (comp p) = None" for t x
      using e [of t] by (cases "t \<le> n") (auto simp: pc_ended_def)
    then show ?thesis using pc_stuck_ended(3) [OF i assms(2,3)] by blast
  qed
  have "status p \<noteq> Live" if "\<forall>t x. proc_step True pc_ended pc_who (pc_step M loops n) (Thread (Turn t x)) p = None"
    "\<forall>ok. proc_step True pc_ended pc_who (pc_step M loops n) (MainThread ok) p = None"
  proof (rule ppc.proc_stuck [OF r TrueI, THEN conjunct1])
    fix l
    assume rl: "ppc.real_label l"
    show "proc_step True pc_ended pc_who (pc_step (Suc M') loops (Suc n')) l p = None"
    proof (cases l)
      case (Thread a)
      then show ?thesis using rl that(1) S by (cases a) simp_all
    next
      case (MainThread ok)
      then show ?thesis using that(2) S by simp
    qed
  qed
  moreover have "c = 0 \<and> got_h (comp p) = map int [0..<nat (atoi (argv ! 2))] @ replicate (nat (atoi (argv ! 3))) (- 1)"
    if "status p = Exited c" using that got ppc.proc_exited [OF r that] items_all [of loops n] eq(2,3) by simp
  ultimately show ?thesis by blast
qed

section \<open>atomicity.c, atomicity_fixed.c and deadlock.c\<close>

definition atomicity_c :: "string list \<Rightarrow> atomicity process" where
  "atomicity_c argv =
     (if length argv \<noteq> 1 then no_process (atomicity_main False) (Exited 1)
      else new_process (atomicity_main False) (create_join 2))"

definition atomicity_fixed_c :: "string list \<Rightarrow> atomicity process" where
  "atomicity_fixed_c argv =
     (if length argv \<noteq> 1 then no_process (atomicity_main True) (Exited 1)
      else new_process (atomicity_main True) (create_join 2))"

definition deadlock_c :: "string list \<Rightarrow> two_locks process" where
  "deadlock_c argv =
     (if length argv \<noteq> 1 then no_process deadlock_main (Exited 1) else new_process deadlock_main (create_join 2))"

fun who_tid :: "who \<Rightarrow> tid" where
  "who_tid T1 = 0"
| "who_tid T2 = 1"

definition at_ended :: "tid \<Rightarrow> atomicity \<Rightarrow> bool" where
  "at_ended t s \<longleftrightarrow> (if t = 0 then athread1 s else athread2 s) = AEnd"

definition dl_ended :: "tid \<Rightarrow> two_locks \<Rightarrow> bool" where
  "dl_ended t s \<longleftrightarrow> (if t = 0 then lthread1 s else lthread2 s) = LEnd"

lemma atomicity_fixed_live:
  "list_all (\<lambda>s. (athread1 s = AEnd \<and> athread2 s = AEnd) \<or> athread1_step True s \<noteq> None \<or> athread2_step True s \<noteq> None)
     (atomicity_states True)"
  by code_simp

interpretation pat: process "atomicity_step True" "atomicity_main True" "reach (atomicity_step True) (atomicity_main True)" 2
  who_tid at_ended "\<lambda>_. True" True
proof (unfold_locales, goal_cases)
  case 1
  show ?case by (rule reach_init)
next
  case (2 s l t)
  then show ?case by (rule reach_step)
next
  case (3 s l u)
  show ?case by (cases l) simp_all
next
  case (4 s l u t)
  then show ?case by (cases l; cases "athread1 s"; cases "athread2 s")
    (auto simp: at_ended_def atomicity_step_def athread1_step_def athread2_step_def locked_def split: if_splits option.splits)
next
  case (5 s t)
  have ok: "atomicity_ok s" using atomicity.reach_all atomicity_fixed_ok 5(1) by blast
  have "(athread1 s = AEnd \<and> athread2 s = AEnd) \<or> athread1_step True s \<noteq> None \<or> athread2_step True s \<noteq> None"
    using atomicity.reach_all atomicity_fixed_ok atomicity_fixed_live 5(1) by blast
  then consider "athread1_step True s \<noteq> None" | "athread2_step True s \<noteq> None" using 5(3) by (auto simp: at_ended_def split: if_splits)
  then show ?case
  proof cases
    case 1
    then have "atomicity_step True T1 s \<noteq> None" using ok by (simp add: atomicity_step_def atomicity_ok_def)
    then show ?thesis by blast
  next
    case 2
    then have "atomicity_step True T2 s \<noteq> None" using ok by (simp add: atomicity_step_def atomicity_ok_def)
    then show ?thesis by blast
  qed
qed

theorem atomicity_fixed_c_correct:
  assumes "reach (proc_step True at_ended who_tid (atomicity_step True)) (atomicity_fixed_c [name]) p"
  shows "\<not> afault (comp p) \<and> ((\<forall>l. proc_step True at_ended who_tid (atomicity_step True) l p = None) \<longrightarrow> status p \<noteq> Live)"
proof -
  note r = assms [unfolded atomicity_fixed_c_def, simplified]
  have "atomicity_ok (comp p)" using pat.proc_reach [OF r] atomicity.reach_all atomicity_fixed_ok by blast
  then show ?thesis using pat.proc_stuck [OF r] by (simp add: atomicity_ok_def)
qed

section \<open>Programs that can hang\<close>

definition d_over :: "tid \<Rightarrow> dining \<Rightarrow> bool" where
  "d_over p s \<longleftrightarrow> at_table s p = Dining_Philosophers.Returned"

text \<open>C32: the wrong programs can hang as processes, with all threads created and main waiting in its first join.
  dining_philosophers_deadlock.c, whenever there is at least one loop: every philosopher waits for its second fork and no step
  at all is possible. pc_single_cv.c with a buffer of one, two consumers and at least one item: the producer and both consumers
  sleep on the one condition variable with the buffer empty, and no step is possible but a spurious wake-up. deadlock.c: each
  thread holds one lock and waits for the other, and no step at all is possible.\<close>

theorem wrong_programs_hang:
  assumes "0 < L"
  shows "(\<exists>p. reach (proc_step True d_over (\<lambda>p. p) (dining_step get_forks L)) (new_process dining_main (create_join 5)) p \<and>
      hung (\<lambda>_. True) (proc_step True d_over (\<lambda>p. p) (dining_step get_forks L)) p \<and>
      todo p = map Join [0..<5] \<and> (\<forall>t<5. at_table (comp p) t = Dining_Philosophers.Second 0)) \<and>
    (\<exists>p. reach (proc_step True pc_ended pc_who (pc1_step 1 L 2)) (new_process (pc_main 1) (create_join 3)) p \<and>
      hung pc_real (proc_step True pc_ended pc_who (pc1_step 1 L 2)) p \<and> todo p = map Join [0..<3] \<and>
      ppos (comp p) 0 = PSleep 1 \<and> ppos (comp p) 1 = CSleep \<and> ppos (comp p) 2 = CSleep \<and> count (pring (comp p)) = 0) \<and>
    (\<exists>p. reach (proc_step True dl_ended who_tid deadlock_step) (deadlock_c [name]) p \<and>
      hung (\<lambda>_. True) (proc_step True dl_ended who_tid deadlock_step) p \<and> todo p = map Join [0..<2] \<and>
      comp p = \<lparr>L1 = Some 1, L2 = Some 2, lthread1 = Concurrency_Bugs.Second, lthread2 = Concurrency_Bugs.Second\<rparr>)"
proof (intro conjI)
  obtain s where s: "reach (dining_step get_forks L) dining_main s"
      "\<forall>p<5. at_table s p = Dining_Philosophers.Second 0 \<and> dining_step get_forks L p s = None" using dining_deadlock [OF assms] by blast
  have n: "\<forall>p. True \<longrightarrow> dining_step get_forks L p s = None" using s(2) by (auto simp: dining_step_def)
  have w: "\<forall>p u v. dining_step get_forks L p u = Some v \<longrightarrow> p < 5" by (simp add: dining_step_def)
  have e: "\<not> d_over 0 s" using s(2) by (simp add: d_over_def)
  obtain p where p: "reach (proc_step True d_over (\<lambda>p. p) (dining_step get_forks L)) (new_process dining_main (create_join 5)) p"
      "comp p = s" "todo p = map Join [0..<5]" "hung (\<lambda>_. True) (proc_step True d_over (\<lambda>p. p) (dining_step get_forks L)) p"
    using proc_hangs [where ended = d_over and who = "\<lambda>p. p" and n = 5 and checked = True, OF s(1) w n _ e]
    unfolding hung_def by (metis zero_less_numeral)
  with s(2) show "\<exists>p. reach (proc_step True d_over (\<lambda>p. p) (dining_step get_forks L)) (new_process dining_main (create_join 5)) p \<and>
      hung (\<lambda>_. True) (proc_step True d_over (\<lambda>p. p) (dining_step get_forks L)) p \<and>
      todo p = map Join [0..<5] \<and> (\<forall>t<5. at_table (comp p) t = Dining_Philosophers.Second 0)" by blast
next
  obtain s where s: "reach (pc1_step 1 L 2) (pc_main 1) s" "\<forall>t c. pc1_step 1 L 2 (Turn t c) s = None"
      "ppos s 0 = PSleep 1 \<and> ppos s 1 = CSleep \<and> ppos s 2 = CSleep \<and> count (pring s) = 0"
    using pc_single_cv_deadlock [OF assms, of 1] by metis
  have w: "\<forall>l u v. pc1_step 1 L 2 l u = Some v \<longrightarrow> pc_who l < 3"
  proof (intro allI impI)
    fix l u v assume "pc1_step 1 L 2 l u = Some v"
    then show "pc_who l < 3" by (cases l) (auto split: if_splits)
  qed
  have n: "\<forall>l. pc_real l \<longrightarrow> pc1_step 1 L 2 l s = None" using s(2) by (metis pc_real.elims(2))
  have e: "\<not> pc_ended 0 s" using s(3) by (simp add: pc_ended_def)
  obtain p where p: "reach (proc_step True pc_ended pc_who (pc1_step 1 L 2)) (new_process (pc_main 1) (create_join 3)) p"
      "comp p = s" "todo p = map Join [0..<3]" "hung pc_real (proc_step True pc_ended pc_who (pc1_step 1 L 2)) p"
    using proc_hangs [where ended = pc_ended and checked = True, OF s(1) w n _ e] unfolding hung_def by (metis zero_less_numeral)
  with s(3) show "\<exists>p. reach (proc_step True pc_ended pc_who (pc1_step 1 L 2)) (new_process (pc_main 1) (create_join 3)) p \<and>
      hung pc_real (proc_step True pc_ended pc_who (pc1_step 1 L 2)) p \<and> todo p = map Join [0..<3] \<and>
      ppos (comp p) 0 = PSleep 1 \<and> ppos (comp p) 1 = CSleep \<and> ppos (comp p) 2 = CSleep \<and> count (pring (comp p)) = 0" by blast
next
  let ?s = "\<lparr>L1 = Some 1, L2 = Some 2, lthread1 = Concurrency_Bugs.Second, lthread2 = Concurrency_Bugs.Second\<rparr>"
  have s: "exec deadlock_step [T1, T2] deadlock_main = Some ?s" "deadlock_step T1 ?s = None" "deadlock_step T2 ?s = None"
      "\<not> dl_ended 0 ?s"
    by (simp_all add: deadlock_main_def lthread1_step_def lthread2_step_def locked_def dl_ended_def)
  have n: "\<forall>l. True \<longrightarrow> deadlock_step l ?s = None"
  proof (intro allI impI)
    fix l show "deadlock_step l ?s = None" using s(2,3) by (cases l) simp_all
  qed
  have "who_tid l < 2" for l by (cases l) simp_all
  then have w: "\<forall>l u v. deadlock_step l u = Some v \<longrightarrow> who_tid l < 2" by blast
  have "deadlock_c [name] = new_process deadlock_main (create_join 2)" by (simp add: deadlock_c_def)
  then show "\<exists>p. reach (proc_step True dl_ended who_tid deadlock_step) (deadlock_c [name]) p \<and>
      hung (\<lambda>_. True) (proc_step True dl_ended who_tid deadlock_step) p \<and> todo p = map Join [0..<2] \<and> comp p = ?s"
    using proc_hangs [where ended = dl_ended and checked = True, OF reachI [OF s(1)] w n _ s(4)] unfolding hung_def
    by (metis zero_less_numeral)
qed

theorem wrong_programs_hang_witness:
  "\<exists>p. reach (proc_step True pc_ended pc_who (pc1_step 1 5 2)) (new_process (pc_main 1) (create_join 3)) p \<and>
     hung pc_real (proc_step True pc_ended pc_who (pc1_step 1 5 2)) p \<and> todo p = [Join 0, Join 1, Join 2]"
proof -
  have "map Join [0..<3] = [Join 0, Join 1, Join 2]" by (simp add: upt_rec)
  with wrong_programs_hang [of 5] show ?thesis by auto
qed

end
