(* ===== verification/Scripts.thy ===== *)
theory Scripts
  imports Sync_Prelude
begin

text \<open>
  Programs whose threads call the operations of a component in a fixed order. \<open>call\<close> says which labels of the component's
  machine begin a call, whose and which; the script of a thread is the calls it still has to make. All other steps of
  the machine (those inside a call, and the component's own threads) are free.

  The locale \<open>scripted\<close> carries the invariant of the component over and bounds the runs: every step costs something, and
  \<open>extra\<close> is what the environment pays for a step that may come at any time (a spurious wake-up).
\<close>

definition script_step ::
  "('l \<Rightarrow> (tid \<times> 'c) option) \<Rightarrow> ('l \<Rightarrow> 's \<Rightarrow> 's option) \<Rightarrow> 'l \<Rightarrow> (tid \<Rightarrow> 'c list) \<times> 's \<Rightarrow> ((tid \<Rightarrow> 'c list) \<times> 's) option" where
  "script_step call step l p =
     (case call l of
        None \<Rightarrow> map_option (Pair (fst p)) (step l (snd p))
      | Some (t, c) \<Rightarrow>
          (case fst p t of
             [] \<Rightarrow> None
           | d # ds \<Rightarrow> if d = c then map_option (Pair ((fst p)(t := ds))) (step l (snd p)) else None))"

lemma script_step_cases:
  assumes "script_step call step l (sc, s) = Some (sd, u)"
  obtains (free) "call l = None" "step l s = Some u" "sd = sc"
    | (call) t c ds where "call l = Some (t, c)" "sc t = c # ds" "step l s = Some u" "sd = sc(t := ds)"
  using assms by (auto simp: script_step_def split: option.splits list.splits if_splits)

locale scripted = safe_machine step init inv
  for step :: "'l \<Rightarrow> 's \<Rightarrow> 's option" and init :: 's and inv :: "'s \<Rightarrow> bool" +
  fixes call :: "'l \<Rightarrow> (tid \<times> 'c) option"
    and script :: "tid \<Rightarrow> 'c list"
    and jinv :: "(tid \<Rightarrow> 'c list) \<Rightarrow> 's \<Rightarrow> bool"
    and mu :: "(tid \<Rightarrow> 'c list) \<Rightarrow> 's \<Rightarrow> nat"
    and extra :: "'l \<Rightarrow> nat"
  assumes jinv_init: "jinv script init"
    and jinv_step: "inv s \<Longrightarrow> jinv sc s \<Longrightarrow> script_step call step l (sc, s) = Some (sd, u) \<Longrightarrow> jinv sd u"
    and mu_step: "inv s \<Longrightarrow> jinv sc s \<Longrightarrow> script_step call step l (sc, s) = Some (sd, u) \<Longrightarrow> mu sd u < mu sc s + extra l"
begin

lemma script_inv_step:
  assumes "inv s" "jinv sc s" "script_step call step l (sc, s) = Some (sd, u)"
  shows "inv u \<and> jinv sd u"
  using assms(3) jinv_step [OF assms] inv_step [OF assms(1)] by (cases rule: script_step_cases) auto

lemma script_exec:
  "inv s \<Longrightarrow> jinv sc s \<Longrightarrow> exec (script_step call step) ls (sc, s) = Some (sd, u) \<Longrightarrow>
    inv u \<and> jinv sd u \<and> length ls + mu sd u \<le> mu sc s + sum_list (map extra ls)"
proof (induction ls arbitrary: sc s)
  case Nil
  then show ?case by simp
next
  case (Cons l ls)
  from Cons.prems(3) obtain se v where e: "script_step call step l (sc, s) = Some (se, v)"
      "exec (script_step call step) ls (se, v) = Some (sd, u)"
    by (auto split: option.splits)
  from Cons.IH [OF _ _ e(2)] script_inv_step [OF Cons.prems(1,2) e(1)] mu_step [OF Cons.prems(1,2) e(1)] show ?case by auto
qed

lemma script_run:
  assumes "exec (script_step call step) ls (script, init) = Some (sd, u)"
  shows "inv u \<and> jinv sd u \<and> length ls \<le> mu script init + sum_list (map extra ls)"
  using script_exec [OF inv_init jinv_init assms] by simp

end

text \<open>The component moves as in its own machine.\<close>

lemma script_reach: "reach (script_step call step) p q \<Longrightarrow> reach step (snd p) (snd q)"
proof (induction rule: reach.induct)
  case reach_init
  show ?case by (rule reach.reach_init)
next
  case (reach_step s l t)
  obtain sc a sd b where st: "s = (sc, a)" "t = (sd, b)" by (cases s, cases t)
  then have "step l a = Some b" using reach_step.hyps(2) by (auto elim: script_step_cases)
  then show ?case using reach_step.IH st reach.reach_step [of step "snd p" a l b] by simp
qed

end
