(* ===== verification/Atomics.thy ===== *)
theory Atomics
  imports Scripts Lockfree_Stack Processes "HOL-Library.Word"
begin

text \<open>
  The programs about atomic variables: \<open>atomic-tutorial/fetch.cpp\<close> (a counter), \<open>compare-and-swap.c\<close>,
  \<open>spinlock-test-set.cpp\<close>, \<open>atomic-tutorial/load-and-store.cpp\<close>, and the threads of the \<open>main\<close> of
  \<open>compare-and-exchange.cpp\<close>. An operation on an atomic variable is one step; \<open>std::atomic<int>\<close> wraps around at 32 bits.
\<close>

section \<open>fetch.cpp\<close>

type_synonym counter = "32 word"

definition Counter :: counter where
  "Counter = 0"

text \<open>Both operators return the value before, as an unsigned number.\<close>

definition increment :: "counter \<Rightarrow> int \<times> counter" where
  "increment c = (uint c, c + 1)"

definition decrement :: "counter \<Rightarrow> int \<times> counter" where
  "decrement c = (uint c, c - 1)"

datatype counter_op = Inc | Dec

text \<open>Calls by any threads, in the order in which they take effect; the results with the threads that got them.\<close>

fun counter_run :: "(tid \<times> counter_op) list \<Rightarrow> counter \<Rightarrow> (tid \<times> int) list \<times> counter" where
  "counter_run [] c = ([], c)"
| "counter_run ((t, x) # xs) c =
     (case (case x of Inc \<Rightarrow> increment c | Dec \<Rightarrow> decrement c) of (r, d) \<Rightarrow>
      case counter_run xs d of (rs, e) \<Rightarrow> ((t, r) # rs, e))"

fun op_value :: "counter_op \<Rightarrow> int" where
  "op_value Inc = 1"
| "op_value Dec = - 1"

definition balance :: "(tid \<times> counter_op) list \<Rightarrow> int" where
  "balance xs = sum_list (map (\<lambda>(t, x). op_value x) xs)"

lemma balance_simps [simp]: "balance [] = 0" "balance ((t, x) # xs) = op_value x + balance xs"
  by (simp_all add: balance_def)

lemma counter_step:
  "(case x of Inc \<Rightarrow> increment c | Dec \<Rightarrow> decrement c) = (uint c, c + word_of_int (op_value x))"
  by (cases x) (simp_all add: increment_def decrement_def)

lemma counter_run_value: "snd (counter_run xs c) = c + word_of_int (balance xs)"
proof (induction xs arbitrary: c)
  case Nil
  then show ?case by simp
next
  case (Cons a xs)
  obtain t x where a: "a = (t, x)" by (cases a)
  show ?case using Cons.IH [of "c + word_of_int (op_value x)"]
    by (simp add: a counter_step split_beta add.assoc)
qed

lemma counter_run_results:
  "i < length xs \<Longrightarrow> fst (counter_run xs c) ! i = (fst (xs ! i), uint (c + word_of_int (balance (take i xs))))"
proof (induction xs arbitrary: c i)
  case Nil
  then show ?case by simp
next
  case (Cons a xs)
  obtain t x where a: "a = (t, x)" by (cases a)
  show ?case
  proof (cases i)
    case 0
    then show ?thesis by (simp add: a counter_step split_beta)
  next
    case (Suc j)
    then show ?thesis using Cons.IH [of j "c + word_of_int (op_value x)"] Cons.prems
      by (simp add: a counter_step split_beta add.assoc)
  qed
qed

lemma counter_run_length: "length (fst (counter_run xs c)) = length xs"
  by (induction xs c rule: counter_run.induct) (auto split: prod.splits counter_op.splits simp: counter_step)

lemma balance_incs: "\<forall>x\<in>set xs. snd x = Inc \<Longrightarrow> balance xs = int (length xs)"
  by (induction xs) auto

text \<open>The counter, whatever the threads and the order of their calls: its value is the number of increments minus the number
  of decrements, modulo \<open>2 ^ 32\<close>; each call returns that of the calls before it; so up to \<open>2 ^ 32\<close> increments draw the
  numbers from 0 in order, each once; and the first decrement of a new counter returns 0 and the next call 4294967295.\<close>

theorem fetch_correct:
  assumes "counter_run xs Counter = (rs, c)"
  shows "uint c = balance xs mod 2 ^ 32 \<and> length rs = length xs \<and>
    (\<forall>i<length xs. rs ! i = (fst (xs ! i), balance (take i xs) mod 2 ^ 32)) \<and>
    ((\<forall>x\<in>set xs. snd x = Inc) \<and> int (length xs) \<le> 2 ^ 32 \<longrightarrow> map snd rs = map int [0..<length xs]) \<and>
    fst (counter_run [(t, Dec), (u, Inc)] Counter) = [(t, 0), (u, 4294967295)]"
proof -
  have u: "uint (word_of_int k :: counter) = k mod 2 ^ 32" for k by (simp add: unsigned_of_int take_bit_eq_mod)
  have v: "uint c = balance xs mod 2 ^ 32" using counter_run_value [of xs Counter] assms u by (simp add: Counter_def)
  have len: "length rs = length xs" using counter_run_length [of xs Counter] assms by simp
  have r: "rs ! i = (fst (xs ! i), balance (take i xs) mod 2 ^ 32)" if "i < length xs" for i
    using counter_run_results [OF that, of Counter] assms u by (simp add: Counter_def)
  have t: "map snd rs = map int [0..<length xs]" if inc: "\<forall>x\<in>set xs. snd x = Inc" and l: "int (length xs) \<le> 2 ^ 32"
  proof (rule nth_equalityI)
    fix i
    assume "i < length (map snd rs)"
    then have i: "i < length xs" using len by simp
    have "\<forall>x\<in>set (take i xs). snd x = Inc" using inc set_take_subset [of i xs] by blast
    then have "balance (take i xs) = int i" using balance_incs [of "take i xs"] i by simp
    then have "snd (rs ! i) = int i mod 2 ^ 32" using r [OF i] by simp
    moreover have "int i < 2 ^ 32" using i l by linarith
    ultimately have "snd (rs ! i) = int i" by simp
    then show "map snd rs ! i = map int [0..<length xs] ! i" using i len by simp
  qed (simp add: len)
  have w: "fst (counter_run [(t, Dec), (u, Inc)] Counter) = [(t, 0), (u, 4294967295)]"
    by (simp add: Counter_def increment_def decrement_def unsigned_minus_1_eq_mask mask_eq_exp_minus_1)
  show ?thesis using v len r t w by blast
qed

text \<open>\<open>main\<close> of the file, and an interleaving of two threads.\<close>

theorem fetch_correct_witness:
  "\<exists>rs c. counter_run [(0, Inc), (1, Inc), (0, Inc)] Counter = (rs, c) \<and> uint c = 3 \<and> map snd rs = [0, 1, 2] \<and>
     fst (counter_run [(0, Inc), (0, Dec)] Counter) = [(0, 0), (0, 1)]"
proof -
  obtain rs c where r: "counter_run [(0, Inc), (1, Inc), (0, Inc)] Counter = (rs, c)" by fastforce
  have "fst (counter_run [(0, Inc), (0, Dec)] Counter) = [(0, 0), (0, 1)]"
    by (simp add: Counter_def increment_def decrement_def)
  moreover have "map int [0..<length [(0, Inc), (1, Inc), (0::nat, Inc)]] = [0, 1, 2]" by (simp add: upt_rec)
  moreover have "uint c = balance [(0, Inc), (1, Inc), (0, Inc)] mod 2 ^ 32" "map snd rs = map int [0..<length [(0, Inc), (1, Inc), (0::nat, Inc)]]"
    using fetch_correct [OF r, of 0 0] by simp_all
  ultimately show ?thesis using r by simp
qed

section \<open>compare-and-swap.c and spinlock-test-set.cpp\<close>

text \<open>The result is the byte that \<open>sete\<close> sets: whether the swap took place.\<close>

definition compare_and_swap :: "int \<Rightarrow> int \<Rightarrow> int \<Rightarrow> bool \<times> int" where
  "compare_and_swap v old new = (if v = old then (True, new) else (False, v))"

text \<open>What \<open>main\<close> prints: the variable before and after a swap that succeeds and one that fails, with the results.\<close>

definition cas_main :: "(int \<times> bool option) list" where
  "cas_main =
     (let g = 0; (s, g1) = compare_and_swap g 0 100; (s', g2) = compare_and_swap g1 0 200
      in [(g, None), (g1, Some s), (g1, None), (g2, Some s')])"

lemma cas_main_prints: "cas_main = [(0, None), (100, Some True), (100, None), (100, Some False)]"
  by (simp add: cas_main_def compare_and_swap_def Let_def)

text \<open>The loop \<open>while (!compare_and_swap(p, x, f(x)))\<close> of lock-free code: if nobody interferes between the read and the swap
  the swap succeeds, and it never overwrites a value it has not seen.\<close>

lemma compare_and_swap_safe:
  "compare_and_swap v old new = (ok, w) \<Longrightarrow> (ok \<longleftrightarrow> v = old) \<and> (if ok then w = new else w = v)"
  by (auto simp: compare_and_swap_def split: if_splits)

definition test_and_set :: "bool \<Rightarrow> bool \<times> bool" where
  "test_and_set f = (f, True)"

primrec test_and_sets :: "nat \<Rightarrow> bool \<Rightarrow> bool list" where
  "test_and_sets 0 f = []"
| "test_and_sets (Suc k) f = (case test_and_set f of (r, g) \<Rightarrow> r # test_and_sets k g)"

text \<open>Of any number of calls on a clear flag exactly the first gets it.\<close>

lemma test_and_set_once: "test_and_sets (Suc k) False = False # replicate k True"
proof -
  have "test_and_sets k True = replicate k True" by (induction k) (simp_all add: test_and_set_def)
  then show ?thesis by (simp add: test_and_set_def)
qed

section \<open>load-and-store.cpp\<close>

text \<open>Two threads wait for \<open>start\<close>, then store their own number (3 or 6) and load what is there, \<open>N\<close> times (10 in the
  source). The loop of a thousand empty iterations in between does nothing. \<open>LStart\<close> is the store of \<open>main\<close>.\<close>

datatype ls_pos = LSpin | LStore nat | LLoad nat | LPrint nat | LOver

record load_store =
  foobar :: int
  start_flag :: bool
  ls_pos :: "tid \<Rightarrow> ls_pos"
  records :: "tid \<Rightarrow> int list"
  ls_out :: "(tid \<times> nat \<times> int) list"

definition load_store_main :: load_store where
  "load_store_main = \<lparr>foobar = 8, start_flag = False, ls_pos = (\<lambda>_. LSpin), records = (\<lambda>_. []), ls_out = []\<rparr>"

definition own_value :: "tid \<Rightarrow> int" where
  "own_value t = (if t = 0 then 3 else 6)"

definition ls_at :: "tid \<Rightarrow> ls_pos \<Rightarrow> load_store \<Rightarrow> load_store" where
  "ls_at t p s = s\<lparr>ls_pos := (ls_pos s)(t := p)\<rparr>"

definition ls_thread :: "nat \<Rightarrow> tid \<Rightarrow> load_store \<Rightarrow> load_store option" where
  "ls_thread N t s =
     (case ls_pos s t of
        LSpin \<Rightarrow> Some (if start_flag s then ls_at t (LStore 0) s else s)
      | LStore i \<Rightarrow> Some (if i < N then ls_at t (LLoad i) (s\<lparr>foobar := own_value t\<rparr>) else ls_at t (LPrint 0) s)
      | LLoad i \<Rightarrow> Some (ls_at t (LStore (i + 1)) (s\<lparr>records := (records s)(t := records s t @ [foobar s])\<rparr>))
      | LPrint j \<Rightarrow> Some (if j < N then ls_at t (LPrint (j + 1)) (s\<lparr>ls_out := ls_out s @ [(t, j, records s t ! j)]\<rparr>)
          else ls_at t LOver s)
      | LOver \<Rightarrow> None)"

datatype ls_label = LThread tid | LStart

fun ls_step :: "nat \<Rightarrow> ls_label \<Rightarrow> load_store \<Rightarrow> load_store option" where
  "ls_step N (LThread t) s = (if t < 2 then ls_thread N t s else None)"
| "ls_step N LStart s = (if start_flag s then None else Some (s\<lparr>start_flag := True\<rparr>))"

fun loaded :: "nat \<Rightarrow> ls_pos \<Rightarrow> nat" where
  "loaded N LSpin = 0"
| "loaded N (LStore i) = i"
| "loaded N (LLoad i) = i"
| "loaded N p = N"

fun ls_pos_ok :: "nat \<Rightarrow> ls_pos \<Rightarrow> bool" where
  "ls_pos_ok N (LStore i) = (i \<le> N)"
| "ls_pos_ok N (LLoad i) = (i < N)"
| "ls_pos_ok N (LPrint j) = (j \<le> N)"
| "ls_pos_ok N p = True"

definition load_store_inv :: "nat \<Rightarrow> load_store \<Rightarrow> bool" where
  "load_store_inv N s \<longleftrightarrow> (\<forall>t<2. set (records s t) \<subseteq> {3, 6} \<and> length (records s t) = loaded N (ls_pos s t) \<and> ls_pos_ok N (ls_pos s t)) \<and>
     ((\<exists>t<2. \<exists>i. ls_pos s t = LLoad i) \<longrightarrow> foobar s \<in> {3, 6}) \<and>
     foobar s \<in> {8, 3, 6} \<and> (\<forall>x\<in>set (ls_out s). fst x < 2 \<and> snd (snd x) \<in> {3, 6})"

lemma load_store_invD:
  assumes "load_store_inv N s" "t < 2"
  shows "set (records s t) \<subseteq> {3, 6}" "length (records s t) = loaded N (ls_pos s t)" "ls_pos_ok N (ls_pos s t)"
    "ls_pos s t = LLoad i \<Longrightarrow> foobar s \<in> {3, 6}"
  using assms unfolding load_store_inv_def by blast+

text \<open>What a step changes.\<close>

lemma ls_thread_frame:
  assumes "ls_thread N t s = Some u"
  shows "v \<noteq> t \<Longrightarrow> records u v = records s v \<and> ls_pos u v = ls_pos s v"
    and "foobar u = (if \<exists>i. ls_pos u t = LLoad i then own_value t else foobar s)"
  using assms by (cases "ls_pos s t"; auto simp: ls_thread_def ls_at_def split: if_splits)+

lemma ls_thread_own:
  assumes inv: "load_store_inv N s" and t: "t < 2" "ls_thread N t s = Some u"
  shows "set (records u t) \<subseteq> {3, 6} \<and> length (records u t) = loaded N (ls_pos u t) \<and> ls_pos_ok N (ls_pos u t)"
  using t(2) load_store_invD [OF inv t(1)]
  by (cases "ls_pos s t") (auto simp: ls_thread_def ls_at_def split: if_splits)

lemma ls_thread_out:
  assumes inv: "load_store_inv N s" and t: "t < 2" "ls_thread N t s = Some u"
  shows "\<forall>x\<in>set (ls_out u). fst x < 2 \<and> snd (snd x) \<in> {3, 6}"
proof (cases "ls_out u = ls_out s")
  case True
  then show ?thesis using inv by (simp add: load_store_inv_def)
next
  case False
  then obtain j where j: "ls_pos s t = LPrint j" "j < N" "ls_out u = ls_out s @ [(t, j, records s t ! j)]"
    using t(2) by (cases "ls_pos s t") (auto simp: ls_thread_def ls_at_def split: if_splits)
  then have "records s t ! j \<in> set (records s t)" using load_store_invD(2) [OF inv t(1)] by simp
  then have "records s t ! j \<in> {3, 6}" using load_store_invD(1) [OF inv t(1)] by blast
  then show ?thesis using inv j t(1) by (auto simp: load_store_inv_def)
qed

lemma load_store_inv_step:
  assumes inv: "load_store_inv N s" and step: "ls_step N l s = Some u"
  shows "load_store_inv N u"
proof (cases l)
  case LStart
  then have u: "u = s\<lparr>start_flag := True\<rparr>" using step by (simp split: if_splits)
  show ?thesis using inv unfolding u load_store_inv_def by simp
next
  case (LThread t)
  then have t: "t < 2" "ls_thread N t s = Some u" using step by (auto split: if_splits)
  note F = ls_thread_frame [OF t(2)]
  have own: "own_value t \<in> {3, 6}" by (simp add: own_value_def)
  have each: "set (records u v) \<subseteq> {3, 6} \<and> length (records u v) = loaded N (ls_pos u v) \<and> ls_pos_ok N (ls_pos u v)"
    if "v < 2" for v
    using ls_thread_own [OF inv t] F(1) [of v] load_store_invD [OF inv that] by (cases "v = t") auto
  have ld: "foobar u \<in> {3, 6}" if v: "v < 2" "ls_pos u v = LLoad i" for v i
  proof (cases "v = t")
    case True
    then have "\<exists>i. ls_pos u t = LLoad i" using v by blast
    then show ?thesis using F(2) own by simp
  next
    case False
    then have "foobar s \<in> {3, 6}" using F(1) [of v] v load_store_invD(4) [OF inv v(1), of i] by simp
    then show ?thesis using F(2) own by simp
  qed
  have "foobar s \<in> {8, 3, 6}" using inv by (simp add: load_store_inv_def)
  then have fb: "foobar u \<in> {8, 3, 6}" using F(2) own by auto
  show ?thesis unfolding load_store_inv_def using each ld fb ls_thread_out [OF inv t] by blast
qed

interpretation load_store: safe_machine "ls_step N" load_store_main "load_store_inv N" for N :: nat
  by unfold_locales (simp add: load_store_inv_def load_store_main_def, rule load_store_inv_step)

text \<open>In every iteration the second thread stores and loads between the store and the load of the first.\<close>

lemma overwritten:
  "ls_pos s 0 = LStore i \<Longrightarrow> ls_pos s 1 = LStore i \<Longrightarrow> i + k \<le> N \<Longrightarrow>
   \<exists>u. exec (ls_step N) (concat (replicate k [LThread 0, LThread 1, LThread 1, LThread 0])) s = Some u \<and>
     records u 0 = records s 0 @ replicate k 6"
proof (induction k arbitrary: s i)
  case 0
  then show ?case by simp
next
  case (Suc k)
  obtain u where u: "exec (ls_step N) [LThread 0, LThread 1, LThread 1, LThread 0] s = Some u" "ls_pos u 0 = LStore (i + 1)"
      "ls_pos u 1 = LStore (i + 1)" "records u 0 = records s 0 @ [6]"
    using Suc.prems by (simp add: ls_thread_def ls_at_def own_value_def)
  obtain w where "exec (ls_step N) (concat (replicate k [LThread 0, LThread 1, LThread 1, LThread 0])) u = Some w"
      "records w 0 = records u 0 @ replicate k 6" using Suc.IH [OF u(2,3)] Suc.prems(3) by auto
  moreover have "concat (replicate (Suc k) [LThread 0, LThread 1, LThread 1, LThread 0]) =
      [LThread 0, LThread 1, LThread 1, LThread 0] @ concat (replicate k [LThread 0, LThread 1, LThread 1, LThread 0])" by simp
  ultimately have "exec (ls_step N) (concat (replicate (Suc k) [LThread 0, LThread 1, LThread 1, LThread 0])) s = Some w \<and>
      records w 0 = records s 0 @ replicate (Suc k) 6" using u by (simp only: exec_append option.case) simp
  then show ?case by blast
qed

text \<open>A thread of load-and-store.cpp never sees the initial value, only 3 or 6, and prints nothing else;
  but it need not see what it stored itself: for any number of iterations all the loads of the first thread can give 6.\<close>

theorem load_store_correct:
  assumes "reach (ls_step N) load_store_main s" "t < 2"
  shows "set (records s t) \<subseteq> {3, 6} \<and> length (records s t) \<le> N \<and> (ls_pos s t = LOver \<longrightarrow> length (records s t) = N) \<and>
    (\<forall>x\<in>set (ls_out s). snd (snd x) \<in> {3, 6}) \<and>
    (\<exists>u. reach (ls_step N) load_store_main u \<and> records u 0 = replicate N 6)"
proof -
  have inv: "load_store_inv N s" by (rule load_store.reach_inv [OF assms(1)])
  note D = load_store_invD [OF inv assms(2)]
  have "length (records s t) \<le> N \<and> (ls_pos s t = LOver \<longrightarrow> length (records s t) = N)"
    using D(2,3) by (cases "ls_pos s t") auto
  moreover obtain a where a: "exec (ls_step N) [LStart, LThread 0, LThread 1] load_store_main = Some a"
      "ls_pos a 0 = LStore 0" "ls_pos a 1 = LStore 0" "records a 0 = []"
    by (simp add: load_store_main_def ls_thread_def ls_at_def)
  moreover obtain u where "exec (ls_step N) (concat (replicate N [LThread 0, LThread 1, LThread 1, LThread 0])) a = Some u"
      "records u 0 = replicate N 6" using overwritten [OF a(2,3), of N N] a(4) by auto
  ultimately have "\<exists>u. reach (ls_step N) load_store_main u \<and> records u 0 = replicate N 6"
    using reach_exec [OF reachI [OF a(1)]] by blast
  then show ?thesis using D(1) inv \<open>length (records s t) \<le> N \<and> _\<close> unfolding load_store_inv_def by blast
qed

theorem load_store_correct_witness:
  "\<exists>s. exec (ls_step 1) [LStart, LThread 1, LThread 1, LThread 1] load_store_main = Some s \<and> records s 1 = [6] \<and>
     set (records s 1) \<subseteq> {3, 6}"
proof -
  obtain s where s: "exec (ls_step 1) [LStart, LThread 1, LThread 1, LThread 1] load_store_main = Some s" "records s 1 = [6]"
    by (simp add: load_store_main_def ls_thread_def ls_at_def own_value_def)
  with load_store_correct [OF reachI [OF s(1)], of 1] show ?thesis by simp
qed

section \<open>Threads of compare-and-exchange.cpp\<close>

text \<open>\<open>main\<close> creates two threads that push and two that pop (\<open>t1\<close>, \<open>t4\<close>, \<open>t2\<close>, \<open>t3\<close>, here numbered as in their names) and joins
  three of them. At the end of \<open>main\<close> the destructor of a \<open>std::thread\<close> that has not been joined calls
  \<open>std::terminate\<close>.\<close>

definition lfs_main :: "main_op list" where
  "lfs_main = [Create 1, Create 4, Create 2, Create 3, Join 1, Join 2, Join 3]"

fun unjoined :: "main_op list \<Rightarrow> tid list" where
  "unjoined [] = []"
| "unjoined (Create t # ops) = (if Join t \<in> set ops then unjoined ops else t # unjoined ops)"
| "unjoined (Join t # ops) = unjoined ops"

definition cxx_exit :: "main_op list \<Rightarrow> status" where
  "cxx_exit ops = (if unjoined ops = [] then Exited 0 else Aborted)"

text \<open>The bodies of the threads: five pushes of \<open>i\<close> or five pops. Over the stack of the file, with its two threads that pop, the
  program can read a node that has been freed.\<close>

datatype lfs_call = CallPush int | CallPop

fun lfs_calls :: "lfs_label \<Rightarrow> (tid \<times> lfs_call) option" where
  "lfs_calls (Push t v) = Some (t, CallPush v)"
| "lfs_calls (Pop t) = Some (t, CallPop)"
| "lfs_calls l = None"

definition lfs_script :: "tid \<Rightarrow> lfs_call list" where
  "lfs_script t = (if t = 1 \<or> t = 4 then map CallPush [0..4] else if t = 2 \<or> t = 3 then replicate 5 CallPop else [])"

theorem lfs_main_use_after_free:
  "\<exists>sc s. reach (script_step lfs_calls (lfs_step (\<lambda>t. True))) (lfs_script, LFS) (sc, s) \<and> fault s = Some UseAfterFree \<and> log s = [(1, Pushed 0), (3, Popped 0)]"
proof -
  have five: "replicate 5 CallPop = [CallPop, CallPop, CallPop, CallPop, CallPop]" by (simp add: numeral_eq_Suc)
  obtain sc s where s: "exec (script_step lfs_calls (lfs_step (\<lambda>t. True)))
      [Push 1 0, New 1 7, Run 1 False, Run 1 False, Pop 2, Run 2 False, Pop 3, Run 3 False, Run 3 False, Run 3 False, Run 3 False,
       Run 3 False, Run 2 False] (lfs_script, LFS) = Some (sc, s)" "fault s = Some UseAfterFree" "log s = [(1, Pushed 0), (3, Popped 0)]"
    by (simp add: script_step_def lfs_script_def LFS_def lfs_eval upto_rec1 five)
  then show ?thesis using reachI [OF s(1)] by blast
qed

theorem lfs_main_terminates: "cxx_exit lfs_main = Aborted \<and> unjoined lfs_main = [4]"
  by (simp add: cxx_exit_def lfs_main_def)

lemma create_join_exit: "cxx_exit (create_join n) = Exited 0"
proof -
  have "unjoined (map Create ts @ js) = unjoined js" if "\<forall>t\<in>set ts. Join t \<in> set js" for ts js
    using that by (induction ts) auto
  moreover have "unjoined (map Join ts) = []" for ts by (induction ts) auto
  ultimately show ?thesis by (simp add: cxx_exit_def create_join_def)
qed

end
