(* ===== verification/Unix_Processes.thy ===== *)
theory Unix_Processes
  imports Exploration
begin

text \<open>
  The programs \<open>cpu-api/p1.c\<close> to \<open>p4.c\<close>: \<open>fork\<close>, \<open>wait\<close> and \<open>execvp\<close>.

  A process is what it still has to do, the buffer of its \<open>stdout\<close>, where its descriptor 1 leads, and its exit code once it
  has ended. \<open>fork\<close> copies the parent, its buffer included. On a terminal a line is written when it is printed; in a file
  or a pipe (\<open>tty\<close> is false) it stays in the buffer until the process exits, and \<open>execvp\<close> throws the buffer away. The
  outcomes of \<open>fork\<close>, \<open>open\<close> and \<open>execvp\<close> are parameters. Of \<open>wc\<close> only that it writes something to descriptor 1 is
  modelled. The pid of the child is 1; the messages carry it where the code prints it, but not the own pid.
\<close>

datatype unix_line = Hello | IAmChild | IAmParent int "int option" | NotPrinted | WcOutput

datatype unix_act = Print unix_line | WaitChild | PrintParent bool | AssertWait | CloseStdout | OpenFile | ExecWc

datatype target = Screen | File | Closed

record unix_proc =
  acts :: "unix_act list"
  buf :: "unix_line list"
  out_to :: target
  waited :: "int option"
  code :: "int option"

record unix_state =
  parent_p :: unix_proc
  child_p :: "unix_proc option"
  forked :: bool
  screen :: "unix_line list"
  outfile :: "unix_line list"

datatype program = P1 | P2 | P3 | P4

record outcomes =
  tty :: bool
  fork_ok :: bool
  open_ok :: bool
  exec_ok :: bool

text \<open>What is done before \<open>fork\<close>, and then by the child and by the parent.\<close>

fun before_fork :: "program \<Rightarrow> unix_act list" where
  "before_fork P4 = []"
| "before_fork p = [Print Hello]"

fun child_acts :: "program \<Rightarrow> unix_act list" where
  "child_acts P1 = [Print IAmChild]"
| "child_acts P2 = [Print IAmChild]"
| "child_acts P3 = [Print IAmChild, ExecWc, Print NotPrinted]"
| "child_acts P4 = [CloseStdout, OpenFile, ExecWc]"

fun parent_acts :: "program \<Rightarrow> unix_act list" where
  "parent_acts P1 = [PrintParent False]"
| "parent_acts P2 = [WaitChild, PrintParent True]"
| "parent_acts P3 = [WaitChild, PrintParent True]"
| "parent_acts P4 = [WaitChild, AssertWait]"

definition unix_main :: "program \<Rightarrow> unix_state" where
  "unix_main p = \<lparr>parent_p = \<lparr>acts = before_fork p, buf = [], out_to = Screen, waited = None, code = None\<rparr>,
     child_p = None, forked = False, screen = [], outfile = []\<rparr>"

definition emit :: "target \<Rightarrow> unix_line list \<Rightarrow> unix_state \<Rightarrow> unix_state" where
  "emit tgt ls s =
     (case tgt of Screen \<Rightarrow> s\<lparr>screen := screen s @ ls\<rparr> | File \<Rightarrow> s\<lparr>outfile := outfile s @ ls\<rparr> | Closed \<Rightarrow> s)"

text \<open>An action of a process: the process after it and what it does to the outside. \<open>put\<close> stores the process.\<close>

definition print_line :: "outcomes \<Rightarrow> (unix_proc \<Rightarrow> unix_state \<Rightarrow> unix_state) \<Rightarrow> unix_line \<Rightarrow> unix_proc \<Rightarrow> unix_state \<Rightarrow> unix_state" where
  "print_line env put l p s = (if tty env then put p (emit (out_to p) [l] s) else put (p\<lparr>buf := buf p @ [l]\<rparr>) s)"

definition exit_proc :: "int \<Rightarrow> (unix_proc \<Rightarrow> unix_state \<Rightarrow> unix_state) \<Rightarrow> unix_proc \<Rightarrow> unix_state \<Rightarrow> unix_state" where
  "exit_proc c put p s = put (p\<lparr>acts := [], buf := [], code := Some c\<rparr>) (emit (out_to p) (buf p) s)"

definition do_act :: "outcomes \<Rightarrow> (unix_proc \<Rightarrow> unix_state \<Rightarrow> unix_state) \<Rightarrow> unix_act \<Rightarrow> unix_proc \<Rightarrow> unix_state \<Rightarrow> unix_state option" where
  "do_act env put a p s =
     (case a of
        Print l \<Rightarrow> Some (print_line env put l p s)
      | WaitChild \<Rightarrow> (case child_p s of
            None \<Rightarrow> Some (put (p\<lparr>waited := Some (- 1)\<rparr>) s)
          | Some c \<Rightarrow> if code c = None then None else Some (put (p\<lparr>waited := Some 1\<rparr>) s))
      | PrintParent w \<Rightarrow> Some (print_line env put (IAmParent 1 (if w then waited p else None)) p s)
      | AssertWait \<Rightarrow> Some (case waited p of
            Some w \<Rightarrow> if w \<ge> 0 then put p s else put (p\<lparr>acts := [], code := Some 134\<rparr>) s
          | None \<Rightarrow> put p s)
      | CloseStdout \<Rightarrow> Some (put (p\<lparr>out_to := Closed\<rparr>) s)
      | OpenFile \<Rightarrow> Some (put (if open_ok env then p\<lparr>out_to := File\<rparr> else p) s)
      | ExecWc \<Rightarrow> Some (if exec_ok env then put (p\<lparr>acts := [], buf := [], code := Some 0\<rparr>) (emit (out_to p) [WcOutput] s) else put p s))"

definition set_parent :: "unix_proc \<Rightarrow> unix_state \<Rightarrow> unix_state" where
  "set_parent p s = s\<lparr>parent_p := p\<rparr>"

definition set_child :: "unix_proc \<Rightarrow> unix_state \<Rightarrow> unix_state" where
  "set_child p s = s\<lparr>child_p := Some p\<rparr>"

text \<open>\<open>fork\<close>: both go on with their part of the program; if it fails, the process exits with 1.\<close>

definition fork :: "program \<Rightarrow> outcomes \<Rightarrow> unix_state \<Rightarrow> unix_state" where
  "fork prog env s =
     (let p = parent_p s in
      if fork_ok env then s\<lparr>forked := True, parent_p := p\<lparr>acts := parent_acts prog\<rparr>, child_p := Some (p\<lparr>acts := child_acts prog\<rparr>)\<rparr>
      else exit_proc 1 set_parent p (s\<lparr>forked := True\<rparr>))"

fun unix_step :: "program \<Rightarrow> outcomes \<Rightarrow> bool \<Rightarrow> unix_state \<Rightarrow> unix_state option" where
  "unix_step prog env True s =
     (let p = parent_p s in
      if code p \<noteq> None then None
      else (case acts p of
          a # as \<Rightarrow> do_act env set_parent a (p\<lparr>acts := as\<rparr>) s
        | [] \<Rightarrow> Some (if forked s then exit_proc 0 set_parent p s else fork prog env s)))"
| "unix_step prog env False s =
     (case child_p s of
        None \<Rightarrow> None
      | Some p \<Rightarrow> if code p \<noteq> None then None
          else (case acts p of
              a # as \<Rightarrow> do_act env set_child a (p\<lparr>acts := as\<rparr>) s
            | [] \<Rightarrow> Some (exit_proc 0 set_child p s)))"

interpretation unix: small_machine "unix_step prog env" "unix_main prog" "[True, False]" for prog :: program and env :: outcomes
  by unfold_locales auto

definition unix_states :: "program \<Rightarrow> outcomes \<Rightarrow> unix_state list" where
  "unix_states prog env = explore 200 (succs (unix_step prog env) [True, False]) [] [unix_main prog]"

text \<open>The screens a program can leave.\<close>

fun screens :: "program \<Rightarrow> outcomes \<Rightarrow> unix_line list list" where
  "screens P1 env = (if tty env then [[Hello, IAmChild, IAmParent 1 None], [Hello, IAmParent 1 None, IAmChild]]
     else [[Hello, IAmChild, Hello, IAmParent 1 None], [Hello, IAmParent 1 None, Hello, IAmChild]])"
| "screens P2 env = (if tty env then [[Hello, IAmChild, IAmParent 1 (Some 1)]]
     else [[Hello, IAmChild, Hello, IAmParent 1 (Some 1)]])"
| "screens P3 env =
     (if tty env then (if exec_ok env then [[Hello, IAmChild, WcOutput, IAmParent 1 (Some 1)]]
        else [[Hello, IAmChild, NotPrinted, IAmParent 1 (Some 1)]])
      else if exec_ok env then [[WcOutput, Hello, IAmParent 1 (Some 1)]]
      else [[Hello, IAmChild, NotPrinted, Hello, IAmParent 1 (Some 1)]])"
| "screens P4 env = [[]]"

definition unix_stuck :: "program \<Rightarrow> outcomes \<Rightarrow> unix_state \<Rightarrow> bool" where
  "unix_stuck prog env s \<longleftrightarrow> unix_step prog env True s = None \<and> unix_step prog env False s = None"

definition unix_ok :: "program \<Rightarrow> outcomes \<Rightarrow> unix_state \<Rightarrow> bool" where
  "unix_ok prog env s \<longleftrightarrow> (unix_stuck prog env s \<longrightarrow>
     (if fork_ok env then code (parent_p s) = Some 0 \<and> screen s \<in> set (screens prog env) \<and>
        outfile s = (if prog = P4 \<and> open_ok env \<and> exec_ok env then [WcOutput] else [])
      else code (parent_p s) = Some 1 \<and> screen s = (if prog = P4 then [] else [Hello]) \<and> outfile s = []))"

definition proc_rank :: "unix_proc \<Rightarrow> nat" where
  "proc_rank p = (if code p = None then length (acts p) + 1 else 0)"

definition unix_rank :: "unix_state \<Rightarrow> nat" where
  "unix_rank s = proc_rank (parent_p s) + (case child_p s of None \<Rightarrow> 0 | Some c \<Rightarrow> proc_rank c) + (if forked s then 0 else 8)"

definition unix_checked :: "program \<Rightarrow> outcomes \<Rightarrow> bool" where
  "unix_checked prog env \<longleftrightarrow> explored (unix_step prog env) [True, False] (unix_main prog) (unix_states prog env) \<and>
     list_all (unix_ok prog env) (unix_states prog env) \<and>
     list_all (\<lambda>s. list_all (\<lambda>t. unix_rank t < unix_rank s) (succs (unix_step prog env) [True, False] s)) (unix_states prog env)"

definition all_outcomes :: "outcomes list" where
  "all_outcomes = [\<lparr>tty = a, fork_ok = b, open_ok = c, exec_ok = d\<rparr>. a \<leftarrow> [True, False], b \<leftarrow> [True, False], c \<leftarrow> [True, False], d \<leftarrow> [True, False]]"

lemma all_outcomes: "env \<in> set all_outcomes"
proof -
  obtain a b c d where "env = \<lparr>tty = a, fork_ok = b, open_ok = c, exec_ok = d\<rparr>" by (cases env) blast
  then show ?thesis by (cases a; cases b; cases c; cases d) (simp_all add: all_outcomes_def)
qed

lemma unix_all_checked:
  "list_all (unix_checked P1) all_outcomes" "list_all (unix_checked P2) all_outcomes"
  "list_all (unix_checked P3) all_outcomes" "list_all (unix_checked P4) all_outcomes"
  by code_simp+

lemma unix_checked_all: "unix_checked prog env"
  using unix_all_checked all_outcomes [of env] by (cases prog) (auto simp: list_all_iff)

section \<open>Property\<close>

text \<open>C38: the four programs, for every outcome of the system calls and on a terminal as well as into a file: a run has at most ten
  steps, and when nothing can go on the parent has exited, with 1 if and only if fork failed, and the output is one of
  the lists of screens: p2 and p3 print the child's part before the parent's, in p1 the order is open; into a file
  the first line comes twice, once from each process, and p3 loses the lines that the child has printed before it becomes
  wc; and the output of wc in p4 is in the file and nowhere else.\<close>

theorem unix_programs_correct:
  assumes "exec (unix_step prog env) ls (unix_main prog) = Some s"
  shows "length ls \<le> 10 \<and>
    ((\<forall>b. unix_step prog env b s = None) \<longrightarrow>
      code (parent_p s) = Some (if fork_ok env then 0 else 1) \<and>
      (fork_ok env \<longrightarrow> screen s \<in> set (screens prog env)) \<and>
      (\<not> fork_ok env \<longrightarrow> screen s = (if prog = P4 then [] else [Hello])) \<and>
      outfile s = (if prog = P4 \<and> fork_ok env \<and> open_ok env \<and> exec_ok env then [WcOutput] else []))"
proof -
  note c = unix_checked_all [of prog env, unfolded unix_checked_def]
  have "unix_rank (unix_main prog) \<le> 10" by (cases prog) (simp_all add: unix_rank_def unix_main_def proc_rank_def)
  then have len: "length ls \<le> 10" using unix.exec_rank [OF _ _ reach_init assms] c by fastforce
  have "unix_ok prog env s" using unix.reach_all c reachI [OF assms] by blast
  moreover have "unix_stuck prog env s" if "\<forall>b. unix_step prog env b s = None" using that unfolding unix_stuck_def by blast
  ultimately have "\<forall>b. unix_step prog env b s = None \<Longrightarrow>
      (if fork_ok env then code (parent_p s) = Some 0 \<and> screen s \<in> set (screens prog env) \<and>
        outfile s = (if prog = P4 \<and> open_ok env \<and> exec_ok env then [WcOutput] else [])
      else code (parent_p s) = Some 1 \<and> screen s = (if prog = P4 then [] else [Hello]) \<and> outfile s = [])"
    unfolding unix_ok_def by blast
  then show ?thesis using len by (cases "fork_ok env") (simp_all del: unix_step.simps)
qed

text \<open>p3 into a file: the child's line is lost.\<close>

theorem unix_programs_correct_witness:
  "\<exists>s. exec (unix_step P3 \<lparr>tty = False, fork_ok = True, open_ok = True, exec_ok = True\<rparr>)
      [True, True, False, False, True, True, True] (unix_main P3) = Some s \<and>
     code (parent_p s) = Some 0 \<and> screen s = [WcOutput, Hello, IAmParent 1 (Some 1)]"
proof -
  let ?e = "\<lparr>tty = False, fork_ok = True, open_ok = True, exec_ok = True\<rparr>"
  have "case exec (unix_step P3 ?e) [True, True, False, False, True, True, True] (unix_main P3) of None \<Rightarrow> False
    | Some s \<Rightarrow> unix_step P3 ?e True s = None \<and> unix_step P3 ?e False s = None" by code_simp
  then obtain s where s: "exec (unix_step P3 ?e) [True, True, False, False, True, True, True] (unix_main P3) = Some s"
      "unix_step P3 ?e True s = None" "unix_step P3 ?e False s = None" by (auto split: option.splits simp del: unix_step.simps exec.simps)
  then have "\<forall>b. unix_step P3 ?e b s = None" by (simp add: all_bool_eq)
  with unix_programs_correct [OF s(1)] have "code (parent_p s) = Some 0 \<and> screen s = [WcOutput, Hello, IAmParent 1 (Some 1)]" by simp
  with s(1) show ?thesis by blast
qed

end
