(* ===== verification/Service_Mains.thy ===== *)
theory Service_Mains
  imports Scripts Dispatch_Queue Thread_Pool "HOL-Library.Sublist"
begin

text \<open>
  The \<open>main\<close> of \<open>dispatch-que.cpp\<close> and of \<open>thread-pool/main.cpp\<close>: one client with a script, over the machines of the
  dispatch queue and of the pool. A job is its number; what it prints and how long it sleeps is left out. The number of
  threads, the jobs and the size of the queue are parameters, the constants of the sources are the instances.

  There is no clock. The \<open>sleep(100)\<close> between the last \<open>QueueJob\<close> and \<open>Stop\<close> is a step of the client during
  which others may run, for as long or as short as the schedule has it. In the source it outlasts the jobs, which sleep for 40
  seconds together; that is said as a condition on the run, that the queue is empty when the client comes out of its sleep.
\<close>

section \<open>Sums over threads\<close>

definition thread_sum :: "nat \<Rightarrow> ('p \<Rightarrow> nat) \<Rightarrow> (tid \<Rightarrow> 'p) \<Rightarrow> nat" where
  "thread_sum m w f = (\<Sum>i<m. w (f i))"

lemma sum_upd: "t < m \<Longrightarrow> thread_sum m w (f(t := p)) + w (f t) = thread_sum m w f + w p"
  using sum_change [of t m "\<lambda>i. w ((f(t := p)) i)" "\<lambda>i. w (f i)"] by (simp add: thread_sum_def)

lemma sum_notify_one:
  assumes "notify_one wk m c f = Some g" "\<And>p q. wk p = Some q \<Longrightarrow> w q \<le> w p + 1"
  shows "thread_sum m w g \<le> thread_sum m w f + 1"
  using assms(1)
proof (cases rule: notify_one_cases)
  case nobody
  then show ?thesis by simp
next
  case (somebody i p)
  then show ?thesis using sum_upd [of i m w f p] assms(2) [of "f i" p] by simp
qed

lemma sum_notify_all:
  assumes "\<And>p q. wk p = Some q \<Longrightarrow> w q \<le> w p + 1"
  shows "thread_sum m w (notify_all wk f) \<le> thread_sum m w f + m"
proof -
  have "w (notify_all wk f i) \<le> w (f i) + 1" for i
    using assms by (cases "wk (f i)") (auto simp: notify_all_def)
  then have "(\<Sum>i<m. w (notify_all wk f i)) \<le> (\<Sum>i<m. w (f i) + 1)" by (intro sum_mono) blast
  then show ?thesis unfolding thread_sum_def sum.distrib by simp
qed

lemma sum_init: "thread_sum m w (\<lambda>i. if i < n then p else q) \<le> n * w p + m * w q"
proof -
  have "thread_sum m w (\<lambda>i. if i < n then p else q) \<le> (\<Sum>i<m. (if i < n then w p else 0) + w q)"
    unfolding thread_sum_def by (intro sum_mono) simp
  also have "\<dots> = (\<Sum>i<m. if i < n then w p else 0) + m * w q" unfolding sum.distrib by simp
  also have "(\<Sum>i<m. if i < n then w p else 0) = (\<Sum>i\<in>{..<m} \<inter> {i. i < n}. w p)" by (simp add: sum.If_cases)
  also have "\<dots> \<le> n * w p"
  proof -
    have "card ({..<m} \<inter> {i. i < n}) \<le> card {..<n}" by (intro card_mono) auto
    then show ?thesis by simp
  qed
  finally show ?thesis by simp
qed

section \<open>dispatch-que.cpp\<close>

datatype 'j dq_op = CallDispatch 'j | CallDestroy

fun dq_calls :: "'j dq_label \<Rightarrow> (tid \<times> 'j dq_op) option" where
  "dq_calls (Dispatch t j c) = Some (t, CallDispatch j)"
| "dq_calls (Destroy t) = Some (t, CallDestroy)"
| "dq_calls l = None"

text \<open>The client is thread \<open>n\<close>: it dispatches the jobs, and the destructor of the queue runs at the end of \<open>main\<close>.\<close>

definition dispatch_script :: "nat \<Rightarrow> 'j list \<Rightarrow> tid \<Rightarrow> 'j dq_op list" where
  "dispatch_script n js t = (if t = n then map CallDispatch js @ [CallDestroy] else [])"

definition dispatch_main_step :: "nat \<Rightarrow> 'j dq_label \<Rightarrow> (tid \<Rightarrow> 'j dq_op list) \<times> 'j dispatch_queue \<Rightarrow>
    ((tid \<Rightarrow> 'j dq_op list) \<times> 'j dispatch_queue) option" where
  "dispatch_main_step n = script_step dq_calls (dq_step n (n + 1))"

definition dispatch_main :: "nat \<Rightarrow> 'j list \<Rightarrow> (tid \<Rightarrow> 'j dq_op list) \<times> 'j dispatch_queue" where
  "dispatch_main n js = (dispatch_script n js, dispatch_queue n)"

text \<open>What a step may still cost: jobs in the queue and calls that have not been made pay for the wake-ups they cause.\<close>

fun dq_weight :: "nat \<Rightarrow> 'j dpc \<Rightarrow> nat" where
  "dq_weight n DLoop = 1"
| "dq_weight n (DRun j) = 2"
| "dq_weight n UDestroy = 2 * n + 3"
| "dq_weight n (UJoin k) = Suc (n - k)"
| "dq_weight n p = 0"

fun dq_call_cost :: "nat \<Rightarrow> 'j dq_op \<Rightarrow> nat" where
  "dq_call_cost n (CallDispatch j) = 5"
| "dq_call_cost n CallDestroy = 2 * n + 4"

definition dq_rank :: "nat \<Rightarrow> (tid \<Rightarrow> 'j dq_op list) \<Rightarrow> 'j dispatch_queue \<Rightarrow> nat" where
  "dq_rank n sc s = thread_sum (n + 1) (dq_weight n) (dpcs s) + 3 * length (queue s) + sum_list (map (dq_call_cost n) (sc n))"

fun dq_extra :: "'j dq_label \<Rightarrow> nat" where
  "dq_extra (DSpurious t) = 2"
| "dq_extra l = 0"

definition dq_jinv :: "nat \<Rightarrow> 'j list \<Rightarrow> (tid \<Rightarrow> 'j dq_op list) \<Rightarrow> 'j dispatch_queue \<Rightarrow> bool" where
  "dq_jinv n js sc s \<longleftrightarrow>
     (\<forall>t. t \<noteq> n \<longrightarrow> sc t = []) \<and>
     (if sc n = [] then dispatched s = js \<and> dpcs s n \<noteq> UIdle
      else dpcs s n = UIdle \<and> \<not> quit s \<and> (\<exists>ks. sc n = map CallDispatch ks @ [CallDestroy] \<and> js = dispatched s @ ks))"

lemma cv_wake_weight: "cv_wake p = Some q \<Longrightarrow> dq_weight n q \<le> dq_weight n p + 1"
  by simp

lemma dq_rank_step:
  assumes inv: "dq_inv n (n + 1) s" and j: "dq_jinv n js sc s"
    and step: "script_step dq_calls (dq_step n (n + 1)) l (sc, s) = Some (sd, u)"
  shows "dq_rank n sd u < dq_rank n sc s + dq_extra l"
proof -
  let ?W = "thread_sum (n + 1) (dq_weight n)"
  note upd = sum_upd [where m = "n + 1" and w = "dq_weight n" and f = "dpcs s"]
  from step show ?thesis
  proof (cases rule: script_step_cases)
    case (call t c ds)
    have t: "t = n" using j call(2) unfolding dq_jinv_def by force
    show ?thesis
    proof (cases l)
      case (Dispatch t' x w)
      then have l: "t' = n" "c = CallDispatch x" using call(1) t by simp_all
      obtain f where f: "notify_one cv_wake (n + 1) w (dpcs s) = Some f"
          "u = s\<lparr>queue := queue s @ [x], dispatched := dispatched s @ [x], dpcs := f\<rparr>"
        using call(3) Dispatch by (auto simp: dispatch_def split: if_splits option.splits)
      have "?W f \<le> ?W (dpcs s) + 1" using sum_notify_one [OF f(1) cv_wake_weight] .
      then show ?thesis using f(2) call(2,4) l t Dispatch by (simp add: dq_rank_def)
    next
      case (Destroy t')
      then have "t' = n" "c = CallDestroy" using call(1) t by simp_all
      moreover have "dpcs s n = UIdle" "u = dq_at n UDestroy s" using call(3) Destroy calculation by (auto split: if_splits)
      ultimately show ?thesis using call(2,4) t Destroy upd [of n UDestroy] by (simp add: dq_rank_def)
    qed (use call(1) in auto)
  next
    case free
    from free(2) show ?thesis
    proof (cases rule: dq_step_cases)
      case (dispatch t x w f)
      then show ?thesis using free(1) by simp
    next
      case (begin_destroy t)
      then show ?thesis using free(1) by simp
    next
      case (set_quit t)
      have "?W (notify_all cv_wake (dpcs s)) \<le> ?W (dpcs s) + (n + 1)"
        using sum_notify_all [OF cv_wake_weight] .
      moreover have "notify_all cv_wake (dpcs s) t = UDestroy" using set_quit by (simp add: notify_all_def)
      ultimately show ?thesis
        using set_quit free(3) sum_upd [OF set_quit(1), of "dq_weight n" "notify_all cv_wake (dpcs s)" "UJoin 0"]
        by (simp add: dq_rank_def)
    next
      case (spurious t)
      then show ?thesis using free(3) upd [of t DLoop] by (simp add: dq_rank_def)
    next
      case (join t k p)
      then show ?thesis using free(3) upd [of t p] by (auto simp: dq_rank_def)
    next
      case (sleep t)
      then show ?thesis using free(3) upd [of t DWait] by (simp add: dq_rank_def)
    next
      case (take_job t x xs)
      then show ?thesis using free(3) upd [of t "DRun x"] by (simp add: dq_rank_def)
    next
      case (exit t)
      then show ?thesis using free(3) upd [of t DDone] by (simp add: dq_rank_def)
    next
      case (finish t x)
      then show ?thesis using free(3) upd [of t DLoop] by (simp add: dq_rank_def)
    qed
  qed
qed

lemma notify_one_other: "notify_one cv_wake m c f = Some g \<Longrightarrow> f i \<noteq> DWait \<Longrightarrow> g i = f i"
  by (erule notify_one_cases) auto

lemma dq_jinv_step:
  assumes inv: "dq_inv n (n + 1) s" and j: "dq_jinv n js sc s"
    and step: "script_step dq_calls (dq_step n (n + 1)) l (sc, s) = Some (sd, u)"
  shows "dq_jinv n js sd u"
  using step
proof (cases rule: script_step_cases)
  case (call t c ds)
  have t: "t = n" using j call(2) unfolding dq_jinv_def by force
  obtain ks where ks: "sc n = map CallDispatch ks @ [CallDestroy]" "js = dispatched s @ ks" "dpcs s n = UIdle" "\<not> quit s"
    using j call(2) t by (auto simp: dq_jinv_def split: if_splits)
  from call(3) show ?thesis
  proof (cases rule: dq_step_cases)
    case (dispatch t' x w f)
    then have "c = CallDispatch x" using call(1) by simp
    then have "ks = x # tl ks" "ds = map CallDispatch (tl ks) @ [CallDestroy]" using ks(1) call(2) t by (cases ks; simp)+
    moreover have "f n = UIdle" using notify_one_other [OF dispatch(3)] ks(3) by simp
    ultimately show ?thesis using dispatch ks(2,4) call(4) t j by (auto simp: dq_jinv_def)
  next
    case (begin_destroy t')
    then have "c = CallDestroy" "t' = n" using call(1) t by simp_all
    then have "ks = []" "ds = []" using ks(1) call(2) t by (cases ks; auto)+
    then show ?thesis using begin_destroy \<open>t' = n\<close> ks(2) call(4) t j by (simp add: dq_jinv_def)
  qed (use call(1) in auto)
next
  case free
  from free(2) show ?thesis
  proof (cases rule: dq_step_cases)
    case (set_quit t)
    have "server (dpcs s t) \<longleftrightarrow> t < n" using inv set_quit(1) by (simp add: dq_inv_def)
    then have "t = n" using set_quit by simp
    then show ?thesis using j free(3) set_quit by (auto simp: dq_jinv_def split: if_splits)
  qed (use j free in \<open>auto simp: dq_jinv_def split: if_splits\<close>)
qed

interpretation dispatch_scripted: scripted "dq_step n (n + 1)" "dispatch_queue n" "dq_inv n (n + 1)" dq_calls
  "dispatch_script n js" "dq_jinv n js" "dq_rank n" dq_extra
  for n :: nat and js :: "'j list"
proof (unfold_locales, goal_cases)
  case 1
  show ?case by (simp add: dq_jinv_def dispatch_script_def dispatch_queue_def)
next
  case 2
  then show ?case by (elim dq_jinv_step)
next
  case 3
  then show ?case by (rule dq_rank_step)
qed

fun spurious_dq :: "'j dq_label \<Rightarrow> bool" where
  "spurious_dq (DSpurious t) = True"
| "spurious_dq l = False"

lemma dq_extra_sum: "sum_list (map dq_extra ls) = 2 * length (filter spurious_dq ls)"
proof (induction ls)
  case (Cons l ls)
  then show ?case by (cases l) simp_all
qed simp

lemma dq_rank_init: "dq_rank n (dispatch_script n js) (dispatch_queue n) \<le> 3 * n + 5 * length js + 4"
proof -
  have "thread_sum (n + 1) (dq_weight n) (dpcs (dispatch_queue n)) \<le> n"
    using sum_init [of "n + 1" "dq_weight n" n DLoop UIdle] by (simp add: dispatch_queue_def)
  moreover have "sum_list (map (dq_call_cost n \<circ> CallDispatch) js) = 5 * length js" by (induction js) simp_all
  ultimately show ?thesis by (simp add: dq_rank_def dispatch_script_def dispatch_queue_def)
qed

text \<open>The client is faster than all threads but thread 0, which takes \<open>k\<close> jobs before the destructor runs.\<close>

definition dispatch_demo :: "nat \<Rightarrow> nat dq_label list" where
  "dispatch_demo k = map (\<lambda>j. Dispatch 4 j None) [1, 2, 3, 4] @ concat (replicate k [Serve 0, Serve 0]) @
     [Destroy 4, Serve 4] @ map Serve [0, 1, 2, 3, 4, 4, 4, 4, 4]"

lemma dispatch_loses:
  assumes "k \<le> 4"
  shows "\<exists>sd u. exec (dispatch_main_step 4) (dispatch_demo k) (dispatch_main 4 [1, 2, 3, 4 :: nat]) = Some (sd, u) \<and>
    dpcs u 4 = UDead \<and> dispatched u = [1, 2, 3, 4] \<and> taken u = take k [1, 2, 3, 4]"
proof -
  note defs = dispatch_demo_def dispatch_main_step_def dispatch_main_def script_step_def dispatch_script_def dispatch_queue_def
    dispatch_def dispatch_thread_handler_def destroy_step_def notify_one_def notify_all_def dq_at_def
  consider "k = 0" | "k = 1" | "k = 2" | "k = 3" | "k = 4" using assms by linarith
  then show ?thesis
    by cases (simp_all add: defs numeral_eq_Suc All_less_Suc Ex_less_Suc)
qed

text \<open>C19: the program dispatch-que.cpp ends: every run has at most 3 n + 5 j + 4 steps besides twice the spurious wake-ups,
  with n threads and j jobs, and where nothing but a spurious wake-up can happen the destructor has returned and every
  thread has been joined. The jobs that were run are the first k of those dispatched, in their order. Each k is possible:
  the destructor does not wait for the queue to be empty, so with the four jobs and threads of the program any number of
  jobs is lost.\<close>

theorem dispatch_main_correct:
  assumes "exec (dispatch_main_step n) ls (dispatch_main n js) = Some (sc, s)" "0 < n"
  shows "length ls \<le> 3 * n + 5 * length js + 4 + 2 * length (filter spurious_dq ls) \<and>
    (\<exists>k. taken s = take k js) \<and>
    ((\<forall>l. \<not> spurious_dq l \<longrightarrow> dispatch_main_step n l (sc, s) = None) \<longrightarrow>
      dpcs s n = UDead \<and> (\<forall>i<n. dpcs s i = DDone) \<and> dispatched s = js) \<and>
    (\<forall>k\<le>4. \<exists>ls sd u. exec (dispatch_main_step 4) ls (dispatch_main 4 [1, 2, 3, 4 :: nat]) = Some (sd, u) \<and>
      dpcs u 4 = UDead \<and> dispatched u = [1, 2, 3, 4] \<and> taken u = take k [1, 2, 3, 4])"
proof (intro conjI impI)
  note run = dispatch_scripted.script_run [OF assms(1) [unfolded dispatch_main_def dispatch_main_step_def]]
  show "length ls \<le> 3 * n + 5 * length js + 4 + 2 * length (filter spurious_dq ls)"
    using run dq_rank_init [of n js] dq_extra_sum [of ls] by simp
  have j: "dq_jinv n js sc s" and inv: "dq_inv n (n + 1) s" using run by simp_all
  have "reach (script_step dq_calls (dq_step n (n + 1))) (dispatch_script n js, dispatch_queue n) (sc, s)"
    using reachI [OF assms(1)] by (simp add: dispatch_main_def dispatch_main_step_def)
  from script_reach [OF this] have fifo: "dispatched s = taken s @ queue s" using dq_queue.fifo [of n "n + 1" s] by simp
  obtain ks where "js = dispatched s @ ks" using j by (auto simp: dq_jinv_def split: if_splits)
  with fifo have "taken s = take (length (taken s)) js" by simp
  then show "\<exists>k. taken s = take k js" ..
  assume stuck: "\<forall>l. \<not> spurious_dq l \<longrightarrow> dispatch_main_step n l (sc, s) = None"
  have "sc n = []"
  proof (rule ccontr)
    assume ne: "sc n \<noteq> []"
    then obtain ks where ks: "sc n = map CallDispatch ks @ [CallDestroy]" "dpcs s n = UIdle" "\<not> quit s"
      using j by (auto simp: dq_jinv_def split: if_splits)
    show False
    proof (cases ks)
      case Nil
      have "dispatch_main_step n (Destroy n) (sc, s) \<noteq> None"
        using ks Nil by (simp add: dispatch_main_step_def script_step_def)
      then show False using stuck by auto
    next
      case (Cons x xs)
      obtain c f where "notify_one cv_wake (n + 1) c (dpcs s) = Some f"
        using notify_one_enabled [of cv_wake "n + 1" "dpcs s"] by blast
      then have "dispatch_main_step n (Dispatch n x c) (sc, s) \<noteq> None"
        using ks Cons by (simp add: dispatch_main_step_def script_step_def dispatch_def)
      then show False using stuck by auto
    qed
  qed
  have "dq_step n (n + 1) (Serve t) s = None" for t
  proof -
    have "dispatch_main_step n (Serve t) (sc, s) = None" using stuck by simp
    then show ?thesis by (simp add: dispatch_main_step_def script_step_def)
  qed
  then have st: "dq_stuck n (n + 1) s" by (simp add: dq_stuck_def)
  then show "dpcs s n = UDead" "\<forall>i<n. dpcs s i = DDone" "dispatched s = js"
    using dq_stuck_state [OF inv st assms(2)] j \<open>sc n = []\<close> by (auto simp: dq_jinv_def split: if_splits)
next
  show "\<forall>k\<le>4. \<exists>ls sd u. exec (dispatch_main_step 4) ls (dispatch_main 4 [1, 2, 3, 4 :: nat]) = Some (sd, u) \<and>
      dpcs u 4 = UDead \<and> dispatched u = [1, 2, 3, 4] \<and> taken u = take k [1, 2, 3, 4]"
    using dispatch_loses by blast
qed

theorem dispatch_main_correct_witness:
  "\<exists>sc s. exec (dispatch_main_step 4) (dispatch_demo 2) (dispatch_main 4 [1, 2, 3, 4 :: nat]) = Some (sc, s) \<and>
     taken s = [1, 2] \<and> length (dispatch_demo 2) \<le> 36 + 2 * length (filter spurious_dq (dispatch_demo 2))"
proof -
  obtain sc s where s: "exec (dispatch_main_step 4) (dispatch_demo 2) (dispatch_main 4 [1, 2, 3, 4 :: nat]) = Some (sc, s)"
      "taken s = take 2 [1, 2, 3, 4]" using dispatch_loses [of 2] by auto
  then show ?thesis using dispatch_main_correct [OF s(1)] by auto
qed

section \<open>thread-pool/main.cpp\<close>

datatype 'j main_label = Pool "'j pool_label" | Slept tid

text \<open>A thread sleeps between its calls.\<close>

fun sleepy_step :: "nat \<Rightarrow> nat \<Rightarrow> 'j main_label \<Rightarrow> 'j pool \<Rightarrow> 'j pool option" where
  "sleepy_step n m (Pool l) s = pool_step n m l s"
| "sleepy_step n m (Slept t) s = (if t < m \<and> ppcs s t = CIdle then Some s else None)"

datatype 'j pool_op = CallQueueJob 'j | CallSleep | CallStop

fun pool_calls :: "'j main_label \<Rightarrow> (tid \<times> 'j pool_op) option" where
  "pool_calls (Pool (Queue_Job t j)) = Some (t, CallQueueJob j)"
| "pool_calls (Pool (Stop t)) = Some (t, CallStop)"
| "pool_calls (Pool (Go t c)) = None"
| "pool_calls (Pool (Spurious t)) = None"
| "pool_calls (Slept t) = Some (t, CallSleep)"

text \<open>The client is thread \<open>n\<close>: it queues the jobs, sleeps, and stops the pool.\<close>

definition pool_script :: "nat \<Rightarrow> 'j list \<Rightarrow> tid \<Rightarrow> 'j pool_op list" where
  "pool_script n js t = (if t = n then map CallQueueJob js @ [CallSleep, CallStop] else [])"

definition pool_main_step :: "nat \<Rightarrow> 'j main_label \<Rightarrow> (tid \<Rightarrow> 'j pool_op list) \<times> 'j pool \<Rightarrow>
    ((tid \<Rightarrow> 'j pool_op list) \<times> 'j pool) option" where
  "pool_main_step n = script_step pool_calls (sleepy_step n (n + 1))"

definition pool_main :: "nat \<Rightarrow> nat \<Rightarrow> bool \<Rightarrow> 'j list \<Rightarrow> (tid \<Rightarrow> 'j pool_op list) \<times> 'j pool" where
  "pool_main n size' blk js = (pool_script n js, ThreadPool n size' blk)"

lemma pool_script_cases:
  assumes "script_step pool_calls (sleepy_step n m) l (sc, s) = Some (sd, u)"
  obtains (free) a where "pool_calls (Pool a) = None" "pool_step n m a s = Some u" "sd = sc" "l = Pool a"
    | (call) a t c ds where "pool_calls (Pool a) = Some (t, c)" "sc t = c # ds" "pool_step n m a s = Some u" "sd = sc(t := ds)"
        "l = Pool a"
    | (slept) t ds where "sc t = CallSleep # ds" "t < m" "ppcs s t = CIdle" "u = s" "sd = sc(t := ds)" "l = Slept t"
proof (cases l)
  case (Pool a)
  with assms show thesis by (cases rule: script_step_cases) (simp_all add: free call)
next
  case (Slept t)
  from assms show thesis
  proof (cases rule: script_step_cases)
    case (call t' c ds)
    then show thesis using Slept by (intro slept) (auto split: if_splits)
  qed (use Slept in simp)
qed

lemma sleepy_reach: "reach (sleepy_step n m) s0 s \<Longrightarrow> reach (pool_step n m) s0 s"
proof (induction rule: reach.induct)
  case reach_init
  show ?case by (rule reach.reach_init)
next
  case (reach_step s l u)
  then show ?case by (cases l) (auto split: if_splits intro: reach.reach_step)
qed

interpretation sleepy: safe_machine "sleepy_step n m" "ThreadPool n size' blk" "pool_inv n m"
  for n m size' :: nat and blk :: bool
proof (unfold_locales, goal_cases)
  case 1
  show ?case using pool.inv_init .
next
  case (2 s l t)
  then show ?case using pool.inv_step by (cases l) (auto split: if_splits)
qed

fun pool_weight :: "nat \<Rightarrow> 'j ppc \<Rightarrow> nat" where
  "pool_weight m WLoop = 1"
| "pool_weight m WWait = 0"
| "pool_weight m (WRun j) = 2"
| "pool_weight m WDone = 0"
| "pool_weight m CIdle = 0"
| "pool_weight m (CQueue j) = 6"
| "pool_weight m (CTest j) = 6"
| "pool_weight m (CWait j) = 5"
| "pool_weight m CNotify = 2"
| "pool_weight m CStop = 2 * m + 4"
| "pool_weight m CStopNotEmpty = 2 * m + 3"
| "pool_weight m CStopNotFull = m + 2"
| "pool_weight m CJoin = 1"

fun pool_call_cost :: "nat \<Rightarrow> 'j pool_op \<Rightarrow> nat" where
  "pool_call_cost m (CallQueueJob j) = 7"
| "pool_call_cost m CallSleep = 1"
| "pool_call_cost m CallStop = 2 * m + 5"

definition pool_rank :: "nat \<Rightarrow> (tid \<Rightarrow> 'j pool_op list) \<Rightarrow> 'j pool \<Rightarrow> nat" where
  "pool_rank n sc s = thread_sum (n + 1) (pool_weight (n + 1)) (ppcs s) + 3 * length (jobs_que s) +
     sum_list (map (pool_call_cost (n + 1)) (sc n))"

fun spurious_pool :: "'j main_label \<Rightarrow> bool" where
  "spurious_pool (Pool (Spurious t)) = True"
| "spurious_pool l = False"

definition pool_extra :: "'j main_label \<Rightarrow> nat" where
  "pool_extra l = (if spurious_pool l then 2 else 0)"

text \<open>The job a call has not yet put into the queue; a thread inside \<open>QueueJob\<close> or idle.\<close>

fun pending :: "'j ppc \<Rightarrow> 'j list" where
  "pending (CQueue j) = [j]"
| "pending (CTest j) = [j]"
| "pending (CWait j) = [j]"
| "pending p = []"

fun queueing :: "'j ppc \<Rightarrow> bool" where
  "queueing CIdle = True"
| "queueing (CQueue j) = True"
| "queueing (CTest j) = True"
| "queueing (CWait j) = True"
| "queueing CNotify = True"
| "queueing p = False"

definition pool_jinv :: "nat \<Rightarrow> 'j list \<Rightarrow> (tid \<Rightarrow> 'j pool_op list) \<Rightarrow> 'j pool \<Rightarrow> bool" where
  "pool_jinv n js sc s \<longleftrightarrow>
     (\<forall>t. t \<noteq> n \<longrightarrow> sc t = []) \<and> pret s n \<noteq> Some False \<and>
     (if sc n = [] then subseq (pushed s) js \<and> pending (ppcs s n) = [] \<and> (queueing (ppcs s n) \<longrightarrow> ppcs s n = CIdle \<and> should_terminate s)
      else \<not> should_terminate s \<and> queueing (ppcs s n) \<and>
        (sc n = [CallStop] \<and> ppcs s n = CIdle \<and> subseq (pushed s) js \<or>
         (\<exists>xs ks. sc n = map CallQueueJob ks @ [CallSleep, CallStop] \<and> js = xs @ ks \<and> subseq (pushed s @ pending (ppcs s n)) xs)))"

lemma not_empty_weight: "not_empty p = Some q \<Longrightarrow> pool_weight m q \<le> pool_weight m p + 1"
  by (cases p) auto

lemma not_full_weight: "not_full p = Some q \<Longrightarrow> pool_weight m q \<le> pool_weight m p + 1"
  by (cases p) auto

lemma pool_rank_step:
  assumes inv: "pool_inv n (n + 1) s" and j: "pool_jinv n js sc s"
    and step: "script_step pool_calls (sleepy_step n (n + 1)) l (sc, s) = Some (sd, u)"
  shows "pool_rank n sd u < pool_rank n sc s + pool_extra l"
proof -
  let ?w = "pool_weight (n + 1)" and ?W = "thread_sum (n + 1) (pool_weight (n + 1))"
  note upd = sum_upd [where m = "n + 1" and w = ?w]
  from step show ?thesis
  proof (cases rule: pool_script_cases)
    case (slept t ds)
    have "t = n" using j slept(1) unfolding pool_jinv_def by force
    then show ?thesis using slept by (simp add: pool_rank_def)
  next
    case (call a t c ds)
    have t: "t = n" using j call(2) unfolding pool_jinv_def by force
    from call(3) show ?thesis
    proof (cases rule: pool_step_cases)
      case (call t' p)
      then have "t' = n" "?w p + 1 = pool_call_cost (n + 1) c" using \<open>pool_calls (Pool a) = Some (t, c)\<close> t by auto
      then show ?thesis using call \<open>sc t = c # ds\<close> \<open>sd = sc(t := ds)\<close> t upd [of n "ppcs s" p] by (simp add: pool_rank_def)
    qed (use call(1) in auto)
  next
    case (free a)
    from free(2) show ?thesis
    proof (cases rule: pool_step_cases)
      case (call t p)
      then show ?thesis using free(1) by auto
    next
      case (spurious t p)
      then have "?w p \<le> ?w (ppcs s t) + 1" using not_empty_weight not_full_weight by metis
      then show ?thesis using spurious free(3,4) upd [of t "ppcs s" p] by (simp add: pool_rank_def pool_extra_def)
    next
      case (sleep t)
      then show ?thesis using free(3) upd [of t "ppcs s" WWait] by (simp add: pool_rank_def)
    next
      case (exit t)
      then show ?thesis using free(3) upd [of t "ppcs s" WDone] by (simp add: pool_rank_def)
    next
      case (pop t x xs c f)
      have "?W f \<le> ?W (ppcs s) + 1" using sum_notify_one [OF pop(5) not_full_weight] .
      moreover have "f t = WLoop" using pop(2,5) by (auto elim!: notify_one_cases split: if_splits)
      ultimately show ?thesis using pop free(3) upd [of t f "WRun x"] by (simp add: pool_rank_def)
    next
      case (notify t c f)
      have "?W f \<le> ?W (ppcs s) + 1" using sum_notify_one [OF notify(3) not_empty_weight] .
      moreover have "f t = CNotify" using notify(2,3) by (auto elim!: notify_one_cases split: if_splits)
      ultimately show ?thesis using notify free(3) upd [of t f CIdle] by (simp add: pool_rank_def)
    next
      case (finish t x)
      then show ?thesis using free(3) upd [of t "ppcs s" WLoop] by (simp add: pool_rank_def)
    next
      case (refuse t x)
      then show ?thesis using free(3) upd [of t "ppcs s" CIdle] by (simp add: pool_rank_def)
    next
      case (push t x)
      then have "?w (ppcs s t) = 6" by auto
      then show ?thesis using push free(3) upd [of t "ppcs s" CNotify] upd [of t "ppcs s" CIdle] upd [of t "ppcs s" "CWait x"]
        by (simp add: pool_rank_def push_job_def)
    next
      case (stop t)
      then show ?thesis using free(3) upd [of t "ppcs s" CStopNotEmpty] by (simp add: pool_rank_def)
    next
      case (stop_ne t)
      let ?f = "notify_all not_empty (ppcs s)"
      have "?W ?f \<le> ?W (ppcs s) + (n + 1)" using sum_notify_all [OF not_empty_weight] .
      moreover have "?f t = CStopNotEmpty" using stop_ne by (simp add: notify_all_def)
      ultimately show ?thesis using stop_ne free(3) upd [of t ?f CStopNotFull] by (simp add: pool_rank_def)
    next
      case (stop_nf t)
      let ?f = "notify_all not_full (ppcs s)"
      have "?W ?f \<le> ?W (ppcs s) + (n + 1)" using sum_notify_all [OF not_full_weight] .
      moreover have "?f t = CStopNotFull" using stop_nf by (simp add: notify_all_def)
      ultimately show ?thesis using stop_nf free(3) upd [of t ?f CJoin] by (simp add: pool_rank_def)
    next
      case (join t)
      then show ?thesis using free(3) upd [of t "ppcs s" CIdle] by (simp add: pool_rank_def)
    qed
  qed
qed

lemma pool_rank_init: "pool_rank n (pool_script n js) (ThreadPool n size' blk) \<le> 3 * n + 7 * length js + 8"
proof -
  have "thread_sum (n + 1) (pool_weight (n + 1)) (ppcs (ThreadPool n size' blk)) \<le> n"
    using sum_init [of "n + 1" "pool_weight (n + 1)" n WLoop CIdle] by (simp add: ThreadPool_def)
  moreover have "sum_list (map (pool_call_cost (Suc n) \<circ> CallQueueJob) js) = 7 * length js" by (induction js) simp_all
  ultimately show ?thesis by (simp add: pool_rank_def pool_script_def ThreadPool_def)
qed

lemma pool_extra_sum: "sum_list (map pool_extra ls) = 2 * length (filter spurious_pool ls)"
  by (induction ls) (simp_all add: pool_extra_def)

lemma subseq_front: "subseq (xs @ ys) zs \<Longrightarrow> subseq xs zs"
  using list_emb_appendD by (fastforce intro: subseq_order.trans)

lemma worker_not_pending: "worker_pc p \<Longrightarrow> pending p = [] \<and> \<not> queueing p"
  by (cases p) auto

text \<open>A thread other than the client changes nothing of what the invariant says.\<close>

lemma pool_jinv_other:
  assumes "pool_jinv n js sc s" "pushed u = pushed s" "pret u n = pret s n" "should_terminate u = should_terminate s"
    "ppcs u n = ppcs s n \<or> not_full (ppcs s n) = Some (ppcs u n)"
  shows "pool_jinv n js sc u"
proof -
  have "pending (ppcs u n) = pending (ppcs s n) \<and> queueing (ppcs u n) = queueing (ppcs s n) \<and> (ppcs s n = CIdle \<longrightarrow> ppcs u n = CIdle)"
    using assms(5) by (cases "ppcs s n") (auto dest: sym)
  then show ?thesis using assms(1-4) by (auto simp: pool_jinv_def split: if_splits)
qed

lemma pool_jinv_step:
  assumes inv: "pool_inv n (n + 1) s" and j: "pool_jinv n js sc s"
    and step: "script_step pool_calls (sleepy_step n (n + 1)) l (sc, s) = Some (sd, u)"
  shows "pool_jinv n js sd u"
proof -
  have sh: "t < n + 1 \<Longrightarrow> worker_pc (ppcs s t) \<longleftrightarrow> t < n" for t using inv by (simp add: pool_inv_def)
  have client: "t = n" if "t < n + 1" "\<not> worker_pc (ppcs s t)" for t using sh that by force
  have worker: "t \<noteq> n" if "t < n + 1" "worker_pc (ppcs s t)" for t using sh that by force
  from step show ?thesis
  proof (cases rule: pool_script_cases)
    case (slept t ds)
    have t: "t = n" using j slept(1) unfolding pool_jinv_def by force
    obtain xs ks where "map CallQueueJob ks @ [CallSleep, CallStop] = CallSleep # ds" "js = xs @ ks" "subseq (pushed s) xs"
      using j slept(1,3) t by (auto simp: pool_jinv_def)
    then have "ds = [CallStop] \<and> subseq (pushed s) js" by (cases ks) auto
    then show ?thesis using j slept t by (auto simp: pool_jinv_def)
  next
    case (call a t c ds)
    have t: "t = n" using j call(2) unfolding pool_jinv_def by force
    note called = call
    from call(3) show ?thesis
    proof (cases rule: pool_step_cases)
      case (call t' p)
      then have t': "t' = n" "p = CStop \<and> c = CallStop \<or> (\<exists>x. p = CQueue x \<and> c = CallQueueJob x)" using called(1) t by auto
      have idle: "ppcs s n = CIdle" using call(2) t' by simp
      show ?thesis
      proof (cases "sc n = [CallStop]")
        case True
        then have "ds = []" "c = CallStop" using called(2) t by auto
        then show ?thesis using call t' True j called(4) t by (auto simp: pool_jinv_def pool_at_def)
      next
        case False
        then obtain xs ks where ks: "sc n = map CallQueueJob ks @ [CallSleep, CallStop]" "js = xs @ ks" "subseq (pushed s) xs"
          using j called(2) t idle by (auto simp: pool_jinv_def split: if_splits)
        have "ks \<noteq> []" using ks(1) called(2) t t'(2) by auto
        then obtain x ys where Cons: "ks = x # ys" by (cases ks) auto
        then have d: "ds = map CallQueueJob ys @ [CallSleep, CallStop]" "c = CallQueueJob x" using ks(1) called(2) t by auto
        moreover have "subseq (pushed s @ [x]) (xs @ [x])" using ks(3) by (intro list_emb_append_mono) simp_all
        ultimately have "\<exists>zs ws. ds = map CallQueueJob ws @ [CallSleep, CallStop] \<and> js = zs @ ws \<and> subseq (pushed s @ [x]) zs"
          using ks(2) Cons by (intro exI [of _ "xs @ [x]"] exI [of _ ys]) simp
        moreover have "\<not> should_terminate s" "pret s n \<noteq> Some False" "\<forall>i. i \<noteq> n \<longrightarrow> sc i = []"
          using j ks(1) by (simp_all add: pool_jinv_def)
        ultimately show ?thesis using call(3) t' d called(4) t by (auto simp: pool_jinv_def pool_at_def)
      qed
    qed (use called(1) in auto)
  next
    case (free a)
    from free(2) show ?thesis
    proof (cases rule: pool_step_cases)
      case (call t p)
      then show ?thesis using free(1) by auto
    next
      case (spurious t p)
      show ?thesis
      proof (cases "t = n")
        case True
        then have "not_full (ppcs s n) = Some p" using spurious sh [of n] by (cases "ppcs s n") auto
        then show ?thesis using spurious(2) True free(3) j by (auto intro!: pool_jinv_other [OF j] simp: pool_at_def)
      qed (use spurious free(3) in \<open>auto intro!: pool_jinv_other [OF j] simp: pool_at_def\<close>)
    next
      case (sleep t)
      then show ?thesis using worker [of t] free(3) by (auto intro!: pool_jinv_other [OF j] simp: pool_at_def)
    next
      case (exit t)
      then show ?thesis using worker [of t] free(3) by (auto intro!: pool_jinv_other [OF j] simp: pool_at_def)
    next
      case (pop t x xs c f)
      have "f n = ppcs s n \<or> not_full (ppcs s n) = Some (f n)" using pop(5) by (auto elim!: notify_one_cases split: if_splits)
      then show ?thesis using pop worker [of t] free(3) by (auto intro!: pool_jinv_other [OF j] simp: pool_at_def)
    next
      case (notify t c f)
      then have "t = n" using client [of t] by simp
      then show ?thesis using notify j free(3) by (auto simp: pool_jinv_def pool_ret_def split: if_splits)
    next
      case (finish t x)
      then show ?thesis using worker [of t] free(3) by (auto intro!: pool_jinv_other [OF j] simp: pool_at_def)
    next
      case (refuse t x)
      then have "t = n" using client [of t] by simp
      then have idle: "ppcs u n = CIdle" "pret u n = Some True" "pushed u = pushed s" "should_terminate u = should_terminate s"
        using refuse by (simp_all add: pool_ret_def)
      have ne: "sc n \<noteq> []" using j \<open>t = n\<close> refuse(2) by (auto simp: pool_jinv_def)
      then obtain xs ks where "sc n = map CallQueueJob ks @ [CallSleep, CallStop]" "js = xs @ ks"
          "subseq (pushed s @ pending (ppcs s n)) xs"
        using j \<open>t = n\<close> refuse(2) by (auto simp: pool_jinv_def)
      then have "\<exists>xs ks. sc n = map CallQueueJob ks @ [CallSleep, CallStop] \<and> js = xs @ ks \<and> subseq (pushed s) xs"
        using subseq_front by blast
      then show ?thesis using idle ne j free(3) by (simp add: pool_jinv_def)
    next
      case (push t x)
      then have t: "t = n" "pending (ppcs s n) = [x]" using client [of t] by auto
      then have ne: "sc n \<noteq> []" using j by (auto simp: pool_jinv_def)
      then show ?thesis using push t j free(3) by (auto simp: pool_jinv_def push_job_def pool_at_def split: if_splits)
    next
      case (stop t)
      then show ?thesis using client [of t] j free(3) by (auto simp: pool_jinv_def pool_at_def split: if_splits)
    next
      case (stop_ne t)
      then show ?thesis using client [of t] j free(3) by (auto simp: pool_jinv_def pool_at_def split: if_splits)
    next
      case (stop_nf t)
      then show ?thesis using client [of t] j free(3) by (auto simp: pool_jinv_def pool_at_def split: if_splits)
    next
      case (join t)
      have "should_terminate s" using inv join(1,2) stopping_at [OF inv join(1)] by simp
      then show ?thesis using join client [of t] j free(3) by (auto simp: pool_jinv_def pool_at_def split: if_splits)
    qed
  qed
qed

interpretation pool_scripted: scripted "sleepy_step n (n + 1)" "ThreadPool n size' blk" "pool_inv n (n + 1)" pool_calls
  "pool_script n js" "pool_jinv n js" "pool_rank n" pool_extra
  for n size' :: nat and blk :: bool and js :: "'j list"
proof (unfold_locales, goal_cases)
  case 1
  have "\<exists>xs ks. map CallQueueJob js = map CallQueueJob ks \<and> js = xs @ ks \<and> subseq [] xs" by (intro exI [of _ "[]"] exI [of _ js]) simp
  then show ?case by (auto simp: pool_jinv_def pool_script_def ThreadPool_def)
next
  case 2
  then show ?case by (rule pool_jinv_step)
next
  case 3
  then show ?case by (rule pool_rank_step)
qed

text \<open>Once the client has slept and the queue is empty, nothing comes in any more.\<close>

definition drained :: "nat \<Rightarrow> (tid \<Rightarrow> 'j pool_op list) \<times> 'j pool \<Rightarrow> bool" where
  "drained n p \<longleftrightarrow> (fst p n = [CallStop] \<or> fst p n = []) \<and> jobs_que (snd p) = [] \<and> pending (ppcs (snd p) n) = []"

lemma pending_wakes: "not_empty p = Some q \<Longrightarrow> pending p = [] \<Longrightarrow> pending q = []" "not_full p = Some q \<Longrightarrow> pending p = [] \<Longrightarrow> pending q = []"
  by (cases p; simp)+

lemma pending_notify_one:
  assumes "notify_one not_empty m c f = Some g" "pending (f i) = []"
  shows "pending (g i) = []"
  using assms(1)
proof (cases rule: notify_one_cases)
  case (somebody v p)
  then show ?thesis using pending_wakes(1) [of "f i" p] assms(2) by simp
qed (use assms(2) in simp)

lemma pending_notify_all:
  assumes "pending (f i) = []"
  shows "pending (notify_all not_empty f i) = []" "pending (notify_all not_full f i) = []"
  using assms pending_wakes [of "f i"] by (simp_all add: notify_all_def split: option.split)

lemma drained_step:
  assumes inv: "pool_inv n (n + 1) s" and d: "drained n (sc, s)" and step: "pool_main_step n l (sc, s) = Some (sd, u)"
  shows "drained n (sd, u)"
proof -
  have sh: "worker_pc (ppcs s t) \<longleftrightarrow> t < n" if "t < n + 1" for t using inv that by (simp add: pool_inv_def)
  from step [unfolded pool_main_step_def] show ?thesis
  proof (cases rule: pool_script_cases)
    case (slept t ds)
    then show ?thesis using d by (cases "t = n") (auto simp: drained_def)
  next
    case (call a t c ds)
    note called = call
    from call(3) show ?thesis
    proof (cases rule: pool_step_cases)
      case (call t' p)
      then show ?thesis using d called by (cases "t = n") (auto simp: drained_def)
    qed (use called(1) in auto)
  next
    case (free a)
    from free(2) show ?thesis
    proof (cases rule: pool_step_cases)
      case (call t p)
      then show ?thesis using free(1) by auto
    next
      case (spurious t p)
      then have "pending (ppcs u n) = []" using d pending_wakes [of "ppcs s n" p] by (cases "t = n") (auto simp: drained_def)
      then show ?thesis using spurious d free(3) by (simp add: drained_def)
    next
      case (push t x)
      then have "t = n" using sh [of t] by auto
      then show ?thesis using d push by (auto simp: drained_def)
    next
      case (notify t c f)
      have "pending (f n) = []" using pending_notify_one [OF notify(3)] d by (simp add: drained_def)
      then show ?thesis using notify d free(3) by (simp add: drained_def)
    next
      case (pop t x xs c f)
      then show ?thesis using d by (simp add: drained_def)
    next
      case (stop_ne t)
      then show ?thesis using d free(3) pending_notify_all(1) [of "ppcs s" n] by (simp add: drained_def)
    next
      case (stop_nf t)
      then show ?thesis using d free(3) pending_notify_all(2) [of "ppcs s" n] by (simp add: drained_def)
    qed (use d free(3) in \<open>simp_all add: drained_def\<close>)
  qed
qed

lemma drained_exec:
  "pool_inv n (n + 1) (snd p) \<Longrightarrow> drained n p \<Longrightarrow> exec (pool_main_step n) ls p = Some q \<Longrightarrow> drained n q"
proof (induction ls arbitrary: p)
  case Nil
  then show ?case by simp
next
  case (Cons l ls)
  obtain sc s where p: "p = (sc, s)" by (cases p)
  from Cons.prems(3) p obtain sd u where e: "pool_main_step n l (sc, s) = Some (sd, u)" "exec (pool_main_step n) ls (sd, u) = Some q"
    by (auto split: option.splits)
  have "pool_inv n (n + 1) u"
    using e(1) Cons.prems(1) p sleepy.inv_step unfolding pool_main_step_def by (fastforce elim!: script_step_cases)
  then show ?case using Cons.IH [of "(sd, u)"] drained_step [OF _ _ e(1)] Cons.prems p e(2) by simp
qed

text \<open>The jobs 1, 2, 3 of the program with one worker and room for two. The client queues the jobs, sleeps and stops the pool;
  the worker comes in between after the calls.\<close>

definition pool_client :: "nat \<Rightarrow> nat pool_label list" where
  "pool_client j = [Queue_Job 1 j, Go 1 None]"

definition pool_end :: "nat main_label list" where
  "pool_end = Slept 1 # map Pool [Stop 1, Go 1 None, Go 1 None, Go 1 None, Go 0 None, Go 1 None]"

definition pool_works :: "nat pool_label list" where
  "pool_works = [Go 0 None, Go 0 None]"

definition all_run :: "nat main_label list" where
  "all_run = map Pool (pool_client 1 @ [Go 1 None] @ pool_works @ pool_client 2 @ [Go 1 None] @ pool_works @ pool_client 3 @ [Go 1 None] @
     pool_works) @ pool_end"

definition third_refused :: "nat main_label list" where
  "third_refused = map Pool (pool_client 1 @ [Go 1 None] @ pool_client 2 @ [Go 1 None] @ pool_client 3 @ pool_works @ pool_works) @ pool_end"

lemmas pool_demo_defs = all_run_def third_refused_def pool_client_def pool_end_def pool_works_def pool_main_step_def
  pool_main_def script_step_def pool_script_def ThreadPool_def pool_run_def ThreadLoop_def QueueJob_def push_job_def notify_one_def
  notify_all_def pool_at_def pool_ret_def

lemma pool_demos:
  "\<exists>sc s. exec (pool_main_step 1) all_run (pool_main 1 2 True [1, 2, 3]) = Some (sc, s) \<and> pushed s = [1, 2, 3] \<and> ran s = [1, 2, 3]"
  "\<exists>sc s. exec (pool_main_step 1) third_refused (pool_main 1 2 True [1, 2, 3]) = Some (sc, s) \<and> pushed s = [1, 2] \<and> ran s = [1, 2]"
  by (simp_all add: pool_demo_defs numeral_eq_Suc All_less_Suc Ex_less_Suc)

text \<open>C20: the program thread-pool/main.cpp ends, with at least one worker and room for at least one job, as the
  program has: every run has at most 3 n + 7 j + 8 steps besides twice the spurious wake-ups, and where nothing but a spurious
  wake-up can happen Stop has returned and every worker has ended. No call of QueueJob ever reports a failure; yet the jobs
  accepted are only some of those queued, in their order: with the constants of the program all three jobs can run, and the third
  can be refused because the queue is full. The jobs started are the first of those accepted, and they are all of them when
  the queue is empty at the end of the sleep of 100 seconds before Stop, during which the 40 seconds of jobs are meant to
  run; the model has the sleep as a step without a duration.\<close>

theorem pool_main_correct:
  assumes "exec (pool_main_step n) ls (pool_main n size' blk js) = Some (sc, s)" "0 < n" "0 < size'"
  shows "length ls \<le> 3 * n + 7 * length js + 8 + 2 * length (filter spurious_pool ls) \<and>
    pret s n \<noteq> Some False \<and> subseq (pushed s) js \<and> pushed s = popped s @ jobs_que s \<and>
    (\<forall>as bs sd u. ls = as @ Slept n # bs \<and> exec (pool_main_step n) as (pool_main n size' blk js) = Some (sd, u) \<and>
      jobs_que u = [] \<longrightarrow> popped s = pushed s) \<and>
    ((\<forall>l. \<not> spurious_pool l \<longrightarrow> pool_main_step n l (sc, s) = None) \<longrightarrow>
      sc n = [] \<and> ppcs s n = CIdle \<and> (\<forall>i<n. ppcs s i = WDone)) \<and>
    (\<exists>sc s. exec (pool_main_step 1) all_run (pool_main 1 2 True [1, 2, 3]) = Some (sc, s) \<and> ran s = [1, 2, 3]) \<and>
    (\<exists>sc s. exec (pool_main_step 1) third_refused (pool_main 1 2 True [1, 2, 3]) = Some (sc, s) \<and> pushed s = [1, 2] \<and> ran s = [1, 2])"
proof (intro conjI impI allI)
  note run = pool_scripted.script_run [OF assms(1) [unfolded pool_main_def pool_main_step_def]]
  have j: "pool_jinv n js sc s" and inv: "pool_inv n (n + 1) s" using run by simp_all
  have "reach (script_step pool_calls (sleepy_step n (n + 1))) (pool_script n js, ThreadPool n size' blk) (sc, s)"
    using reachI [OF assms(1)] by (simp add: pool_main_def pool_main_step_def)
  from sleepy_reach [OF script_reach [OF this]] have r: "reach (pool_step n (n + 1)) (ThreadPool n size' blk) s" by simp
  show "length ls \<le> 3 * n + 7 * length js + 8 + 2 * length (filter spurious_pool ls)"
    using run pool_rank_init [of n js size' blk] pool_extra_sum [of ls] by simp
  show "pret s n \<noteq> Some False" using j by (simp add: pool_jinv_def)
  show "subseq (pushed s) js"
    using j subseq_front by (fastforce simp: pool_jinv_def split: if_splits intro: subseq_order.trans)
  show fifo: "pushed s = popped s @ jobs_que s" using pool_queue.fifo [OF r] by simp
  show "popped s = pushed s"
    if a: "ls = as @ Slept n # bs \<and> exec (pool_main_step n) as (pool_main n size' blk js) = Some (sd, u) \<and> jobs_que u = []"
    for as bs sd u
  proof -
    note au = pool_scripted.script_run [of n as js size' blk sd u, folded pool_main_def pool_main_step_def]
    have "exec (pool_main_step n) (Slept n # bs) (sd, u) = Some (sc, s)" using assms(1) a by (simp add: exec_append)
    then obtain se v where v: "pool_main_step n (Slept n) (sd, u) = Some (se, v)" "exec (pool_main_step n) bs (se, v) = Some (sc, s)"
      by (auto split: option.splits)
    from v(1) have w: "sd n = CallSleep # se n" "ppcs u n = CIdle" "v = u"
      by (auto simp: pool_main_step_def elim!: pool_script_cases)
    have ju: "pool_jinv n js sd u" "pool_inv n (n + 1) u" using au a by simp_all
    then obtain ks where "map CallQueueJob ks @ [CallSleep, CallStop] = CallSleep # se n"
      using w(1) by (auto simp: pool_jinv_def)
    then have "se n = [CallStop]" by (cases ks) auto
    then have "drained n (se, v)" using a w by (simp add: drained_def)
    from drained_exec [OF _ this v(2)] ju(2) w(3) have "jobs_que s = []" by (simp add: drained_def)
    then show ?thesis using fifo by simp
  qed
  assume stuck: "\<forall>l. \<not> spurious_pool l \<longrightarrow> pool_main_step n l (sc, s) = None"
  have "pool_step n (n + 1) (pool_label.Go t c) s = None" for t c
  proof -
    have "pool_main_step n (Pool (pool_label.Go t c)) (sc, s) = None" using stuck by simp
    then show ?thesis by (simp add: pool_main_step_def script_step_def)
  qed
  then have st: "pool_stuck n (n + 1) s" by (simp add: pool_stuck_def)
  note at = pool_stuck_state [OF r st assms(2) _ assms(3)]
  then have idle: "ppcs s n = CIdle" by (cases "should_terminate s") auto
  show "sc n = []"
  proof (rule ccontr)
    assume "sc n \<noteq> []"
    then obtain c ds where c: "sc n = c # ds" by (cases "sc n") auto
    define l where "l = (case c of CallQueueJob x \<Rightarrow> Pool (Queue_Job n x) | CallSleep \<Rightarrow> Slept n | CallStop \<Rightarrow> Pool (Stop n))"
    have "pool_main_step n l (sc, s) \<noteq> None" "\<not> spurious_pool l"
      using c idle by (cases c; simp add: l_def pool_main_step_def script_step_def)+
    then show False using stuck by auto
  qed
  then have "should_terminate s" using j idle by (simp add: pool_jinv_def)
  then show "ppcs s i = WDone" if "i < n" for i using at that by auto
  show "ppcs s n = CIdle" by (rule idle)
qed (use pool_demos in blast)+

theorem pool_main_correct_witness:
  "\<exists>sc s. exec (pool_main_step 1) third_refused (pool_main 1 2 True [1, 2, 3]) = Some (sc, s) \<and> pret s 1 \<noteq> Some False \<and>
     subseq (pushed s) [1, 2, 3] \<and> pushed s = [1, 2]"
proof -
  obtain sc s where s: "exec (pool_main_step 1) third_refused (pool_main 1 2 True [1, 2, 3]) = Some (sc, s)" "pushed s = [1, 2]"
    using pool_demos(2) by blast
  then show ?thesis using pool_main_correct [OF s(1)] by simp
qed

end
