(* ===== verification/Thread_Api.thy ===== *)
theory Thread_Api
  imports Exploration Processes "HOL-Library.Word"
begin

text \<open>
  The programs of \<open>threads-api\<close>: a thread is created with an argument, joined, and its result printed; and the two
  programs with function pointers, \<open>basic_callback.cpp\<close> and \<open>future.cpp\<close> (\<open>threads-locks/other-problems/call-backs\<close>).

  \<open>main\<close> and the thread are interleaved, one call or access per step. The creation and \<open>malloc\<close> may fail (the flag of the
  label); \<open>failed\<close> is a history variable that says whether one did. A result is a null pointer, a number in a pointer of 64
  bits, or a pointer to the structure on the heap, whose fields are \<open>None\<close> until they are written.
\<close>

section \<open>threads-api\<close>

datatype api_line = ArgsLine int int | ValueLine int | DoneLine | ReturnedNum int | ReturnedPair "int option" "int option"

datatype pointer = Null | Number int | ToHeap

datatype api_thread = NotCreated | At nat | Finished pointer

datatype api_prog = ThreadCreate | SimpleArgs | ReturnArgs

record api =
  api_out :: "api_line list"
  api_main :: nat
  api_thr :: api_thread
  api_heap :: "(int option \<times> int option) option"
  api_rv :: pointer
  api_status :: status
  failed :: bool

definition api_init :: api where
  "api_init = \<lparr>api_out = [], api_main = 0, api_thr = NotCreated, api_heap = None, api_rv = Null, api_status = Live, failed = False\<rparr>"

definition say :: "api_line \<Rightarrow> api \<Rightarrow> api" where
  "say l s = s\<lparr>api_out := api_out s @ [l]\<rparr>"

definition finish :: "pointer \<Rightarrow> api \<Rightarrow> api" where
  "finish r s = s\<lparr>api_thr := Finished r\<rparr>"

text \<open>The argument is the pair (10, 20), or the number 100. A failed assertion ends the process.\<close>

definition create_mythread :: "api \<Rightarrow> api option" where
  "create_mythread s = Some (finish Null (say (ArgsLine 10 20) s))"

definition simple_mythread :: "64 word \<Rightarrow> api \<Rightarrow> api option" where
  "simple_mythread v s = Some (finish (Number (sint (v + 1))) (say (ValueLine (sint v)) s))"

definition return_mythread :: "bool \<Rightarrow> nat \<Rightarrow> api \<Rightarrow> api option" where
  "return_mythread ok k s =
     (if k = 0 then Some (say (ArgsLine 10 20) s\<lparr>api_thr := At 1\<rparr>)
      else if k = 1 then Some (if ok then s\<lparr>api_thr := At 2, api_heap := Some (None, None)\<rparr> else s\<lparr>api_status := Aborted, failed := True\<rparr>)
      else (case api_heap s of
          None \<Rightarrow> None
        | Some (x, y) \<Rightarrow> Some (if k = 2 then s\<lparr>api_thr := At 3, api_heap := Some (Some 1, y)\<rparr>
            else finish ToHeap (s\<lparr>api_heap := Some (x, Some 2)\<rparr>))))"

definition api_mythread :: "api_prog \<Rightarrow> bool \<Rightarrow> api \<Rightarrow> api option" where
  "api_mythread p ok s =
     (case api_thr s of
        At k \<Rightarrow> (case p of ThreadCreate \<Rightarrow> create_mythread s | SimpleArgs \<Rightarrow> simple_mythread 100 s | ReturnArgs \<Rightarrow> return_mythread ok k s)
      | _ \<Rightarrow> None)"

text \<open>The creation and the join of the three programs.\<close>

definition api_create :: "bool \<Rightarrow> api \<Rightarrow> api" where
  "api_create ok s = (if ok then s\<lparr>api_main := 1, api_thr := At 0\<rparr> else s\<lparr>api_status := Aborted, failed := True\<rparr>)"

definition api_join :: "api \<Rightarrow> api option" where
  "api_join s = (case api_thr s of Finished r \<Rightarrow> Some (s\<lparr>api_main := 2, api_rv := r\<rparr>) | _ \<Rightarrow> None)"

definition create_main :: "bool \<Rightarrow> api \<Rightarrow> api option" where
  "create_main ok s =
     (if api_main s = 0 then Some (api_create ok s)
      else if api_main s = 1 then api_join s
      else if api_main s = 2 then Some (say DoneLine s\<lparr>api_main := 3\<rparr>)
      else Some (s\<lparr>api_status := Exited 0\<rparr>))"

definition simple_main :: "bool \<Rightarrow> api \<Rightarrow> api option" where
  "simple_main ok s =
     (if api_main s = 0 then Some (api_create ok s)
      else if api_main s = 1 then api_join s
      else if api_main s = 2 then (case api_rv s of Number r \<Rightarrow> Some (say (ReturnedNum r) s\<lparr>api_main := 3\<rparr>) | _ \<Rightarrow> None)
      else Some (s\<lparr>api_status := Exited 0\<rparr>))"

definition return_main :: "bool \<Rightarrow> api \<Rightarrow> api option" where
  "return_main ok s =
     (if api_main s = 0 then Some (api_create ok s)
      else if api_main s = 1 then api_join s
      else if api_main s = 2 then
        (case (api_rv s, api_heap s) of (ToHeap, Some (x, y)) \<Rightarrow> Some (say (ReturnedPair x y) s\<lparr>api_main := 3\<rparr>) | _ \<Rightarrow> None)
      else if api_main s = 3 then (if api_heap s = None then None else Some (s\<lparr>api_main := 4, api_heap := None\<rparr>))
      else Some (s\<lparr>api_status := Exited 0\<rparr>))"

text \<open>The label: whose step, and whether the call succeeds that may fail.\<close>

fun api_step :: "api_prog \<Rightarrow> bool \<times> bool \<Rightarrow> api \<Rightarrow> api option" where
  "api_step p (is_main, ok) s =
     (if api_status s \<noteq> Live then None
      else if is_main then (case p of ThreadCreate \<Rightarrow> create_main ok s | SimpleArgs \<Rightarrow> simple_main ok s | ReturnArgs \<Rightarrow> return_main ok s)
      else api_mythread p ok s)"

definition both_flags :: "(bool \<times> bool) list" where
  "both_flags = [(True, True), (True, False), (False, True), (False, False)]"

interpretation api: small_machine "api_step p" api_init both_flags for p :: api_prog
proof
  show "l \<in> set both_flags" for l :: "bool \<times> bool" by (cases l) (auto simp: both_flags_def)
qed

definition api_states :: "api_prog \<Rightarrow> api list" where
  "api_states p = explore 200 (succs (api_step p) both_flags) [] [api_init]"

fun api_expected :: "api_prog \<Rightarrow> api_line list" where
  "api_expected ThreadCreate = [ArgsLine 10 20, DoneLine]"
| "api_expected SimpleArgs = [ValueLine 100, ReturnedNum 101]"
| "api_expected ReturnArgs = [ArgsLine 10 20, ReturnedPair (Some 1) (Some 2)]"

text \<open>A program that has returned has printed what it should and freed what it allocated; one that has aborted has seen a
  failure; all others can go on.\<close>

definition api_ok :: "api_prog \<Rightarrow> api \<Rightarrow> bool" where
  "api_ok p s \<longleftrightarrow>
     (case api_status s of
        Exited c \<Rightarrow> c = 0 \<and> api_out s = api_expected p \<and> api_heap s = None \<and> \<not> failed s
      | Aborted \<Rightarrow> failed s
      | Live \<Rightarrow> succs (api_step p) both_flags s \<noteq> [])"

fun thr_rank :: "api_thread \<Rightarrow> nat" where
  "thr_rank NotCreated = 5"
| "thr_rank (At k) = 5 - k"
| "thr_rank (Finished r) = 0"

definition api_rank :: "api \<Rightarrow> nat" where
  "api_rank s = (5 - api_main s) + thr_rank (api_thr s) + (if api_status s = Live then 1 else 0)"

definition api_checked :: "api_prog \<Rightarrow> bool" where
  "api_checked p \<longleftrightarrow> explored (api_step p) both_flags api_init (api_states p) \<and> list_all (api_ok p) (api_states p) \<and>
     list_all (\<lambda>s. list_all (\<lambda>t. api_rank t < api_rank s) (succs (api_step p) both_flags s)) (api_states p)"

lemma api_all_checked: "api_checked p"
proof -
  have "api_checked ThreadCreate" by code_simp
  moreover have "api_checked SimpleArgs" by code_simp
  moreover have "api_checked ReturnArgs" by code_simp
  ultimately show ?thesis by (cases p) simp_all
qed

text \<open>The programs of the thread API end after at most 11 steps in every interleaving. A program that returns has printed its
  lines in order, with the values that were passed through the pointers, and has no memory left; it aborts only if a
  creation or \<open>malloc\<close> failed.\<close>

theorem thread_api_correct:
  assumes "exec (api_step p) ls api_init = Some s"
  shows "length ls \<le> 11 \<and> (api_status s = Live \<longrightarrow> (\<exists>l t. api_step p l s = Some t)) \<and>
    (\<forall>c. api_status s = Exited c \<longrightarrow> c = 0 \<and> api_out s = api_expected p \<and> api_heap s = None) \<and>
    (api_status s = Aborted \<longrightarrow> failed s)"
proof -
  have c: "explored (api_step p) both_flags api_init (api_states p)" "list_all (api_ok p) (api_states p)"
      "list_all (\<lambda>s. list_all (\<lambda>t. api_rank t < api_rank s) (succs (api_step p) both_flags s)) (api_states p)"
    using api_all_checked [of p] by (simp_all add: api_checked_def)
  have "length ls \<le> 11" using api.exec_rank [OF c(1,3) reach.reach_init assms] by (simp add: api_rank_def api_init_def)
  moreover have "api_ok p s" using api.reach_all [OF c(1,2) reachI [OF assms]] .
  moreover have "succs (api_step p) both_flags s \<noteq> [] \<Longrightarrow> \<exists>l t. api_step p l s = Some t"
    using api.no_succs [of p s] by (metis not_None_eq)
  ultimately show ?thesis unfolding api_ok_def by (cases "api_status s") (simp_all del: api_step.simps)
qed

section \<open>Function pointers and futures\<close>

datatype cb_line = WeHave int | Principal | Text string

text \<open>\<open>basic_callback.cpp\<close>.\<close>

definition principal_function :: "(int \<Rightarrow> cb_line list) \<Rightarrow> cb_line list" where
  "principal_function funct_ptr = funct_ptr 2"

definition callback_function :: "int \<Rightarrow> cb_line list" where
  "callback_function value = [WeHave value]"

definition callback_main :: "cb_line list" where
  "callback_main = (let ptr = callback_function in principal_function ptr)"

lemma callback_main_prints: "callback_main = [WeHave 2]"
  by (simp add: callback_main_def principal_function_def callback_function_def)

text \<open>\<open>future.cpp\<close>: \<open>std::async\<close> with the default policy runs the function in a new thread or defers it to \<open>get\<close>, as the
  implementation likes (the flag of the first step). The result is in \<open>shared\<close> when it is there.\<close>

datatype future_mode = NoFuture | Async | Deferred

record future =
  fut_out :: "cb_line list"
  fut_main :: nat
  fut_mode :: future_mode
  fut_shared :: "string option"
  fut_ret :: string

definition future_init :: future where
  "future_init = \<lparr>fut_out = [], fut_main = 0, fut_mode = NoFuture, fut_shared = None, fut_ret = []\<rparr>"

definition future_function :: "int \<Rightarrow> future \<Rightarrow> future" where
  "future_function value s = s\<lparr>fut_out := fut_out s @ [WeHave value], fut_shared := Some ''I am the outoput''\<rparr>"

definition future_main :: "bool \<Rightarrow> future \<Rightarrow> future option" where
  "future_main thread s =
     (if fut_main s = 0 then Some (s\<lparr>fut_mode := (if thread then Async else Deferred), fut_main := 1\<rparr>)
      else if fut_main s = 1 then Some (s\<lparr>fut_out := fut_out s @ [Principal], fut_main := 2\<rparr>)
      else if fut_main s = 2 then
        (case fut_shared s of
           Some r \<Rightarrow> Some (s\<lparr>fut_ret := r, fut_main := 3\<rparr>)
         | None \<Rightarrow> if fut_mode s = Deferred then Some (future_function 2 s) else None)
      else if fut_main s = 3 then Some (s\<lparr>fut_out := fut_out s @ [Text (fut_ret s)], fut_main := 4\<rparr>)
      else None)"

fun future_step :: "bool \<times> bool \<Rightarrow> future \<Rightarrow> future option" where
  "future_step (is_main, thread) s =
     (if is_main then future_main thread s
      else if fut_mode s = Async \<and> fut_shared s = None then Some (future_function 2 s) else None)"

interpretation fut: small_machine future_step future_init both_flags
proof
  show "l \<in> set both_flags" for l :: "bool \<times> bool" by (cases l) (auto simp: both_flags_def)
qed

definition future_states :: "future list" where
  "future_states = explore 100 (succs future_step both_flags) [] [future_init]"

definition future_outputs :: "future_mode \<Rightarrow> cb_line list list" where
  "future_outputs m = [Principal, WeHave 2, Text ''I am the outoput''] #
     (if m = Async then [[WeHave 2, Principal, Text ''I am the outoput'']] else [])"

lemma future_checked:
  "explored future_step both_flags future_init future_states"
  "list_all (\<lambda>s. succs future_step both_flags s = [] \<longrightarrow> fut_main s = 4 \<and> fut_out s \<in> set (future_outputs (fut_mode s))) future_states"
  by code_simp+

text \<open>\<open>future.cpp\<close> does not wait for ever: where it can go no further \<open>main\<close> has printed the result, after the line of the
  function and the line of \<open>principal_function\<close>, which come in either order, but in this one if the call was deferred.\<close>

theorem future_correct:
  assumes "reach future_step future_init s" "\<forall>l. future_step l s = None"
  shows "fut_main s = 4 \<and> fut_out s \<in> set (future_outputs (fut_mode s))"
  using fut.reach_all [OF future_checked assms(1)] assms(2) fut.no_succs [of s] by blast

end
