(* ===== verification/Event_Main.thy ===== *)
theory Event_Main
  imports Scripts Processes Event_Queue
begin

text \<open>
  \<open>threads-locks/other-problems/call-backs/EventQueue/main.cpp\<close>: a thread makes a queue, subscribes \<open>result\<close> (handler 0), posts
  one event and then loops for ever; \<open>main\<close> waits for it. The thread is a script over the machine of the queue: its calls
  come in their order, the forwarder and the time-outs are free. The loop at the end has no step that does anything.
\<close>

datatype eq_call = CallSubscribe handler | CallPost | CallNotify | CallOther

fun eq_calls :: "eq_label \<Rightarrow> (tid \<times> eq_call) option" where
  "eq_calls (Subscribe h) = Some (0, CallSubscribe h)"
| "eq_calls Post = Some (0, CallPost)"
| "eq_calls Notify = Some (0, CallNotify)"
| "eq_calls Forward = None"
| "eq_calls Timeout = None"
| "eq_calls SpuriousWake = None"
| "eq_calls l = Some (0, CallOther)"

definition new_thread :: "tid \<Rightarrow> eq_call list" where
  "new_thread t = (if t = 0 then [CallSubscribe 0, CallPost, CallNotify] else [])"

definition new_thread_step :: "eq_label \<Rightarrow> (tid \<Rightarrow> eq_call list) \<times> event_queue \<Rightarrow> ((tid \<Rightarrow> eq_call list) \<times> event_queue) option" where
  "new_thread_step = script_step eq_calls eq_step"

text \<open>\<open>main\<close>; the thread never ends.\<close>

definition event_main :: "((tid \<Rightarrow> eq_call list) \<times> event_queue) process" where
  "event_main = new_process (new_thread, EventQueue) (create_join 1)"

definition event_main_step :: "eq_label proc_label \<Rightarrow> ((tid \<Rightarrow> eq_call list) \<times> event_queue) process \<Rightarrow>
    ((tid \<Rightarrow> eq_call list) \<times> event_queue) process option" where
  "event_main_step = proc_step True (\<lambda>t s. False) (\<lambda>l. 0) new_thread_step"

section \<open>Invariant\<close>

fun plain :: "fpc \<Rightarrow> bool" where
  "plain FLock = True"
| "plain FLoop = True"
| "plain FPred = True"
| "plain FBlock = True"
| "plain FSleep = True"
| "plain (FRelock b) = True"
| "plain FTest = True"
| "plain f = False"

text \<open>Before the event is picked up, and after.\<close>

definition before_round :: "event_queue \<Rightarrow> bool" where
  "before_round s \<longleftrightarrow> handled s = 0 \<and> called s = [] \<and> (plain (forwarder s) \<or> (forwarder s = FReset \<and> pending_event s))"

definition after_round :: "event_queue \<Rightarrow> bool" where
  "after_round s \<longleftrightarrow> handled s = 1 \<and> \<not> pending_event s \<and>
     (called s = [] \<and> forwarder s \<in> {FRemove [] [0], FRemove [0] [], FTrigger [0]} \<or>
      called s = [0] \<and> (plain (forwarder s) \<or> forwarder s \<in> {FCallback 0 [], FTrigger []}))"

definition em_ok :: "eq_call list \<Rightarrow> event_queue \<Rightarrow> bool" where
  "em_ok q s \<longleftrightarrow> destructor s = XIdle \<and> \<not> halting s \<and>
     (if q = [CallSubscribe 0, CallPost, CallNotify] then
        posts s = 0 \<and> subscribers s = [] \<and> \<not> alive s 0 \<and> \<not> pending_event s \<and> before_round s
      else subscribers s = [0] \<and> alive s 0 \<and>
        (if q = [CallPost, CallNotify] then posts s = 0 \<and> \<not> pending_event s \<and> before_round s
         else q \<in> {[CallNotify], []} \<and> posts s = 1 \<and> (pending_event s \<and> before_round s \<or> after_round s)))"

text \<open>The steps of the forwarder until it calls \<open>result\<close>.\<close>

definition to_call :: "event_queue \<Rightarrow> nat" where
  "to_call s =
     (if called s = [0] then 0
      else case forwarder s of FRemove kept hs \<Rightarrow> 2 + length hs | FTrigger hs \<Rightarrow> 1 | f \<Rightarrow> 3 + delay f)"

lemma plain_cases:
  assumes "plain f"
  obtains "f = FLock" | "f = FLoop" | "f = FPred" | "f = FBlock" | "f = FSleep" | b where "f = FRelock b" | "f = FTest"
  using assms that by (cases f) simp_all

lemma plain_forward:
  assumes "plain (forwarder s)" "\<not> halting s" "run_forwardThread s = Some u"
  shows "plain (forwarder u) \<or> (forwarder u = FReset \<and> pending_event s)"
    "pending_event s \<Longrightarrow> delay (forwarder u) < delay (forwarder s)"
    "handled u = handled s" "called u = called s" "pending_event u = pending_event s" "subscribers u = subscribers s"
    "alive u = alive s" "posts u = posts s"
proof -
  have "(plain (forwarder u) \<or> (forwarder u = FReset \<and> pending_event s)) \<and> (pending_event s \<longrightarrow> delay (forwarder u) < delay (forwarder s)) \<and>
      handled u = handled s \<and> called u = called s \<and> pending_event u = pending_event s \<and> subscribers u = subscribers s \<and>
      alive u = alive s \<and> posts u = posts s"
    using assms(1)
  proof (cases rule: plain_cases)
    case 5
    then show ?thesis using assms(3) by (simp add: run_forwardThread_def triggerSubscribers_def)
  qed (use assms(2,3) in \<open>simp add: run_forwardThread_def split: if_splits; clarsimp\<close>)+
  then show "plain (forwarder u) \<or> (forwarder u = FReset \<and> pending_event s)"
    "pending_event s \<Longrightarrow> delay (forwarder u) < delay (forwarder s)"
    "handled u = handled s" "called u = called s" "pending_event u = pending_event s" "subscribers u = subscribers s"
    "alive u = alive s" "posts u = posts s" by blast+
qed

lemma reset_forward:
  "forwarder s = FReset \<Longrightarrow> run_forwardThread s = Some u \<Longrightarrow>
    u = s\<lparr>pending_event := False, handled := posts s, forwarder := FRemove [] (subscribers s), round := subscribers s, called := []\<rparr>"
  by (simp add: run_forwardThread_def)

lemma after_forward:
  assumes "after_round s" "\<not> halting s" "run_forwardThread s = Some u" "subscribers s = [0]" "alive s 0"
  shows "after_round u \<and> subscribers u = [0] \<and> to_call u \<le> to_call s - 1"
proof (cases "plain (forwarder s)")
  case True
  with plain_forward [OF True assms(2,3)] assms show ?thesis by (auto simp: after_round_def to_call_def)
next
  case False
  then show ?thesis using assms
    by (auto simp: after_round_def to_call_def run_forwardThread_def triggerSubscribers_def)
qed

lemma em_forward:
  assumes ok: "em_ok q s" and step: "run_forwardThread s = Some u"
  shows "em_ok q u \<and> (posts s = 1 \<longrightarrow> to_call u \<le> to_call s - 1)"
proof -
  have h: "\<not> halting s" using ok by (simp add: em_ok_def)
  note f = forward_frame [OF step]
  consider (after) "after_round s" | (before) "before_round s" "plain (forwarder s)" | (reset) "before_round s" "forwarder s = FReset" "pending_event s"
    using ok by (auto simp: em_ok_def before_round_def split: if_splits)
  then show ?thesis
  proof cases
    case after
    then have q: "q \<in> {[CallNotify], []}" "posts s = 1" "subscribers s = [0]" "alive s 0"
      using ok by (auto simp: em_ok_def after_round_def before_round_def split: if_splits)
    have "alive u = alive s" using step by (cases "forwarder s" rule: delay.cases)
      (auto simp: run_forwardThread_def triggerSubscribers_def split: if_splits list.splits)
    then show ?thesis using after_forward [OF after h step q(3,4)] q f ok by (auto simp: em_ok_def)
  next
    case before
    note p = plain_forward [OF before(2) h step]
    have b: "before_round u" using before(1) p by (auto simp: before_round_def)
    have "to_call u \<le> to_call s - 1" if "posts s = 1"
    proof -
      have "pending_event s" "called s = []"
        using that ok before(1) by (auto simp: em_ok_def before_round_def after_round_def split: if_splits)
      then show ?thesis using p(2) p(4) b before(2)
        by (cases "forwarder s"; cases "forwarder u") (auto simp: to_call_def before_round_def)
    qed
    then show ?thesis using ok b p f by (auto simp: em_ok_def after_round_def before_round_def split: if_splits)
  next
    case reset
    then have q: "q \<in> {[CallNotify], []}" "posts s = 1" "subscribers s = [0]" "alive s 0"
      using ok by (auto simp: em_ok_def split: if_splits)
    then show ?thesis using reset ok unfolding reset_forward [OF reset(2) step]
      by (auto simp: em_ok_def after_round_def before_round_def to_call_def)
  qed
qed

lemma em_step:
  assumes ok: "em_ok (sc 0) s" and step: "new_thread_step l (sc, s) = Some (sd, u)"
  shows "em_ok (sd 0) u \<and> (posts s = 1 \<longrightarrow> posts u = 1 \<and> to_call u \<le> to_call s - of_bool (l = Forward))"
proof (cases "l = Forward")
  case True
  then have "run_forwardThread s = Some u" "sd = sc" using step by (auto simp: new_thread_step_def script_step_def)
  with em_forward [OF ok] forward_frame(2) [of s u] True show ?thesis by auto
next
  case False
  from step [unfolded new_thread_step_def] show ?thesis
  proof (cases rule: script_step_cases)
    case free
    then have w: "forwarder s = FSleep" "\<exists>b. u = s\<lparr>forwarder := FRelock b\<rparr>"
      using False by (cases l; auto split: if_splits)+
    then show ?thesis using ok free(3) False by (auto simp: em_ok_def before_round_def after_round_def to_call_def)
  next
    case (call t c ds)
    have t: "t = 0" using call(1) by (cases l) auto
    have q: "c # ds \<in> {[CallSubscribe 0, CallPost, CallNotify], [CallPost, CallNotify], [CallNotify]}"
      using ok call(2) t by (auto simp: em_ok_def split: if_splits)
    show ?thesis
    proof (cases l)
      case (Subscribe h)
      then have c: "c = CallSubscribe 0" "h = 0" "ds = [CallPost, CallNotify]" using call(1) q by auto
      then show ?thesis using ok call Subscribe t
        by (auto simp: em_ok_def SubscribeToEvent_def before_round_def split: if_splits)
    next
      case Post
      then have c: "c = CallPost" "ds = [CallNotify]" using call(1) q by auto
      then show ?thesis using ok call Post t by (auto simp: em_ok_def PostEvent_def before_round_def split: if_splits)
    next
      case Notify
      then have c: "c = CallNotify" "ds = []" using call(1) q by auto
      have u: "posting s \<noteq> 0" "u = (notify s)\<lparr>posting := posting s - 1\<rparr>"
        using call(3) Notify by (simp_all add: PostEvent_notify_def split: if_splits)
      have k: "posts s = 1" "subscribers s = [0]" "alive s 0" "destructor s = XIdle" "\<not> halting s"
          "pending_event s \<and> before_round s \<or> after_round s"
        using ok call(2) t c by (simp_all add: em_ok_def)
      have "(pending_event u \<and> before_round u \<or> after_round u) \<and> to_call u \<le> to_call s \<and> alive u = alive s"
        using k(6) unfolding u(2) by (cases "forwarder s = FSleep") (simp_all add: notify_def before_round_def after_round_def to_call_def)
      then show ?thesis using k u(2) c t call(4) Notify by (simp add: em_ok_def)
    qed (use call(1) q in auto)
  qed
qed

lemma em_run:
  assumes "em_ok (sc 0) s" "exec new_thread_step ls (sc, s) = Some (sd, u)"
  shows "em_ok (sd 0) u \<and> (posts s = 1 \<longrightarrow> posts u = 1 \<and> to_call u \<le> to_call s - count_list ls Forward)"
  using assms
proof (induction ls arbitrary: sc s)
  case Nil
  then show ?case by simp
next
  case (Cons l ls)
  from Cons.prems(2) obtain sb v where v: "new_thread_step l (sc, s) = Some (sb, v)" "exec new_thread_step ls (sb, v) = Some (sd, u)"
    by (auto split: option.splits)
  note e = em_step [OF Cons.prems(1) v(1)]
  with Cons.IH [OF _ v(2)] show ?case by auto
qed

lemma em_init: "em_ok (new_thread 0) EventQueue"
  by (simp add: em_ok_def new_thread_def EventQueue_def before_round_def)

lemma to_call_le: "em_ok q s \<Longrightarrow> posts s = 1 \<Longrightarrow> to_call s \<le> 8"
  by (auto simp: em_ok_def before_round_def after_round_def to_call_def split: if_splits elim!: plain_cases)

section \<open>What the program does\<close>

text \<open>\<open>result\<close> is called at most once. Once the event has been posted, eight steps of the forwarder, whatever happens in
  between, are enough to call it.\<close>

theorem result_called_once:
  assumes run: "exec new_thread_step ls (new_thread, EventQueue) = Some (sc, s)"
    and more: "exec new_thread_step ms (sc, s) = Some (sd, u)"
  shows "called u \<in> {[], [0]}"
    and "called s = [0] \<Longrightarrow> called u = [0]"
    and "posts s = 1 \<Longrightarrow> 8 \<le> count_list ms Forward \<Longrightarrow> called u = [0]"
proof -
  have s: "em_ok (sc 0) s" using em_run [OF em_init run] by blast
  have u: "em_ok (sd 0) u" and dec: "posts s = 1 \<Longrightarrow> posts u = 1 \<and> to_call u \<le> to_call s - count_list ms Forward"
    using em_run [OF s more] by blast+
  have zero: "called u = [0]" if "posts u = 1" "to_call u = 0"
    using u that by (auto simp: em_ok_def before_round_def after_round_def to_call_def split: if_splits elim!: plain_cases)
  show "called u \<in> {[], [0]}" using u by (auto simp: em_ok_def before_round_def after_round_def split: if_splits)
  show "called u = [0]" if "called s = [0]"
  proof -
    have "posts s = 1" using that s by (auto simp: em_ok_def before_round_def split: if_splits)
    then show ?thesis using dec that zero by (simp add: to_call_def)
  qed
  show "called u = [0]" if "posts s = 1" "8 \<le> count_list ms Forward"
    using that dec zero to_call_le [OF s] by fastforce
qed

theorem result_called_once_witness:
  "\<exists>sc s sd u. exec new_thread_step [Subscribe 0, Post] (new_thread, EventQueue) = Some (sc, s) \<and>
     exec new_thread_step [Notify, Forward, Forward, Forward, Forward, Forward, Forward, Forward, Forward] (sc, s) = Some (sd, u) \<and>
     called u = [0]"
proof -
  obtain sc s where s: "exec new_thread_step [Subscribe 0, Post] (new_thread, EventQueue) = Some (sc, s)" "posts s = 1"
      "posting s = 1" "forwarder s = FLock" "\<not> mutex_held s" "\<not> halting s" "pending_event s" "subscribers s = [0]" "alive s 0"
      "sc 0 = [CallNotify]"
    by (simp add: new_thread_step_def script_step_def new_thread_def EventQueue_def SubscribeToEvent_def PostEvent_def)
  obtain sd u where u: "exec new_thread_step [Notify, Forward, Forward, Forward, Forward, Forward, Forward, Forward, Forward] (sc, s) =
      Some (sd, u)"
    using s(3-) by (simp add: new_thread_step_def script_step_def PostEvent_notify_def notify_def run_forwardThread_def
        triggerSubscribers_def)
  from result_called_once(3) [OF s(1) u s(2)] have "called u = [0]" by simp
  with s(1) u show ?thesis by blast
qed

text \<open>The process: \<open>main\<close> never returns, since its thread does not, but something can always move once the thread runs.\<close>

theorem event_main_waits:
  assumes "reach event_main_step event_main p"
  shows "(\<forall>c. status p \<noteq> Exited c) \<and> called (snd (comp p)) \<in> {[], [0]} \<and>
    (status p = Live \<longrightarrow> (\<exists>l q. event_main_step l p = Some q))"
proof -
  have w: "Join 0 \<in> set (todo p) \<and> (\<forall>c. status p \<noteq> Exited c) \<and> reach new_thread_step (new_thread, EventQueue) (comp p)"
    using proc_waits [OF assms [unfolded event_main_step_def], of 0] by (simp add: event_main_def new_process_def create_join_def)
  obtain sc s where c: "comp p = (sc, s)" by (cases "comp p")
  with w obtain ls where ls: "exec new_thread_step ls (new_thread, EventQueue) = Some (sc, s)" by (metis reach_iff_exec)
  have ok: "em_ok (sc 0) s" using em_run [OF em_init ls] by blast
  have st: "todo p = [Create 0, Join 0] \<or> todo p = [Join 0] \<and> started p 0"
    using assms unfolding event_main_step_def
  proof (induction rule: reach.induct)
    case reach_init
    show ?case by (simp add: event_main_def new_process_def create_join_def)
  next
    case (reach_step p l q)
    then show ?case by (cases l) (auto split: if_splits)
  qed
  have inv: "eq_inv s"
    using script_reach [OF w [THEN conjunct2, THEN conjunct2, unfolded new_thread_step_def]] eq.reach_inv c by auto
  have fw: "forwarder s \<notin> {FDone, FSelfLock}"
    using ok by (auto simp: em_ok_def before_round_def after_round_def split: if_splits)
  have "\<exists>l q. event_main_step l p = Some q" if live: "status p = Live"
  proof (cases "todo p = [Create 0, Join 0]")
    case True
    then have "event_main_step (MainThread True) p = Some (p\<lparr>started := (started p)(0 := True), todo := [Join 0]\<rparr>)"
      using live by (simp add: event_main_step_def)
    then show ?thesis by blast
  next
    case False
    then have "started p 0" using st by blast
    moreover obtain l u where "l \<in> {Forward, Timeout}" "eq_step l s = Some u" using forwarder_moves [OF inv fw] by blast
    ultimately have "event_main_step (Thread l) p = Some (p\<lparr>comp := (sc, u)\<rparr>)"
      using live c by (auto simp: event_main_step_def new_thread_step_def script_step_def)
    then show ?thesis by blast
  qed
  moreover have "called s \<in> {[], [0]}" using ok by (auto simp: em_ok_def before_round_def after_round_def split: if_splits)
  ultimately show ?thesis using w c by simp
qed

theorem event_main_waits_witness:
  "\<exists>p. exec event_main_step [MainThread True, Thread (Subscribe 0), Thread Forward] event_main = Some p \<and> status p = Live \<and>
     (\<exists>l q. event_main_step l p = Some q)"
proof -
  obtain p where p: "exec event_main_step [MainThread True, Thread (Subscribe 0), Thread Forward] event_main = Some p" "status p = Live"
    by (simp add: event_main_step_def event_main_def new_process_def create_join_def new_thread_step_def script_step_def
        new_thread_def EventQueue_def SubscribeToEvent_def run_forwardThread_def)
  from event_main_waits [OF reachI [OF p(1)]] p show ?thesis by blast
qed

end
