(* ===== verification/Intro_Programs.thy ===== *)
theory Intro_Programs
  imports Processes Complex_Main
begin

text \<open>
  The demonstrations of the CPU, of memory and of files: \<open>intro/cpu.c\<close>, \<open>mem.c\<close>, \<open>io.c\<close>, \<open>vm-intro/va.c\<close>, and the clock
  of \<open>include/common.h\<close> (\<open>intro/common.h\<close> is the same file).

  \<^item> The readings of \<open>gettimeofday\<close> are a stream: \<open>clock k\<close> is the return value and the time of the \<open>k\<close>-th call. Nothing
    is assumed of it: the time may jump back.
  \<^item> A \<open>double\<close> is a rational number, and \<open>rnd\<close> is the rounding of every operation.
  \<^item> \<open>Spin\<close> is a \<open>partial_function\<close>: \<open>None\<close> when it never returns. Otherwise the value is the number of the next reading.
  \<^item> The loops that have no end are their first \<open>n\<close> iterations, for every \<open>n\<close>.
  \<^item> Signed overflow has no defined result: \<open>Undefined\<close>.
\<close>

datatype stop = ExitWith int | AssertFails | Undefined

section \<open>The clock\<close>

record timeval =
  tv_sec :: int
  tv_usec :: int

definition GetTime :: "(rat \<Rightarrow> rat) \<Rightarrow> int \<times> timeval \<Rightarrow> stop + rat" where
  "GetTime rnd r =
     (if fst r = 0
      then Inr (rnd (rnd (of_int (tv_sec (snd r))) + rnd (rnd (of_int (tv_usec (snd r))) / 1000000)))
      else Inl AssertFails)"

partial_function (option) spin_loop :: "(rat \<Rightarrow> rat) \<Rightarrow> (nat \<Rightarrow> int \<times> timeval) \<Rightarrow> int \<Rightarrow> rat \<Rightarrow> nat \<Rightarrow> (stop + nat) option" where
  "spin_loop rnd clock howlong t k =
     (case GetTime rnd (clock k) of
        Inl e \<Rightarrow> Some (Inl e)
      | Inr now \<Rightarrow> if rnd (now - t) < rnd (of_int howlong) then spin_loop rnd clock howlong t (Suc k) else Some (Inr (Suc k)))"

definition Spin :: "(rat \<Rightarrow> rat) \<Rightarrow> (nat \<Rightarrow> int \<times> timeval) \<Rightarrow> int \<Rightarrow> nat \<Rightarrow> (stop + nat) option" where
  "Spin rnd clock howlong k =
     (case GetTime rnd (clock k) of Inl e \<Rightarrow> Some (Inl e) | Inr t \<Rightarrow> spin_loop rnd clock howlong t (Suc k))"

text \<open>\<open>while (1)\<close>: the first \<open>n\<close> iterations.\<close>

fun iterations :: "nat \<Rightarrow> ('s \<Rightarrow> (stop + 's) option) \<Rightarrow> 's \<Rightarrow> (stop + 's) option" where
  "iterations 0 f s = Some (Inr s)"
| "iterations (Suc n) f s = (case f s of Some (Inr u) \<Rightarrow> iterations n f u | r \<Rightarrow> r)"

section \<open>\<open>cpu.c\<close>\<close>

record cpu_state =
  shown :: "string list"
  cpu_reading :: nat

definition cpu_round :: "(rat \<Rightarrow> rat) \<Rightarrow> (nat \<Rightarrow> int \<times> timeval) \<Rightarrow> string \<Rightarrow> cpu_state \<Rightarrow> (stop + cpu_state) option" where
  "cpu_round rnd clock str s =
     map_option (map_sum id (\<lambda>k. s\<lparr>shown := shown s @ [str], cpu_reading := k\<rparr>)) (Spin rnd clock 1 (cpu_reading s))"

definition cpu_main :: "(rat \<Rightarrow> rat) \<Rightarrow> (nat \<Rightarrow> int \<times> timeval) \<Rightarrow> string list \<Rightarrow> nat \<Rightarrow> (stop + cpu_state) option" where
  "cpu_main rnd clock argv n =
     (if length argv \<noteq> 2 then Some (Inl (ExitWith 1))
      else iterations n (cpu_round rnd clock (argv ! 1)) \<lparr>shown = [], cpu_reading = 0\<rparr>)"

section \<open>\<open>mem.c\<close>\<close>

datatype mem_line = AddrLine int nat | CellLine int int

record mem_state =
  cell :: int
  mem_out :: "mem_line list"
  mem_reading :: nat

definition is_int :: "int \<Rightarrow> bool" where
  "is_int v \<longleftrightarrow> - (2 ^ 31) \<le> v \<and> v < 2 ^ 31"

definition mem_round :: "(rat \<Rightarrow> rat) \<Rightarrow> (nat \<Rightarrow> int \<times> timeval) \<Rightarrow> int \<Rightarrow> mem_state \<Rightarrow> (stop + mem_state) option" where
  "mem_round rnd clock pid s =
     (case Spin rnd clock 1 (mem_reading s) of
        None \<Rightarrow> None
      | Some (Inl e) \<Rightarrow> Some (Inl e)
      | Some (Inr k) \<Rightarrow>
          if is_int (cell s + 1)
          then Some (Inr \<lparr>cell = cell s + 1, mem_out = mem_out s @ [CellLine pid (cell s + 1)], mem_reading = k\<rparr>)
          else Some (Inl Undefined))"

text \<open>\<open>ptr\<close> is what \<open>malloc\<close> returns.\<close>

definition mem_main :: "(rat \<Rightarrow> rat) \<Rightarrow> (nat \<Rightarrow> int \<times> timeval) \<Rightarrow> int \<Rightarrow> nat option \<Rightarrow> string list \<Rightarrow> nat \<Rightarrow> (stop + mem_state) option" where
  "mem_main rnd clock pid ptr argv n =
     (if length argv \<noteq> 2 then Some (Inl (ExitWith 1))
      else case ptr of
        None \<Rightarrow> Some (Inl AssertFails)
      | Some p \<Rightarrow> iterations n (mem_round rnd clock pid) \<lparr>cell = atoi (argv ! 1), mem_out = [AddrLine pid p], mem_reading = 0\<rparr>)"

section \<open>\<open>io.c\<close>\<close>

text \<open>The outcomes of the system calls; \<open>contents\<close> is the file \<open>/tmp/file\<close>, and \<open>durable\<close> that it is on the disk.\<close>

record io_calls =
  open_rc :: int
  write_rc :: int
  fsync_rc :: int

record io_file =
  contents :: "string option"
  durable :: bool

definition hello_world :: string where
  "hello_world = ''hello world'' @ [CHR 10]"

text \<open>The comparison of an \<open>int\<close> with a \<open>size_t\<close> is made in 64 bits without sign.\<close>

definition same_size :: "int \<Rightarrow> nat \<Rightarrow> bool" where
  "same_size rc n \<longleftrightarrow> rc mod 2 ^ 64 = int n mod 2 ^ 64"

definition io_main :: "io_calls \<Rightarrow> io_file \<Rightarrow> stop \<times> io_file" where
  "io_main c f =
     (if \<not> 0 \<le> open_rc c then (AssertFails, f)
      else let g = \<lparr>contents = Some (take (nat (write_rc c)) hello_world), durable = False\<rparr> in
        if \<not> same_size (write_rc c) (length hello_world) then (AssertFails, g)
        else (ExitWith 0, g\<lparr>durable := fsync_rc c = 0\<rparr>))"

section \<open>\<open>va.c\<close>\<close>

text \<open>What it prints: the addresses of \<open>main\<close>, of 100 million bytes from \<open>malloc\<close> (or null), and of \<open>x\<close>.\<close>

definition va_main :: "nat \<Rightarrow> (nat \<Rightarrow> nat option) \<Rightarrow> nat \<Rightarrow> int \<times> (string \<times> nat option) list" where
  "va_main code malloc stack =
     (0, [(''location of code : '', Some code), (''location of heap : '', malloc 100000000), (''location of stack: '', Some stack)])"

section \<open>Spinning\<close>

abbreviation time_at :: "(rat \<Rightarrow> rat) \<Rightarrow> (nat \<Rightarrow> int \<times> timeval) \<Rightarrow> nat \<Rightarrow> stop + rat" where
  "time_at rnd clock k \<equiv> GetTime rnd (clock k)"

text \<open>Not yet enough time at reading \<open>j\<close>.\<close>

definition too_early :: "(rat \<Rightarrow> rat) \<Rightarrow> (nat \<Rightarrow> int \<times> timeval) \<Rightarrow> int \<Rightarrow> rat \<Rightarrow> nat \<Rightarrow> bool" where
  "too_early rnd clock howlong t j \<longleftrightarrow>
     (case time_at rnd clock j of Inl e \<Rightarrow> False | Inr now \<Rightarrow> rnd (now - t) < rnd (of_int howlong))"

lemma spin_loop_step:
  "spin_loop rnd clock h t k =
     (if too_early rnd clock h t k then spin_loop rnd clock h t (Suc k)
      else case time_at rnd clock k of Inl e \<Rightarrow> Some (Inl e) | Inr now \<Rightarrow> Some (Inr (Suc k)))"
  by (subst spin_loop.simps) (simp add: too_early_def split: sum.splits)

lemma spin_loop_skip: "\<forall>i<n. too_early rnd clock h t (k + i) \<Longrightarrow> spin_loop rnd clock h t k = spin_loop rnd clock h t (k + n)"
proof (induction n)
  case 0
  show ?case by simp
next
  case (Suc n)
  then have "spin_loop rnd clock h t k = spin_loop rnd clock h t (k + n)" by simp
  also have "\<dots> = spin_loop rnd clock h t (k + Suc n)"
    using Suc.prems by (subst spin_loop_step) simp
  finally show ?case .
qed

text \<open>A value of the loop comes from the first reading that is not too early.\<close>

lemma spin_loop_result:
  "spin_loop rnd clock h t k = Some r \<Longrightarrow>
    \<exists>n. (\<forall>i<n. too_early rnd clock h t (k + i)) \<and> \<not> too_early rnd clock h t (k + n) \<and>
      r = map_sum id (\<lambda>_. Suc (k + n)) (time_at rnd clock (k + n))"
proof (induction rule: spin_loop.raw_induct [rotated, consumes 1, case_names loop])
  case (loop f rnd clock h t k r)
  show ?case
  proof (cases "too_early rnd clock h t k")
    case True
    then obtain now where "time_at rnd clock k = Inr now" "rnd (now - t) < rnd (of_int h)" by (auto simp: too_early_def split: sum.splits)
    then have "f rnd clock h t (Suc k) = Some r" using loop(2) by simp
    from loop(1) [OF this] obtain n where n: "\<forall>i<n. too_early rnd clock h t (Suc k + i)" "\<not> too_early rnd clock h t (Suc k + n)"
        "r = map_sum id (\<lambda>_. Suc (Suc k + n)) (time_at rnd clock (Suc k + n))" by blast
    show ?thesis
    proof (intro exI [of _ "Suc n"] conjI allI impI)
      fix i
      assume "i < Suc n"
      then show "too_early rnd clock h t (k + i)" using n(1) True by (cases i) auto
    qed (use n(2,3) in \<open>auto simp: id_def\<close>)
  next
    case False
    then show ?thesis using loop(2) by (intro exI [of _ 0]) (auto simp: too_early_def split: sum.splits if_splits)
  qed
qed

lemma spin_loop_never: "\<forall>i. too_early rnd clock h t (k + i) \<Longrightarrow> spin_loop rnd clock h t k = None"
  using spin_loop_result by (metis option.exhaust)

lemma spin_loop_least:
  assumes "\<not> too_early rnd clock h t (k + n)"
  obtains m where "m \<le> n" "spin_loop rnd clock h t k = Some (map_sum id (\<lambda>_. Suc (k + m)) (time_at rnd clock (k + m)))"
    "\<not> too_early rnd clock h t (k + m)"
proof -
  define m where "m = (LEAST i. \<not> too_early rnd clock h t (k + i))"
  have m: "\<not> too_early rnd clock h t (k + m)" "m \<le> n" "\<forall>i<m. too_early rnd clock h t (k + i)"
    unfolding m_def using LeastI [of "\<lambda>i. \<not> too_early rnd clock h t (k + i)" n] Least_le [of "\<lambda>i. \<not> too_early rnd clock h t (k + i)" n]
      not_less_Least assms by blast+
  have "spin_loop rnd clock h t k = Some (map_sum id (\<lambda>_. Suc (k + m)) (time_at rnd clock (k + m)))"
    using m(1) by (subst spin_loop_skip [OF m(3)], subst spin_loop_step) (simp split: sum.splits)
  with m show thesis using that by blast
qed

lemma Spin_result:
  assumes "Spin rnd clock h k = Some (Inr m)"
  obtains t now where "k + 2 \<le> m" "time_at rnd clock k = Inr t" "time_at rnd clock (m - 1) = Inr now"
    "rnd (of_int h) \<le> rnd (now - t)" "\<forall>j\<in>{k<..<m - 1}. too_early rnd clock h t j"
proof -
  from assms obtain t where t: "time_at rnd clock k = Inr t" "spin_loop rnd clock h t (Suc k) = Some (Inr m)"
    by (auto simp: Spin_def split: sum.splits)
  from spin_loop_result [OF t(2)] obtain n where n: "\<forall>i<n. too_early rnd clock h t (Suc k + i)"
      "\<not> too_early rnd clock h t (Suc k + n)" "Inr m = map_sum id (\<lambda>_. Suc (Suc k + n)) (time_at rnd clock (Suc k + n))" by blast
  then obtain now where m: "m = Suc (Suc k + n)" "time_at rnd clock (Suc k + n) = Inr now" by (cases "time_at rnd clock (Suc k + n)") auto
  have "too_early rnd clock h t j" if "j \<in> {k<..<m - 1}" for j
    using n(1) [rule_format, of "j - Suc k"] that m(1) by auto
  moreover have "rnd (of_int h) \<le> rnd (now - t)" using n(2) m(2) by (simp add: too_early_def)
  ultimately show thesis using that [of t now] t(1) m by auto
qed

text \<open>All calls of \<open>gettimeofday\<close> succeed, and from every reading on the time advances by a second.\<close>

definition ticking :: "(rat \<Rightarrow> rat) \<Rightarrow> (nat \<Rightarrow> int \<times> timeval) \<Rightarrow> bool" where
  "ticking rnd clock \<longleftrightarrow> (\<forall>k. fst (clock k) = 0) \<and>
     (\<forall>k. \<exists>j>k. \<exists>t now. time_at rnd clock k = Inr t \<and> time_at rnd clock j = Inr now \<and> 1 \<le> now - t)"

definition rounding :: "(rat \<Rightarrow> rat) \<Rightarrow> bool" where
  "rounding rnd \<longleftrightarrow> mono rnd \<and> rnd 1 = 1"

lemma Spin_returns:
  assumes "\<forall>j. fst (clock j) = 0" "time_at rnd clock k = Inr t"
    "k < j" "time_at rnd clock j = Inr now" "rnd (of_int h) \<le> rnd (now - t)"
  shows "\<exists>m. Spin rnd clock h k = Some (Inr m)"
proof -
  have "\<not> too_early rnd clock h t (Suc k + (j - Suc k))" using assms(3-5) by (simp add: too_early_def)
  then obtain m where m: "spin_loop rnd clock h t (Suc k) = Some (map_sum id (\<lambda>_. Suc (Suc k + m)) (time_at rnd clock (Suc k + m)))"
    by (rule spin_loop_least)
  moreover have "\<exists>x. time_at rnd clock (Suc k + m) = Inr x" using assms(1) by (simp add: GetTime_def)
  ultimately show ?thesis using assms(2) by (auto simp: Spin_def)
qed

lemma Spin_ticking: "ticking rnd clock \<Longrightarrow> rounding rnd \<Longrightarrow> \<exists>m\<ge>k + 2. Spin rnd clock 1 k = Some (Inr m)"
proof -
  assume a: "ticking rnd clock" "rounding rnd"
  then obtain j t now where j: "k < j" "time_at rnd clock k = Inr t" "time_at rnd clock j = Inr now" "1 \<le> now - t"
    unfolding ticking_def by blast
  then have "rnd (of_int 1) \<le> rnd (now - t)" using a(2) monoD [of rnd 1 "now - t"] by (simp add: rounding_def)
  then obtain m where m: "Spin rnd clock 1 k = Some (Inr m)"
    using Spin_returns [of clock rnd k t j now 1] a(1) j unfolding ticking_def by blast
  then have "k + 2 \<le> m" by (rule Spin_result)
  with m show ?thesis by blast
qed

section \<open>The loops\<close>

lemma iterations_append: "iterations (a + b) f s = (case iterations a f s of Some (Inr u) \<Rightarrow> iterations b f u | r \<Rightarrow> r)"
  by (induction a arbitrary: s) (auto split: option.splits sum.splits)

lemma cpu_rounds:
  assumes "ticking rnd clock" "rounding rnd"
  shows "\<exists>k'\<ge>k + 2 * n. iterations n (cpu_round rnd clock str) \<lparr>shown = out, cpu_reading = k\<rparr> =
    Some (Inr \<lparr>shown = out @ replicate n str, cpu_reading = k'\<rparr>)"
proof (induction n arbitrary: k out)
  case 0
  show ?case by simp
next
  case (Suc n)
  from Spin_ticking [OF assms] obtain m where m: "k + 2 \<le> m" "Spin rnd clock 1 k = Some (Inr m)" by blast
  from Suc.IH [of m "out @ [str]"] obtain k' where "m + 2 * n \<le> k'" "iterations n (cpu_round rnd clock str)
      \<lparr>shown = out @ [str], cpu_reading = m\<rparr> = Some (Inr \<lparr>shown = (out @ [str]) @ replicate n str, cpu_reading = k'\<rparr>)" by blast
  moreover have "cpu_round rnd clock str \<lparr>shown = out, cpu_reading = k\<rparr> = Some (Inr \<lparr>shown = out @ [str], cpu_reading = m\<rparr>)"
    using m(2) by (simp add: cpu_round_def)
  ultimately show ?case using m(1) by (intro exI [of _ k']) simp
qed

lemma mem_rounds:
  assumes "ticking rnd clock" "rounding rnd"
  shows "- (2 ^ 31) \<le> v \<Longrightarrow> v + int n < 2 ^ 31 \<Longrightarrow>
    \<exists>k'. iterations n (mem_round rnd clock pid) \<lparr>cell = v, mem_out = out, mem_reading = k\<rparr> =
      Some (Inr \<lparr>cell = v + int n, mem_out = out @ map (\<lambda>i. CellLine pid (v + 1 + int i)) [0..<n], mem_reading = k'\<rparr>)"
proof (induction n arbitrary: k v out)
  case 0
  show ?case by simp
next
  case (Suc n)
  from Spin_ticking [OF assms] obtain m where m: "Spin rnd clock 1 k = Some (Inr m)" by blast
  have r: "mem_round rnd clock pid \<lparr>cell = v, mem_out = out, mem_reading = k\<rparr> =
      Some (Inr \<lparr>cell = v + 1, mem_out = out @ [CellLine pid (v + 1)], mem_reading = m\<rparr>)"
    using m Suc.prems by (simp add: mem_round_def is_int_def)
  have up: "map (\<lambda>i. CellLine pid (v + 1 + int i)) [0..<Suc n] =
      CellLine pid (v + 1) # map (\<lambda>i. CellLine pid (v + 1 + 1 + int i)) [0..<n]"
    by (simp add: upt_conv_Cons map_Suc_upt [symmetric] add_ac del: upt_Suc)
  have "- (2 ^ 31) \<le> v + 1" "v + 1 + int n < 2 ^ 31" using Suc.prems by simp_all
  from Suc.IH [OF this, of "out @ [CellLine pid (v + 1)]" m] obtain k' where
    "iterations n (mem_round rnd clock pid) \<lparr>cell = v + 1, mem_out = out @ [CellLine pid (v + 1)], mem_reading = m\<rparr> =
      Some (Inr \<lparr>cell = v + 1 + int n,
        mem_out = (out @ [CellLine pid (v + 1)]) @ map (\<lambda>i. CellLine pid (v + 1 + 1 + int i)) [0..<n], mem_reading = k'\<rparr>)" by blast
  then show ?case unfolding up by (intro exI [of _ k']) (simp add: r add_ac)
qed

lemma mem_overflow:
  assumes "ticking rnd clock" "rounding rnd" "is_int v" "2 ^ 31 \<le> v + int n"
  shows "iterations n (mem_round rnd clock pid) \<lparr>cell = v, mem_out = out, mem_reading = k\<rparr> = Some (Inl Undefined)"
proof -
  define a where "a = nat (2 ^ 31 - 1 - v)"
  have a: "v + int a = 2 ^ 31 - 1" "- (2 ^ 31) \<le> v" using assms(3) by (simp_all add: a_def is_int_def)
  then obtain b where b: "n = a + Suc b" using assms(4) less_iff_Suc_add [of a n] by auto
  from mem_rounds [OF assms(1,2) a(2), of a pid out k] a(1) obtain k' out' where
    r: "iterations a (mem_round rnd clock pid) \<lparr>cell = v, mem_out = out, mem_reading = k\<rparr> =
      Some (Inr \<lparr>cell = 2 ^ 31 - 1, mem_out = out', mem_reading = k'\<rparr>)" by auto
  from Spin_ticking [OF assms(1,2)] obtain m where m: "Spin rnd clock 1 k' = Some (Inr m)" by blast
  show ?thesis unfolding b iterations_append using r m by (simp add: mem_round_def is_int_def)
qed

section \<open>Properties\<close>

text \<open>\<open>Spin\<close> returns at the first reading that is late enough and not before, and when no reading is, it never returns.\<close>

theorem Spin_correct:
  assumes "\<forall>j. fst (clock j) = 0" "time_at rnd clock k = Inr t"
  shows "Spin rnd clock howlong k = Some (Inr m) \<longleftrightarrow>
      k + 2 \<le> m \<and> \<not> too_early rnd clock howlong t (m - 1) \<and> (\<forall>j\<in>{k<..<m - 1}. too_early rnd clock howlong t j)"
    and "Spin rnd clock howlong k = None \<longleftrightarrow> (\<forall>j>k. too_early rnd clock howlong t j)"
proof -
  have ok: "\<exists>x. time_at rnd clock j = Inr x" for j using assms(1) by (simp add: GetTime_def)
  have sp: "Spin rnd clock howlong k = spin_loop rnd clock howlong t (Suc k)" using assms(2) by (simp add: Spin_def)
  show "Spin rnd clock howlong k = Some (Inr m) \<longleftrightarrow>
      k + 2 \<le> m \<and> \<not> too_early rnd clock howlong t (m - 1) \<and> (\<forall>j\<in>{k<..<m - 1}. too_early rnd clock howlong t j)" (is "?L \<longleftrightarrow> ?R")
  proof
    assume ?L
    then obtain t' now where "k + 2 \<le> m" "time_at rnd clock k = Inr t'" "time_at rnd clock (m - 1) = Inr now"
        "rnd (of_int howlong) \<le> rnd (now - t')" "\<forall>j\<in>{k<..<m - 1}. too_early rnd clock howlong t' j"
      by (rule Spin_result)
    then show ?R using assms(2) by (simp add: too_early_def)
  next
    assume R: ?R
    have "\<forall>i<m - 2 - k. too_early rnd clock howlong t (Suc k + i)" using R by auto
    then have "spin_loop rnd clock howlong t (Suc k) = spin_loop rnd clock howlong t (Suc k + (m - 2 - k))" by (rule spin_loop_skip)
    also have "Suc k + (m - 2 - k) = m - 1" using conjunct1 [OF R] by arith
    also have "spin_loop rnd clock howlong t (m - 1) = Some (Inr (Suc (m - 1)))"
      using R ok [of "m - 1"] by (subst spin_loop_step) auto
    finally show ?L using sp R by simp
  qed
  show "Spin rnd clock howlong k = None \<longleftrightarrow> (\<forall>j>k. too_early rnd clock howlong t j)"
  proof
    assume n: "Spin rnd clock howlong k = None"
    show "\<forall>j>k. too_early rnd clock howlong t j"
    proof (intro allI impI, rule ccontr)
      fix j
      assume "k < j" "\<not> too_early rnd clock howlong t j"
      then have "\<not> too_early rnd clock howlong t (Suc k + (j - Suc k))" by simp
      then show False
      proof (rule spin_loop_least)
        fix i
        assume "spin_loop rnd clock howlong t (Suc k) = Some (map_sum id (\<lambda>_. Suc (Suc k + i)) (time_at rnd clock (Suc k + i)))"
        then show False using n sp by simp
      qed
    qed
  next
    assume "\<forall>j>k. too_early rnd clock howlong t j"
    then have "too_early rnd clock howlong t (Suc k + i)" for i by auto
    then show "Spin rnd clock howlong k = None" unfolding sp using spin_loop_never by blast
  qed
qed

definition steady_clock :: "nat \<Rightarrow> int \<times> timeval" where
  "steady_clock k = (0, \<lparr>tv_sec = 100 + int k div 4, tv_usec = 250000 * (int k mod 4)\<rparr>)"

theorem Spin_correct_witness:
  "Spin id steady_clock 1 0 = Some (Inr 5) \<and> Spin id (\<lambda>_. steady_clock 0) 1 0 = None"
proof
  have e: "0 < j \<and> j < 4 \<longrightarrow> too_early id steady_clock 1 100 j" for j
    by (auto simp: too_early_def GetTime_def steady_clock_def)
  have "\<forall>j. fst (steady_clock j) = 0" "time_at id steady_clock 0 = Inr 100" "\<not> too_early id steady_clock 1 100 4"
    by (simp_all add: too_early_def GetTime_def steady_clock_def)
  with Spin_correct(1) [of steady_clock id 0 100 1 5] e show "Spin id steady_clock 1 0 = Some (Inr 5)" by simp
  have "\<forall>j>0. too_early id (\<lambda>_. steady_clock 0) 1 100 j" by (simp add: too_early_def GetTime_def steady_clock_def)
  moreover have "time_at id (\<lambda>_. steady_clock 0) 0 = Inr 100" by (simp add: GetTime_def steady_clock_def)
  ultimately show "Spin id (\<lambda>_. steady_clock 0) 1 0 = None"
    using Spin_correct(2) [of "\<lambda>_. steady_clock 0" id 0 100 1] by (simp add: steady_clock_def)
qed

text \<open>Without rounding: when \<open>Spin\<close> returns, that many seconds have passed on the clock.\<close>

theorem Spin_elapsed:
  assumes "Spin id clock howlong k = Some (Inr m)"
  shows "1000000 * howlong \<le> (1000000 * tv_sec (snd (clock (m - 1))) + tv_usec (snd (clock (m - 1)))) -
    (1000000 * tv_sec (snd (clock k)) + tv_usec (snd (clock k)))"
proof -
  from assms obtain t now where r: "time_at id clock k = Inr t" "time_at id clock (m - 1) = Inr now" "of_int howlong \<le> now - t"
    by (rule Spin_result) simp
  have g: "1000000 * x = of_int (1000000 * tv_sec (snd (clock j)) + tv_usec (snd (clock j)))" if "time_at id clock j = Inr x" for j x
    using that by (auto simp: GetTime_def split: if_splits)
  have "of_int (1000000 * howlong) \<le> 1000000 * now - 1000000 * t" using r(3) by simp
  then show ?thesis unfolding g [OF r(1)] g [OF r(2)] by linarith
qed

theorem Spin_elapsed_witness:
  "\<exists>m. Spin id steady_clock 1 0 = Some (Inr m) \<and> 101 \<le> tv_sec (snd (steady_clock (m - 1)))"
proof -
  have "time_at id steady_clock 0 = Inr 100" "time_at id steady_clock 4 = Inr 101"
    by (simp_all add: GetTime_def steady_clock_def)
  with Spin_returns [of steady_clock id 0 100 4 101 1] obtain m where m: "Spin id steady_clock 1 0 = Some (Inr m)"
    by (auto simp: steady_clock_def)
  from m have "0 + 2 \<le> m" by (rule Spin_result)
  then obtain i where i: "m = Suc i" by (cases m) simp_all
  define q where "q = int i"
  have "1000000 * 1 \<le> 1000000 * (q div 4) + 250000 * (q mod 4)" using Spin_elapsed [OF m] i by (simp add: steady_clock_def q_def)
  also have "\<dots> = 250000 * q" using div_mult_mod_eq [of q 4] by linarith
  finally have "1 \<le> q div 4" by linarith
  then have "101 \<le> tv_sec (snd (steady_clock (m - 1)))" by (simp add: steady_clock_def q_def i)
  with m show ?thesis by blast
qed

text \<open>\<open>cpu.c\<close> prints its argument once a second, for ever, as long as the clock ticks.\<close>

theorem cpu_prints:
  assumes "ticking rnd clock" "rounding rnd" "length argv = 2"
  shows "\<exists>k\<ge>2 * n. cpu_main rnd clock argv n = Some (Inr \<lparr>shown = replicate n (argv ! 1), cpu_reading = k\<rparr>)"
  using cpu_rounds [OF assms(1,2), of 0 n "argv ! 1" "[]"] assms(3) by (simp add: cpu_main_def)

lemma steady_ticking: "ticking id steady_clock" "rounding id"
proof -
  have t: "time_at id steady_clock k = Inr (100 + of_int (int k div 4) + of_int (int k mod 4) / 4)" for k
    by (simp add: GetTime_def steady_clock_def)
  have "int (k + 4) div 4 = int k div 4 + 1" "int (k + 4) mod 4 = int k mod 4" for k by simp_all
  then have "\<exists>j>k. \<exists>t now. time_at id steady_clock k = Inr t \<and> time_at id steady_clock j = Inr now \<and> 1 \<le> now - t" for k
    unfolding t by (intro exI [of _ "k + 4"]) simp
  moreover have "fst (steady_clock k) = 0" for k by (simp add: steady_clock_def)
  ultimately show "ticking id steady_clock" unfolding ticking_def by blast
  show "rounding id" by (simp add: rounding_def mono_def)
qed

theorem cpu_prints_witness: "\<exists>s. cpu_main id steady_clock [''cpu'', ''A''] 3 = Some (Inr s) \<and> shown s = [''A'', ''A'', ''A'']"
  using cpu_prints [OF steady_ticking, of "[''cpu'', ''A'']" 3] by (auto simp: numeral_3_eq_3)

text \<open>\<open>mem.c\<close> counts up from its argument in a cell no other process writes to, until the integer overflows.\<close>

theorem mem_counts:
  assumes "ticking rnd clock" "rounding rnd" "length argv = 2"
  shows "atoi (argv ! 1) + int n < 2 ^ 31 \<Longrightarrow>
      \<exists>s. mem_main rnd clock pid (Some p) argv n = Some (Inr s) \<and> cell s = atoi (argv ! 1) + int n \<and>
        mem_out s = AddrLine pid p # map (\<lambda>i. CellLine pid (atoi (argv ! 1) + 1 + int i)) [0..<n]"
    and "2 ^ 31 \<le> atoi (argv ! 1) + int n \<Longrightarrow> mem_main rnd clock pid (Some p) argv n = Some (Inl Undefined)"
proof -
  have v: "- (2 ^ 31) \<le> atoi (argv ! 1)" "is_int (atoi (argv ! 1))" using atoi_int [of "argv ! 1"] by (simp_all add: is_int_def)
  show "\<exists>s. mem_main rnd clock pid (Some p) argv n = Some (Inr s) \<and> cell s = atoi (argv ! 1) + int n \<and>
      mem_out s = AddrLine pid p # map (\<lambda>i. CellLine pid (atoi (argv ! 1) + 1 + int i)) [0..<n]"
    if "atoi (argv ! 1) + int n < 2 ^ 31"
    using mem_rounds [OF assms(1,2) v(1) that, of pid "[AddrLine pid p]" 0] assms(3) by (auto simp: mem_main_def)
  show "mem_main rnd clock pid (Some p) argv n = Some (Inl Undefined)" if "2 ^ 31 \<le> atoi (argv ! 1) + int n"
    using mem_overflow [OF assms(1,2) v(2) that] assms(3) by (simp add: mem_main_def)
qed

theorem mem_counts_witness:
  "(\<exists>s. mem_main id steady_clock 7 (Some 99) [''mem'', ''5''] 2 = Some (Inr s) \<and> cell s = 7 \<and>
      mem_out s = [AddrLine 7 99, CellLine 7 6, CellLine 7 7]) \<and>
   mem_main id steady_clock 7 (Some 99) [''mem'', ''2147483647''] 1 = Some (Inl Undefined)"
proof
  have v: "atoi ([''mem'', ''5''] ! 1) = 5" "atoi ([''mem'', ''2147483647''] ! 1) = 2147483647"
    by (simp_all add: atoi_eval)
  have l: "length [''mem'', x] = 2" for x :: string by simp
  have two: "[0..<2] = [0, 1 :: nat]" by code_simp
  obtain s where s: "mem_main id steady_clock 7 (Some 99) [''mem'', ''5''] 2 = Some (Inr s)" "cell s = 5 + int 2"
      "mem_out s = AddrLine 7 99 # map (\<lambda>i. CellLine 7 (5 + 1 + int i)) [0..<2]"
    using mem_counts(1) [OF steady_ticking l, of "''5''" 2 7 99, unfolded v] by (auto simp del: upt_rec_numeral)
  have "cell s = 7" "mem_out s = [AddrLine 7 99, CellLine 7 6, CellLine 7 7]" using s(2,3) unfolding two by simp_all
  with s(1) show "\<exists>s. mem_main id steady_clock 7 (Some 99) [''mem'', ''5''] 2 = Some (Inr s) \<and> cell s = 7 \<and>
      mem_out s = [AddrLine 7 99, CellLine 7 6, CellLine 7 7]" by blast
  show "mem_main id steady_clock 7 (Some 99) [''mem'', ''2147483647''] 1 = Some (Inl Undefined)"
    by (rule mem_counts(2) [OF steady_ticking l, of "''2147483647''" 1 7 99, unfolded v]) simp
qed

text \<open>\<open>io.c\<close> exits with 0 exactly when the whole text has been written; otherwise the file is left as it was or holds a prefix.\<close>

theorem io_writes:
  assumes "- 1 \<le> write_rc c" "write_rc c \<le> 12"
  shows "fst (io_main c f) = ExitWith 0 \<longleftrightarrow> 0 \<le> open_rc c \<and> write_rc c = 12"
    and "fst (io_main c f) = ExitWith 0 \<Longrightarrow> contents (snd (io_main c f)) = Some hello_world"
    and "fst (io_main c f) \<noteq> ExitWith 0 \<Longrightarrow> fst (io_main c f) = AssertFails \<and>
      (snd (io_main c f) = f \<or> (\<exists>n<12. contents (snd (io_main c f)) = Some (take n hello_world)))"
proof -
  have len: "length hello_world = 12" by (simp add: hello_world_def)
  have same: "same_size (write_rc c) 12 \<longleftrightarrow> write_rc c = 12"
  proof (cases "write_rc c = - 1")
    case True
    then show ?thesis by (simp add: same_size_def)
  next
    case False
    then have "write_rc c mod 2 ^ 64 = write_rc c" using assms by simp
    then show ?thesis by (simp add: same_size_def)
  qed
  have all: "take 12 hello_world = hello_world" using len by simp
  show "fst (io_main c f) = ExitWith 0 \<longleftrightarrow> 0 \<le> open_rc c \<and> write_rc c = 12" by (simp add: io_main_def Let_def len same)
  show "contents (snd (io_main c f)) = Some hello_world" if "fst (io_main c f) = ExitWith 0"
    using that by (auto simp: io_main_def Let_def len same all split: if_splits)
  show "fst (io_main c f) = AssertFails \<and> (snd (io_main c f) = f \<or> (\<exists>n<12. contents (snd (io_main c f)) = Some (take n hello_world)))"
    if "fst (io_main c f) \<noteq> ExitWith 0"
  proof (cases "0 \<le> open_rc c")
    case True
    then have w: "write_rc c \<noteq> 12" using that by (auto simp: io_main_def Let_def len same)
    then have "nat (write_rc c) < 12" using assms(2) by linarith
    then show ?thesis using True w by (auto simp: io_main_def Let_def len same)
  qed (simp add: io_main_def)
qed

theorem io_writes_witness:
  "contents (snd (io_main \<lparr>open_rc = 3, write_rc = 12, fsync_rc = 0\<rparr> \<lparr>contents = None, durable = False\<rparr>)) = Some hello_world"
  using io_writes(1,2) [of "\<lparr>open_rc = 3, write_rc = 12, fsync_rc = 0\<rparr>" "\<lparr>contents = None, durable = False\<rparr>"] by simp

text \<open>The result of \<open>fsync\<close> is not looked at: the program may exit with 0 and the text not be on the disk.\<close>

theorem io_not_durable: "\<exists>c. fst (io_main c f) = ExitWith 0 \<and> \<not> durable (snd (io_main c f))"
  by (rule exI [of _ "\<lparr>open_rc = 3, write_rc = 12, fsync_rc = - 1\<rparr>"]) (simp add: io_main_def same_size_def hello_world_def)

text \<open>The text and its end fit the buffer of 20 characters.\<close>

lemma io_buffer: "length hello_world + 1 \<le> 20"
  by (simp add: hello_world_def)

end
