(* ===== verification/Buffer_Mains.thy ===== *)
theory Buffer_Mains
  imports Processes Bounded_Buffer
begin

text \<open>
  The \<open>main\<close> of \<open>MultiProducerMultiConsumerBuffer.cpp\<close> and of \<open>MpMCSingleCV.cpp\<close> in
  \<open>threads-locks/c++11-Producer-consumer\<close>: they create the producers and the consumers and join them. The results of
  \<open>pthread_create\<close> are not checked: what a program achieves is said of the runs in which every thread could be created
  (\<open>all_created\<close>). The consumers loop for ever.

  The locale \<open>serving_process\<close> is for programs some of whose threads never end: a run is bounded (\<open>costed_process\<close>) and comes
  to rest with \<open>main\<close> in a join.
\<close>

section \<open>Processes that come to rest\<close>

locale serving_process = costed_process step init inv who ended real False mu
  for step :: "'l \<Rightarrow> 's \<Rightarrow> 's option" and init :: 's and inv :: "'s \<Rightarrow> bool" and who :: "'l \<Rightarrow> tid"
    and ended :: "tid \<Rightarrow> 's \<Rightarrow> bool" and real :: "'l \<Rightarrow> bool" and mu :: "'s \<Rightarrow> nat" +
  fixes n :: nat and server :: tid
  assumes step_who: "step l s = Some u \<Longrightarrow> who l < n"
    and ended_stays: "inv s \<Longrightarrow> step l s = Some u \<Longrightarrow> ended t s \<Longrightarrow> ended t u"
    and server: "server < n" "inv s \<Longrightarrow> \<not> ended server s"
begin

abbreviation sp_step :: "'l proc_label \<Rightarrow> 's process \<Rightarrow> 's process option" where
  "sp_step \<equiv> proc_step False ended who step"

definition sp_inv :: "'s process \<Rightarrow> bool" where
  "sp_inv p \<longleftrightarrow> inv (comp p) \<and> main_at n ended p \<and> (status p = Live \<or> status p = Undef \<and> \<not> all_created n p)"

lemma sp_joins: "sp_inv p \<Longrightarrow> todo p \<noteq> []"
  using main_at_end [of n ended p] server by (auto simp: sp_inv_def)

lemma sp_inv_step:
  assumes inv: "sp_inv p" and step: "sp_step l p = Some q"
  shows "sp_inv q"
proof (cases l)
  case (Thread a)
  then obtain s where s: "step a (comp p) = Some s" "q = p\<lparr>comp := s\<rparr>" using step by (auto split: if_splits)
  have i: "inv (comp p)" "main_at n ended p" "status p = Live"
    using inv step Thread by (simp_all add: sp_inv_def split: if_splits)
  have "main_at n ended q" using i(2) s unfolding main_at_def by simp (metis ended_stays [OF i(1)])
  then show ?thesis using s i inv_step by (simp add: sp_inv_def)
next
  case (MainThread ok)
  then have m: "main_step False ended ok p = Some q" "status p = Live" using step by (auto split: if_splits)
  have at: "main_at n ended p" "inv (comp p)" using inv by (simp_all add: sp_inv_def)
  consider "status q = Live" "comp q = comp p"
    | t ops where "todo p = Join t # ops" "\<not> started p t" "q = p\<lparr>status := Undef\<rparr>"
    using m sp_joins [OF inv] by (auto split: list.splits main_op.splits if_splits)
  then show ?thesis
  proof cases
    case 1
    then show ?thesis using at main_at_step [OF at(1) m(1)] by (simp add: sp_inv_def)
  next
    case 2
    then have "\<not> all_created n q" using main_at_join [OF at(1) 2(1)] by (auto simp: all_created_def)
    then show ?thesis using at main_at_step [OF at(1) m(1)] 2(3) by (simp add: sp_inv_def)
  qed
qed

lemma sp_exec: "sp_inv p \<Longrightarrow> exec sp_step ls p = Some q \<Longrightarrow> sp_inv q"
  by (induction ls arbitrary: p) (auto split: option.splits dest: sp_inv_step simp del: proc_step.simps)

lemma sp_init: "sp_inv (new_process init (create_join n))"
  using main_at_new [of n ended init] inv_init by (simp add: sp_inv_def new_process_def)

lemma sp_run:
  assumes "exec sp_step ls (new_process init (create_join n)) = Some p"
  shows "inv (comp p)" "status p = Live \<or> status p = Undef \<and> \<not> all_created n p" "length ls \<le> mu init + 2 * n + 1 + 2 * length (filter (unreal real) ls)"
  using sp_exec [OF sp_init assms] cost_run [OF assms] by (simp_all add: sp_inv_def)

text \<open>At rest no thread can go on: all have been asked for.\<close>

lemma sp_rest:
  assumes run: "exec sp_step ls (new_process init (create_join n)) = Some p" and all: "all_created n p" and rest: "hung real sp_step p"
  shows "real l \<Longrightarrow> step l (comp p) = None"
proof -
  have inv: "sp_inv p" using sp_exec [OF sp_init run] .
  then have at: "main_at n ended p" "status p = Live" using all by (simp_all add: sp_inv_def)
  have stuck: "main_step False ended True p = None" using rest at(2) by (auto simp: hung_def)
  then obtain t ops where "todo p = Join t # ops" by (auto split: list.splits main_op.splits if_splits)
  then have st: "\<forall>t<n. started p t" using main_at_join(2) [OF at(1)] all by (auto simp: all_created_def)
  show "step l (comp p) = None" if "real l"
  proof (rule ccontr)
    assume "step l (comp p) \<noteq> None"
    then obtain u where "step l (comp p) = Some u" by blast
    then have "sp_step (Thread l) p = Some (p\<lparr>comp := u\<rparr>)" using st step_who at(2) by simp
    moreover have "sp_step (Thread l) p = None" using rest that unfolding hung_def by blast
    ultimately show False by simp
  qed
qed

end

section \<open>The two programs\<close>

text \<open>\<open>MAX\<close> is the size of the array. The result is the process with the number of items a producer makes and the number of
  producers and of consumers. In the first program the array of the thread identifiers has as many places as there are
  consumers, which must be positive; in the second it has \<open>CMAX\<close>.\<close>

definition MAX_items :: nat where
  "MAX_items = 1000"

definition mp_c :: "string list \<Rightarrow> (buf process \<times> nat \<times> nat \<times> nat) option" where
  "mp_c argv =
     (if length argv \<noteq> 3 then Some (no_process (buf_init MAX_items 0) (Exited 1), 0, 0, 0)
      else let max = nat (atoi (argv ! 1)); consumers = nat (atoi (argv ! 2)) in
        if consumers = 0 then None else Some (new_process (buf_init MAX_items 1) (create_join (1 + consumers)), max, 1, consumers))"

definition mpmc_c :: "string list \<Rightarrow> buf process \<times> nat \<times> nat \<times> nat" where
  "mpmc_c argv =
     (if length argv \<noteq> 3 then (no_process (buf_init MAX_items 0) (Exited 1), 0, 0, 0)
      else let consumers = atoi (argv ! 2) in
        if \<not> consumers \<le> 10 then (no_process (buf_init MAX_items 0) Aborted, 0, 0, 0)
        else (new_process (buf_init MAX_items (nat consumers)) (create_join (2 * nat consumers)), 5, nat consumers, nat consumers))"

fun buf_who :: "buf_label \<Rightarrow> tid" where
  "buf_who (Run t c) = t"
| "buf_who (Wake t) = t"

fun buf_real :: "buf_label \<Rightarrow> bool" where
  "buf_real (Run t c) = True"
| "buf_real (Wake t) = False"

fun cv_who :: "cv_label \<Rightarrow> tid" where
  "cv_who (RunB t) = t"
| "cv_who (WakeB t) = t"

fun cv_real :: "cv_label \<Rightarrow> bool" where
  "cv_real (RunB t) = True"
| "cv_real (WakeB t) = False"

definition buf_ended :: "tid \<Rightarrow> buf \<Rightarrow> bool" where
  "buf_ended t s \<longleftrightarrow> bpcs s t = BDone"

section \<open>The cost of a run\<close>

text \<open>What a producer still has to make, and the threads that are awake.\<close>

fun to_make :: "nat \<Rightarrow> bpc \<Rightarrow> nat" where
  "to_make np (PLoop i) = np - i"
| "to_make np (PWait i) = np - i"
| "to_make np b = 0"

fun awake :: "bpc \<Rightarrow> bool" where
  "awake (PLoop i) = True"
| "awake (CLoop k) = True"
| "awake b = False"

definition orders :: "nat \<Rightarrow> nat \<Rightarrow> buf \<Rightarrow> nat" where
  "orders np m s = (\<Sum>i<m. to_make np (bpcs s i))"

definition buf_mu :: "nat \<Rightarrow> nat \<Rightarrow> buf \<Rightarrow> nat" where
  "buf_mu np m s = (m + 1) * (2 * orders np m s + count (ring s)) + nat (cnt m awake (bpcs s))"

text \<open>Every item ordered has been put or will be.\<close>

definition tally :: "nat \<Rightarrow> nat \<Rightarrow> nat \<Rightarrow> buf \<Rightarrow> bool" where
  "tally np p m s \<longleftrightarrow> length (put_hist s) + orders np m s = np * p"

lemma awake_le: "nat (cnt m awake f) \<le> m"
  using cnt_le [of m awake f] by simp

lemma buf_mu_moves:
  assumes "2 * orders np m u + count (ring u) < 2 * orders np m s + count (ring s)"
  shows "buf_mu np m u < buf_mu np m s"
proof -
  have "(m + 1) * Suc (2 * orders np m u + count (ring u)) \<le> (m + 1) * (2 * orders np m s + count (ring s))"
    using assms by (intro mult_le_mono2) simp
  moreover have "nat (cnt m awake (bpcs u)) \<le> m" by (rule awake_le)
  ultimately show ?thesis unfolding buf_mu_def by simp
qed

lemma orders_upd:
  assumes "t < m" "\<And>i. to_make np (f i) = to_make np (bpcs s i)" "bpcs u = f(t := b)"
  shows "orders np m u + to_make np (bpcs s t) = orders np m s + to_make np b"
  using sum_change [of t m "\<lambda>i. to_make np (bpcs u i)" "\<lambda>i. to_make np (bpcs s i)"] assms by (simp add: orders_def)

lemma orders_at: "t < m \<Longrightarrow> to_make np b = to_make np (bpcs s t) \<Longrightarrow> orders np m (buf_at t b s) = orders np m s"
  using orders_upd [of t m np "bpcs s" s "buf_at t b s" b] by simp

lemma buf_mu_at:
  assumes "t < m" "to_make np b = to_make np (bpcs s t)"
  shows "awake (bpcs s t) \<Longrightarrow> \<not> awake b \<Longrightarrow> buf_mu np m (buf_at t b s) < buf_mu np m s"
    and "buf_mu np m (buf_at t b s) < buf_mu np m s + 2"
proof -
  have o: "orders np m (buf_at t b s) = orders np m s" by (rule orders_at [OF assms])
  have c: "cnt m awake (bpcs (buf_at t b s)) = cnt m awake (bpcs s) - of_bool (awake (bpcs s t)) + of_bool (awake b)"
    using cnt_upd [OF assms(1), of awake "bpcs s" b] by simp
  show "buf_mu np m (buf_at t b s) < buf_mu np m s" if "awake (bpcs s t)" "\<not> awake b"
    using that o c cnt_pos [of t m awake "bpcs s", OF assms(1) that(1)] by (simp add: buf_mu_def)
  show "buf_mu np m (buf_at t b s) < buf_mu np m s + 2"
    using o c cnt_nonneg [of m awake "bpcs s"] by (auto simp: buf_mu_def simp del: cnt_nonneg)
qed

lemma make_notify_one:
  assumes "notify_one fill m c f = Some g \<or> notify_one empty m c f = Some g"
  shows "to_make np (g i) = to_make np (f i)" "g i = BDone \<longleftrightarrow> f i = BDone"
  using assms by (auto elim!: notify_one_cases split: if_splits)

lemma make_notify_all:
  "to_make np (notify_all cond f i) = to_make np (f i)" "notify_all cond f i = BDone \<longleftrightarrow> f i = BDone"
  by (cases "f i"; simp add: notify_all_def)+

lemma put_moves:
  assumes "t < m" "bpcs s t = PLoop i" "i < np" "\<And>i. to_make np (f i) = to_make np (bpcs s i)"
    "bpcs u = f(t := PLoop (i + 1))" "count (ring u) = count (ring s) + 1" "length (put_hist u) = length (put_hist s) + 1"
  shows "buf_mu np m u < buf_mu np m s" "tally np p m s \<Longrightarrow> tally np p m u"
proof -
  have "orders np m u + 1 = orders np m s" using orders_upd [OF assms(1,4,5)] assms(2,3) by simp
  then show "buf_mu np m u < buf_mu np m s" "tally np p m s \<Longrightarrow> tally np p m u"
    using assms(6,7) by (auto intro: buf_mu_moves simp: tally_def)
qed

lemma get_moves:
  assumes "t < m" "bpcs s t = CLoop k" "\<And>i. to_make np (f i) = to_make np (bpcs s i)"
    "bpcs u = f(t := CLoop (k + 1))" "count (ring u) < count (ring s)" "put_hist u = put_hist s"
  shows "buf_mu np m u < buf_mu np m s" "tally np p m s \<Longrightarrow> tally np p m u"
proof -
  have "orders np m u = orders np m s" using orders_upd [OF assms(1,3,4)] assms(2) by simp
  then show "buf_mu np m u < buf_mu np m s" "tally np p m s \<Longrightarrow> tally np p m u"
    using assms(5,6) by (auto intro: buf_mu_moves simp: tally_def)
qed

lemma at_moves:
  assumes "t < m" "to_make np b = to_make np (bpcs s t)" "awake (bpcs s t)" "\<not> awake b"
  shows "buf_mu np m (buf_at t b s) < buf_mu np m s" "tally np p m s \<Longrightarrow> tally np p m (buf_at t b s)"
  using buf_mu_at(1) [OF assms] orders_at [OF assms(1,2)] by (simp_all add: tally_def)

lemma buf_moves:
  assumes "buf_step M np nc m l s = Some u"
  shows "buf_mu np m u < buf_mu np m s + (if buf_real l then 0 else 2) \<and> (tally np p m s \<longrightarrow> tally np p m u) \<and>
    (bpcs s i = BDone \<longrightarrow> bpcs u i = BDone)"
proof (cases l)
  case (Wake t)
  then obtain b where "t < m" "u = buf_at t b s" "to_make np b = to_make np (bpcs s t)" "bpcs s t \<noteq> BDone"
    using assms by (auto split: if_splits bpc.splits)
  then show ?thesis using Wake buf_mu_at(2) [of t m np b s] orders_at [of t m np b s] by (auto simp: tally_def)
next
  case (Run t c)
  then have t: "t < m" using assms by (auto split: if_splits)
  show ?thesis
  proof (cases "bpcs s t")
    case (PLoop i)
    then have "producer M np m c t i s = Some u" using assms Run t by simp
    then consider "\<not> i < np" "u = buf_at t BDone s" | "i < np" "u = buf_at t (PWait i) s"
      | f where "i < np" "notify_one fill m c (bpcs s) = Some f"
          "u = buf_at t (PLoop (i + 1)) (s\<lparr>ring := put M (int i) (ring s), put_hist := put_hist s @ [int i], bpcs := f\<rparr>)"
      by (auto simp: producer_def split: if_splits option.splits)
    then show ?thesis
    proof cases
      case (3 f)
      then show ?thesis using Run t PLoop put_moves(1) [of t m s i np f u] put_moves(2) [of t m s i np f u p]
          make_notify_one [of m c "bpcs s" f]
        by (simp add: put_def)
    qed (use Run t PLoop at_moves in auto)
  next
    case (CLoop k)
    then have "consumer M nc m c t k s = Some u" using assms Run t by simp
    then consider "u = buf_at t BDone s" | "u = buf_at t (CWait k) s"
      | v r f where "count (ring s) \<noteq> 0" "get M (ring s) = (v, r)" "notify_one empty m c (bpcs s) = Some f"
          "u = buf_at t (CLoop (k + 1)) (s\<lparr>ring := r, got_hist := got_hist s @ [v], bpcs := f\<rparr>)"
      by (auto simp: consumer_def split: if_splits option.splits prod.splits)
    then show ?thesis
    proof cases
      case (3 v r f)
      then have "count r < count (ring s)" by (auto simp: get_def)
      then show ?thesis using 3 Run t CLoop make_notify_one [of m c "bpcs s" f]
          get_moves [where t = t and m = m and s = s and k = k and f = f and np = np and u = u]
        by simp
    qed (use Run t CLoop at_moves in auto)
  qed (use assms Run t in auto)
qed

lemma cv_moves:
  assumes "cv_step M np nc m l s = Some u"
  shows "buf_mu np m u < buf_mu np m s + (if cv_real l then 0 else 2) \<and> (tally np p m s \<longrightarrow> tally np p m u) \<and>
    (bpcs s i = BDone \<longrightarrow> bpcs u i = BDone)"
proof (cases l)
  case (WakeB t)
  then obtain b where "t < m" "u = buf_at t b s" "to_make np b = to_make np (bpcs s t)" "bpcs s t \<noteq> BDone"
    using assms by (cases "bpcs s t") (auto split: if_splits)
  then show ?thesis using WakeB buf_mu_at(2) [of t m np b s] orders_at [of t m np b s] by (auto simp: tally_def)
next
  case (RunB t)
  then have t: "t < m" using assms by (auto split: if_splits)
  show ?thesis
  proof (cases "bpcs s t")
    case (PLoop i)
    then consider "\<not> i < np" "u = buf_at t BDone s" | "i < np" "u = buf_at t (PWait i) s"
      | "i < np" "u = buf_at t (PLoop (i + 1))
        (s\<lparr>ring := put_index M (int i) (ring s), put_hist := put_hist s @ [int (fill_ptr (ring s)) + 1],
           bpcs := notify_all cond (bpcs s)\<rparr>)"
      using assms RunB t by (auto simp: producer_b_def split: if_splits)
    then show ?thesis
    proof cases
      case 3
      then show ?thesis using RunB t PLoop make_notify_all put_moves(1) [of t m s i np "notify_all cond (bpcs s)" u]
          put_moves(2) [of t m s i np "notify_all cond (bpcs s)" u p]
        by (simp add: put_index_def put_def)
    qed (use RunB t PLoop at_moves in auto)
  next
    case (CLoop k)
    then consider "u = buf_at t BDone s" | "u = buf_at t (CWait k) s"
      | v r where "count (ring s) \<noteq> 0" "get M (ring s) = (v, r)"
          "u = buf_at t (CLoop (k + 1)) (s\<lparr>ring := r, got_hist := got_hist s @ [v], bpcs := notify_all cond (bpcs s)\<rparr>)"
      using assms RunB t by (auto simp: consumer_b_def split: if_splits prod.splits)
    then show ?thesis
    proof cases
      case (3 v r)
      then have "count r < count (ring s)" by (auto simp: get_def)
      then show ?thesis using 3 RunB t CLoop make_notify_all
          get_moves [where t = t and m = m and s = s and k = k and f = "notify_all cond (bpcs s)" and np = np and u = u]
        by simp
    qed (use RunB t CLoop at_moves in auto)
  qed (use assms RunB t in auto)
qed

lemma tally_init: "p \<le> m \<Longrightarrow> tally np p m (buf_init M p)"
proof -
  assume "p \<le> m"
  then have "orders np m (buf_init M p) = (\<Sum>i<p. np)"
    unfolding orders_def buf_init_def by (intro sum.mono_neutral_cong_right) auto
  then show ?thesis by (simp add: tally_def buf_init_def)
qed

lemma buf_mu_init: "p \<le> m \<Longrightarrow> buf_mu np m (buf_init M p) \<le> (m + 1) * (2 * np * p) + m"
  using tally_init [of p m np M] awake_le [of m "bpcs (buf_init M p)"]
  by (simp add: buf_mu_def tally_def buf_init_def ring_init_def algebra_simps)

text \<open>When all producers have finished, everything has been put.\<close>

lemma orders_done: "\<forall>i<m. bpcs s i = BDone \<or> c_asleep (bpcs s i) \<Longrightarrow> orders np m s = 0"
  by (auto simp: orders_def elim!: c_asleep.elims)

lemma stuck_made:
  assumes "tally np p m s" "p \<le> m" "\<And>i. i < p \<Longrightarrow> bpcs s i = BDone" "\<And>i. p \<le> i \<Longrightarrow> i < m \<Longrightarrow> c_asleep (bpcs s i)"
  shows "length (put_hist s) = np * p"
proof -
  have "orders np m s = 0" by (rule orders_done) (use assms(3,4) not_less in blast)
  then show ?thesis using assms(1) by (simp add: tally_def)
qed

text \<open>One producer puts the items in order.\<close>

definition in_order :: "nat \<Rightarrow> buf \<Rightarrow> bool" where
  "in_order np s \<longleftrightarrow> put_hist s = map int [0..<np - to_make np (bpcs s 0)] \<and> (\<forall>i. bpcs s 0 = PLoop i \<longrightarrow> i \<le> np)"

lemma in_order_step:
  assumes ok: "bpc_ok np None True (bpcs s 0)" "\<And>t. t < m \<Longrightarrow> 0 < t \<Longrightarrow> bpc_ok np None False (bpcs s t)"
    and inv: "in_order np s" and step: "buf_step M np None m l s = Some u"
  shows "in_order np u"
  using step
proof (cases rule: buf_step_cases)
  case (produce t i c f)
  then have "t = 0" using ok(2) [of t] by (cases "t = 0") auto
  then show ?thesis using produce inv by (simp add: in_order_def)
next
  case (consume t k c f v r)
  then have t: "t \<noteq> 0" using ok(1) by (cases "t = 0") auto
  have "f 0 = bpcs s 0 \<or> (\<exists>i. bpcs s 0 = PWait i \<and> f 0 = PLoop i)"
    using consume(6) by (cases rule: notify_one_cases) auto
  then show ?thesis using consume t inv ok(1) by (auto simp: in_order_def)
next
  case (full t i)
  then show ?thesis using inv by (auto simp: in_order_def)
next
  case (none t k)
  then show ?thesis using inv ok(1) by (auto simp: in_order_def)
next
  case (pdone t i)
  then show ?thesis using inv by (auto simp: in_order_def)
next
  case (pwake t i)
  then show ?thesis using inv ok(1) by (auto simp: in_order_def)
next
  case (cwake t k)
  then show ?thesis using inv ok(1) by (auto simp: in_order_def)
qed simp

interpretation mp: serving_process "buf_step (Suc M) np None (Suc (Suc n))" "buf_init (Suc M) 1"
  "\<lambda>s. buf_inv (Suc M) np None 1 (Suc (Suc n)) s \<and> tally np 1 (Suc (Suc n)) s \<and> in_order np s" buf_who buf_ended buf_real
  "buf_mu np (Suc (Suc n))" "Suc (Suc n)" 1 for M np n :: nat
proof (unfold_locales, goal_cases)
  case 1
  have "in_order np (buf_init (Suc M) 1)" by (simp add: in_order_def buf_init_def)
  then show ?case using buf_inv_init [of "Suc M"] tally_init [of 1 "Suc (Suc n)"] by simp
next
  case (2 s l t)
  then have "buf_inv (Suc M) np None 1 (Suc (Suc n)) t" using buf_inv_step by blast
  moreover have "tally np 1 (Suc (Suc n)) t" using 2 buf_moves by blast
  moreover have "bpc_ok np None (i < 1) (bpcs s i)" if "i < Suc (Suc n)" for i using 2(1) that by (simp add: buf_inv_def)
  then have "in_order np t" using in_order_step [OF _ _ _ 2(2)] 2(1) by fastforce
  ultimately show ?case by blast
next
  case (3 s l u)
  then show ?case using buf_moves by blast
next
  case (4 l s u)
  then show ?case by (cases l) (auto split: if_splits)
next
  case (5 s l u t)
  then show ?case using buf_moves by (simp add: buf_ended_def)
next
  case 6
  show ?case by simp
next
  case (7 s)
  then have "\<forall>i<Suc (Suc n). bpc_ok np None (i < 1) (bpcs s i)" by (simp add: buf_inv_def)
  then have "bpc_ok np None False (bpcs s 1)" by fastforce
  then show ?case by (auto simp: buf_ended_def)
qed

lemma cv_stuck_empty:
  assumes inv: "cv_inv M np None p m s" and "0 < M" "p < m" and stuck: "\<And>t. cv_step M np None m (RunB t) s = None"
  shows "count (ring s) = 0" "i < p \<Longrightarrow> bpcs s i = BDone" "p \<le> i \<Longrightarrow> i < m \<Longrightarrow> c_asleep (bpcs s i)"
proof -
  have at: "c_asleep (bpcs s i) \<or> p_asleep (bpcs s i) \<or> bpcs s i = BDone" if "i < m" for i
    using stuck [of i] that by (cases "bpcs s i") auto
  have ok: "i < m \<Longrightarrow> bpc_ok np None (i < p) (bpcs s i)" for i using inv by (simp add: cv_inv_def)
  have cons: "c_asleep (bpcs s i)" if "p \<le> i" "i < m" for i
    using at [OF that(2)] ok [OF that(2)] that by (cases "bpcs s i") auto
  then show e: "count (ring s) = 0" using inv assms(3) unfolding cv_inv_def by blast
  then have no: "\<not> p_asleep (bpcs s i)" if "i < m" for i using inv assms(2) that unfolding cv_inv_def by (metis less_numeral_extra(3))
  then show "bpcs s i = BDone" if "i < p" using at [of i] ok [of i] no [of i] that assms(3) by (cases "bpcs s i") auto
  show "c_asleep (bpcs s i)" if "p \<le> i" "i < m" using cons that .
qed

interpretation mpmc: serving_process "cv_step (Suc M) np None (2 * Suc n)" "buf_init (Suc M) (Suc n)"
  "\<lambda>s. cv_inv (Suc M) np None (Suc n) (2 * Suc n) s \<and> tally np (Suc n) (2 * Suc n) s" cv_who buf_ended cv_real
  "buf_mu np (2 * Suc n)" "2 * Suc n" "Suc n" for M np n :: nat
proof (unfold_locales, goal_cases)
  case 1
  show ?case using cv_inv_init [of "Suc M"] tally_init [of "Suc n" "2 * Suc n"] by simp
next
  case (2 s l t)
  then show ?case using cv_inv_step cv_moves by blast
next
  case (3 s l u)
  then show ?case using cv_moves by blast
next
  case (4 l s u)
  then show ?case by (cases l) (auto split: if_splits)
next
  case (5 s l u t)
  then show ?case using cv_moves by (simp add: buf_ended_def)
next
  case 6
  show ?case by simp
next
  case (7 s)
  then have "\<forall>i<2 * Suc n. bpc_ok np None (i < Suc n) (bpcs s i)" by (simp add: cv_inv_def)
  then have "bpc_ok np None False (bpcs s (Suc n))" by (auto dest: spec [of _ "Suc n"])
  then show ?case by (auto simp: buf_ended_def)
qed

section \<open>Properties\<close>

text \<open>\<open>MultiProducerMultiConsumerBuffer.cpp\<close> with its single producer: whatever the schedule, the run is bounded up to
  spurious wake-ups, and when nothing can go on any more all the items have been consumed, in order, unless a creation
  failed; but the program never returns.\<close>

theorem mp_c_serves:
  assumes "length argv = 3" "mp_c argv = Some (p0, items, np, n)"
    "exec (proc_step False buf_ended buf_who (buf_step MAX_items items None (n + 1))) ls p0 = Some p"
  shows "(\<forall>c. status p \<noteq> Exited c) \<and> (all_created (n + 1) p \<longrightarrow> status p = Live) \<and>
    length ls \<le> 2 * items * (n + 2) + 3 * (n + 1) + 1 + 2 * length (filter (unreal buf_real) ls) \<and>
    (all_created (n + 1) p \<and> hung buf_real (proc_step False buf_ended buf_who (buf_step MAX_items items None (n + 1))) p \<longrightarrow>
      got_hist (comp p) = map int [0..<items] \<and> count (ring (comp p)) = 0)"
proof -
  have eq: "p0 = new_process (buf_init MAX_items 1) (create_join (Suc n))" "0 < n"
    using assms(1,2) by (auto simp: mp_c_def Let_def split: if_splits)
  define k where "k = n - 1"
  have S: "n = Suc k" "MAX_items = Suc 999" using eq(2) by (simp_all add: k_def MAX_items_def)
  have e: "exec (proc_step False buf_ended buf_who (buf_step (Suc 999) items None (Suc (Suc k)))) ls
      (new_process (buf_init (Suc 999) 1) (create_join (Suc (Suc k)))) = Some p"
    using assms(3) eq(1) S by simp
  note r = mp.sp_run [OF e]
  have len: "length ls \<le> 2 * items * (n + 2) + 3 * (n + 1) + 1 + 2 * length (filter (unreal buf_real) ls)"
    using r(3) buf_mu_init [of 1 "Suc (Suc k)" items "Suc 999"] S(1) by (simp add: algebra_simps)
  have "got_hist (comp p) = map int [0..<items] \<and> count (ring (comp p)) = 0"
    if all: "all_created (n + 1) p"
      and rest: "hung buf_real (proc_step False buf_ended buf_who (buf_step MAX_items items None (n + 1))) p"
  proof -
    have i: "buf_inv (Suc 999) items None 1 (Suc (Suc k)) (comp p)" "in_order items (comp p)" using r(1) by simp_all
    have "hung buf_real (proc_step False buf_ended buf_who (buf_step (Suc 999) items None (Suc (Suc k)))) p"
      using rest S by simp
    then have "buf_step (Suc 999) items None (Suc (Suc k)) (Run t c) (comp p) = None" for t c
      using all S(1) by (intro mp.sp_rest [OF e]) simp_all
    then have "buf_stuck (Suc 999) items None (Suc (Suc k)) (comp p)" unfolding buf_stuck_def by blast
    note q = buf_stuck_empty [OF i(1) _ _ this]
    have "bpcs (comp p) 0 = BDone" "count (ring (comp p)) = 0" using q by simp_all
    moreover have "reach (buf_step (Suc 999) items None (Suc (Suc k))) (buf_init (Suc 999) 1) (comp p)"
      using proc_comp_reach [OF reachI [OF e]] by (simp add: new_process_def)
    then have "put_hist (comp p) = got_hist (comp p) @ contents (Suc 999) (ring (comp p))" by (rule buf_fifo) simp
    ultimately show ?thesis using i(2) by (simp add: in_order_def contents_def)
  qed
  then show ?thesis using r(2) len S(1) by auto
qed

theorem mp_c_serves_witness:
  "\<exists>p0 p. mp_c [''mp'', ''1'', ''1''] = Some (p0, 1, 1, 1) \<and>
     exec (proc_step False buf_ended buf_who (buf_step MAX_items 1 None 2))
       [MainThread True, MainThread True, Thread (Run 0 None), Thread (Run 1 None), Thread (Run 1 None), Thread (Run 0 None),
        MainThread True] p0 = Some p \<and>
     hung buf_real (proc_step False buf_ended buf_who (buf_step MAX_items 1 None 2)) p \<and> got_hist (comp p) = [0]"
proof -
  let ?step = "proc_step False buf_ended buf_who (buf_step MAX_items 1 None 2)"
  let ?p0 = "new_process (buf_init MAX_items 1) (create_join 2)"
  have a: "atoi ''1'' = 1" by (simp add: atoi_eval)
  have m: "mp_c [''mp'', ''1'', ''1''] = Some (?p0, 1, 1, 1)" using a by (simp add: mp_c_def numeral_2_eq_2)
  have two: "create_join 2 = [Create 0, Create 1, Join 0, Join 1]" by (simp add: create_join_def numeral_2_eq_2)
  obtain p where p: "exec ?step [MainThread True, MainThread True, Thread (Run 0 None), Thread (Run 1 None), Thread (Run 1 None),
        Thread (Run 0 None), MainThread True] ?p0 = Some p" "todo p = [Join 1]" "bpcs (comp p) 0 = BDone" "bpcs (comp p) 1 = CWait 1"
      "status p = Live" "started p 0" "started p 1"
    by (simp add: two new_process_def buf_init_def ring_init_def producer_def consumer_def put_def get_def notify_one_def
        buf_at_def buf_ended_def MAX_items_def less_2_cases_iff)
  have "buf_step MAX_items 1 None 2 l (comp p) = None" if "buf_real l" for l
    using that p(3,4) by (cases l) (auto simp: less_2_cases_iff)
  then have rest: "hung buf_real ?step p" "all_created 2 p" using p(2,4-7) by (auto simp: hung_def buf_ended_def all_created_def less_2_cases_iff)
  have "length [''mp'', ''1'', ''1''] = 3" by simp
  from mp_c_serves [OF this m, unfolded one_add_one, OF p(1)] rest have "got_hist (comp p) = [0]" by simp
  with m p(1) rest show ?thesis by blast
qed

lemma mpmc_c_run:
  assumes "mpmc_c argv = (p0, np, n, n)" "0 < n"
    "exec (proc_step False buf_ended cv_who (cv_step MAX_items np None (2 * n))) ls p0 = Some p"
  shows "np = 5 \<and> (\<forall>c. status p \<noteq> Exited c) \<and> (all_created (2 * n) p \<longrightarrow> status p = Live) \<and>
    length ls \<le> 10 * n * (2 * n + 1) + 6 * n + 1 + 2 * length (filter (unreal cv_real) ls) \<and>
    (all_created (2 * n) p \<and> hung cv_real (proc_step False buf_ended cv_who (cv_step MAX_items np None (2 * n))) p \<longrightarrow>
      got_hist (comp p) = map (\<lambda>i. int i + 1) [0..<5 * n] \<and> count (ring (comp p)) = 0)"
proof -
  have eq: "p0 = new_process (buf_init MAX_items n) (create_join (2 * n))" "np = 5" "n \<le> 10"
    using assms(1,2) by (auto simp: mpmc_c_def Let_def split: if_splits)
  define k where "k = n - 1"
  have S: "n = Suc k" "MAX_items = Suc 999" using assms(2) by (simp_all add: k_def MAX_items_def)
  have e: "exec (proc_step False buf_ended cv_who (cv_step (Suc 999) np None (2 * Suc k))) ls
      (new_process (buf_init (Suc 999) (Suc k)) (create_join (2 * Suc k))) = Some p"
    using assms(3) eq(1) unfolding S by simp
  note r = mpmc.sp_run [OF e]
  have "buf_mu np (2 * Suc k) (buf_init (Suc 999) (Suc k)) \<le> (2 * Suc k + 1) * (2 * np * Suc k) + 2 * Suc k"
    by (rule buf_mu_init) simp
  then have "length ls \<le> (2 * n + 1) * (2 * np * n) + 2 * n + 2 * (2 * n) + 1 + 2 * length (filter (unreal cv_real) ls)"
    using r(3) unfolding S(1) by linarith
  then have len: "length ls \<le> 10 * n * (2 * n + 1) + 6 * n + 1 + 2 * length (filter (unreal cv_real) ls)"
    unfolding eq(2) by (simp add: algebra_simps)
  have "got_hist (comp p) = map (\<lambda>i. int i + 1) [0..<5 * n] \<and> count (ring (comp p)) = 0"
    if all: "all_created (2 * n) p"
      and rest: "hung cv_real (proc_step False buf_ended cv_who (cv_step MAX_items np None (2 * n))) p"
  proof -
    have i: "cv_inv (Suc 999) np None n (2 * n) (comp p)" "tally np n (2 * n) (comp p)" using r(1) unfolding S(1) by blast+
    have "hung cv_real (proc_step False buf_ended cv_who (cv_step (Suc 999) np None (2 * Suc k))) p"
      using rest unfolding S .
    then have st: "cv_step (Suc 999) np None (2 * n) (RunB t) (comp p) = None" for t
      using all unfolding S(1) by (intro mpmc.sp_rest [OF e]) simp_all
    note q = cv_stuck_empty [OF i(1) _ _ st]
    have len: "length (put_hist (comp p)) = 5 * n" using stuck_made [OF i(2)] q eq(2) assms(2) by simp
    have "put_hist (comp p) = map (\<lambda>j. int (j mod Suc 999) + 1) [0..<length (put_hist (comp p))]"
      using i(1) unfolding cv_inv_def by blast
    then have put: "put_hist (comp p) = map (\<lambda>j. int j + 1) [0..<5 * n]" using eq(3) unfolding len by simp
    have "reach (cv_step (Suc 999) np None (2 * n)) (buf_init (Suc 999) n) (comp p)"
      using proc_comp_reach [OF reachI [OF e]] S(1) by (simp add: new_process_def)
    then have "put_hist (comp p) = got_hist (comp p) @ contents (Suc 999) (ring (comp p))" using cv_queue.fifo by fastforce
    moreover have "count (ring (comp p)) = 0" using q(1) assms(2) by simp
    ultimately show ?thesis using put by (simp add: contents_def)
  qed
  moreover have "(\<forall>c. status p \<noteq> Exited c) \<and> (all_created (2 * n) p \<longrightarrow> status p = Live)" using r(2) S(1) by auto
  ultimately show ?thesis using len eq(2) by blast
qed

text \<open>C29: \<open>MpMCSingleCV.cpp\<close> from its two arguments on. More than ten are refused by the assertion, and for 0 or a negative
  number the program creates nobody and returns 0 at once. For n from one to ten, n producers and n consumers: a run is bounded
  up to its spurious wake-ups, and the program never returns. The results of \<open>pthread_create\<close> are not checked, and joining a thread that could
  not be created is undefined; when
  every thread could be created and nothing but a spurious wake-up can go on, all the items have been consumed, and what
  arrived are the positions 1, ..., 5 n of the buffer and not the values the producers put.\<close>

theorem mpmc_c_serves:
  assumes "length argv = 3" "mpmc_c argv = (p0, np, n, n)"
    "exec (proc_step False buf_ended cv_who (cv_step MAX_items np None (2 * n))) ls p0 = Some p"
  shows "(10 < atoi (argv ! 2) \<longrightarrow> ls = [] \<and> status p = Aborted) \<and>
    (atoi (argv ! 2) \<le> 0 \<longrightarrow> length ls \<le> 1 \<and> (ls \<noteq> [] \<longrightarrow> status p = Exited 0)) \<and>
    (0 < atoi (argv ! 2) \<and> atoi (argv ! 2) \<le> 10 \<longrightarrow> np = 5 \<and> int n = atoi (argv ! 2) \<and>
      length ls \<le> 10 * n * (2 * n + 1) + 6 * n + 1 + 2 * length (filter (unreal cv_real) ls) \<and>
      (\<forall>c. status p \<noteq> Exited c) \<and> (all_created (2 * n) p \<longrightarrow> status p = Live) \<and>
      (all_created (2 * n) p \<and> hung cv_real (proc_step False buf_ended cv_who (cv_step MAX_items np None (2 * n))) p \<longrightarrow>
        got_hist (comp p) = map (\<lambda>i. int i + 1) [0..<5 * n] \<and> count (ring (comp p)) = 0))"
proof -
  note eval = assms(2) [unfolded mpmc_c_def Let_def]
  have 1: "ls = [] \<and> status p = Aborted" if "10 < atoi (argv ! 2)"
    using assms(1,3) eval that by (cases ls; cases "hd ls") (auto simp: no_process_def)
  have 2: "length ls \<le> 1 \<and> (ls \<noteq> [] \<longrightarrow> status p = Exited 0)" if "atoi (argv ! 2) \<le> 0"
  proof -
    have p0: "p0 = new_process (buf_init MAX_items 0) []" using assms(1) eval that by (auto simp: create_join_def)
    show ?thesis using no_threads [OF assms(3) [unfolded p0]] .
  qed
  have 3: "0 < n \<and> int n = atoi (argv ! 2)" if "0 < atoi (argv ! 2)" "atoi (argv ! 2) \<le> 10"
    using assms(1) eval that by auto
  show ?thesis using 1 2 3 mpmc_c_run [OF assms(2) _ assms(3)] by blast
qed

theorem mpmc_c_serves_witness:
  "\<exists>p0 p. mpmc_c [''mpmc'', ''1'', ''1''] = (p0, 5, 1, 1) \<and>
     exec (proc_step False buf_ended cv_who (cv_step MAX_items 5 None 2))
       ([MainThread True, MainThread True] @ map (\<lambda>t. Thread (RunB t)) [1, 0, 0, 1, 0, 0, 0, 0, 1, 1, 1, 1, 1] @ [MainThread True]) p0 = Some p \<and>
     hung cv_real (proc_step False buf_ended cv_who (cv_step MAX_items 5 None 2)) p \<and> got_hist (comp p) = [1, 2, 3, 4, 5]"
proof -
  let ?step = "proc_step False buf_ended cv_who (cv_step MAX_items 5 None 2)"
  let ?p0 = "new_process (buf_init MAX_items 1) (create_join 2)"
  let ?ls = "[MainThread True, MainThread True] @ map (\<lambda>t. Thread (RunB t)) [1, 0, 0, 1, 0, 0, 0, 0, 1, 1, 1, 1, 1] @ [MainThread True]"
  have a: "atoi ''1'' = 1" by (simp add: atoi_eval)
  have m: "mpmc_c [''mpmc'', ''1'', ''1''] = (?p0, 5, 1, 1)" using a by (simp add: mpmc_c_def)
  have two: "create_join 2 = [Create 0, Create 1, Join 0, Join 1]" by (simp add: create_join_def numeral_2_eq_2)
  obtain p where p: "exec ?step ?ls ?p0 = Some p" "todo p = [Join 1]" "bpcs (comp p) 0 = BDone" "bpcs (comp p) 1 = CWait 5"
      "status p = Live" "started p 0" "started p 1"
    by (simp add: two new_process_def buf_init_def ring_init_def producer_b_def consumer_b_def put_index_def put_def get_def
        notify_all_def buf_at_def buf_ended_def MAX_items_def)
  have "cv_step MAX_items 5 None 2 l (comp p) = None" if "cv_real l" for l
    using that p(3,4) by (cases l) (auto simp: less_2_cases_iff)
  then have rest: "hung cv_real ?step p" "all_created 2 p" using p(2,4-7) by (auto simp: hung_def buf_ended_def all_created_def less_2_cases_iff)
  have five: "[0..<5] = [0, 1, 2, 3, 4 :: nat]" by code_simp
  from mpmc_c_serves [OF _ m, of ?ls p] p(1) rest a have "got_hist (comp p) = map (\<lambda>i. int i + 1) [0..<5]" by simp
  then have "got_hist (comp p) = [1, 2, 3, 4, 5]" unfolding five by simp
  with m p(1) rest show ?thesis by blast
qed

end
