(* ===== verification/Demo_Mains.thy ===== *)
theory Demo_Mains
  imports Semaphore_Mains Handoff
begin

text \<open>
  More programs as processes: the three that hand over a vector (\<open>conditional_variable.cpp\<close>, \<open>atomic-flag.cpp\<close> and
  \<open>promise-future.cpp\<close> in \<open>threads-locks/c++11-Producer-consumer\<close>), and the philosophers that print
  (\<open>threads-sema/dining_philosophers_no_deadlock_print.c\<close> and \<open>dining_philosophers_deadlock_print.c\<close>).
\<close>

section \<open>Handing over a vector\<close>

text \<open>The three mains are the same: the sender and the receiver are created and joined.\<close>

definition hand_process :: "handoff process" where
  "hand_process = new_process hand_main (create_join 2)"

fun hand_who :: "hand_label \<Rightarrow> tid" where
  "hand_who Sender = 0"
| "hand_who Receiver = 1"
| "hand_who Spurious = 1"

definition hand_ended :: "tid \<Rightarrow> handoff \<Rightarrow> bool" where
  "hand_ended t s \<longleftrightarrow> (if t = 0 then sender s = SEnd else receiver s = REnd)"

definition hand_real :: "hand_label \<Rightarrow> bool" where
  "hand_real l \<longleftrightarrow> l \<noteq> Spurious"

fun hpc_rank :: "hpc \<Rightarrow> nat" where
  "hpc_rank Prep = 6"
| "hpc_rank Publish = 4"
| "hpc_rank Notify = 2"
| "hpc_rank SEnd = 0"
| "hpc_rank Wait = 3"
| "hpc_rank Asleep = 2"
| "hpc_rank Use = 1"
| "hpc_rank REnd = 0"

definition hand_rank :: "handoff \<Rightarrow> nat" where
  "hand_rank s = hpc_rank (sender s) + hpc_rank (receiver s)"

lemma hand_cost:
  assumes inv: "hand_inv d s" and step: "hand_step d l s = Some u"
  shows "hand_rank u < hand_rank s + (if hand_real l then 0 else 2)" "hand_ended t s \<Longrightarrow> hand_ended t u"
proof -
  have "hand_rank u < hand_rank s + (if hand_real l then 0 else 2) \<and> (hand_ended t s \<longrightarrow> hand_ended t u)"
  proof (cases l)
    case Sender
    then show ?thesis using step
      by (cases d; cases "sender s")
        (auto simp: hand_rank_def hand_real_def hand_ended_def prepare_def wake_def split: if_splits)
  next
    case Receiver
    then show ?thesis using step
      by (cases d; cases "receiver s")
        (auto simp: hand_rank_def hand_real_def hand_ended_def complete_def split: if_splits)
  next
    case Spurious
    then show ?thesis using step
      by (cases d) (auto simp: hand_rank_def hand_real_def hand_ended_def wake_def split: if_splits)
  qed
  then show "hand_rank u < hand_rank s + (if hand_real l then 0 else 2)" "hand_ended t s \<Longrightarrow> hand_ended t u" by blast+
qed

interpretation hand_cost: costed_process "hand_step d" hand_main "hand_inv d" hand_who hand_ended hand_real True hand_rank
  for d :: mechanism
  by unfold_locales (use hand_cost in blast)

interpretation phand: process "hand_step d" hand_main "hand_inv d" 2 hand_who hand_ended hand_real True for d :: mechanism
proof (unfold_locales, goal_cases)
  case (1 s l u)
  show ?case by (cases l) simp_all
next
  case (2 s l u t)
  then show ?case using hand_cost by blast
next
  case (3 s t)
  then have "\<not> (sender s = SEnd \<and> receiver s = REnd)" by (auto simp: hand_ended_def split: if_splits)
  then have "hand_step d Sender s \<noteq> None \<or> hand_step d Receiver s \<noteq> None"
    using 3(1) by (cases d; cases "sender s"; cases "receiver s") (auto simp: hand_inv_def)
  moreover have "hand_real Sender" "hand_real Receiver" by (simp_all add: hand_real_def)
  ultimately show ?case by blast
qed

section \<open>Printing philosophers\<close>

text \<open>The iterations are the argument of \<open>philosopher\<close>, so the second result.\<close>

definition dining_deadlock_print_c :: "string list \<Rightarrow> dining_print process \<times> nat" where
  "dining_deadlock_print_c argv =
     (if length argv \<noteq> 2 then (no_process print_main (Exited 1), 0)
      else (new_process print_main (create_join 5), nat (atoi (argv ! 1))))"

definition dp_ended :: "tid \<Rightarrow> dining_print \<Rightarrow> bool" where
  "dp_ended p s \<longleftrightarrow> at_table (table s) p = Returned \<and> to_say s p = []"

text \<open>A message takes two steps, and a step at the table is followed by at most two messages.\<close>

definition talk :: "dining_print \<Rightarrow> nat \<Rightarrow> nat" where
  "talk s p = 2 * length (to_say s p) - of_bool (printing s p)"

definition print_rank :: "nat \<Rightarrow> dining_print \<Rightarrow> nat" where
  "print_rank L s = 5 * dining_rank L (table s) + (\<Sum>p<5. talk s p)"

lemma says_two: "length (says g p q) \<le> 2"
  by (auto simp: says_def split: dpos.splits nat.splits)

lemma print_rank_step:
  assumes inv: "print_inv s" "dining_inv get_forks_nd L (table s)" and step: "print_step get_forks_nd L p s = Some u"
  shows "print_rank L u < print_rank L s"
proof -
  have p: "p < 5" "philosopher_print get_forks_nd L p s = Some u" using step by (auto simp: print_step_def split: if_splits)
  show ?thesis
  proof (cases "to_say s p")
    case Nil
    then have np: "\<not> printing s p" using inv(1) p(1) by (auto simp: print_inv_def)
    obtain d where d: "dining_step get_forks_nd L p (table s) = Some d"
        "u = s\<lparr>table := d, to_say := (to_say s)(p := says get_forks_nd p (at_table d p))\<rparr>"
      using p(2) Nil by (auto simp: philosopher_print_def)
    have "dining_rank L d < dining_rank L (table s)" by (rule dining_nd.mu_step [OF inv(2) d(1)])
    moreover have "(\<Sum>q<5. talk u q) + talk s p = (\<Sum>q<5. talk s q) + talk u p"
      by (rule sum_change [OF p(1)]) (simp add: talk_def d(2))
    moreover have "talk u p \<le> 4" using says_two [of get_forks_nd p "at_table d p"] by (simp add: talk_def d(2) le_diff_conv)
    ultimately show ?thesis using d(2) Nil by (simp add: print_rank_def)
  next
    case (Cons m ms)
    then have t: "table u = table s" "talk u p < talk s p" "\<And>q. q \<noteq> p \<Longrightarrow> talk u q = talk s q"
      using p(2) by (auto simp: philosopher_print_def space_def space_end_def talk_def split: if_splits)
    then show ?thesis using sum_decreases [of p 5 "talk u" "talk s"] p(1) by (simp add: print_rank_def)
  qed
qed

definition print_over :: "dining_print \<Rightarrow> bool" where
  "print_over s \<longleftrightarrow> (\<forall>p<5. dp_ended p s)"

definition print_ok :: "nat \<Rightarrow> dining_print \<Rightarrow> bool" where
  "print_ok L s \<longleftrightarrow> print_inv s \<and> dining_inv get_forks_nd L (table s)"

lemma print_ok_step: "print_ok L s \<Longrightarrow> print_step get_forks_nd L p s = Some u \<Longrightarrow> print_ok L u"
  unfolding print_ok_def using print_inv_step print_simulates dining_nd.inv_step by metis

lemma print_ok_progress: "print_ok L s \<Longrightarrow> \<not> print_over s \<Longrightarrow> \<exists>p u. print_step get_forks_nd L p s = Some u"
proof (rule ccontr)
  assume ok: "print_ok L s" and no: "\<not> print_over s" and "\<not> (\<exists>p u. print_step get_forks_nd L p s = Some u)"
  then have stuck: "print_step get_forks_nd L p s = None" for p by (meson not_None_eq)
  note st = print_stuck [OF _ this]
  have "all_returned (table s)" using dining_nd.progress [of L "table s"] st(1) ok unfolding print_ok_def by fastforce
  then show False using no st(2) ok by (auto simp: print_over_def dp_ended_def all_returned_def print_ok_def)
qed

lemma dining_returned_stays:
  assumes "dining_step g L l s = Some u" "at_table s t = Returned"
  shows "t \<noteq> l" "at_table u t = Returned"
proof -
  show "t \<noteq> l" using assms by (auto simp: dining_step_def philosopher_def split: if_splits)
  with assms show "at_table u t = Returned"
    by (cases "at_table s l") (auto simp: dining_step_def philosopher_def set_fork_def split: if_splits)
qed

lemma dp_ended_stays:
  assumes e: "dp_ended t s" and step: "print_step g L l s = Some u"
  shows "dp_ended t u"
proof (cases "to_say s l")
  case Nil
  then obtain d where d: "dining_step g L l (table s) = Some d"
      "u = s\<lparr>table := d, to_say := (to_say s)(l := says g l (at_table d l))\<rparr>"
    using step by (auto simp: print_step_def philosopher_print_def split: if_splits)
  then show ?thesis using dining_returned_stays [OF d(1)] e by (auto simp: dp_ended_def)
next
  case (Cons m ms)
  then have "table u = table s" "\<And>q. q \<noteq> l \<Longrightarrow> to_say u q = to_say s q"
    using step by (auto simp: print_step_def philosopher_print_def space_def space_end_def split: if_splits)
  then show ?thesis using e Cons by (cases "t = l") (auto simp: dp_ended_def)
qed

interpretation pprint: finite_process "print_step get_forks_nd L" print_main "print_ok L" 5 "\<lambda>p. p" dp_ended "\<lambda>_. True" True
  print_over "print_rank L" for L :: nat
proof (unfold_locales, goal_cases)
  case 1
  show ?case using print_inv_init dining_nd.inv_init by (simp add: print_ok_def print_main_def)
next
  case (2 s l t)
  then show ?case by (rule print_ok_step)
next
  case (3 s l u)
  then show ?case by (simp add: print_step_def split: if_splits)
next
  case (4 s l u t)
  then show ?case using dp_ended_stays by blast
next
  case (5 s t)
  then show ?case using print_ok_progress [of L s] by (auto simp: print_over_def)
next
  case (6 s)
  then show ?case using print_ok_progress by blast
next
  case (7 s l t)
  then show ?case using print_rank_step by (simp add: print_ok_def)
next
  case (8 s)
  show ?case by (simp add: print_over_def)
qed

section \<open>Properties\<close>

text \<open>Handing over: whatever the mechanism and the schedule, the program ends after at most 14 steps and two for every
  spurious wake-up, is never stuck before, and if it exits the vector is 0, 1, 2, 3.\<close>

theorem hand_process_correct:
  assumes "exec (proc_step True hand_ended hand_who (hand_step d)) ls hand_process = Some p"
  shows "length ls \<le> 14 + 2 * length (filter (unreal hand_real) ls) \<and>
    \<not> hung hand_real (proc_step True hand_ended hand_who (hand_step d)) p \<and> \<not> crashed (comp p) \<and>
    (status p = Exited c \<longrightarrow> c = 0 \<and> my_vec (comp p) = [0, 1, 2, 3])"
proof -
  note e = assms [unfolded hand_process_def]
  note r = reachI [OF e]
  have inv: "hand_inv d (comp p)" using phand.proc_reach [OF r] by (simp add: phand.proc_inv_def)
  have "\<not> hung hand_real (proc_step True hand_ended hand_who (hand_step d)) p"
  proof
    assume h: "hung hand_real (proc_step True hand_ended hand_who (hand_step d)) p"
    have "status p \<noteq> Live"
    proof (rule phand.proc_stuck [OF r TrueI, THEN conjunct1])
      fix l
      assume "phand.real_label l"
      then show "proc_step True hand_ended hand_who (hand_step d) l p = None" using h by (cases l) (simp_all add: hung_def del: proc_step.simps)
    qed
    then show False using h by (simp add: hung_def)
  qed
  moreover have "c = 0 \<and> my_vec (comp p) = [0, 1, 2, 3]" if "status p = Exited c"
  proof -
    have "c = 0" "hand_ended 0 (comp p)" "hand_ended 1 (comp p)" using phand.proc_exited [OF r that] by simp_all
    then show ?thesis using inv by (auto simp: hand_ended_def hand_inv_def)
  qed
  moreover have "length ls \<le> 14 + 2 * length (filter (unreal hand_real) ls)"
    using hand_cost.cost_run [OF e] by (simp add: hand_rank_def hand_main_def)
  ultimately show ?thesis using inv by (simp add: hand_inv_def)
qed

theorem hand_process_correct_witness:
  "\<exists>p. exec (proc_step True hand_ended hand_who (hand_step AtomicFlag)) [MainThread True, MainThread True, Thread Receiver, Thread Sender,
      Thread Spurious, Thread Receiver, Thread Sender, Thread Sender, Thread Receiver, Thread Receiver, MainThread True, MainThread True,
      MainThread True] hand_process = Some p \<and> status p = Exited 0 \<and> my_vec (comp p) = [0, 1, 2, 3]"
proof -
  have two: "create_join 2 = [Create 0, Create 1, Join 0, Join 1]" by (simp add: create_join_def numeral_2_eq_2)
  obtain p where p: "exec (proc_step True hand_ended hand_who (hand_step AtomicFlag)) [MainThread True, MainThread True, Thread Receiver,
      Thread Sender, Thread Spurious, Thread Receiver, Thread Sender, Thread Sender, Thread Receiver, Thread Receiver, MainThread True,
      MainThread True, MainThread True] hand_process = Some p" "status p = Exited 0"
    by (simp add: hand_process_def two new_process_def hand_main_def prepare_def complete_def wake_def hand_ended_def)
  with hand_process_correct [OF p(1), of 0] show ?thesis by blast
qed

text \<open>The printing program without deadlock: every run is bounded and never stuck, and when it exits every philosopher
  has returned and said everything.\<close>

theorem dining_print_c_correct:
  assumes "length argv = 2"
    "exec (proc_step True dp_ended (\<lambda>p. p) (print_step get_forks_nd (snd (dining_print_c argv)))) ls (fst (dining_print_c argv)) = Some p"
  shows "length ls \<le> print_rank (snd (dining_print_c argv)) print_main + 11 \<and>
    (status p = Exited c \<longrightarrow> c = 0 \<and> all_returned (table (comp p)) \<and> (\<forall>q<5. to_say (comp p) q = [])) \<and>
    ((\<forall>l. proc_step True dp_ended (\<lambda>p. p) (print_step get_forks_nd (snd (dining_print_c argv))) l p = None) \<longrightarrow> status p \<noteq> Live)"
proof -
  have e: "exec (proc_step True dp_ended (\<lambda>p. p) (print_step get_forks_nd (snd (dining_print_c argv)))) ls
      (new_process print_main (create_join 5)) = Some p"
    using assms by (simp add: dining_print_c_def)
  have "c = 0 \<and> all_returned (table (comp p)) \<and> (\<forall>q<5. to_say (comp p) q = [])" if "status p = Exited c"
    using pprint.proc_result [OF e that] by (auto simp: print_over_def dp_ended_def all_returned_def)
  then show ?thesis using pprint.proc_bound [OF e] pprint.proc_stuck [OF reachI [OF e]] by simp
qed

theorem dining_print_c_correct_witness:
  "\<exists>p. exec (proc_step True dp_ended (\<lambda>p. p) (print_step get_forks_nd 0)) (replicate 5 (MainThread True) @
      map Thread (concat (map (replicate 3) [0..<5])) @ replicate 6 (MainThread True)) (fst (dining_print_c [''d'', ''0''])) = Some p \<and>
    status p = Exited 0 \<and> all_returned (table (comp p))"
proof -
  have a: "length [''d'', ''0''] = 2" "snd (dining_print_c [''d'', ''0'']) = 0"
    by (simp_all add: dining_print_c_def atoi_eval)
  have five: "create_join 5 = [Create 0, Create 1, Create 2, Create 3, Create 4, Join 0, Join 1, Join 2, Join 3, Join 4]"
      "[0..<5] = [0, 1, 2, 3, 4 :: nat]"
    unfolding create_join_def by code_simp+
  have rep: "replicate 5 x = [x, x, x, x, x]" "replicate 3 x = [x, x, x]" "replicate 6 x = [x, x, x, x, x, x]" for x :: 'a
    by (simp_all add: eval_nat_numeral)
  have at: "atoi ''0'' = 0" by (simp add: atoi_eval)
  obtain p where p: "exec (proc_step True dp_ended (\<lambda>p. p) (print_step get_forks_nd 0)) (replicate 5 (MainThread True) @
      map Thread (concat (map (replicate 3) [0..<5])) @ replicate 6 (MainThread True)) (fst (dining_print_c [''d'', ''0''])) = Some p"
      "status p = Exited 0"
    unfolding dining_print_c_def five(2)
    by (simp add: five(1) rep at new_process_def print_main_def dining_main_def print_step_def philosopher_print_def dining_step_def
        philosopher_def get_forks_nd_def sem_defs space_def space_end_def says_def dp_ended_def)
  from dining_print_c_correct [OF a(1), unfolded a(2), OF p(1), of 0] p show ?thesis by blast
qed

text \<open>One philosopher after the other takes its left fork and says so.\<close>

lemma takes_left:
  assumes "0 < L" "p < 5" "to_say s p = [Start]" "\<not> printing s p" "print_lock s = 1" "at_table (table s) p = Loop 0" "forks (table s) p = 1"
  shows "\<exists>u. exec (print_step get_forks L) (replicate 10 p) s = Some u \<and> to_say u = (to_say s)(p := []) \<and>
    printing u = printing s \<and> print_lock u = 1 \<and> at_table (table u) = (at_table (table s))(p := Second 0) \<and>
    forks (table u) = (forks (table s))(p := 0)"
proof -
  have ten: "replicate 10 p = [p, p, p, p, p, p, p, p, p, p]" by (simp add: eval_nat_numeral)
  have np: "(printing s)(p := False) = printing s" using assms(4) by (simp add: fun_upd_idem)
  show ?thesis unfolding ten using assms np
    by (simp add: print_step_def philosopher_print_def dining_step_def philosopher_def set_fork_def get_forks_def left_def
        sem_defs space_def space_end_def says_def)
qed

lemma all_take_left:
  "0 < L \<Longrightarrow> n \<le> 5 \<Longrightarrow> \<exists>s. reach (print_step get_forks L) print_main s \<and> print_lock s = 1 \<and> (\<forall>q. \<not> printing s q) \<and>
    (\<forall>q. if q < n then at_table (table s) q = Second 0 \<and> to_say s q = [] \<and> forks (table s) q = 0
      else at_table (table s) q = Loop 0 \<and> to_say s q = [Start] \<and> forks (table s) q = 1)"
proof (induction n)
  case 0
  show ?case using reach_init [of "print_step get_forks L" print_main]
    by (intro exI [of _ print_main]) (simp add: print_main_def dining_main_def sem_init_def)
next
  case (Suc n)
  then obtain s where s: "reach (print_step get_forks L) print_main s" "print_lock s = 1" "\<forall>q. \<not> printing s q"
      "\<forall>q. if q < n then at_table (table s) q = Second 0 \<and> to_say s q = [] \<and> forks (table s) q = 0
        else at_table (table s) q = Loop 0 \<and> to_say s q = [Start] \<and> forks (table s) q = 1" by auto
  have "n < 5" "to_say s n = [Start]" "\<not> printing s n" "at_table (table s) n = Loop 0" "forks (table s) n = 1"
    using s(3) Suc.prems(2) s(4) [rule_format, of n] by simp_all
  from takes_left [OF Suc.prems(1) this(1-3) s(2) this(4,5)] obtain u where
    u: "exec (print_step get_forks L) (replicate 10 n) s = Some u" "to_say u = (to_say s)(n := [])" "printing u = printing s"
      "print_lock u = 1" "at_table (table u) = (at_table (table s))(n := Second 0)" "forks (table u) = (forks (table s))(n := 0)"
    by blast
  show ?case
  proof (intro exI [of _ u] conjI allI)
    fix q
    show "if q < Suc n then at_table (table u) q = Second 0 \<and> to_say u q = [] \<and> forks (table u) q = 0
        else at_table (table u) q = Loop 0 \<and> to_say u q = [Start] \<and> forks (table u) q = 1"
      using s(4) [rule_format, of q] u by (cases "q = n") (auto simp: less_Suc_eq)
  qed (use reach_exec [OF s(1) u(1)] u s(3) in auto)
qed

text \<open>The printing program of the deadlock can hang like the silent one, with nothing left to print.\<close>

theorem dining_deadlock_print_hangs:
  assumes "0 < snd (dining_deadlock_print_c argv)"
  shows "\<exists>p. reach (proc_step True dp_ended (\<lambda>p. p) (print_step get_forks (snd (dining_deadlock_print_c argv))))
      (fst (dining_deadlock_print_c argv)) p \<and>
    hung (\<lambda>_. True) (proc_step True dp_ended (\<lambda>p. p) (print_step get_forks (snd (dining_deadlock_print_c argv)))) p"
proof -
  define L where "L = snd (dining_deadlock_print_c argv)"
  have L: "0 < L" "fst (dining_deadlock_print_c argv) = new_process print_main (create_join 5)"
    using assms by (auto simp: L_def dining_deadlock_print_c_def split: if_splits)
  obtain s where s: "reach (print_step get_forks L) print_main s"
      "\<forall>q. if q < 5 then at_table (table s) q = Second 0 \<and> to_say s q = [] \<and> forks (table s) q = 0
        else at_table (table s) q = Loop 0 \<and> to_say s q = [Start] \<and> forks (table s) q = 1"
    using all_take_left [OF L(1), of 5] by blast
  then have z: "forks (table s) f = 0" "at_table (table s) f = Second 0" "to_say s f = []" if "f < 5" for f
    using that by meson+
  have "right p < 5" for p by (simp add: right_def)
  with z have n: "\<forall>p. True \<longrightarrow> print_step get_forks L p s = None"
    by (auto simp: print_step_def philosopher_print_def dining_step_def philosopher_def get_forks_def sem_wait_def)
  have w: "\<forall>p u v. print_step get_forks L p u = Some v \<longrightarrow> p < 5" by (simp add: print_step_def)
  have e: "\<not> dp_ended 0 s" using z(2) [of 0] by (simp add: dp_ended_def)
  from proc_hangs [where ended = dp_ended and who = "\<lambda>p. p" and n = 5 and checked = True, OF s(1) w n _ e]
  show ?thesis unfolding hung_def L(2) L_def [symmetric] by (metis zero_less_numeral)
qed

theorem dining_deadlock_print_hangs_witness:
  "\<exists>p. reach (proc_step True dp_ended (\<lambda>p. p) (print_step get_forks 1)) (fst (dining_deadlock_print_c [''d'', ''1''])) p \<and>
    hung (\<lambda>_. True) (proc_step True dp_ended (\<lambda>p. p) (print_step get_forks 1)) p"
proof -
  have "snd (dining_deadlock_print_c [''d'', ''1'']) = 1"
    by (simp add: dining_deadlock_print_c_def atoi_eval)
  then show ?thesis using dining_deadlock_print_hangs [of "[''d'', ''1'']"] by simp
qed

end
