(* ===== verification/Spec2Isabelle.thy ===== *)
theory Spec2Isabelle
  imports
    Rwlock_Starvation
    Rwlock_Writer_Progress
    Rwlock_Writer_Priority
    Rate_Limiter
    Ring_Buffer
    Linked_List_Cpp
    Linked_List_C
    Two_Lock_Queue
    Thread_Pool
    Dispatch_Queue
    Single_Slot
    Handoff
    Turn_Taking
    Lockfree_Stack
    Event_Queue
    Shared_Counters
    Dining_Philosophers
    Sema_Buffer
    Zemaphore
    Barriers
    No_Starve_Mutex
    Fork_Join
    Concurrency_Bugs
    Sema_Clients
    Persistent_Stack
    Lottery
    Racy_Counter
    Zemaphore_Programs
    Udp
    Once_Init
    Rwlock_Mains
    Semaphore_Mains
    Thread_Mains
    Atomics
    Unix_Processes
    Service_Mains
    Thread_Api
    Event_Main
    Intro_Programs
    Buffer_Mains
    Demo_Mains
begin

text \<open>
  A verification of the programs of \<open>ostep-code\<close>: solutions and demonstrations of synchronisation problems in C and
  C++. The repository is a collection of small programs, each complete in one or two files; most are about threads that
  share memory. What they have in common is what they are built from: POSIX semaphores, a mutex with condition
  variables, atomics, and nodes on the heap. There is a theory for each of these, and one for each program or group of
  programs on top of it. Paths are relative to \<open>src/\<close>.

  \<^bold>\<open>The model of concurrency.\<close> A program with threads is a function \<open>step l s\<close>: the state after the atomic action \<open>l\<close>,
  or \<open>None\<close> when \<open>l\<close> is not possible in \<open>s\<close> (the thread is blocked, asleep or has ended). The label names the thread,
  and what the environment decides: which sleeper a notification wakes, which address \<open>malloc\<close> returns, whether a
  compare-exchange fails spuriously. The position of every thread in its code is part of the state. \<open>reach\<close> collects
  the states of all interleavings, \<open>exec\<close> runs one of them (\<open>Sync_Prelude\<close>). The numbers of threads, of iterations and
  the sizes of buffers are parameters wherever the code does not depend on them; the constants the programs use
  are instances. What an atomic action is:

  \<^item> in the programs with semaphores, in the lock-free programs and in the programs with nodes on the heap: one
    semaphore operation, one access of a shared variable, or one access of a node;
  \<^item> in the programs with a mutex and condition variables that follow the discipline of a monitor (\<open>Monitors\<close>): one
    critical section, up to its end or to the sleep inside it, since the mutex lets no other thread see what is between.
    Where the discipline is broken or the programs notify outside the mutex (\<open>EventQueue\<close>, \<open>join_no_lock.c\<close>,
    \<open>ordering.c\<close>) the mutex is a variable and every operation is a step;
  \<^item> a spurious wake-up is an action of its own, everywhere.

  Interleavings are sequentially consistent; the C++ memory orders are not modelled. Counters that count threads,
  iterations or items are unbounded; integers whose width matters are words (\<open>Rate_Limiter\<close>, \<open>Ring_Buffer\<close>,
  \<open>Persistent_Stack\<close>). Errors are values: \<open>fault\<close> fields for accesses of freed or null memory, sum types for the
  sequential programs. Variables marked as history variables are not in the code and no step depends on them.

  \<^bold>\<open>Foundations.\<close>

  \<^item> \<open>Sync_Prelude\<close>: machines; the locales \<open>safe_machine\<close> (an inductive invariant), \<open>live_machine\<close> (no state is stuck before it is
    final) and \<open>finite_machine\<close> (a measure: every interleaving is finite and can only end in a final state);
    counting threads by position (\<open>cnt\<close>), which turns invariants into linear arithmetic.
  \<^item> \<open>Semaphores\<close>: \<open>sem_wait\<close>, \<open>sem_post\<close>; the \<open>LightSwitch\<close> of the rwlock programs and its contract.
  \<^item> \<open>Monitors\<close>: \<open>notify_one\<close>, \<open>notify_all\<close>; the locale \<open>fifo_machine\<close>, the contract of everything that is a queue.
  \<^item> \<open>Heap_Lists\<close>: singly linked lists in an explicit heap. \<open>Exploration\<close>: the locale \<open>small_machine\<close> for programs with
    few states, whose reachable states are computed and checked by evaluation; \<open>explored\<close> checks that the computed list
    is closed under all steps, so the fuel of the search does not matter.

  \<^bold>\<open>Readers and writers\<close> (\<open>threads-sema/rwlock*.cpp\<close>). \<open>RW_Clients\<close> has the reader and writer threads and \<open>main\<close>, over the
  locale \<open>rw_lock\<close> of the four operations of a lock; \<open>Rwlock_Starvation\<close>, \<open>Rwlock_Writer_Progress\<close> and
  \<open>Rwlock_Writer_Priority\<close> interpret it. Shown for each: mutual exclusion, and every run ends with the right counter. For the
  first: a writer can starve; for the second: no reader overtakes a waiting writer; for the third: once a writer
  holds \<open>noReaders\<close> no new reader enters until the writers are through.

  \<^bold>\<open>Locks, barriers, semaphores\<close> (\<open>threads-sema/\<close>). \<open>Zemaphore\<close> (\<open>zemaphore.h\<close>): any use of it refines a semaphore and loses
  no wake-up. \<open>No_Starve_Mutex\<close> (\<open>no-starve-mutex.c\<close>): as it is initialised the mutex lets two threads in together, never
  three; from the same state with \<open>t2\<close> locked, which is not in the source, its code excludes, does not deadlock, and no thread
  overtakes a waiting one more than twice. \<open>Barriers\<close> (\<open>barrier.c\<close>): nobody
  passes before all have come, everybody passes. \<open>Dining_Philosophers\<close> (four files): the deadlock, its absence with
  the other order of forks, and that printing refines the silent program. \<open>Sema_Clients\<close> (\<open>binary.c\<close>, \<open>throttle.c\<close>,
  \<open>rendezvous.c\<close>).

  \<^bold>\<open>Producers and consumers\<close> (\<open>threads-locks/c++11-Producer-consumer\<close>, \<open>threads-locks/condition variable\<close>, \<open>threads-cv\<close>,
  \<open>threads-sema\<close>). \<open>Bounded_Buffer\<close> has the ring (\<open>put\<close>, \<open>get\<close>) and the programs with any number of producers and
  consumers; \<open>Single_Slot\<close> the program with one slot; \<open>End_Markers\<close> (\<open>pc.c\<close>, \<open>pc_single_cv.c\<close>) the programs that end
  with markers; \<open>Sema_Buffer\<close> (\<open>producer_consumer_works.c\<close>) the one with semaphores, whose buffer is shown to give the
  same as the ring and as a queue for every sequence of operations. Shown: first in first out, nothing lost, no lost wake-ups (or, where the program has them, the
  deadlock), and that the programs that end deliver everything.

  \<^bold>\<open>Data structures\<close> (\<open>threads-locks\<close>). \<open>Ring_Buffer\<close>: the lock-free queue, with 64-bit tickets; its theorems assume a size
  \<open>2 ^ k\<close> with \<open>k \<le> 62\<close> and fewer than \<open>2 ^ 62\<close> operations, so that the signed difference of tickets does not wrap.
  \<open>Lockfree_Stack\<close>: linearisable with one popping thread (every call of every thread returns what an abstract stack gives it,
  0 for a \<open>pop\<close> that finds it empty), use after free and ABA with two. \<open>Two_Lock_Queue\<close>: first
  in first out and memory safe. \<open>Linked_List_Cpp\<close> and \<open>Linked_List_C\<close>: lists on the heap and the hash maps of them.
  \<open>Shared_Counters\<close>: the locked counter, and the counter that decides when a callback runs. \<open>Racy_Counter\<close>
  (\<open>threads-intro/t1.c\<close>, and \<open>intro/threads.c\<close> with the same loop): the counter without a lock.

  \<^bold>\<open>Services\<close> (\<open>threads-locks\<close>). \<open>Thread_Pool\<close>, \<open>Dispatch_Queue\<close>, \<open>Event_Queue\<close>: queues of work served by threads; order, no
  lost wake-ups, what shutting down does. \<open>Rate_Limiter\<close>: a bound on the requests admitted, and where the 32-bit
  arithmetic goes wrong.

  \<^bold>\<open>Two threads\<close>. \<open>Handoff\<close>, \<open>Turn_Taking\<close> (\<open>threads-locks\<close>), \<open>Fork_Join\<close> (\<open>threads-cv/join*.c\<close>, \<open>threads-sema/join.c\<close>),
  \<open>Concurrency_Bugs\<close> (\<open>threads-bugs\<close>).

  \<^bold>\<open>Sequential programs\<close>. \<open>Persistent_Stack\<close> (\<open>file-intro/pstack.c\<close>): refines a bounded stack, persists from run to run, and
  leaves its file when the count in the file is corrupt. \<open>Lottery\<close> (\<open>cpu-sched-lottery/lottery.c\<close>): every job wins
  for exactly as many numbers as it has tickets. \<open>Intro_Programs\<close> (\<open>intro/cpu.c\<close>, \<open>mem.c\<close>, \<open>io.c\<close>, \<open>vm-intro/va.c\<close>, and
  \<open>include/common.h\<close>): when \<open>Spin\<close> returns and when it never does, for any readings of the clock and any rounding of
  \<open>double\<close>; what the programs print and leave in memory and in the file.

  \<^bold>\<open>Composition.\<close> \<open>Zemaphore_Clients\<close> runs any program with semaphores over zemaphores (which \<open>zemaphore.h\<close> puts in the place of
  the semaphores on macOS): the locale \<open>sem_client\<close> carries invariants over, \<open>finite_client\<close> also termination, up to
  spurious wake-ups. \<open>Zemaphore_Programs\<close> applies it to the philosophers, the buffer, \<open>binary.c\<close>, \<open>throttle.c\<close> and
  \<open>zemaphore.c\<close>. \<open>Processes\<close> adds \<open>main\<close>: its arguments, the creations and joins, the failure of a creation, exit codes and
  aborts. A failed creation aborts where the source checks it; where it does not, the thread is missing, \<open>main\<close> goes on, and
  joining it is undefined (status \<open>Undef\<close>). The locale \<open>process\<close> shows that \<open>main\<close> adds no deadlock when all threads could be
  created (\<open>all_created\<close>) and returns only after its threads, \<open>finite_process\<close> that it returns. \<open>Rwlock_Mains\<close>, \<open>Semaphore_Mains\<close> and \<open>Thread_Mains\<close> are the programs as processes, from \<open>argv\<close> to the exit code.
  \<open>costed_process\<close> bounds a run up to its spurious wake-ups, also where some threads never end (\<open>Buffer_Mains\<close>, whose programs
  come to rest with everything delivered and \<open>main\<close> in a join). \<open>Demo_Mains\<close> has the programs that hand over a vector and the
  philosophers that print. \<open>Scripts\<close> runs clients that call the operations of a component in a fixed order, with the locale
  \<open>scripted\<close> for invariants and bounds; \<open>Service_Mains\<close> applies it to the \<open>main\<close> of the dispatch queue and of the thread
  pool: both end, and which jobs are run, refused or lost; the sleep of the pool's client is a step without a duration. \<open>Event_Main\<close> is the client of the event queue: its callback is
  called exactly once, and \<open>main\<close> waits for ever.

  \<^bold>\<open>The operating system.\<close> \<open>Udp\<close> (\<open>dist-intro\<close>): the wrappers of the socket calls with their error paths, what the server
  answers and to whom; the system calls are parameters and \<open>posix\<close> is what is assumed of them (\<open>close\<close> may
  report an error). \<open>Unix_Processes\<close>
  (\<open>cpu-api\<close>): what \<open>fork\<close>, \<open>wait\<close> and \<open>execvp\<close> leave on the terminal and in a file, in every interleaving. \<open>Once_Init\<close>
  (\<open>Singleton & thread safety\<close>): the initialiser ends once, everybody gets its result, and only the thread whose own run of
  it failed gets the exception. \<open>Atomics\<close> (\<open>atomic-tutorial\<close>,
  \<open>compare-and-swap.c\<close>, \<open>spinlock-test-set.cpp\<close>): the counter of \<open>fetch.cpp\<close>, the stores and loads of \<open>load-and-store.cpp\<close>,
  the threads of \<open>compare-and-exchange.cpp\<close>. \<open>Thread_Api\<close> (\<open>threads-api\<close>, \<open>basic_callback.cpp\<close>, \<open>future.cpp\<close>): what the programs
  print and return, whatever the schedule.

  \<^bold>\<open>Environment.\<close> \<open>atoi\<close> (\<open>Processes\<close>) is a 32-bit \<open>int\<close>: \<open>strtol\<close>, clamped to 64 bits and then cut to 32, as the C library
  does it; in \<open>Persistent_Stack\<close> it is a parameter. The clock, the random numbers, the addresses of new nodes and the jobs and
  callbacks are arguments or labels. No theorem assumes anything of them but what a hypothesis of it says.

  \<^bold>\<open>Not modelled.\<close> Output (but for the messages whose order is the point of a program), usage messages. Time: a sleep of a job or of a
  client takes no guaranteed time, so the schedules of the model include those that a sleep makes unlikely. The failure
  of a mutex, condition or semaphore call, which an assertion ends. The memory orders of the atomics. The file
  \<open>semaphores/semaphore.cpp\<close> does not compile. What is left of the sources are comments, declarations, the \<open>main\<close> of
  \<open>no-starve-mutex.c\<close>, \<open>ring-buffer.cpp\<close> and \<open>linkedlist-c.cpp\<close>, which call nothing of the file, the destructor of the
  ring buffer, and the second copies of code that several files repeat: \<open>LightSwitch\<close> in two of the rwlock files, \<open>put\<close> and
  \<open>get\<close> of the buffers, the files of \<open>condition variable\<close> that are also in \<open>c++11-Producer-consumer\<close>.\<close>

end
